(* ===== verification/Prelude.thy ===== *)
theory Prelude
  imports Main "HOL-Library.Word"
begin

text \<open>
  Shared vocabulary of the development: the integer types of the driver, C memory as byte
  lists with checked accesses, the result type of a C routine, and the lemmas about them
  that every component uses.

  A pointer into a byte buffer is an offset (a \<^typ>\<open>nat\<close>) into a list of bytes. An access
  outside the list is not defined in C; here it is the error \<open>OutOfBounds\<close>, so that a
  theorem saying that a routine returns \<open>Inr\<close> is a memory-safety statement as well. A loop
  of the driver whose termination depends on its input carries fuel, and running out of it is
  the error \<open>NoReturn\<close>.
\<close>

unbundle bit_operations_syntax

type_synonym u8 = "8 word"
type_synonym u16 = "16 word"
type_synonym u32 = "32 word"
type_synonym u64 = "64 word"

datatype cerr = OutOfBounds | NoReturn

type_synonym 'a cres = "cerr + 'a"

named_theorems mem_simps \<open>evaluation of the checked memory accesses\<close>

section \<open>Results of C routines\<close>

definition bindc :: "'a cres \<Rightarrow> ('a \<Rightarrow> 'b cres) \<Rightarrow> 'b cres" where
  "bindc m f = (case m of Inl e \<Rightarrow> Inl e | Inr x \<Rightarrow> f x)"

lemma bindc_Inr [simp]: "bindc (Inr x) f = f x"
  by (simp add: bindc_def)

lemma bindc_Inl [simp]: "bindc (Inl e) f = Inl e"
  by (simp add: bindc_def)

lemma bindc_cong [fundef_cong]:
  "m = m' \<Longrightarrow> (\<And>x. m' = Inr x \<Longrightarrow> f x = f' x) \<Longrightarrow> bindc m f = bindc m' f'"
  by (cases m') (auto simp: bindc_def)

lemma bindc_eq_Inr [simp]: "bindc m f = Inr y \<longleftrightarrow> (\<exists>x. m = Inr x \<and> f x = Inr y)"
  by (cases m) auto

lemma bindc_eq_Inl: "bindc m f = Inl e \<longleftrightarrow> m = Inl e \<or> (\<exists>x. m = Inr x \<and> f x = Inl e)"
  by (cases m) auto

lemma bindc_assoc: "bindc (bindc m f) g = bindc m (\<lambda>x. bindc (f x) g)"
  by (cases m) auto

lemma bindc_if_distrib: "bindc (if P then m else m') f = (if P then bindc m f else bindc m' f)"
  by simp

text \<open>What holds of every result of a routine, whatever the accesses yield: the rules follow the
  structure of the code.\<close>

definition res_all :: "('a \<Rightarrow> bool) \<Rightarrow> 'a cres \<Rightarrow> bool" where
  "res_all P m = (\<forall>x. m = Inr x \<longrightarrow> P x)"

named_theorems res_intros \<open>rules for properties of every result\<close>

lemma res_all_Inr [res_intros]: "P x \<Longrightarrow> res_all P (Inr x)"
  by (simp add: res_all_def)

lemma res_all_Inl [res_intros]: "res_all P (Inl e)"
  by (simp add: res_all_def)

lemma res_all_bindc [res_intros]: "(\<And>x. m = Inr x \<Longrightarrow> res_all P (f x)) \<Longrightarrow> res_all P (bindc m f)"
  by (cases m) (simp_all add: res_all_def)

lemma res_all_if [res_intros]:
  "(b \<Longrightarrow> res_all P m) \<Longrightarrow> (\<not> b \<Longrightarrow> res_all P m') \<Longrightarrow> res_all P (if b then m else m')"
  by simp

lemma res_all_option [res_intros]:
  "(y = None \<Longrightarrow> res_all P m) \<Longrightarrow> (\<And>x. y = Some x \<Longrightarrow> res_all P (f x)) \<Longrightarrow>
   res_all P (case y of None \<Rightarrow> m | Some x \<Rightarrow> f x)"
  by (cases y) simp_all

lemma res_all_prod [res_intros]:
  "(\<And>a b. y = (a, b) \<Longrightarrow> res_all P (f a b)) \<Longrightarrow> res_all P (case y of (a, b) \<Rightarrow> f a b)"
  by (cases y) simp

lemma res_allD: "res_all P m \<Longrightarrow> m = Inr x \<Longrightarrow> P x"
  by (simp add: res_all_def)

section \<open>Checked memory accesses\<close>

definition rd :: "u8 list \<Rightarrow> nat \<Rightarrow> u8 cres" where
  "rd buf p = (if p < length buf then Inr (buf ! p) else Inl OutOfBounds)"

definition rdn :: "u8 list \<Rightarrow> nat \<Rightarrow> nat \<Rightarrow> u8 list cres" where
  "rdn buf p n = (if p + n \<le> length buf then Inr (take n (drop p buf)) else Inl OutOfBounds)"

definition wrn :: "u8 list \<Rightarrow> nat \<Rightarrow> u8 list \<Rightarrow> u8 list cres" where
  "wrn buf p xs =
     (if p + length xs \<le> length buf then Inr (take p buf @ xs @ drop (p + length xs) buf)
      else Inl OutOfBounds)"

text \<open>\<open>_rtw_memcmp\<close> returns true when the two memory chunks are equal.\<close>

definition memeq :: "u8 list \<Rightarrow> nat \<Rightarrow> u8 list \<Rightarrow> bool cres" where
  "memeq buf p xs = bindc (rdn buf p (length xs)) (\<lambda>ys. Inr (ys = xs))"

definition memmove :: "u8 list \<Rightarrow> nat \<Rightarrow> nat \<Rightarrow> nat \<Rightarrow> u8 list cres" where
  "memmove buf dst src n = bindc (rdn buf src n) (\<lambda>xs. wrn buf dst xs)"

definition memset :: "u8 list \<Rightarrow> nat \<Rightarrow> u8 \<Rightarrow> nat \<Rightarrow> u8 list cres" where
  "memset buf p v n = wrn buf p (replicate n v)"

text \<open>An optional output buffer: \<open>None\<close> is the NULL pointer, which the routines skip.\<close>

definition copy_out :: "u8 list option \<Rightarrow> u8 list \<Rightarrow> u8 list option cres" where
  "copy_out dst xs =
     (case dst of None \<Rightarrow> Inr None | Some d \<Rightarrow> bindc (wrn d 0 xs) (\<lambda>d'. Inr (Some d')))"

lemma rd_ok [mem_simps]: "p < length buf \<Longrightarrow> rd buf p = Inr (buf ! p)"
  by (simp add: rd_def)

lemma rd_eq_Inr: "rd buf p = Inr x \<longleftrightarrow> p < length buf \<and> x = buf ! p"
  by (auto simp: rd_def)

lemma rdn_ok [mem_simps]: "p + n \<le> length buf \<Longrightarrow> rdn buf p n = Inr (take n (drop p buf))"
  by (simp add: rdn_def)

lemma rdn_eq_Inr: "rdn buf p n = Inr xs \<longleftrightarrow> p + n \<le> length buf \<and> xs = take n (drop p buf)"
  by (auto simp: rdn_def)

lemma wrn_eq_Inr:
  "wrn buf p xs = Inr buf' \<longleftrightarrow>
     p + length xs \<le> length buf \<and> buf' = take p buf @ xs @ drop (p + length xs) buf"
  by (auto simp: wrn_def)

lemma wrn_length: "wrn buf p xs = Inr buf' \<Longrightarrow> length buf' = length buf"
  by (auto simp: wrn_eq_Inr)

lemma memmove_eq_Inr:
  "memmove buf dst src n = Inr buf' \<longleftrightarrow>
     src + n \<le> length buf \<and> dst + n \<le> length buf \<and>
     buf' = take dst buf @ take n (drop src buf) @ drop (dst + n) buf"
  by (auto simp: memmove_def rdn_eq_Inr wrn_eq_Inr)

lemma memmove_length: "memmove buf dst src n = Inr buf' \<Longrightarrow> length buf' = length buf"
  by (auto simp: memmove_eq_Inr)

lemma memset_eq_Inr:
  "memset buf p v n = Inr buf' \<longleftrightarrow>
     p + n \<le> length buf \<and> buf' = take p buf @ replicate n v @ drop (p + n) buf"
  by (auto simp: memset_def wrn_eq_Inr)

lemma memeq_ok [mem_simps]:
  "p + length xs \<le> length buf \<Longrightarrow> memeq buf p xs = Inr (take (length xs) (drop p buf) = xs)"
  by (simp add: memeq_def rdn_def)

lemma memeq_eq_Inr:
  "memeq buf p xs = Inr r \<longleftrightarrow>
     p + length xs \<le> length buf \<and> r = (take (length xs) (drop p buf) = xs)"
  by (auto simp: memeq_def rdn_eq_Inr)

lemma copy_out_None [simp]: "copy_out None xs = Inr None"
  by (simp add: copy_out_def)

section \<open>Bytes at a position\<close>

text \<open>\<open>holds_at buf p xs\<close>: the bytes \<open>xs\<close> lie in the buffer from position \<open>p\<close> on.\<close>

definition holds_at :: "u8 list \<Rightarrow> nat \<Rightarrow> u8 list \<Rightarrow> bool" where
  "holds_at buf p xs \<longleftrightarrow> p + length xs \<le> length buf \<and> take (length xs) (drop p buf) = xs"

lemma holds_at_Nil [simp]: "holds_at buf p [] \<longleftrightarrow> p \<le> length buf"
  by (simp add: holds_at_def)

lemma holds_at_Cons [simp]:
  "holds_at buf p (x # xs) \<longleftrightarrow> p < length buf \<and> buf ! p = x \<and> holds_at buf (Suc p) xs"
proof (cases "p < length buf")
  case True
  then have "drop p buf = buf ! p # drop (Suc p) buf"
    by (simp add: Cons_nth_drop_Suc)
  with True show ?thesis by (auto simp: holds_at_def)
next
  case False
  then show ?thesis by (auto simp: holds_at_def)
qed

lemma holds_at_append [simp]:
  "holds_at buf p (xs @ ys) \<longleftrightarrow> holds_at buf p xs \<and> holds_at buf (p + length xs) ys"
proof (induction xs arbitrary: p)
  case Nil
  show ?case by (auto simp: holds_at_def)
next
  case (Cons x xs)
  then show ?case by auto
qed

lemma holds_at_length: "holds_at buf p xs \<Longrightarrow> p + length xs \<le> length buf"
  by (simp add: holds_at_def)

lemma holds_at_take: "holds_at buf p xs \<Longrightarrow> take (length xs) (drop p buf) = xs"
  by (simp add: holds_at_def)

lemma holds_at_self: "holds_at (pre @ xs @ post) (length pre) xs"
  by (simp add: holds_at_def)

lemma holds_at_rdn [mem_simps]: "holds_at buf p xs \<Longrightarrow> rdn buf p (length xs) = Inr xs"
  by (simp add: holds_at_def rdn_def)

lemma holds_at_rd: "holds_at buf p xs \<Longrightarrow> i < length xs \<Longrightarrow> rd buf (p + i) = Inr (xs ! i)"
proof (induction xs arbitrary: p i)
  case Nil
  then show ?case by simp
next
  case (Cons x xs)
  then show ?case
    using Cons.IH [of "Suc p" "i - 1"] by (cases i) (auto simp: rd_def)
qed

lemma holds_at_memeq:
  "holds_at buf p xs \<Longrightarrow> length ys \<le> length xs \<Longrightarrow> memeq buf p ys = Inr (take (length ys) xs = ys)"
proof -
  assume h: "holds_at buf p xs" and l: "length ys \<le> length xs"
  have "holds_at buf p (take (length ys) xs @ drop (length ys) xs)"
    using h by simp
  then have "holds_at buf p (take (length ys) xs)"
    by (metis holds_at_append)
  then have "take (length ys) (drop p buf) = take (length ys) xs \<and> p + length ys \<le> length buf"
    using l by (simp add: holds_at_def min_absorb2)
  then show ?thesis by (simp add: memeq_ok)
qed

lemma holds_at_prefix:
  "take n buf' = take n buf \<Longrightarrow> n \<le> length buf' \<Longrightarrow> p + length xs \<le> n \<Longrightarrow>
   holds_at buf p xs \<Longrightarrow> holds_at buf' p xs"
proof -
  assume e: "take n buf' = take n buf" and n: "n \<le> length buf'" and p: "p + length xs \<le> n"
    and h: "holds_at buf p xs"
  have "take (length xs) (drop p buf') = take (length xs) (drop p (take n buf'))"
    using p by (simp add: drop_take min_def)
  also have "\<dots> = take (length xs) (drop p buf)"
    using p by (simp add: e drop_take min_def)
  finally show ?thesis using h n p by (simp add: holds_at_def)
qed

lemma drop_eq_mono: "drop a xs = drop a ys \<Longrightarrow> a \<le> b \<Longrightarrow> drop b xs = drop b ys"
  by (metis drop_drop le_add_diff_inverse2)

lemma take_eq_mono: "take a xs = take a ys \<Longrightarrow> b \<le> a \<Longrightarrow> take b xs = take b ys"
  by (metis min_absorb1 take_take)

lemma holds_at_memmove:
  assumes "memmove buf t (t + n) (length xs) = Inr buf'" and "holds_at buf (t + n) xs"
  shows "holds_at buf' t xs" and "take t buf' = take t buf" and "length buf' = length buf"
    and "drop (t + n + length xs) buf' = drop (t + n + length xs) buf"
proof -
  from assms have "t + n + length xs \<le> length buf" by (simp add: holds_at_length)
  moreover from assms(2) have "take (length xs) (drop (t + n) buf) = xs" by (rule holds_at_take)
  ultimately have buf': "buf' = take t buf @ xs @ drop (t + length xs) buf"
    using assms(1) by (simp add: memmove_eq_Inr)
  have len: "t \<le> length buf" using \<open>t + n + length xs \<le> length buf\<close> by simp
  have m: "min (length buf) t = t" using len by simp
  show "holds_at buf' t xs"
    using holds_at_self [of "take t buf" xs] len m by (simp add: buf')
  show "take t buf' = take t buf" using len m by (simp add: buf')
  show "length buf' = length buf" using assms(1) by (rule memmove_length)
  show "drop (t + n + length xs) buf' = drop (t + n + length xs) buf"
    using len m by (simp add: buf' add.commute add.left_commute)
qed

section \<open>Writing bytes\<close>

text \<open>The buffer after the bytes \<open>xs\<close> were written at \<open>p\<close>. Consecutive writes are one write.\<close>

definition written :: "u8 list \<Rightarrow> nat \<Rightarrow> u8 list \<Rightarrow> u8 list" where
  "written buf p xs = take p buf @ xs @ drop (p + length xs) buf"

lemma wrn_written: "p + length xs \<le> length buf \<Longrightarrow> wrn buf p xs = Inr (written buf p xs)"
  by (simp add: wrn_def written_def)

lemma written_length [simp]: "p + length xs \<le> length buf \<Longrightarrow> length (written buf p xs) = length buf"
  by (simp add: written_def)

lemma written_append:
  "p + length xs + length ys \<le> length buf \<Longrightarrow> q = p + length xs \<Longrightarrow>
   written (written buf p xs) q ys = written buf p (xs @ ys)"
  by (simp add: written_def ac_simps)

lemma written_holds: "p + length xs \<le> length buf \<Longrightarrow> holds_at (written buf p xs) p xs"
  using holds_at_self [of "take p buf" xs "drop (p + length xs) buf"] by (simp add: written_def)

lemma written_take: "p + length xs \<le> length buf \<Longrightarrow> take p (written buf p xs) = take p buf"
  by (simp add: written_def)

lemma written_drop:
  "p + length xs \<le> length buf \<Longrightarrow> q = p + length xs \<Longrightarrow> drop q (written buf p xs) = drop q buf"
  by (simp add: written_def)

lemma holds_at_written_before:
  "holds_at buf q ys \<Longrightarrow> q + length ys \<le> p \<Longrightarrow> p + length xs \<le> length buf \<Longrightarrow>
   holds_at (written buf p xs) q ys"
  by (rule holds_at_prefix [of p _ buf]) (simp_all add: written_take)

lemma holds_at_suffix:
  "drop n buf' = drop n buf \<Longrightarrow> length buf' = length buf \<Longrightarrow> n \<le> p \<Longrightarrow> holds_at buf p xs \<Longrightarrow>
   holds_at buf' p xs"
  using drop_eq_mono [of n buf' buf p] by (simp add: holds_at_def)

lemma holds_at_written_after:
  "holds_at buf q ys \<Longrightarrow> p + length xs \<le> q \<Longrightarrow> holds_at (written buf p xs) q ys"
  using holds_at_length [of buf q ys]
  by (intro holds_at_suffix [of "p + length xs" "written buf p xs" buf]) (simp_all add: written_drop)

lemma rdn_self [simp]: "rdn xs 0 (length xs) = Inr xs"
  by (simp add: rdn_def)

section \<open>Arrays\<close>

text \<open>Checked access to an array of any type.\<close>

definition nth_chk :: "'a list \<Rightarrow> nat \<Rightarrow> 'a cres" where
  "nth_chk xs i = (if i < length xs then Inr (xs ! i) else Inl OutOfBounds)"

definition upd_chk :: "'a list \<Rightarrow> nat \<Rightarrow> 'a \<Rightarrow> 'a list cres" where
  "upd_chk xs i v = (if i < length xs then Inr (xs[i := v]) else Inl OutOfBounds)"

lemma nth_chk_ok [mem_simps]: "i < length xs \<Longrightarrow> nth_chk xs i = Inr (xs ! i)"
  by (simp add: nth_chk_def)

lemma upd_chk_ok [mem_simps]: "i < length xs \<Longrightarrow> upd_chk xs i v = Inr (xs[i := v])"
  by (simp add: upd_chk_def)

section \<open>Integers\<close>

text \<open>Subtraction of \<open>uint\<close> values held as numbers: it wraps at 32 bits.\<close>

definition usub32 :: "nat \<Rightarrow> nat \<Rightarrow> nat" where
  "usub32 a b = nat ((int a - int b) mod 2 ^ 32)"

lemma usub32_le [simp]: "b \<le> a \<Longrightarrow> a < 2 ^ 32 \<Longrightarrow> usub32 a b = a - b"
  by (simp add: usub32_def of_nat_diff [symmetric] del: of_nat_diff)

lemma usub32_wrap: "a < b \<Longrightarrow> b < 2 ^ 32 \<Longrightarrow> usub32 a b = 2 ^ 32 + a - b"
proof -
  assume h: "a < b" "b < 2 ^ 32"
  have "(int a - int b) mod 2 ^ 32 = (int a - int b + 2 ^ 32) mod 2 ^ 32"
    by simp
  also have "\<dots> = int a - int b + 2 ^ 32"
    using h by (intro mod_pos_pos_trivial) auto
  finally have "usub32 a b = nat (int a - int b + 2 ^ 32)"
    by (simp only: usub32_def)
  moreover have "int (2 ^ 32 + a - b) = int a - int b + 2 ^ 32"
    using h by (simp add: of_nat_diff)
  ultimately show ?thesis by (metis nat_int)
qed

text \<open>A \<open>uint\<close> value read as a signed one.\<close>

definition sint32 :: "nat \<Rightarrow> int" where
  "sint32 n = (if n < 2 ^ 31 then int n else int n - 2 ^ 32)"

lemma sint32_small [simp]: "n < 2 ^ 31 \<Longrightarrow> sint32 n = int n"
  by (simp add: sint32_def)

definition get_le16 :: "u8 \<Rightarrow> u8 \<Rightarrow> u16" where
  "get_le16 b0 b1 = push_bit 8 (ucast b1) OR ucast b0"

definition get_be16 :: "u8 \<Rightarrow> u8 \<Rightarrow> u16" where
  "get_be16 b0 b1 = push_bit 8 (ucast b0) OR ucast b1"

definition put_le16 :: "u16 \<Rightarrow> u8 list" where
  "put_le16 w = [ucast (w AND 0xff), ucast (drop_bit 8 w)]"

definition put_be16 :: "u16 \<Rightarrow> u8 list" where
  "put_be16 w = [ucast (drop_bit 8 w), ucast (w AND 0xff)]"

definition put_le32 :: "u32 \<Rightarrow> u8 list" where
  "put_le32 w = [ucast w, ucast (drop_bit 8 w), ucast (drop_bit 16 w), ucast (drop_bit 24 w)]"

definition get_le32 :: "u8 \<Rightarrow> u8 \<Rightarrow> u8 \<Rightarrow> u8 \<Rightarrow> u32" where
  "get_le32 b0 b1 b2 b3 =
     push_bit 24 (ucast b3) OR push_bit 16 (ucast b2) OR push_bit 8 (ucast b1) OR ucast b0"

definition get_be24 :: "u8 \<Rightarrow> u8 \<Rightarrow> u8 \<Rightarrow> u32" where
  "get_be24 b0 b1 b2 = push_bit 16 (ucast b0) OR push_bit 8 (ucast b1) OR ucast b2"

lemma put_le16_length [simp]: "length (put_le16 w) = 2"
  by (simp add: put_le16_def)

lemma put_be16_length [simp]: "length (put_be16 w) = 2"
  by (simp add: put_be16_def)

lemma put_le32_length [simp]: "length (put_le32 w) = 4"
  by (simp add: put_le32_def)

lemma ff_mask: "(0xff :: u16) = mask 8"
  by (simp add: mask_numeral)

lemma get_put_le16 [simp]: "get_le16 (ucast (w AND 0xff)) (ucast (drop_bit 8 w)) = w"
  unfolding get_le16_def
  by (rule bit_word_eqI) (auto simp: bit_simps ff_mask)

lemma get_put_be16 [simp]: "get_be16 (ucast (drop_bit 8 w)) (ucast (w AND 0xff)) = w"
  unfolding get_be16_def
  by (rule bit_word_eqI) (auto simp: bit_simps ff_mask)

lemma unat_u8_less [simp]: "unat (x :: u8) < 256"
  using unsigned_less [of x] by simp

lemma unat_u16_less [simp]: "unat (x :: u16) < 65536"
  using unsigned_less [of x] by simp

lemma unat_of_nat_u8 [simp]: "n < 256 \<Longrightarrow> unat (of_nat n :: u8) = n"
  by (simp add: unat_of_nat)

lemma unat_of_nat_u16 [simp]: "n < 65536 \<Longrightarrow> unat (of_nat n :: u16) = n"
  by (simp add: unat_of_nat)

lemma xor_right_cancel: "a XOR c = b XOR c \<Longrightarrow> a = (b :: 'a :: len word)"
proof -
  assume "a XOR c = b XOR c"
  then have "(a XOR c) XOR c = (b XOR c) XOR c" by simp
  then show "a = b" by (simp only: xor.assoc xor_self_eq xor.right_neutral)
qed

lemma xor_left_cancel: "c XOR a = c XOR b \<Longrightarrow> a = (b :: 'a :: len word)"
  by (rule xor_right_cancel [of a c b]) (simp add: xor.commute)

end
