(* ===== verification/Tlv.thy ===== *)
theory Tlv
  imports Prelude
begin

text \<open>
  The contract of a type-length-value walk. The driver has seven such walks (information
  elements, WPS, P2P and WFD attributes); they differ in their headers, their loop guards and
  their out-of-range tests. What each promises on a buffer that is a sequence of encoded
  elements is the same, and is stated and proved once here: it finds the first element that
  matches. \<open>tlv_find\<close> is the abstract search, on the list of elements.
\<close>

fun tlv_find :: "('e \<Rightarrow> u8 list) \<Rightarrow> ('e \<Rightarrow> bool) \<Rightarrow> nat \<Rightarrow> 'e list \<Rightarrow> (nat \<times> 'e) option" where
  "tlv_find enc m c [] = None"
| "tlv_find enc m c (e # es) =
     (if m e then Some (c, e) else tlv_find enc m (c + length (enc e)) es)"

definition tlv_bytes :: "('e \<Rightarrow> u8 list) \<Rightarrow> 'e list \<Rightarrow> u8 list" where
  "tlv_bytes enc es = concat (map enc es)"

lemma tlv_bytes_simps [simp]:
  "tlv_bytes enc [] = []"
  "tlv_bytes enc (e # es) = enc e @ tlv_bytes enc es"
  "tlv_bytes enc (es @ fs) = tlv_bytes enc es @ tlv_bytes enc fs"
  by (simp_all add: tlv_bytes_def)

lemma tlv_find_None_iff: "tlv_find enc m c es = None \<longleftrightarrow> (\<forall>e \<in> set es. \<not> m e)"
  by (induction es arbitrary: c) auto

lemma tlv_find_Some_split:
  "tlv_find enc m c es = Some (c', e) \<Longrightarrow>
   \<exists>es1 es2. es = es1 @ e # es2 \<and> (\<forall>x \<in> set es1. \<not> m x) \<and> m e \<and>
     c' = c + length (tlv_bytes enc es1)"
proof (induction es arbitrary: c)
  case Nil
  then show ?case by simp
next
  case (Cons x xs)
  show ?case
  proof (cases "m x")
    case True
    with Cons.prems have "x # xs = [] @ e # xs \<and> m e \<and> c' = c + length (tlv_bytes enc [])"
      by simp
    then show ?thesis by (metis empty_iff empty_set)
  next
    case False
    with Cons.prems have "tlv_find enc m (c + length (enc x)) xs = Some (c', e)"
      by simp
    from Cons.IH [OF this] obtain es1 es2 where
      "xs = es1 @ e # es2" "\<forall>y \<in> set es1. \<not> m y" "m e"
      "c' = c + length (enc x) + length (tlv_bytes enc es1)"
      by blast
    with False have "x # xs = (x # es1) @ e # es2 \<and> (\<forall>y \<in> set (x # es1). \<not> m y) \<and> m e \<and>
        c' = c + length (tlv_bytes enc (x # es1))"
      by simp
    then show ?thesis by blast
  qed
qed

lemma tlv_find_append_hit:
  "\<forall>x \<in> set es1. \<not> m x \<Longrightarrow> m e \<Longrightarrow>
   tlv_find enc m c (es1 @ e # es2) = Some (c + length (tlv_bytes enc es1), e)"
  by (induction es1 arbitrary: c) (auto simp: add.assoc)

text \<open>The last element that matches, for the walks that let a later element win.\<close>

fun tlv_last :: "('e \<Rightarrow> u8 list) \<Rightarrow> ('e \<Rightarrow> bool) \<Rightarrow> nat \<Rightarrow> 'e list \<Rightarrow> (nat \<times> 'e) option" where
  "tlv_last enc m c [] = None"
| "tlv_last enc m c (e # es) =
     (case tlv_last enc m (c + length (enc e)) es of
        Some r \<Rightarrow> Some r
      | None \<Rightarrow> if m e then Some (c, e) else None)"

lemma tlv_last_None_iff: "tlv_last enc m c es = None \<longleftrightarrow> (\<forall>e \<in> set es. \<not> m e)"
proof (induction es arbitrary: c)
  case (Cons e es)
  from Cons.IH [of "c + length (enc e)"] show ?case
    by (cases "tlv_last enc m (c + length (enc e)) es") auto
qed simp

lemma tlv_last_append_hit:
  "\<forall>x \<in> set es2. \<not> m x \<Longrightarrow> m e \<Longrightarrow>
   tlv_last enc m c (es1 @ e # es2) = Some (c + length (tlv_bytes enc es1), e)"
proof (induction es1 arbitrary: c)
  case Nil
  then have "tlv_last enc m (c + length (enc e)) es2 = None" by (simp add: tlv_last_None_iff)
  with Nil show ?case by simp
qed (simp add: add.assoc)

text \<open>
  \<open>walk buf b lim k c\<close> is the walk for the key \<open>k\<close> over the \<open>lim\<close> bytes that start at \<open>b\<close>,
  now at offset \<open>c\<close>. A provider promises one step: at an encoded element the walk reports it
  if it matches, reports a miss if it was the last one, and otherwise goes on behind it.
\<close>

locale tlv_walker =
  fixes enc :: "'e \<Rightarrow> u8 list"
    and wf :: "'k \<Rightarrow> 'e \<Rightarrow> bool"
    and matches :: "'k \<Rightarrow> 'e \<Rightarrow> bool"
    and okl :: "nat \<Rightarrow> bool"
    and walk :: "u8 list \<Rightarrow> nat \<Rightarrow> nat \<Rightarrow> 'k \<Rightarrow> nat \<Rightarrow> 'r"
    and hit :: "nat \<Rightarrow> 'e \<Rightarrow> 'r"
    and miss :: "'r"
  assumes walk_step:
    "wf k e \<Longrightarrow> okl lim \<Longrightarrow> b + lim \<le> length buf \<Longrightarrow> c + length (enc e) \<le> lim \<Longrightarrow>
     holds_at buf (b + c) (enc e) \<Longrightarrow>
     walk buf b lim k c =
       (if matches k e then hit (b + c) e
        else if c + length (enc e) = lim then miss
        else walk buf b lim k (c + length (enc e)))"
begin

lemma walk_finds:
  assumes "\<forall>e \<in> set es. wf k e" and "es \<noteq> []" and "okl lim" and "b + lim \<le> length buf"
    and "holds_at buf (b + c) (tlv_bytes enc es)" and "c + length (tlv_bytes enc es) = lim"
    and pos: "\<And>e. enc e \<noteq> []"
  shows "walk buf b lim k c =
    (case tlv_find enc (matches k) c es of None \<Rightarrow> miss | Some (c', e) \<Rightarrow> hit (b + c') e)"
  using assms(1,2,5,6)
proof (induction es arbitrary: c)
  case Nil
  then show ?case by simp
next
  case (Cons e es)
  let ?n = "length (enc e)"
  have step: "walk buf b lim k c =
      (if matches k e then hit (b + c) e
       else if c + ?n = lim then miss else walk buf b lim k (c + ?n))"
    using Cons.prems assms(3,4) by (intro walk_step) auto
  show ?case
  proof (cases "matches k e")
    case True
    then show ?thesis by (simp add: step)
  next
    case nomatch: False
    show ?thesis
    proof (cases "es = []")
      case True
      then have "c + ?n = lim" using Cons.prems(4) by simp
      then show ?thesis using nomatch True by (simp only: step) simp
    next
      case False
      then obtain f fs where f: "es = f # fs" by (auto simp: neq_Nil_conv)
      have "c + ?n \<noteq> lim"
        using Cons.prems(4) pos [of f] by (cases "enc f") (simp_all add: f)
      moreover have "walk buf b lim k (c + ?n) =
        (case tlv_find enc (matches k) (c + ?n) es of
           None \<Rightarrow> miss | Some (c', e) \<Rightarrow> hit (b + c') e)"
        using Cons.prems False by (intro Cons.IH) (auto simp: add.assoc)
      ultimately show ?thesis using nomatch by (simp only: step tlv_find.simps if_False)
    qed
  qed
qed

lemma walk_first:
  assumes "\<forall>x \<in> set (es1 @ e # es2). wf k x" and "okl lim" and "b + lim \<le> length buf"
    and "holds_at buf b (tlv_bytes enc (es1 @ e # es2))"
    and "length (tlv_bytes enc (es1 @ e # es2)) = lim"
    and "\<forall>x \<in> set es1. \<not> matches k x" and "matches k e" and "\<And>e. enc e \<noteq> []"
  shows "walk buf b lim k 0 = hit (b + length (tlv_bytes enc es1)) e"
proof -
  have "walk buf b lim k 0 = (case tlv_find enc (matches k) 0 (es1 @ e # es2) of
      None \<Rightarrow> miss | Some (c', e) \<Rightarrow> hit (b + c') e)"
    using assms(4,5)
    by (intro walk_finds [OF assms(1) _ assms(2,3) _ _ assms(8)])
       (simp_all only: append_is_Nil_conv list.simps add_0 add_0_right simp_thms)
  also have "tlv_find enc (matches k) 0 (es1 @ e # es2) = Some (length (tlv_bytes enc es1), e)"
    using tlv_find_append_hit [OF assms(6,7), of enc 0 es2] by simp
  finally show ?thesis by simp
qed

lemma walk_none:
  assumes "\<forall>x \<in> set es. wf k x" and "es \<noteq> []" and "okl lim" and "b + lim \<le> length buf"
    and "holds_at buf b (tlv_bytes enc es)" and "length (tlv_bytes enc es) = lim"
    and "\<forall>x \<in> set es. \<not> matches k x" and "\<And>e. enc e \<noteq> []"
  shows "walk buf b lim k 0 = miss"
proof -
  have "walk buf b lim k 0 = (case tlv_find enc (matches k) 0 es of
      None \<Rightarrow> miss | Some (c', e) \<Rightarrow> hit (b + c') e)"
    using assms(5,6)
    by (intro walk_finds [OF assms(1,2,3,4) _ _ assms(8)])
       (simp_all only: add_0 add_0_right)
  also have "tlv_find enc (matches k) 0 es = None"
    using assms(7) by (simp add: tlv_find_None_iff)
  finally show ?thesis by simp
qed

end

section \<open>Removing elements in place\<close>

text \<open>\<open>tlv_removed enc m es start buf buf'\<close>: in \<open>buf'\<close> the elements \<open>es\<close> that lay at \<open>start\<close>
  are replaced by those that do not match, in their order; the bytes before and behind the
  sequence are those of \<open>buf\<close>.\<close>

abbreviation keep :: "('e \<Rightarrow> bool) \<Rightarrow> 'e list \<Rightarrow> 'e list" where
  "keep m es \<equiv> filter (\<lambda>e. \<not> m e) es"

definition tlv_removed ::
  "('e \<Rightarrow> u8 list) \<Rightarrow> ('e \<Rightarrow> bool) \<Rightarrow> 'e list \<Rightarrow> nat \<Rightarrow> u8 list \<Rightarrow> u8 list \<Rightarrow> bool" where
  "tlv_removed enc m es start buf buf' \<longleftrightarrow>
     length buf' = length buf \<and> take start buf' = take start buf \<and>
     holds_at buf' start (tlv_bytes enc (keep m es)) \<and>
     drop (start + length (tlv_bytes enc es)) buf' = drop (start + length (tlv_bytes enc es)) buf"

lemma tlv_bytes_keep_le: "length (tlv_bytes enc (keep m es)) \<le> length (tlv_bytes enc es)"
  by (induction es) auto

lemma tlv_removed_none:
  "\<forall>e \<in> set es. \<not> m e \<Longrightarrow> holds_at buf start (tlv_bytes enc es) \<Longrightarrow> tlv_removed enc m es start buf buf"
  by (simp add: tlv_removed_def filter_id_conv)

text \<open>Moving the rest of the sequence over one element, and what that leaves.\<close>

lemma tlv_remove_one:
  assumes "holds_at buf start (tlv_bytes enc (es1 @ e # es2))"
    and t: "t = start + length (tlv_bytes enc es1)"
  shows "\<exists>buf1. memmove buf t (t + length (enc e)) (length (tlv_bytes enc es2)) = Inr buf1 \<and>
    length buf1 = length buf \<and> take t buf1 = take t buf \<and>
    holds_at buf1 start (tlv_bytes enc es1) \<and> holds_at buf1 t (tlv_bytes enc es2) \<and>
    drop (t + length (enc e) + length (tlv_bytes enc es2)) buf1 =
      drop (t + length (enc e) + length (tlv_bytes enc es2)) buf"
proof -
  let ?n = "length (enc e)" and ?r = "tlv_bytes enc es2"
  have at: "holds_at buf start (tlv_bytes enc es1)" "holds_at buf (t + ?n) ?r"
    using assms(1) by (simp_all add: t add.assoc)
  then have bnd: "t + ?n + length ?r \<le> length buf" by (simp add: holds_at_length)
  then obtain buf1 where mv: "memmove buf t (t + ?n) (length ?r) = Inr buf1"
    by (simp add: memmove_def rdn_def wrn_def)
  note mvd = holds_at_memmove [OF mv at(2)]
  have "holds_at buf1 start (tlv_bytes enc es1)"
    using mvd(2,3) bnd at(1) t by (intro holds_at_prefix [of t buf1 buf]) auto
  with mv mvd show ?thesis by blast
qed

lemma tlv_removed_step:
  assumes "tlv_removed enc m es2 t buf1 buf'" and "t = start + length (tlv_bytes enc es1)"
    and "\<forall>x \<in> set es1. \<not> m x" and "m e" and "length buf1 = length buf" and "take t buf1 = take t buf"
    and "holds_at buf1 start (tlv_bytes enc es1)"
    and "drop (t + length (enc e) + length (tlv_bytes enc es2)) buf1 =
      drop (t + length (enc e) + length (tlv_bytes enc es2)) buf"
  shows "tlv_removed enc m (es1 @ e # es2) start buf buf'"
proof -
  let ?r = "tlv_bytes enc es2"
  have keep: "keep m (es1 @ e # es2) = es1 @ keep m es2"
    using assms(3,4) by (simp add: filter_id_conv)
  have b': "length buf' = length buf1" "take t buf' = take t buf1"
    "holds_at buf' t (tlv_bytes enc (keep m es2))" "drop (t + length ?r) buf' = drop (t + length ?r) buf1"
    using assms(1) by (simp_all add: tlv_removed_def)
  have "t \<le> length buf'"
    using holds_at_length [OF b'(3)] by simp
  then have "holds_at buf' start (tlv_bytes enc es1)"
    using b'(2) assms(2,7) by (intro holds_at_prefix [of t buf' buf1]) auto
  moreover have "take start buf' = take start buf"
    using take_eq_mono [of t buf' buf start] b'(2) assms(2,6) by simp
  moreover have "drop (t + length (enc e) + length ?r) buf' = drop (t + length (enc e) + length ?r) buf"
    using drop_eq_mono [OF b'(4), of "t + length (enc e) + length ?r"] assms(8) by simp
  ultimately show ?thesis
    using b'(1,3) assms(2,5) unfolding tlv_removed_def keep by (simp add: add.assoc)
qed

section \<open>Rewriting elements in place\<close>

text \<open>\<open>tlv_replaced enc es es' start buf buf'\<close>: the elements \<open>es\<close> at \<open>start\<close> gave way to \<open>es'\<close>;
  the bytes before and behind the old sequence are those of \<open>buf\<close>.\<close>

definition tlv_replaced ::
  "('e \<Rightarrow> u8 list) \<Rightarrow> 'e list \<Rightarrow> 'e list \<Rightarrow> nat \<Rightarrow> u8 list \<Rightarrow> u8 list \<Rightarrow> bool" where
  "tlv_replaced enc es es' start buf buf' \<longleftrightarrow>
     length buf' = length buf \<and> take start buf' = take start buf \<and>
     holds_at buf' start (tlv_bytes enc es') \<and>
     drop (start + length (tlv_bytes enc es)) buf' = drop (start + length (tlv_bytes enc es)) buf"

lemma tlv_replaced_refl: "holds_at buf start (tlv_bytes enc es) \<Longrightarrow> tlv_replaced enc es es start buf buf"
  by (simp add: tlv_replaced_def)

lemma tlv_replaced_step:
  assumes "tlv_replaced enc es2 es2' q buf1 buf'" and "q = start + length (tlv_bytes enc es1')"
    and "length buf1 = length buf" and "take start buf1 = take start buf"
    and "holds_at buf1 start (tlv_bytes enc es1')"
    and "length (tlv_bytes enc es1') \<le> length (tlv_bytes enc es1)"
    and "drop (start + length (tlv_bytes enc (es1 @ es2))) buf1 =
      drop (start + length (tlv_bytes enc (es1 @ es2))) buf"
  shows "tlv_replaced enc (es1 @ es2) (es1' @ es2') start buf buf'"
proof -
  have b': "length buf' = length buf1" "take q buf' = take q buf1" "holds_at buf' q (tlv_bytes enc es2')"
    "drop (q + length (tlv_bytes enc es2)) buf' = drop (q + length (tlv_bytes enc es2)) buf1"
    using assms(1) by (simp_all add: tlv_replaced_def)
  have "q \<le> length buf'" using holds_at_length [OF b'(3)] by simp
  then have "holds_at buf' start (tlv_bytes enc es1')"
    using b'(2) assms(2,5) by (intro holds_at_prefix [of q buf' buf1]) auto
  moreover have "take start buf' = take start buf"
    using take_eq_mono [OF b'(2), of start] assms(2,4) by simp
  moreover have "drop (start + length (tlv_bytes enc (es1 @ es2))) buf' =
      drop (start + length (tlv_bytes enc (es1 @ es2))) buf"
    using drop_eq_mono [OF b'(4), of "start + length (tlv_bytes enc (es1 @ es2))"] assms(2,6,7) by simp
  ultimately show ?thesis
    using b'(1,3) assms(2,3) by (simp add: tlv_replaced_def)
qed

end
