(* ===== verification/Ie.thy ===== *)
theory Ie
  imports Tlv
begin

text \<open>
  Information elements (core/rtw_ieee80211.c): the search, insertion and removal of elements
  in a byte buffer, and the generic contract that every type-length-value walk of the driver
  meets. A buffer is a byte list, a pointer into it an offset; \<open>None\<close> stands for a NULL
  pointer where the routine tests for one.
\<close>

section \<open>Searching for an element\<close>

text \<open>\<open>rtw_get_ie\<close>: \<open>i\<close> is the loop counter, \<open>p = pbuf + i\<close> throughout the loop.
  The length output is only written when \<open>limit \<ge> 1\<close>.\<close>

function rtw_get_ie_loop ::
  "u8 list \<Rightarrow> nat \<Rightarrow> nat \<Rightarrow> nat \<Rightarrow> nat \<Rightarrow> (nat option \<times> nat) cres" where
  "rtw_get_ie_loop buf pbuf index limit i =
     bindc (rd buf (pbuf + i)) (\<lambda>b0.
     if unat b0 = index
     then bindc (rd buf (Suc (pbuf + i))) (\<lambda>len. Inr (Some (pbuf + i), unat len))
     else bindc (rd buf (Suc (pbuf + i))) (\<lambda>tmp.
       let i' = i + (unat tmp + 2) in
       if i' \<ge> limit then Inr (None, 0)
       else rtw_get_ie_loop buf pbuf index limit i'))"
  by pat_completeness auto
termination by (relation "measure (\<lambda>(buf, pbuf, index, limit, i). limit - i)") auto

definition rtw_get_ie ::
  "u8 list \<Rightarrow> nat \<Rightarrow> nat \<Rightarrow> nat \<Rightarrow> int \<Rightarrow> (nat option \<times> nat) cres" where
  "rtw_get_ie buf pbuf index len0 limit =
     (if limit < 1 then Inr (None, len0)
      else rtw_get_ie_loop buf pbuf index (nat limit) 0)"

text \<open>\<open>rtw_get_ie_ex\<close>: \<open>oui\<close> carries its own length; \<open>ie\<close> is the optional copy
  destination and \<open>ielen\<close> the optional length output.\<close>

definition ie_oui_match :: "u8 list \<Rightarrow> nat \<Rightarrow> u8 list option \<Rightarrow> bool cres" where
  "ie_oui_match buf p oui = (case oui of None \<Rightarrow> Inr True | Some o' \<Rightarrow> memeq buf (p + 2) o')"

function rtw_get_ie_ex_loop ::
  "u8 list \<Rightarrow> nat \<Rightarrow> nat \<Rightarrow> u8 \<Rightarrow> u8 list option \<Rightarrow> u8 list option \<Rightarrow> nat option \<Rightarrow> nat \<Rightarrow>
   (nat option \<times> u8 list option \<times> nat option) cres" where
  "rtw_get_ie_ex_loop buf in_ie in_len eid oui ie ielen cnt =
     (if \<not> cnt < in_len then Inr (None, ie, ielen)
      else bindc (rd buf (in_ie + cnt)) (\<lambda>b0.
        bindc (if b0 = eid then ie_oui_match buf (in_ie + cnt) oui else Inr False) (\<lambda>hit.
        if hit then
          (if ie = None \<and> ielen = None then Inr (Some (in_ie + cnt), ie, ielen)
           else bindc (rd buf (Suc (in_ie + cnt))) (\<lambda>l.
             bindc (if ie = None then Inr None
                    else bindc (rdn buf (in_ie + cnt) (unat l + 2)) (copy_out ie)) (\<lambda>ie'.
             Inr (Some (in_ie + cnt), ie', map_option (\<lambda>_. unat l + 2) ielen))))
        else bindc (rd buf (Suc (in_ie + cnt))) (\<lambda>l.
          rtw_get_ie_ex_loop buf in_ie in_len eid oui ie ielen (cnt + (unat l + 2))))))"
  by pat_completeness auto
termination
  by (relation "measure (\<lambda>(buf, in_ie, in_len, eid, oui, ie, ielen, cnt). in_len - cnt)") auto

definition rtw_get_ie_ex ::
  "u8 list \<Rightarrow> nat option \<Rightarrow> nat \<Rightarrow> u8 \<Rightarrow> u8 list option \<Rightarrow> u8 list option \<Rightarrow> nat option \<Rightarrow>
   (nat option \<times> u8 list option \<times> nat option) cres" where
  "rtw_get_ie_ex buf in_ie in_len eid oui ie ielen =
     (let ielen0 = map_option (\<lambda>_. 0) ielen in
      case in_ie of None \<Rightarrow> Inr (None, ie, ielen0)
      | Some p \<Rightarrow>
        (if in_len = 0 then Inr (None, ie, ielen0)
         else rtw_get_ie_ex_loop buf p in_len eid oui ie ielen0 0))"

section \<open>Removing elements\<close>

text \<open>\<open>rtw_ies_remove_ie\<close>: one turn of the loop is one search and one removal. The loop
  carries fuel; \<open>search_len\<close> turns are enough, since each removed element has at least
  two bytes.\<close>

fun rtw_ies_remove_ie_loop ::
  "nat \<Rightarrow> u8 list \<Rightarrow> nat \<Rightarrow> nat \<Rightarrow> nat \<Rightarrow> u8 \<Rightarrow> u8 list option \<Rightarrow> bool \<Rightarrow>
   (u8 list \<times> nat \<times> bool) cres" where
  "rtw_ies_remove_ie_loop 0 buf start search_len ies_len eid oui ret = Inl NoReturn"
| "rtw_ies_remove_ie_loop (Suc fuel) buf start search_len ies_len eid oui ret =
     bindc (rtw_get_ie_ex buf (Some start) search_len eid oui None (Some 0))
       (\<lambda>(target_ie, _, target_ielen).
       case (target_ie, target_ielen) of
         (Some t, Some tlen) \<Rightarrow>
           (if tlen = 0 then Inr (buf, ies_len, ret)
            else let remain_ies = t + tlen;
                     remain_len = usub32 search_len (remain_ies - start) in
              bindc (memmove buf t remain_ies remain_len) (\<lambda>buf'.
              rtw_ies_remove_ie_loop fuel buf' t remain_len (usub32 ies_len tlen) eid oui True))
       | _ \<Rightarrow> Inr (buf, ies_len, ret))"

definition rtw_ies_remove_ie ::
  "u8 list \<Rightarrow> nat option \<Rightarrow> nat option \<Rightarrow> nat \<Rightarrow> u8 \<Rightarrow> u8 list option \<Rightarrow>
   (u8 list \<times> nat option \<times> bool) cres" where
  "rtw_ies_remove_ie buf ies ies_len offset eid oui =
     (case (ies, ies_len) of
        (Some p, Some l) \<Rightarrow>
          (if l \<le> offset then Inr (buf, ies_len, False)
           else bindc (rtw_ies_remove_ie_loop (Suc l) buf (p + offset) (l - offset) l eid oui False)
             (\<lambda>(buf', l', ret). Inr (buf', Some l', ret)))
      | _ \<Rightarrow> Inr (buf, ies_len, False))"

section \<open>Writing elements\<close>

definition rtw_set_fixed_ie ::
  "u8 list \<Rightarrow> nat \<Rightarrow> nat \<Rightarrow> u8 list \<Rightarrow> nat \<Rightarrow> (u8 list \<times> nat \<times> nat) cres" where
  "rtw_set_fixed_ie buf pbuf len source frlen =
     bindc (rdn source 0 len) (\<lambda>xs.
     bindc (wrn buf pbuf xs) (\<lambda>buf'.
     Inr (buf', pbuf + len, (frlen + len) mod 2 ^ 32)))"

definition rtw_set_ie ::
  "u8 list \<Rightarrow> nat \<Rightarrow> nat \<Rightarrow> nat \<Rightarrow> u8 list \<Rightarrow> nat option \<Rightarrow> (u8 list \<times> nat \<times> nat option) cres" where
  "rtw_set_ie buf pbuf index len source frlen =
     bindc (wrn buf pbuf [of_nat index]) (\<lambda>buf1.
     bindc (wrn buf1 (pbuf + 1) [of_nat len]) (\<lambda>buf2.
     bindc (if len > 0 then bindc (rdn source 0 len) (wrn buf2 (pbuf + 2)) else Inr buf2) (\<lambda>buf3.
     Inr (buf3, pbuf + len + 2, map_option (\<lambda>f. (f + (len + 2)) mod 2 ^ 32) frlen))))"

definition WLAN_EID_CHANNEL_SWITCH :: nat where "WLAN_EID_CHANNEL_SWITCH = 37"
definition WLAN_EID_SECONDARY_CHANNEL_OFFSET :: nat where "WLAN_EID_SECONDARY_CHANNEL_OFFSET = 62"

definition rtw_set_ie_ch_switch ::
  "u8 list \<Rightarrow> nat \<Rightarrow> nat option \<Rightarrow> u8 \<Rightarrow> u8 \<Rightarrow> u8 \<Rightarrow> (u8 list \<times> nat \<times> nat option) cres" where
  "rtw_set_ie_ch_switch buf pbuf buf_len ch_switch_mode new_ch ch_switch_cnt =
     rtw_set_ie buf pbuf WLAN_EID_CHANNEL_SWITCH 3 [ch_switch_mode, new_ch, ch_switch_cnt] buf_len"

definition rtw_set_ie_secondary_ch_offset ::
  "u8 list \<Rightarrow> nat \<Rightarrow> nat option \<Rightarrow> u8 \<Rightarrow> (u8 list \<times> nat \<times> nat option) cres" where
  "rtw_set_ie_secondary_ch_offset buf pbuf buf_len secondary_ch_offset =
     rtw_set_ie buf pbuf WLAN_EID_SECONDARY_CHANNEL_OFFSET 1 [secondary_ch_offset] buf_len"

definition rtw_set_ie_mesh_ch_switch_parm ::
  "u8 list \<Rightarrow> nat \<Rightarrow> nat option \<Rightarrow> u8 \<Rightarrow> u8 \<Rightarrow> u16 \<Rightarrow> u16 \<Rightarrow> (u8 list \<times> nat \<times> nat option) cres" where
  "rtw_set_ie_mesh_ch_switch_parm buf pbuf buf_len ttl flags reason precedence =
     rtw_set_ie buf pbuf 0x118 6 ([ttl, flags] @ put_le16 reason @ put_le16 precedence) buf_len"

section \<open>Elements and their encoding\<close>

text \<open>An element is its identifier and its contents; on the air it is the identifier, the
  length and the contents.\<close>

type_synonym ie_elem = "u8 \<times> u8 list"

fun enc_ie :: "ie_elem \<Rightarrow> u8 list" where
  "enc_ie (i, d) = i # of_nat (length d) # d"

abbreviation ies_bytes :: "ie_elem list \<Rightarrow> u8 list" where
  "ies_bytes \<equiv> tlv_bytes enc_ie"

definition wf_ie :: "ie_elem \<Rightarrow> bool" where
  "wf_ie e \<longleftrightarrow> length (snd e) < 256"

lemma enc_ie_length [simp]: "length (enc_ie e) = length (snd e) + 2"
  by (cases e) simp

lemma enc_ie_nonempty [simp]: "enc_ie e \<noteq> []"
  by (cases e) simp

text \<open>The key of \<open>rtw_get_ie_ex\<close> is an identifier and an optional OUI. An element with the
  identifier must be long enough for the OUI comparison to stay within it.\<close>

fun oui_match :: "u8 \<times> u8 list option \<Rightarrow> ie_elem \<Rightarrow> bool" where
  "oui_match (eid, oui) (i, d) \<longleftrightarrow>
     i = eid \<and> (case oui of None \<Rightarrow> True | Some u \<Rightarrow> take (length u) d = u)"

fun oui_wf :: "u8 \<times> u8 list option \<Rightarrow> ie_elem \<Rightarrow> bool" where
  "oui_wf (eid, oui) (i, d) \<longleftrightarrow>
     length d < 256 \<and> (i = eid \<longrightarrow> (case oui of None \<Rightarrow> True | Some u \<Rightarrow> length u \<le> length d))"

text \<open>Writing an element puts its encoding at the position.\<close>

lemma rtw_set_ie_written:
  assumes "p + length d + 2 \<le> length buf" and "rdn source 0 (length d) = Inr d"
  shows "rtw_set_ie buf p index (length d) source frlen =
    Inr (written buf p (enc_ie (of_nat index, d)), p + length d + 2,
      map_option (\<lambda>f. (f + (length d + 2)) mod 2 ^ 32) frlen)"
proof -
  have "p + 1 \<le> length buf" "p + 2 \<le> length buf" using assms(1) by simp_all
  with assms show ?thesis
    by (cases d) (simp_all add: rtw_set_ie_def wrn_written written_append)
qed

text \<open>Elements written one behind the other.\<close>

lemma rtw_set_ie_append:
  assumes "p = q + length xs" and "l = length d" and "rdn source 0 l = Inr d"
    and "q + length xs + length d + 2 \<le> length buf" and "n + length d + 2 < 2 ^ 32"
  shows "rtw_set_ie (written buf q xs) p index l source (Some n) =
    Inr (written buf q (xs @ enc_ie (of_nat index, d)), p + l + 2, Some (n + l + 2))"
proof -
  have "p + length d + 2 \<le> length (written buf q xs)" using assms by simp
  from rtw_set_ie_written [OF this] assms show ?thesis
    by (simp add: written_append)
qed

declare rtw_get_ie_loop.simps [simp del]
declare rtw_get_ie_ex_loop.simps [simp del]

interpretation get_ie: tlv_walker enc_ie "\<lambda>k. wf_ie" "\<lambda>k e. unat (fst e) = k" "\<lambda>lim. True"
  "\<lambda>buf b lim k c. rtw_get_ie_loop buf b k lim c"
  "\<lambda>p e. Inr (Some p, length (snd e))" "Inr (None, 0)"
proof unfold_locales
  fix k :: nat and e :: ie_elem and lim b c :: nat and buf :: "u8 list"
  obtain i d where e: "e = (i, d)" by (cases e)
  assume "wf_ie e" "b + lim \<le> length buf" "c + length (enc_ie e) \<le> lim"
    "holds_at buf (b + c) (enc_ie e)"
  then show "rtw_get_ie_loop buf b k lim c =
    (if unat (fst e) = k then Inr (Some (b + c), length (snd e))
     else if c + length (enc_ie e) = lim then Inr (None, 0)
     else rtw_get_ie_loop buf b k lim (c + length (enc_ie e)))"
    by (subst rtw_get_ie_loop.simps) (auto simp: e wf_ie_def mem_simps)
qed

interpretation get_ie_ex: tlv_walker enc_ie oui_wf oui_match "\<lambda>lim. True"
  "\<lambda>buf b lim k c. rtw_get_ie_ex_loop buf b lim (fst k) (snd k) None (Some 0) c"
  "\<lambda>p e. Inr (Some p, None, Some (length (snd e) + 2))" "Inr (None, None, Some 0)"
proof unfold_locales
  fix k :: "u8 \<times> u8 list option" and e :: ie_elem and lim b c :: nat and buf :: "u8 list"
  obtain i d where e: "e = (i, d)" by (cases e)
  obtain eid oui where k: "k = (eid, oui)" by (cases k)
  assume h: "oui_wf k e" "b + lim \<le> length buf" "c + length (enc_ie e) \<le> lim"
    "holds_at buf (b + c) (enc_ie e)"
  have hit: "(if i = eid then ie_oui_match buf (b + c) oui else Inr False) = Inr (oui_match k e)"
    using h holds_at_memeq [of buf "b + c + 2" d]
    by (auto simp: ie_oui_match_def e k split: option.splits)
  have last: "rtw_get_ie_ex_loop buf b lim eid oui None (Some 0) lim = Inr (None, None, Some 0)"
    by (subst rtw_get_ie_ex_loop.simps) simp
  have "rtw_get_ie_ex_loop buf b lim eid oui None (Some 0) c =
    (if oui_match k e then Inr (Some (b + c), None, Some (length d + 2))
     else rtw_get_ie_ex_loop buf b lim eid oui None (Some 0) (c + (length d + 2)))"
    using h hit
    by (subst rtw_get_ie_ex_loop.simps) (simp add: e k mem_simps del: oui_match.simps)
  then show "rtw_get_ie_ex_loop buf b lim (fst k) (snd k) None (Some 0) c =
    (if oui_match k e then Inr (Some (b + c), None, Some (length (snd e) + 2))
     else if c + length (enc_ie e) = lim then Inr (None, None, Some 0)
     else rtw_get_ie_ex_loop buf b lim (fst k) (snd k) None (Some 0) (c + length (enc_ie e)))"
    using last by (cases "c + length (enc_ie e) = lim") (simp_all only: k e enc_ie_length fst_conv snd_conv if_True if_False simp_thms)
qed

section \<open>Properties of the searches\<close>

lemma rtw_get_ie_loop_safe:
  "pbuf + limit < length buf \<Longrightarrow> i < limit \<Longrightarrow>
   \<exists>r. rtw_get_ie_loop buf pbuf index limit i = Inr r"
proof (induction buf pbuf index limit i rule: rtw_get_ie_loop.induct)
  case (1 buf pbuf index limit i)
  from "1.prems" have "rd buf (pbuf + i) = Inr (buf ! (pbuf + i))"
    and "rd buf (Suc (pbuf + i)) = Inr (buf ! Suc (pbuf + i))"
    by (simp_all add: mem_simps)
  with "1.IH" "1.prems" show ?case
    by (subst rtw_get_ie_loop.simps) (auto simp: Let_def not_le)
qed

lemma rtw_get_ie_loop_sound:
  "rtw_get_ie_loop buf pbuf index limit i = Inr (Some p, len) \<Longrightarrow> i < limit \<Longrightarrow>
   pbuf + i \<le> p \<and> p < pbuf + limit \<and> Suc p < length buf \<and>
   unat (buf ! p) = index \<and> unat (buf ! Suc p) = len"
proof (induction buf pbuf index limit i rule: rtw_get_ie_loop.induct)
  case (1 buf pbuf index limit i)
  from "1.prems"(1) obtain b0 b1 where
    b: "rd buf (pbuf + i) = Inr b0" "rd buf (Suc (pbuf + i)) = Inr b1"
    by (subst (asm) rtw_get_ie_loop.simps) (auto split: if_splits)
  show ?case
  proof (cases "unat b0 = index")
    case True
    with b "1.prems" show ?thesis
      by (subst (asm) rtw_get_ie_loop.simps) (auto simp: rd_eq_Inr)
  next
    case False
    let ?i' = "i + (unat b1 + 2)"
    from "1.prems"(1) b False have "\<not> limit \<le> ?i'"
      and "rtw_get_ie_loop buf pbuf index limit ?i' = Inr (Some p, len)"
      by (subst (asm) rtw_get_ie_loop.simps, auto simp: Let_def split: if_splits)+
    with "1.IH" [OF b(1) False b(2) refl] show ?thesis by auto
  qed
qed

lemma rtw_get_ie_ex_elems:
  assumes "\<forall>x \<in> set es. oui_wf k x" and "holds_at buf start (ies_bytes es)"
  shows "rtw_get_ie_ex buf (Some start) (length (ies_bytes es)) (fst k) (snd k) None (Some 0) =
    (case tlv_find enc_ie (oui_match k) 0 es of None \<Rightarrow> Inr (None, None, Some 0)
     | Some (c, e) \<Rightarrow> Inr (Some (start + c), None, Some (length (snd e) + 2)))"
proof (cases "es = []")
  case True
  then show ?thesis by (simp add: rtw_get_ie_ex_def)
next
  case False
  have "rtw_get_ie_ex_loop buf start (length (ies_bytes es)) (fst k) (snd k) None (Some 0) 0 =
    (case tlv_find enc_ie (oui_match k) 0 es of None \<Rightarrow> Inr (None, None, Some 0)
     | Some (c, e) \<Rightarrow> Inr (Some (start + c), None, Some (length (snd e) + 2)))"
    using assms holds_at_length [OF assms(2)] False by (intro get_ie_ex.walk_finds) auto
  moreover from False have "length (ies_bytes es) \<noteq> 0" by (cases es) auto
  ultimately show ?thesis by (simp add: rtw_get_ie_ex_def)
qed

text \<open>The removal loop on a well-formed sequence of elements: every matching element is gone,
  the others are kept in order, nothing outside the sequence changes.\<close>

lemma rtw_ies_remove_ie_loop_keep:
  fixes eid oui
  defines "m \<equiv> oui_match (eid, oui)"
  assumes "\<forall>x \<in> set es. oui_wf (eid, oui) x" and "holds_at buf start (ies_bytes es)"
    and "length (ies_bytes es) \<le> ies_len" and "ies_len < 2 ^ 32" and "length es < fuel"
  shows "\<exists>buf'. rtw_ies_remove_ie_loop fuel buf start (length (ies_bytes es)) ies_len eid oui ret =
      Inr (buf', ies_len - (length (ies_bytes es) - length (ies_bytes (keep m es))),
           ret \<or> (\<exists>e \<in> set es. m e)) \<and> tlv_removed enc_ie m es start buf buf'"
  using assms(2-)
proof (induction fuel arbitrary: buf start es ies_len ret)
  case 0
  then show ?case by simp
next
  case (Suc fuel)
  have srch: "rtw_get_ie_ex buf (Some start) (length (ies_bytes es)) eid oui None (Some 0) =
    (case tlv_find enc_ie m 0 es of None \<Rightarrow> Inr (None, None, Some 0)
     | Some (c, e) \<Rightarrow> Inr (Some (start + c), None, Some (length (snd e) + 2)))"
    using rtw_get_ie_ex_elems [OF Suc.prems(1,2)] by (simp add: m_def)
  show ?case
  proof (cases "tlv_find enc_ie m 0 es")
    case None
    then have none: "\<forall>e \<in> set es. \<not> m e" by (simp add: tlv_find_None_iff)
    with None srch tlv_removed_none [OF none Suc.prems(2)] show ?thesis
      by (auto simp: filter_id_conv)
  next
    case (Some a)
    then obtain c e es1 es2 where a: "a = (c, e)" and es: "es = es1 @ e # es2"
      and e1: "\<forall>x \<in> set es1. \<not> m x" and m: "m e" and c: "c = length (ies_bytes es1)"
      using tlv_find_Some_split [of enc_ie m 0 es] by (cases a) fastforce
    let ?t = "start + c" and ?n = "length (enc_ie e)" and ?r = "ies_bytes es2"
    have tot: "length (ies_bytes es) = c + ?n + length ?r" by (simp add: es c)
    have "holds_at buf start (ies_bytes (es1 @ e # es2))" using Suc.prems(2) by (simp only: es)
    from tlv_remove_one [OF this, of ?t] c obtain buf1 where mv: "memmove buf ?t (?t + ?n) (length ?r) = Inr buf1"
      and b1: "length buf1 = length buf" "take ?t buf1 = take ?t buf"
      "holds_at buf1 start (ies_bytes es1)" "holds_at buf1 ?t ?r"
      "drop (?t + ?n + length ?r) buf1 = drop (?t + ?n + length ?r) buf"
      by blast
    have "length ?r \<le> ies_len - ?n" "ies_len - ?n < 2 ^ 32" "length es2 < fuel"
      "\<forall>x \<in> set es2. oui_wf (eid, oui) x"
      using Suc.prems(1,3,4,5) tot by (auto simp: es)
    then obtain buf' where run:
      "rtw_ies_remove_ie_loop fuel buf1 ?t (length ?r) (ies_len - ?n) eid oui True =
        Inr (buf', ies_len - ?n - (length ?r - length (ies_bytes (keep m es2))), True)"
      and b': "tlv_removed enc_ie m es2 ?t buf1 buf'"
      using Suc.IH [OF _ b1(4), of "ies_len - ?n" True] by (auto simp only: simp_thms)
    have "tlv_removed enc_ie m es start buf buf'"
      using tlv_removed_step [OF b' _ e1 m b1(1,2,3)] b1(5) c by (simp add: es)
    moreover have "usub32 (length (ies_bytes es)) (?t + ?n - start) = length ?r"
      "usub32 ies_len ?n = ies_len - ?n"
      using Suc.prems(3,4) tot by simp_all
    moreover have "ies_len - ?n - (length ?r - length (ies_bytes (keep m es2))) =
      ies_len - (length (ies_bytes es) - length (ies_bytes (keep m es)))"
      using tlv_bytes_keep_le [of enc_ie m es2] e1 m by (simp add: tot c es filter_id_conv)
    ultimately show ?thesis using srch Some a mv run m es by auto
  qed
qed

section \<open>What the element routines promise\<close>

lemma rtw_get_ie_elems:
  assumes "\<forall>e \<in> set es. wf_ie e" and "holds_at buf p (ies_bytes es)"
  shows "rtw_get_ie buf p index len0 (int (length (ies_bytes es))) =
    Inr (case tlv_find enc_ie (\<lambda>e. unat (fst e) = index) 0 es of
           None \<Rightarrow> (None, if es = [] then len0 else 0)
         | Some (c, e) \<Rightarrow> (Some (p + c), length (snd e)))"
proof (cases "es = []")
  case True
  then show ?thesis by (simp add: rtw_get_ie_def)
next
  case False
  have "rtw_get_ie_loop buf p index (length (ies_bytes es)) 0 =
    (case tlv_find enc_ie (\<lambda>e. unat (fst e) = index) 0 es of None \<Rightarrow> Inr (None, 0)
     | Some (c, e) \<Rightarrow> Inr (Some (p + c), length (snd e)))"
    using assms holds_at_length [OF assms(2)] False by (intro get_ie.walk_finds) auto
  moreover from False have "length (ies_bytes es) \<noteq> 0" by (cases es) auto
  ultimately show ?thesis
    using False by (simp add: rtw_get_ie_def split: option.split)
qed

text \<open>On a buffer that holds a sequence of elements, \<open>rtw_get_ie\<close> returns the position and
  the length of the first element with the identifier, and NULL when there is none. The length
  output keeps its old value only when the search range is empty.\<close>

theorem rtw_get_ie_first:
  assumes "\<forall>e \<in> set es. wf_ie e" and "holds_at buf p (ies_bytes es)"
  shows "rtw_get_ie buf p index len0 (int (length (ies_bytes es))) =
    Inr (case tlv_find enc_ie (\<lambda>e. unat (fst e) = index) 0 es of
           None \<Rightarrow> (None, if es = [] then len0 else 0)
         | Some (c, e) \<Rightarrow> (Some (p + c), length (snd e)))"
  using assms by (rule rtw_get_ie_elems)

theorem rtw_get_ie_first_witness:
  "rtw_get_ie [0, 1, 65, 48, 2, 1, 0, 3, 1, 6] 0 48 7 10 = Inr (Some 3, 2)"
  using rtw_get_ie_first [of "[(0, [65]), (48, [1, 0]), (3, [6])]"
      "[0, 1, 65, 48, 2, 1, 0, 3, 1, 6]" 0 48 7]
  by (simp add: wf_ie_def)

text \<open>C5: Memory safety and soundness of \<open>rtw_get_ie\<close> on arbitrary bytes: when one byte behind
  the search range may be read, no access is out of bounds, and a reported position lies in the
  range, carries the identifier and the reported length. The reported element itself may end
  behind the range: the routine does not check that.\<close>

theorem rtw_get_ie_safe:
  assumes "0 \<le> limit" and "pbuf + nat limit < length buf"
  shows "\<exists>q len. rtw_get_ie buf pbuf index len0 limit = Inr (q, len) \<and>
    (\<forall>p. q = Some p \<longrightarrow> pbuf \<le> p \<and> p < pbuf + nat limit \<and>
       unat (buf ! p) = index \<and> unat (buf ! Suc p) = len)"
proof (cases "limit < 1")
  case True
  then show ?thesis by (simp add: rtw_get_ie_def)
next
  case False
  then obtain q len where r: "rtw_get_ie_loop buf pbuf index (nat limit) 0 = Inr (q, len)"
    using rtw_get_ie_loop_safe [of pbuf "nat limit" buf 0 index] assms by auto
  show ?thesis
    using False r rtw_get_ie_loop_sound [of buf pbuf index "nat limit" 0 _ len]
    by (auto simp: rtw_get_ie_def)
qed

theorem rtw_get_ie_safe_witness:
  "\<exists>q len. rtw_get_ie [1, 9, 0] 0 1 0 2 = Inr (q, len) \<and>
    (\<forall>p. q = Some p \<longrightarrow> 0 \<le> p \<and> p < 0 + nat 2 \<and>
       unat ([1, 9, 0 :: u8] ! p) = 1 \<and> unat ([1, 9, 0 :: u8] ! Suc p) = len)"
  by (rule rtw_get_ie_safe) simp_all

text \<open>Without that extra byte the search reads out of bounds: in a buffer of exactly
  \<open>limit\<close> bytes whose last byte starts an element, the length byte behind the buffer is read.\<close>

theorem rtw_get_ie_overread:
  "holds_at buf pbuf (ies_bytes es @ [x]) \<Longrightarrow> \<forall>e \<in> set es. wf_ie e \<and> unat (fst e) \<noteq> index \<Longrightarrow>
   length buf = pbuf + length (ies_bytes es) + 1 \<Longrightarrow>
   rtw_get_ie buf pbuf index len0 (int (length (ies_bytes es) + 1)) = Inl OutOfBounds"
proof -
  assume h: "holds_at buf pbuf (ies_bytes es @ [x])"
    and es: "\<forall>e \<in> set es. wf_ie e \<and> unat (fst e) \<noteq> index"
    and len: "length buf = pbuf + length (ies_bytes es) + 1"
  have "rtw_get_ie_loop buf pbuf index (c + length (ies_bytes es) + 1) c = Inl OutOfBounds"
    if "holds_at buf (pbuf + c) (ies_bytes es)" "length buf = pbuf + c + length (ies_bytes es) + 1"
    for c using es that
  proof (induction es arbitrary: c)
    case Nil
    then show ?case by (subst rtw_get_ie_loop.simps) (auto simp: rd_def)
  next
    case (Cons e es)
    have "rtw_get_ie_loop buf pbuf index (c + length (ies_bytes (e # es)) + 1) c =
      rtw_get_ie_loop buf pbuf index (c + length (ies_bytes (e # es)) + 1) (c + length (enc_ie e))"
      using get_ie.walk_step [where k = index and e = e and b = pbuf and buf = buf and c = c
          and lim = "c + length (ies_bytes (e # es)) + 1"] Cons.prems
      by simp
    with Cons.IH [of "c + length (enc_ie e)"] Cons.prems show ?case by (simp add: ac_simps)
  qed
  from this [of 0] h len show ?thesis by (simp add: rtw_get_ie_def nat_add_distrib)
qed

theorem rtw_get_ie_overread_witness: "rtw_get_ie [0, 1, 65, 7] 0 48 0 4 = Inl OutOfBounds"
  using rtw_get_ie_overread [of "[0, 1, 65, 7]" 0 "[(0, [65])]" 7 48 0] by (simp add: wf_ie_def)

text \<open>\<open>rtw_ies_remove_ie\<close> on a sequence of elements behind \<open>offset\<close>: all matching elements
  are removed, the others stay in order, the length shrinks by what was removed, the bytes
  before and behind the sequence are untouched, and the result is success exactly when
  something was removed.\<close>

theorem rtw_ies_remove_ie_keeps:
  assumes "\<forall>x \<in> set es. oui_wf (eid, oui) x" and "holds_at buf (p + offset) (ies_bytes es)"
    and "l = offset + length (ies_bytes es)" and "l < 2 ^ 32"
  shows "\<exists>buf'. rtw_ies_remove_ie buf (Some p) (Some l) offset eid oui =
      Inr (buf', Some (offset + length (ies_bytes (keep (oui_match (eid, oui)) es))),
           \<exists>e \<in> set es. oui_match (eid, oui) e) \<and>
    tlv_removed enc_ie (oui_match (eid, oui)) es (p + offset) buf buf'"
proof (cases "es = []")
  case True
  with assms show ?thesis by (auto simp: rtw_ies_remove_ie_def intro!: tlv_removed_none)
next
  case False
  then have "0 < length (ies_bytes es)" by (cases es) auto
  then have l: "\<not> l \<le> offset" "l - offset = length (ies_bytes es)" using assms(3) by simp_all
  have "length es \<le> length (ies_bytes es)" by (induction es) auto
  then have fuel: "length es < Suc l" "length (ies_bytes es) \<le> l" using assms(3) by simp_all
  have "l - (length (ies_bytes es) - length (ies_bytes (keep (oui_match (eid, oui)) es))) =
    offset + length (ies_bytes (keep (oui_match (eid, oui)) es))"
    using assms(3) tlv_bytes_keep_le [of enc_ie "oui_match (eid, oui)" es] by linarith
  with rtw_ies_remove_ie_loop_keep [OF assms(1,2) fuel(2) assms(4) fuel(1), of False] l
  show ?thesis by (auto simp: rtw_ies_remove_ie_def)
qed

theorem rtw_ies_remove_ie_keeps_witness:
  "\<exists>buf'. rtw_ies_remove_ie [9, 0, 1, 65, 221, 1, 7, 3, 1, 6, 221, 0, 99] (Some 0) (Some 12) 1 221 None =
      Inr (buf', Some 7, True) \<and> take 7 buf' = [9, 0, 1, 65, 3, 1, 6]"
proof -
  let ?es = "[(0, [65]), (221, [7]), (3, [6]), (221, [])] :: ie_elem list"
  let ?buf = "[9, 0, 1, 65, 221, 1, 7, 3, 1, 6, 221, 0, 99] :: u8 list"
  have k: "keep (oui_match (221, None)) ?es = [(0, [65]), (3, [6])]" by simp
  have "1 + length (ies_bytes [(0, [65]), (3, [6])]) = 7"
    and "\<exists>e \<in> set ?es. oui_match (221, None) e" by simp_all
  with rtw_ies_remove_ie_keeps [of ?es 221 None ?buf 0 1 12] obtain buf'
    where r: "rtw_ies_remove_ie ?buf (Some 0) (Some 12) 1 221 None = Inr (buf', Some 7, True)"
      and "tlv_removed enc_ie (oui_match (221, None)) ?es (0 + 1) ?buf buf'"
    unfolding k by auto
  then have t: "take 1 buf' = [9]" "holds_at buf' 1 [0, 1, 65, 3, 1, 6]"
    unfolding tlv_removed_def k by auto
  have "take 7 buf' = take 1 buf' @ take 6 (drop 1 buf')"
    using take_add [of 1 6 buf'] by simp
  also have "\<dots> = [9, 0, 1, 65, 3, 1, 6]"
    using t(1) holds_at_take [OF t(2)] by (simp add: eval_nat_numeral)
  finally show ?thesis using r by blast
qed

text \<open>Round trip of an element: what \<open>rtw_set_ie\<close> writes is found again by \<open>rtw_get_ie\<close>
  with its length and contents, the frame length grows by its size, and the bytes before and
  behind it keep their values.\<close>

theorem rtw_set_ie_get_ie:
  assumes "p + length d + 2 \<le> length buf" and "length d < 256" and "index < 256"
  shows "\<exists>buf'. rtw_set_ie buf p index (length d) d (Some n) =
      Inr (buf', p + length d + 2, Some ((n + (length d + 2)) mod 2 ^ 32)) \<and>
    rtw_get_ie buf' p index len0 (int (length d + 2)) = Inr (Some p, length d) \<and>
    rdn buf' (p + 2) (length d) = Inr d \<and>
    take p buf' = take p buf \<and> drop (p + length d + 2) buf' = drop (p + length d + 2) buf"
proof -
  let ?e = "(of_nat index, d) :: ie_elem"
  let ?b = "written buf p (enc_ie ?e)"
  have fits: "p + length (enc_ie ?e) \<le> length buf" using assms(1) by simp
  have h: "holds_at ?b p (enc_ie ?e)" using written_holds [OF fits] by simp
  then have d: "holds_at ?b (p + 2) d" by simp
  have "rtw_get_ie_loop ?b p index (length (enc_ie ?e)) 0 = Inr (Some p, length d)"
    using get_ie.walk_step [where k = index and e = ?e and b = p and buf = ?b and c = 0
        and lim = "length (enc_ie ?e)"] h assms by (simp add: wf_ie_def written_length [OF fits])
  then have "rtw_get_ie ?b p index len0 (int (length d + 2)) = Inr (Some p, length d)"
    by (simp add: rtw_get_ie_def nat_add_distrib)
  with rtw_set_ie_written [OF assms(1) rdn_self, of index "Some n"] holds_at_rdn [OF d]
    written_take [OF fits] written_drop [OF fits refl]
  show ?thesis by (intro exI [of _ ?b]) (simp add: add.assoc)
qed

theorem rtw_set_ie_get_ie_witness:
  "\<exists>buf'. rtw_set_ie [9, 9, 9, 9, 9] 1 3 1 [6] (Some 0) = Inr (buf', 4, Some 3) \<and>
    rtw_get_ie buf' 1 3 0 3 = Inr (Some 1, 1)"
  using rtw_set_ie_get_ie [of 1 "[6]" "[9, 9, 9, 9, 9]" 3 0 0] by auto

text \<open>The mesh channel switch element is written with the identifier 24: the constant of the
  call is the hexadecimal 0x118, of which the low byte remains, where the identifier of that
  element is 118.\<close>

theorem rtw_set_ie_mesh_id:
  assumes "p + 8 \<le> length buf"
  shows "\<exists>buf'. rtw_set_ie_mesh_ch_switch_parm buf p None ttl flags reason precedence =
      Inr (buf', p + 8, None) \<and> holds_at buf' p ([24, 6, ttl, flags] @ put_le16 reason @ put_le16 precedence)"
proof -
  let ?d = "[ttl, flags] @ put_le16 reason @ put_le16 precedence"
  let ?b = "written buf p (enc_ie (of_nat 0x118, ?d))"
  have l: "length ?d = 6" by simp
  have "rdn ?d 0 (length ?d) = Inr ?d" by (rule rdn_self)
  from rtw_set_ie_written [OF _ this, of p buf "0x118" None] assms
  have "rtw_set_ie_mesh_ch_switch_parm buf p None ttl flags reason precedence = Inr (?b, p + 8, None)"
    unfolding rtw_set_ie_mesh_ch_switch_parm_def l by simp
  moreover have "holds_at ?b p (enc_ie (of_nat 0x118, ?d))"
    using assms by (intro written_holds) simp
  ultimately show ?thesis by (auto simp: put_le16_def)
qed

theorem rtw_set_ie_mesh_id_witness:
  "\<exists>buf'. rtw_set_ie_mesh_ch_switch_parm [0, 0, 0, 0, 0, 0, 0, 0] 0 None 5 1 2 3 = Inr (buf', 8, None) \<and>
    holds_at buf' 0 [24, 6, 5, 1, 2, 0, 3, 0]"
  using rtw_set_ie_mesh_id [of 0 "[0, 0, 0, 0, 0, 0, 0, 0]" 5 1 2 3] by (auto simp: put_le16_def)

end
