(* ===== verification/Rates.thy ===== *)
theory Rates
  imports Ie
begin

text \<open>
  Legacy rate sets (core/rtw_ieee80211.c): rates in units of 500 kbit/s with the basic-rate flag
  in bit 7, the classification of a network by its rates, the rate set of a wireless mode, the
  removal of OFDM rates from the rate elements, and the beacon contents of an ad hoc network.
  A zero-terminated rate array is read through a pointer; running over its end is an error.
\<close>

section \<open>Classification\<close>

text \<open>The test \<open>(rate & 0x7f) == 2, 4, 11 or 22\<close>, written out in four routines.\<close>

definition cck_rate :: "u8 \<Rightarrow> bool" where
  "cck_rate r \<longleftrightarrow> r AND 0x7f = 2 \<or> r AND 0x7f = 4 \<or> r AND 0x7f = 11 \<or> r AND 0x7f = 22"

definition dot11_rate_table :: "u8 list" where
  "dot11_rate_table = [2, 4, 11, 22, 12, 18, 24, 36, 48, 72, 96, 108, 0]"

fun bit_value_loop :: "u8 list \<Rightarrow> nat \<Rightarrow> u8 \<Rightarrow> int cres" where
  "bit_value_loop [] i v = Inl OutOfBounds"
| "bit_value_loop (r # rs) i v =
     (if r \<noteq> 0 then if r = v then Inr (2 ^ i) else bit_value_loop rs (Suc i) v else Inr 0)"

definition rtw_get_bit_value_from_ieee_value :: "u8 \<Rightarrow> int cres" where
  "rtw_get_bit_value_from_ieee_value v = bit_value_loop dot11_rate_table 0 v"

text \<open>\<open>rate\<close> is the array behind the pointer. The second argument is the number of rates left.\<close>

fun rtw_get_cckrate_size :: "u8 list \<Rightarrow> nat \<Rightarrow> nat cres" where
  "rtw_get_cckrate_size rate 0 = Inr 0"
| "rtw_get_cckrate_size [] (Suc n) = Inl OutOfBounds"
| "rtw_get_cckrate_size (r # rate) (Suc n) =
     (if cck_rate r then bindc (rtw_get_cckrate_size rate n) (\<lambda>i. Inr (Suc i)) else Inr 0)"

fun rtw_is_cckrates_included :: "u8 list \<Rightarrow> bool cres" where
  "rtw_is_cckrates_included [] = Inl OutOfBounds"
| "rtw_is_cckrates_included (r # rate) =
     (if r \<noteq> 0 then if cck_rate r then Inr True else rtw_is_cckrates_included rate else Inr False)"

fun rtw_is_cckratesonly_included :: "u8 list \<Rightarrow> bool cres" where
  "rtw_is_cckratesonly_included [] = Inl OutOfBounds"
| "rtw_is_cckratesonly_included (r # rate) =
     (if r \<noteq> 0 then if \<not> cck_rate r then Inr False else rtw_is_cckratesonly_included rate
      else Inr True)"

definition WIRELESS_INVALID :: u32 where "WIRELESS_INVALID = 0"
definition WIRELESS_11B :: u32 where "WIRELESS_11B = 1"
definition WIRELESS_11G :: u32 where "WIRELESS_11G = 2"
definition WIRELESS_11A :: u32 where "WIRELESS_11A = 4"
definition WIRELESS_11_24N :: u32 where "WIRELESS_11_24N = 8"
definition WIRELESS_11_5N :: u32 where "WIRELESS_11_5N = 16"
definition WIRELESS_11AC :: u32 where "WIRELESS_11AC = 64"
definition WIRELESS_11BG :: u32 where "WIRELESS_11BG = WIRELESS_11B OR WIRELESS_11G"
definition WIRELESS_11G_24N :: u32 where "WIRELESS_11G_24N = WIRELESS_11G OR WIRELESS_11_24N"
definition WIRELESS_11A_5N :: u32 where "WIRELESS_11A_5N = WIRELESS_11A OR WIRELESS_11_5N"
definition WIRELESS_11BG_24N :: u32 where
  "WIRELESS_11BG_24N = WIRELESS_11B OR WIRELESS_11G OR WIRELESS_11_24N"
definition WIRELESS_11_5AC :: u32 where "WIRELESS_11_5AC = WIRELESS_11A OR WIRELESS_11AC"
definition WIRELESS_11ABGN :: u32 where
  "WIRELESS_11ABGN =
     WIRELESS_11A OR WIRELESS_11B OR WIRELESS_11G OR WIRELESS_11_24N OR WIRELESS_11_5N"
definition WIRELESS_MODE_MAX :: u32 where
  "WIRELESS_MODE_MAX = WIRELESS_11A OR WIRELESS_11B OR WIRELESS_11G OR WIRELESS_11_24N OR
     WIRELESS_11_5N OR WIRELESS_11AC"

lemmas wireless_modes = WIRELESS_INVALID_def WIRELESS_11B_def WIRELESS_11G_def WIRELESS_11A_def
  WIRELESS_11_24N_def WIRELESS_11_5N_def WIRELESS_11AC_def WIRELESS_11BG_def WIRELESS_11G_24N_def
  WIRELESS_11A_5N_def WIRELESS_11BG_24N_def WIRELESS_11_5AC_def WIRELESS_11ABGN_def
  WIRELESS_MODE_MAX_def

definition rtw_check_network_type :: "u8 list \<Rightarrow> int \<Rightarrow> u32 cres" where
  "rtw_check_network_type rate channel =
     (if channel > 14 then
        bindc (rtw_is_cckrates_included rate) (\<lambda>incl.
        Inr (if incl then WIRELESS_INVALID else WIRELESS_11A))
      else
        bindc (rtw_is_cckratesonly_included rate) (\<lambda>only.
        if only then Inr WIRELESS_11B
        else bindc (rtw_is_cckrates_included rate) (\<lambda>incl.
          Inr (if incl then WIRELESS_11BG else WIRELESS_11G))))"

section \<open>The rate set of a wireless mode\<close>

definition WIFI_CCKRATES :: "u8 list" where
  "WIFI_CCKRATES = [0x02 OR 0x80, 0x04 OR 0x80, 0x0B OR 0x80, 0x16 OR 0x80]"

definition WIFI_OFDMRATES :: "u8 list" where
  "WIFI_OFDMRATES = [0x0C, 0x12, 0x18, 0x24, 0x30, 0x48, 0x60, 0x6C]"

definition rtw_set_supported_rate :: "u8 list \<Rightarrow> u32 \<Rightarrow> u8 list cres" where
  "rtw_set_supported_rate SupportedRates mode =
     bindc (memset SupportedRates 0 0 16) (\<lambda>rates.
     if mode = WIRELESS_11B then wrn rates 0 (take 4 WIFI_CCKRATES)
     else if mode \<in> {WIRELESS_11G, WIRELESS_11A, WIRELESS_11_5N, WIRELESS_11A_5N, WIRELESS_11_5AC}
     then wrn rates 0 (take 8 WIFI_OFDMRATES)
     else if mode \<in> {WIRELESS_11BG, WIRELESS_11G_24N, WIRELESS_11_24N, WIRELESS_11BG_24N}
     then bindc (wrn rates 0 (take 4 WIFI_CCKRATES)) (\<lambda>rates. wrn rates 4 (take 8 WIFI_OFDMRATES))
     else Inr rates)"

function rateset_len_loop :: "u8 list \<Rightarrow> nat \<Rightarrow> nat cres" where
  "rateset_len_loop rateset i =
     bindc (rd rateset i) (\<lambda>r. if r = 0 then Inr i else if i > 12 then Inr i
       else rateset_len_loop rateset (Suc i))"
  by pat_completeness auto
termination by (relation "measure (\<lambda>(rateset, i). 14 - i)") auto

definition rtw_get_rateset_len :: "u8 list \<Rightarrow> nat cres" where
  "rtw_get_rateset_len rateset = rateset_len_loop rateset 0"

section \<open>Removing the OFDM rates of a rate element\<close>

fun remove_ie_g_rate_loop ::
  "nat \<Rightarrow> u8 list \<Rightarrow> nat \<Rightarrow> nat \<Rightarrow> nat \<Rightarrow> nat \<Rightarrow> nat \<Rightarrow> nat \<Rightarrow> (u8 list \<times> nat \<times> nat) cres" where
  "remove_ie_g_rate_loop 0 buf start search_len ie_len eid len0 ret = Inl NoReturn"
| "remove_ie_g_rate_loop (Suc fuel) buf start search_len ie_len eid len0 ret =
     bindc (rtw_get_ie buf start eid len0 (sint32 search_len)) (\<lambda>(tem_target_ie, len).
     case tem_target_ie of
       Some t \<Rightarrow>
         (if len = 0 then Inr (buf, ie_len, ret)
          else bindc (rtw_get_cckrate_size (drop (t + 2) buf) len) (\<lambda>cck_rate_size.
            let rm_size = usub32 len cck_rate_size;
                remain_ies = t + (len + 2);
                remain_len = usub32 search_len (remain_ies - start);
                target_ie = t + cck_rate_size + 2
            in bindc (wrn buf (t + 1) [of_nat cck_rate_size]) (\<lambda>buf1.
               bindc (memmove buf1 target_ie remain_ies remain_len) (\<lambda>buf2.
               remove_ie_g_rate_loop fuel buf2 target_ie remain_len (usub32 ie_len rm_size) eid
                 (len + 2) rm_size))))
     | None \<Rightarrow> Inr (buf, ie_len, ret))"

text \<open>The result is the size removed by the last step, or 0 (\<open>_FAIL\<close>).\<close>

definition rtw_remove_ie_g_rate ::
  "u8 list \<Rightarrow> nat option \<Rightarrow> nat option \<Rightarrow> nat \<Rightarrow> nat \<Rightarrow> (u8 list \<times> nat option \<times> nat) cres" where
  "rtw_remove_ie_g_rate buf ie ie_len offset eid =
     (case (ie, ie_len) of
        (Some p, Some l) \<Rightarrow>
          (if l \<le> offset then Inr (buf, ie_len, 0)
           else bindc (remove_ie_g_rate_loop (Suc l) buf (p + offset) (l - offset) l eid 0 0)
             (\<lambda>(buf', l', ret). Inr (buf', Some l', ret)))
      | _ \<Rightarrow> Inr (buf, ie_len, 0))"

section \<open>The elements of an ad hoc network\<close>

record dev_network =
  SsidLength :: u32
  Ssid :: "u8 list"
  Privacy :: u32
  BeaconPeriod :: u32
  ATIMWindow :: u32
  DSConfig :: u32
  SupportedRates :: "u8 list"
  IEs :: "u8 list"

record registry_priv =
  wireless_mode :: u8
  preamble :: u8
  dev_network :: dev_network

definition generate_ie_capability :: "registry_priv \<Rightarrow> u16" where
  "generate_ie_capability reg =
     (let c = 0 OR 0x02;
          c = (if preamble reg = 3 then c OR 0x20 else c);
          c = (if Privacy (dev_network reg) \<noteq> 0 then c OR 0x10 else c)
      in c)"

definition generate_ie_mode :: "registry_priv \<Rightarrow> u32" where
  "generate_ie_mode reg =
     (let m = ucast (wireless_mode reg); ch = DSConfig (dev_network reg) in
      if m = WIRELESS_11ABGN then (if ch > 14 then WIRELESS_11A_5N else WIRELESS_11BG_24N)
      else if m = WIRELESS_MODE_MAX then (if ch > 14 then WIRELESS_11_5AC else WIRELESS_11BG_24N)
      else m)"

definition rtw_generate_ie :: "registry_priv \<Rightarrow> (nat option \<times> registry_priv) cres" where
  "rtw_generate_ie reg =
     (let net = dev_network reg in
      bindc (wrn (IEs net) 8 (put_le16 (ucast (BeaconPeriod net)))) (\<lambda>ies.
      bindc (wrn ies 10 (put_le16 (generate_ie_capability reg))) (\<lambda>ies.
      bindc (rtw_set_ie ies 12 0 (unat (SsidLength net)) (Ssid net) (Some 12)) (\<lambda>(ies, p, sz).
      bindc (rtw_set_supported_rate (SupportedRates net) (generate_ie_mode reg)) (\<lambda>rates.
      bindc (rtw_get_rateset_len rates) (\<lambda>rateLen.
      bindc (rtw_set_ie ies p 1 (if rateLen > 8 then 8 else rateLen) rates sz) (\<lambda>(ies, p, sz).
      bindc (rtw_set_ie ies p 3 1 (put_le32 (DSConfig net)) sz) (\<lambda>(ies, p, sz).
      bindc (rtw_set_ie ies p 6 2 (put_le32 (ATIMWindow net)) sz) (\<lambda>(ies, p, sz).
      bindc (if rateLen > 8 then rtw_set_ie ies p 50 (rateLen - 8) (drop 8 rates) sz
             else Inr (ies, p, sz)) (\<lambda>(ies, p, sz).
      Inr (sz, reg\<lparr>dev_network := net\<lparr>SupportedRates := rates, IEs := ies\<rparr>\<rparr>)))))))))))"

section \<open>What classification means\<close>

lemma cckrates_included_terminated:
  "0 \<notin> set rs \<Longrightarrow> rtw_is_cckrates_included (rs @ 0 # rest) = Inr (\<exists>r \<in> set rs. cck_rate r)"
  by (induction rs) auto

lemma cckratesonly_terminated:
  "0 \<notin> set rs \<Longrightarrow> rtw_is_cckratesonly_included (rs @ 0 # rest) = Inr (\<forall>r \<in> set rs. cck_rate r)"
  by (induction rs) auto

lemma cckrate_size_prefix:
  "rtw_get_cckrate_size (rs @ rest) (length rs) = Inr (length (takeWhile cck_rate rs))"
  by (induction rs) auto

definition mode_rates :: "u32 \<Rightarrow> u8 list" where
  "mode_rates mode =
     (if mode = WIRELESS_11B then WIFI_CCKRATES
      else if mode \<in> {WIRELESS_11G, WIRELESS_11A, WIRELESS_11_5N, WIRELESS_11A_5N, WIRELESS_11_5AC}
      then WIFI_OFDMRATES
      else if mode \<in> {WIRELESS_11BG, WIRELESS_11G_24N, WIRELESS_11_24N, WIRELESS_11BG_24N}
      then WIFI_CCKRATES @ WIFI_OFDMRATES else [])"

lemma mode_rates_legacy [simp]:
  "mode_rates WIRELESS_11B = WIFI_CCKRATES" "mode_rates WIRELESS_11G = WIFI_OFDMRATES"
  "mode_rates WIRELESS_11A = WIFI_OFDMRATES" "mode_rates WIRELESS_11BG = WIFI_CCKRATES @ WIFI_OFDMRATES"
  by (simp_all add: mode_rates_def wireless_modes)

lemma mode_rates_cases:
  "mode_rates mode \<in> {WIFI_CCKRATES, WIFI_OFDMRATES, WIFI_CCKRATES @ WIFI_OFDMRATES, []}"
  unfolding mode_rates_def by (simp split: if_split)

lemma rates_length [simp]: "length WIFI_CCKRATES = 4" "length WIFI_OFDMRATES = 8"
  by (simp_all add: WIFI_CCKRATES_def WIFI_OFDMRATES_def)

lemma mode_rates_length: "length (mode_rates mode) \<le> 12"
  using mode_rates_cases [of mode] by auto

lemma mode_rates_nonzero: "0 \<notin> set (mode_rates mode)"
  using mode_rates_cases [of mode] by (auto simp: WIFI_CCKRATES_def WIFI_OFDMRATES_def)

lemma set_supported_rate_eq:
  assumes "length old = 16"
  shows "rtw_set_supported_rate old mode =
    Inr (mode_rates mode @ replicate (16 - length (mode_rates mode)) 0)"
proof -
  have ms: "memset old 0 0 16 = Inr (replicate 16 0)"
    using assms by (simp add: memset_def wrn_def)
  have rep: "drop n (replicate 16 (0 :: u8)) = replicate (16 - n) 0" for n by simp
  have w: "wrn (replicate 16 0) 0 (take 4 WIFI_CCKRATES) = Inr (WIFI_CCKRATES @ replicate 12 0)"
    "wrn (replicate 16 0) 0 (take 8 WIFI_OFDMRATES) = Inr (WIFI_OFDMRATES @ replicate 8 0)"
    by (simp_all add: wrn_def rep)
  have w2: "wrn (WIFI_CCKRATES @ replicate 12 0) 4 WIFI_OFDMRATES =
      Inr (WIFI_CCKRATES @ WIFI_OFDMRATES @ replicate 4 0)"
    by (simp add: wrn_def)
  show ?thesis
    unfolding rtw_set_supported_rate_def ms mode_rates_def bindc_Inr w
    by (simp add: w2 split: if_split)
qed

declare rateset_len_loop.simps [simp del]

lemma rateset_len_terminated:
  assumes "0 \<notin> set rs" and "length rs \<le> 13"
  shows "rtw_get_rateset_len (rs @ 0 # rest) = Inr (length rs)"
proof -
  have "i \<le> length rs \<Longrightarrow> rateset_len_loop (rs @ 0 # rest) i = Inr (length rs)" for i
  proof (induction "length rs - i" arbitrary: i)
    case 0
    then have "i = length rs" by simp
    then show ?case by (subst rateset_len_loop.simps) (simp add: rd_def nth_append)
  next
    case (Suc n)
    then have i: "i < length rs" by simp
    then have "rs ! i \<noteq> 0" using assms(1) by (metis nth_mem)
    with i assms(2) Suc.hyps Suc.prems show ?case
      by (subst rateset_len_loop.simps) (simp add: rd_def nth_append)
  qed
  then show ?thesis by (simp add: rtw_get_rateset_len_def)
qed

lemma mode_rates_padded:
  "\<exists>rest. mode_rates mode @ replicate (16 - length (mode_rates mode)) 0 = mode_rates mode @ 0 # rest"
  using mode_rates_length [of mode] by (intro exI [of _ "replicate (15 - length (mode_rates mode)) 0"])
    (simp add: Suc_diff_le flip: replicate_Suc)

lemma network_type_terminated:
  assumes "0 \<notin> set rs"
  shows "rtw_check_network_type (rs @ 0 # rest) channel =
    Inr (if channel > 14 then (if \<exists>r \<in> set rs. cck_rate r then WIRELESS_INVALID else WIRELESS_11A)
         else if \<forall>r \<in> set rs. cck_rate r then WIRELESS_11B
         else if \<exists>r \<in> set rs. cck_rate r then WIRELESS_11BG else WIRELESS_11G)"
  by (simp add: rtw_check_network_type_def cckrates_included_terminated [OF assms]
      cckratesonly_terminated [OF assms])

text \<open>Classification of a zero-terminated rate set: above channel 14 a set with a CCK rate is
  invalid and any other is 11a; up to channel 14 a set of only CCK rates is 11b, a mixed one
  11b/g, one without CCK rates 11g. Basic-rate flags play no part. The empty set counts as 11b.\<close>

theorem rtw_check_network_type_spec:
  assumes "0 \<notin> set rs"
  shows "rtw_check_network_type (rs @ 0 # rest) channel =
    Inr (if channel > 14 then (if \<exists>r \<in> set rs. cck_rate r then WIRELESS_INVALID else WIRELESS_11A)
         else if \<forall>r \<in> set rs. cck_rate r then WIRELESS_11B
         else if \<exists>r \<in> set rs. cck_rate r then WIRELESS_11BG else WIRELESS_11G)"
  by (rule network_type_terminated [OF assms])

theorem rtw_check_network_type_spec_witness:
  "rtw_check_network_type [0x82, 0x84, 12, 0] 6 = Inr WIRELESS_11BG"
  using rtw_check_network_type_spec [of "[0x82, 0x84, 12]" "[]" 6] by (simp add: cck_rate_def)

text \<open>The rate set of each mode, whatever the array held before: its length is the one
  \<open>rtw_get_rateset_len\<close> counts, and the legacy modes are recovered by the classification.\<close>

theorem rtw_set_supported_rate_network_type:
  assumes "length old = 16"
  shows "\<exists>r. rtw_set_supported_rate old mode = Inr r \<and> length r = 16 \<and>
    rtw_get_rateset_len r = Inr (length (mode_rates mode)) \<and>
    (mode \<in> {WIRELESS_11B, WIRELESS_11G, WIRELESS_11BG} \<and> channel \<le> 14 \<or>
     mode = WIRELESS_11A \<and> channel > 14 \<longrightarrow> rtw_check_network_type r channel = Inr mode)"
proof -
  obtain rest where r: "mode_rates mode @ replicate (16 - length (mode_rates mode)) 0 =
      mode_rates mode @ 0 # rest" using mode_rates_padded by blast
  have cck: "\<forall>r \<in> set WIFI_CCKRATES. cck_rate r" "\<forall>r \<in> set WIFI_OFDMRATES. \<not> cck_rate r"
    by (simp_all add: WIFI_CCKRATES_def WIFI_OFDMRATES_def cck_rate_def)
  have ne: "WIFI_CCKRATES \<noteq> []" "WIFI_OFDMRATES \<noteq> []"
    by (simp_all add: WIFI_CCKRATES_def WIFI_OFDMRATES_def)
  have ty: "rtw_check_network_type (mode_rates mode @ 0 # rest) channel = Inr mode"
    if m: "mode \<in> {WIRELESS_11B, WIRELESS_11G, WIRELESS_11BG} \<and> channel \<le> 14 \<or>
     mode = WIRELESS_11A \<and> channel > 14"
  proof -
    consider "mode = WIRELESS_11B" "channel \<le> 14" | "mode = WIRELESS_11G" "channel \<le> 14"
      | "mode = WIRELESS_11BG" "channel \<le> 14" | "mode = WIRELESS_11A" "channel > 14"
      using m by blast
    then show ?thesis
      unfolding network_type_terminated [OF mode_rates_nonzero] using cck ne
      by cases (auto simp: not_less dest: hd_in_set)
  qed
  have len: "length (mode_rates mode @ 0 # rest) = 16"
    using mode_rates_length [of mode] by (simp flip: r)
  have "rtw_get_rateset_len (mode_rates mode @ 0 # rest) = Inr (length (mode_rates mode))"
    using mode_rates_length [of mode] by (intro rateset_len_terminated mode_rates_nonzero) simp
  then show ?thesis using set_supported_rate_eq [OF assms, of mode] ty len unfolding r by blast
qed

theorem rtw_set_supported_rate_network_type_witness:
  "\<exists>r. rtw_set_supported_rate (replicate 16 7) WIRELESS_11G = Inr r \<and>
     rtw_check_network_type r 6 = Inr WIRELESS_11G"
proof -
  have "length (replicate 16 7 :: u8 list) = 16" by (rule length_replicate)
  from rtw_set_supported_rate_network_type [OF this, of WIRELESS_11G 6] obtain r where
    "rtw_set_supported_rate (replicate 16 7) WIRELESS_11G = Inr r"
    "WIRELESS_11G \<in> {WIRELESS_11B, WIRELESS_11G, WIRELESS_11BG} \<and> (6 :: int) \<le> 14 \<or>
     WIRELESS_11G = WIRELESS_11A \<and> (6 :: int) > 14 \<longrightarrow> rtw_check_network_type r 6 = Inr WIRELESS_11G"
    by (elim exE conjE)
  moreover have "(6 :: int) \<le> 14" by simp
  ultimately show ?thesis by blast
qed

section \<open>The elements of an ad hoc network, written\<close>

definition ibss_ies :: "registry_priv \<Rightarrow> ie_elem list" where
  "ibss_ies reg =
     (let net = dev_network reg; rates = mode_rates (generate_ie_mode reg) in
      [(0, take (unat (SsidLength net)) (Ssid net)), (1, take 8 rates),
       (3, take 1 (put_le32 (DSConfig net))), (6, take 2 (put_le32 (ATIMWindow net)))] @
      (if length rates > 8 then [(50, drop 8 rates)] else []))"

text \<open>\<open>rtw_generate_ie\<close> leaves the 8 timestamp bytes to the hardware and writes the beacon
  interval, the capability field and then, as well-formed elements, the SSID, up to eight rates
  of the mode, the channel, the ATIM window and the remaining rates. It returns the total length,
  which stays inside the 768 bytes of the element buffer.\<close>

theorem rtw_generate_ie_layout:
  assumes "length (IEs (dev_network reg)) = 768" and "length (SupportedRates (dev_network reg)) = 16"
    and "length (Ssid (dev_network reg)) = 32" and "SsidLength (dev_network reg) \<le> 32"
  shows "\<exists>reg'. rtw_generate_ie reg = Inr (Some (12 + length (ies_bytes (ibss_ies reg))), reg') \<and>
    IEs (dev_network reg') = written (IEs (dev_network reg)) 8
      (put_le16 (ucast (BeaconPeriod (dev_network reg))) @ put_le16 (generate_ie_capability reg) @
       ies_bytes (ibss_ies reg)) \<and>
    (\<forall>e \<in> set (ibss_ies reg). wf_ie e) \<and> 12 + length (ies_bytes (ibss_ies reg)) \<le> 768"
proof -
  let ?net = "dev_network reg" and ?m = "generate_ie_mode reg"
  let ?R = "mode_rates ?m" and ?b = "IEs (dev_network reg)"
  let ?fix = "put_le16 (ucast (BeaconPeriod ?net)) @ put_le16 (generate_ie_capability reg)"
  define n where "n = unat (SsidLength ?net)"
  define ssid where "ssid = take n (Ssid ?net)"
  have n: "n \<le> 32" using assms(4) by (simp add: n_def word_le_nat_alt)
  have ssid: "length ssid = n" "rdn (Ssid ?net) 0 n = Inr ssid"
    using n assms(3) by (simp_all add: ssid_def rdn_def)
  obtain rest where pad: "?R @ replicate (16 - length ?R) 0 = ?R @ 0 # rest"
    using mode_rates_padded by blast
  have R: "length ?R \<le> 12" by (rule mode_rates_length)
  then have R2: "rtw_get_rateset_len (?R @ 0 # rest) = Inr (length ?R)"
    by (intro rateset_len_terminated mode_rates_nonzero) simp
  define rates where "rates = ?R @ 0 # rest"
  define k where "k = (if length ?R > 8 then 8 else length ?R)"
  have rates: "rtw_set_supported_rate (SupportedRates ?net) ?m = Inr rates"
    "rtw_get_rateset_len rates = Inr (length ?R)"
    using set_supported_rate_eq [OF assms(2), of ?m] pad R2 by (simp_all add: rates_def)
  have rd: "rdn rates 0 k = Inr (take 8 ?R)" "length (take 8 ?R) = k"
    "length ?R > 8 \<Longrightarrow> rdn (drop 8 rates) 0 (length ?R - 8) = Inr (drop 8 ?R)"
    "rdn (put_le32 w) 0 1 = Inr (take 1 (put_le32 w))"
    "rdn (put_le32 w) 0 2 = Inr (take 2 (put_le32 w))" for w
    using R by (auto simp: rdn_def rates_def k_def put_le32_def)
  have fix1: "wrn ?b 8 (put_le16 x) = Inr (written ?b 8 (put_le16 x))"
    "wrn (written ?b 8 (put_le16 x)) 10 (put_le16 y) = Inr (written ?b 8 (put_le16 x @ put_le16 y))" for x y
    using assms(1) by (simp_all add: wrn_written written_append)
  let ?s = "written ?b 8"
  let ?e0 = "enc_ie (of_nat 0, ssid)" and ?e1 = "enc_ie (of_nat 1, take 8 ?R)"
  let ?e2 = "enc_ie (of_nat 3, take 1 (put_le32 (DSConfig ?net)))"
  let ?e3 = "enc_ie (of_nat 6, take 2 (put_le32 (ATIMWindow ?net)))"
  let ?e4 = "enc_ie (of_nat 50, drop 8 ?R)"
  have k: "k \<le> 8" by (simp add: k_def)
  have s0: "rtw_set_ie (?s ?fix) 12 0 n (Ssid ?net) (Some 12) = Inr (?s (?fix @ ?e0), 14 + n, Some (14 + n))"
    using rtw_set_ie_append [of 12 8 ?fix n ssid "Ssid ?net" ?b 12 0] assms(1) ssid n by simp
  have s1: "rtw_set_ie (?s (?fix @ ?e0)) (14 + n) 1 k rates (Some (14 + n)) =
      Inr (?s (?fix @ ?e0 @ ?e1), 16 + n + k, Some (16 + n + k))"
    using rtw_set_ie_append [of "14 + n" 8 "?fix @ ?e0" k "take 8 ?R" rates ?b "14 + n" 1]
      assms(1) ssid n rd(1,2) k by simp
  have s2: "rtw_set_ie (?s (?fix @ ?e0 @ ?e1)) (16 + n + k) 3 1 (put_le32 (DSConfig ?net)) (Some (16 + n + k)) =
      Inr (?s (?fix @ ?e0 @ ?e1 @ ?e2), 19 + n + k, Some (19 + n + k))"
    using rtw_set_ie_append [of "16 + n + k" 8 "?fix @ ?e0 @ ?e1" 1 "take 1 (put_le32 (DSConfig ?net))"
        "put_le32 (DSConfig ?net)" ?b "16 + n + k" 3] assms(1) ssid n rd k by simp
  have s3: "rtw_set_ie (?s (?fix @ ?e0 @ ?e1 @ ?e2)) (19 + n + k) 6 2 (put_le32 (ATIMWindow ?net)) (Some (19 + n + k)) =
      Inr (?s (?fix @ ?e0 @ ?e1 @ ?e2 @ ?e3), 23 + n + k, Some (23 + n + k))"
    using rtw_set_ie_append [of "19 + n + k" 8 "?fix @ ?e0 @ ?e1 @ ?e2" 2 "take 2 (put_le32 (ATIMWindow ?net))"
        "put_le32 (ATIMWindow ?net)" ?b "19 + n + k" 6] assms(1) ssid n rd k by simp
  have s4: "rtw_set_ie (?s (?fix @ ?e0 @ ?e1 @ ?e2 @ ?e3)) (23 + n + k) 50 (length ?R - 8) (drop 8 rates) (Some (23 + n + k)) =
      Inr (?s (?fix @ ?e0 @ ?e1 @ ?e2 @ ?e3 @ ?e4), 25 + n + length ?R, Some (25 + n + length ?R))"
    if "length ?R > 8"
    using rtw_set_ie_append [of "23 + n + k" 8 "?fix @ ?e0 @ ?e1 @ ?e2 @ ?e3" "length ?R - 8" "drop 8 ?R"
        "drop 8 rates" ?b "23 + n + k" 50] that assms(1) ssid n rd R by (simp add: k_def)
  have es: "ies_bytes (ibss_ies reg) = ?e0 @ ?e1 @ ?e2 @ ?e3 @ (if length ?R > 8 then ?e4 else [])"
    by (simp add: ibss_ies_def ssid_def n_def Let_def)
  have wf: "\<forall>e \<in> set (ibss_ies reg). wf_ie e"
    using ssid n R by (auto simp: ibss_ies_def wf_ie_def n_def ssid_def Let_def)
  have len: "12 + length (ies_bytes (ibss_ies reg)) = (if length ?R > 8 then 25 + n + length ?R else 23 + n + k)"
    using rd(2) ssid R by (auto simp: es k_def put_le32_def)
  have run: "rtw_generate_ie reg = Inr (Some (12 + length (ies_bytes (ibss_ies reg))),
      reg\<lparr>dev_network := ?net\<lparr>SupportedRates := rates, IEs := ?s (?fix @ ies_bytes (ibss_ies reg))\<rparr>\<rparr>)"
    unfolding rtw_generate_ie_def Let_def fix1 bindc_Inr rates n_def [symmetric] s0 prod.case
      k_def [symmetric] s1 s2 s3 len
    using s4 by (simp add: es)
  show ?thesis using run wf len n k R by (intro exI conjI) (auto simp: fix1 split: if_splits)
qed

section \<open>Removing the OFDM rates, on elements\<close>

definition cck_only :: "nat \<Rightarrow> ie_elem \<Rightarrow> ie_elem" where
  "cck_only eid e = (if unat (fst e) = eid then (fst e, takeWhile cck_rate (snd e)) else e)"

lemma cck_only_shorter: "length (enc_ie (cck_only eid e)) \<le> length (enc_ie e)"
  by (simp add: cck_only_def length_takeWhile_le)

lemma cck_only_total: "length (ies_bytes (map (cck_only eid) es)) \<le> length (ies_bytes es)"
  using cck_only_shorter [of eid] by (induction es) (auto simp: add_mono)

lemma cck_only_id: "\<forall>e \<in> set es. unat (fst e) \<noteq> eid \<Longrightarrow> map (cck_only eid) es = es"
  by (induction es) (auto simp: cck_only_def)

text \<open>One step: the length byte is rewritten and the rest moves up behind the CCK rates.\<close>

lemma remove_g_rate_step:
  fixes i :: u8
  assumes "holds_at buf start (ies_bytes es1 @ enc_ie (i, d) @ r)" and "length d < 256"
    and t: "t = start + length (ies_bytes es1)" and k: "k = length (takeWhile cck_rate d)"
  shows "\<exists>buf1 buf2. wrn buf (t + 1) [of_nat k] = Inr buf1 \<and>
    memmove buf1 (t + k + 2) (t + (length d + 2)) (length r) = Inr buf2 \<and>
    length buf2 = length buf \<and> take start buf2 = take start buf \<and>
    holds_at buf2 start (ies_bytes (es1 @ [(i, takeWhile cck_rate d)])) \<and> holds_at buf2 (t + k + 2) r \<and>
    drop (t + (length d + 2) + length r) buf2 = drop (t + (length d + 2) + length r) buf"
proof -
  let ?d = "takeWhile cck_rate d"
  have kd: "k \<le> length d" using k by (simp add: length_takeWhile_le)
  have bnd: "t + length d + 2 + length r \<le> length buf"
    using holds_at_length [OF assms(1)] by (simp add: t)
  have "holds_at buf start (ies_bytes es1)" and i: "buf ! t = i"
    and "holds_at buf (t + 2) (?d @ dropWhile cck_rate d)" and "holds_at buf (t + (length d + 2)) r"
    using assms(1) by (simp_all add: t ac_simps)
  note at = this(1) this(4) and d = this(3)
  let ?b1 = "written buf (t + 1) [of_nat k]"
  have w: "wrn buf (t + 1) [of_nat k] = Inr ?b1" using bnd by (intro wrn_written) simp
  have l1: "length ?b1 = length buf" using bnd by (intro written_length) simp
  have "holds_at buf t [i]" using i bnd by simp
  then have "holds_at ?b1 t [i]" using bnd by (intro holds_at_written_before) simp_all
  with written_holds [of "t + 1" "[of_nat k]" buf] bnd have b1a: "holds_at ?b1 t [i, of_nat k]"
    by simp
  have b1b: "holds_at ?b1 start (ies_bytes es1)"
    using at(1) bnd by (intro holds_at_written_before) (simp_all add: t)
  have b1c: "holds_at ?b1 (t + 2) ?d" "holds_at ?b1 (t + (length d + 2)) r"
    using at(2) d by (auto simp only: holds_at_append list.size intro!: holds_at_written_after)
  note b1 = b1b b1a b1c
  have le: "t + k + 2 + (length d - k) = t + (length d + 2)" using kd by simp
  obtain buf2 where mv: "memmove ?b1 (t + k + 2) (t + (length d + 2)) (length r) = Inr buf2"
    using bnd l1 kd by (simp add: memmove_def rdn_def wrn_def)
  note m = holds_at_memmove [OF mv [folded le] b1(4) [folded le]]
  have el: "holds_at ?b1 start (ies_bytes (es1 @ [(i, ?d)]))"
    using b1(1-3) by (simp add: t k)
  then have "holds_at buf2 start (ies_bytes (es1 @ [(i, ?d)]))"
    using m(2,3) bnd l1 kd by (intro holds_at_prefix [of "t + k + 2" buf2 ?b1]) (auto simp: t k)
  moreover have "take start buf2 = take start buf"
    using take_eq_mono [OF m(2), of start] take_eq_mono [OF written_take, of "t + 1" "[of_nat k]" buf start] bnd
    by (simp add: t)
  moreover have "drop (t + (length d + 2) + length r) ?b1 = drop (t + (length d + 2) + length r) buf"
    using drop_eq_mono [OF written_drop [OF _ refl], of "t + 1" "[of_nat k]" buf] bnd by simp
  moreover have "length buf2 = length buf" using m(3) l1 by simp
  moreover have "drop (t + (length d + 2) + length r) buf2 = drop (t + (length d + 2) + length r) ?b1"
    using m(4) le by simp
  ultimately show ?thesis using w mv m(1) by (intro exI [of _ ?b1] exI [of _ buf2]) simp
qed

lemma remove_g_rate_loop_elems:
  assumes "\<forall>e \<in> set es. wf_ie e \<and> (unat (fst e) = eid \<longrightarrow> snd e \<noteq> [])"
    and "holds_at buf start (ies_bytes es)" and "length (ies_bytes es) \<le> ie_len"
    and "ie_len < 2 ^ 31" and "length es < fuel"
  shows "\<exists>buf' ret'. remove_ie_g_rate_loop fuel buf start (length (ies_bytes es)) ie_len eid len0 ret =
      Inr (buf', ie_len - (length (ies_bytes es) - length (ies_bytes (map (cck_only eid) es))), ret') \<and>
    tlv_replaced enc_ie es (map (cck_only eid) es) start buf buf'"
  using assms
proof (induction fuel arbitrary: buf start es ie_len len0 ret)
  case 0
  then show ?case by simp
next
  case (Suc fuel)
  have lim: "sint32 (length (ies_bytes es)) = int (length (ies_bytes es))"
    using Suc.prems(3,4) by (intro sint32_small) simp
  have wf: "\<forall>e \<in> set es. wf_ie e" using Suc.prems(1) by blast
  note srch = rtw_get_ie_elems [OF wf Suc.prems(2), of eid len0]
  show ?case
  proof (cases "tlv_find enc_ie (\<lambda>e. unat (fst e) = eid) 0 es")
    case None
    then have none: "\<forall>e \<in> set es. unat (fst e) \<noteq> eid" by (simp add: tlv_find_None_iff)
    with None srch lim tlv_replaced_refl [OF Suc.prems(2)] show ?thesis by (simp add: cck_only_id)
  next
    case (Some a)
    then obtain c i d es1 es2 where a: "a = (c, (i, d))" and es: "es = (es1 @ [(i, d)]) @ es2"
      and e1: "\<forall>x \<in> set es1. unat (fst x) \<noteq> eid" and m: "unat i = eid" and c: "c = length (ies_bytes es1)"
      using tlv_find_Some_split [of enc_ie "\<lambda>e. unat (fst e) = eid" 0 es] by (cases a) fastforce
    let ?t = "start + c" and ?d = "takeWhile cck_rate d" and ?r = "ies_bytes es2"
    define k where "k = length ?d"
    have kd: "k \<le> length d" "length d < 256" "d \<noteq> []"
      using Suc.prems(1) m by (auto simp: k_def length_takeWhile_le es wf_ie_def)
    have tot: "length (ies_bytes es) = c + (length d + 2) + length ?r" by (simp add: es c)
    have h: "holds_at buf start (ies_bytes es1 @ enc_ie (i, d) @ ?r)" using Suc.prems(2) by (simp add: es)
    from remove_g_rate_step [OF h kd(2), of ?t k] c obtain buf1 buf2 where
      st: "wrn buf (?t + 1) [of_nat k] = Inr buf1"
      "memmove buf1 (?t + k + 2) (?t + (length d + 2)) (length ?r) = Inr buf2"
      and b2: "length buf2 = length buf" "take start buf2 = take start buf"
      "holds_at buf2 start (ies_bytes (es1 @ [(i, ?d)]))" "holds_at buf2 (?t + k + 2) ?r"
      "drop (?t + (length d + 2) + length ?r) buf2 = drop (?t + (length d + 2) + length ?r) buf"
      by (auto simp only: k_def)
    have "holds_at buf (?t + 2) d" using h by (simp add: c ac_simps)
    then have "drop (?t + 2) buf = d @ drop (length d) (drop (?t + 2) buf)"
      using append_take_drop_id [of "length d" "drop (?t + 2) buf"] by (simp add: holds_at_def)
    then have cck: "rtw_get_cckrate_size (drop (?t + 2) buf) (length d) = Inr k"
      using cckrate_size_prefix [of d] k_def by metis
    have "length ?r \<le> ie_len - (length d - k)" "ie_len - (length d - k) < 2 ^ 31" "length es2 < fuel"
      "\<forall>e \<in> set es2. wf_ie e \<and> (unat (fst e) = eid \<longrightarrow> snd e \<noteq> [])"
      using Suc.prems tot by (auto simp: es)
    from Suc.IH [OF this(4) b2(4) this(1,2,3), of "length d + 2" "length d - k"] obtain buf' ret' where
      run: "remove_ie_g_rate_loop fuel buf2 (?t + k + 2) (length ?r) (ie_len - (length d - k)) eid
          (length d + 2) (length d - k) =
        Inr (buf', ie_len - (length d - k) - (length ?r - length (ies_bytes (map (cck_only eid) es2))), ret')"
      and rep: "tlv_replaced enc_ie es2 (map (cck_only eid) es2) (?t + k + 2) buf2 buf'" by blast
    have mp: "map (cck_only eid) es = (es1 @ [(i, ?d)]) @ map (cck_only eid) es2"
      using cck_only_id [OF e1] m by (simp add: es cck_only_def)
    have "tlv_replaced enc_ie es (map (cck_only eid) es) start buf buf'"
      unfolding mp unfolding es using b2 kd(1)
      by (intro tlv_replaced_step [OF rep]) (simp_all add: c k_def add.assoc)
    moreover have "usub32 (length d) k = length d - k" "usub32 ie_len (length d - k) = ie_len - (length d - k)"
      "usub32 (length (ies_bytes es)) (?t + (length d + 2) - start) = length ?r"
      using kd Suc.prems(3,4) tot by simp_all
    moreover have "ie_len - (length d - k) - (length ?r - length (ies_bytes (map (cck_only eid) es2))) =
      ie_len - (length (ies_bytes es) - length (ies_bytes (map (cck_only eid) es)))"
      using cck_only_total [of eid es2] kd(1) by (simp add: tot mp c k_def)
    ultimately show ?thesis using srch Some a st cck run kd(3) lim by (auto simp: es)
  qed
qed

text \<open>\<open>rtw_remove_ie_g_rate\<close> on a sequence of elements: every element with the identifier keeps
  exactly its leading CCK rates and a matching length byte, all others are unchanged, the sequence
  stays well formed and contiguous, the total length shrinks accordingly, and the bytes outside
  the sequence are untouched. The elements with the identifier must not be empty: an empty one
  ends the loop.\<close>

theorem rtw_remove_ie_g_rate_elems:
  assumes "\<forall>e \<in> set es. wf_ie e \<and> (unat (fst e) = eid \<longrightarrow> snd e \<noteq> [])"
    and "holds_at buf (p + offset) (ies_bytes es)" and "l = offset + length (ies_bytes es)" and "l < 2 ^ 31"
  shows "\<exists>buf' ret. rtw_remove_ie_g_rate buf (Some p) (Some l) offset eid =
      Inr (buf', Some (offset + length (ies_bytes (map (cck_only eid) es))), ret) \<and>
    tlv_replaced enc_ie es (map (cck_only eid) es) (p + offset) buf buf'"
proof (cases "es = []")
  case True
  with assms show ?thesis by (auto simp: rtw_remove_ie_g_rate_def tlv_replaced_def)
next
  case False
  then have "0 < length (ies_bytes es)" by (cases es) auto
  then have l: "\<not> l \<le> offset" "l - offset = length (ies_bytes es)" using assms(3) by simp_all
  have "length es \<le> length (ies_bytes es)" by (induction es) auto
  then have fuel: "length es < Suc l" "length (ies_bytes es) \<le> l" using assms(3) by simp_all
  have "l - (length (ies_bytes es) - length (ies_bytes (map (cck_only eid) es))) =
    offset + length (ies_bytes (map (cck_only eid) es))"
    using assms(3) cck_only_total [of eid es] by linarith
  with remove_g_rate_loop_elems [OF assms(1,2) fuel(2) assms(4) fuel(1), of 0 0] l
  show ?thesis by (auto simp: rtw_remove_ie_g_rate_def)
qed

theorem rtw_remove_ie_g_rate_elems_witness:
  "\<exists>buf' ret. rtw_remove_ie_g_rate [1, 3, 0x82, 0x8B, 12, 3, 1, 6] (Some 0) (Some 8) 0 1 =
      Inr (buf', Some 7, ret) \<and> take 7 buf' = [1, 2, 0x82, 0x8B, 3, 1, 6]"
proof -
  let ?es = "[(1, [0x82, 0x8B, 12]), (3, [6])] :: ie_elem list"
  let ?buf = "[1, 3, 0x82, 0x8B, 12, 3, 1, 6] :: u8 list"
  have c: "map (cck_only 1) ?es = [(1, [0x82, 0x8B]), (3, [6])]" by (simp add: cck_only_def cck_rate_def)
  from rtw_remove_ie_g_rate_elems [of ?es 1 ?buf 0 0 8] obtain buf' ret where
    "rtw_remove_ie_g_rate ?buf (Some 0) (Some 8) 0 1 = Inr (buf', Some 7, ret)"
    and "tlv_replaced enc_ie ?es (map (cck_only 1) ?es) 0 ?buf buf'"
    unfolding c by (auto simp: wf_ie_def)
  moreover from this(2) have "holds_at buf' 0 [1, 2, 0x82, 0x8B, 3, 1, 6]"
    unfolding tlv_replaced_def c by simp
  then have "take 7 buf' = [1, 2, 0x82, 0x8B, 3, 1, 6]"
    using holds_at_take by (fastforce simp: eval_nat_numeral)
  ultimately show ?thesis by blast
qed

definition ex_reg :: registry_priv where
  "ex_reg = \<lparr>wireless_mode = 11, preamble = 3, dev_network = \<lparr>SsidLength = 2, Ssid = [65, 66] @ replicate 30 0,
     Privacy = 0, BeaconPeriod = 100, ATIMWindow = 0, DSConfig = 6, SupportedRates = replicate 16 0,
     IEs = replicate 768 0\<rparr>\<rparr>"

theorem rtw_generate_ie_layout_witness:
  "\<exists>n reg'. rtw_generate_ie ex_reg = Inr (Some n, reg') \<and> n \<le> 768"
proof -
  have "length (IEs (dev_network ex_reg)) = 768" "length (SupportedRates (dev_network ex_reg)) = 16"
    "length (Ssid (dev_network ex_reg)) = 32" "SsidLength (dev_network ex_reg) \<le> 32"
    by (simp_all add: ex_reg_def)
  from rtw_generate_ie_layout [OF this] show ?thesis by blast
qed

end
