(* ===== verification/SecIe.thy ===== *)
theory SecIe
  imports Ie
begin

text \<open>
  Security elements (core/rtw_ieee80211.c): the search for the WPA, RSN and WAPI elements, the
  cipher suite selectors, and the parsers of the WPA and RSN element contents. A pointer into the
  element is an offset; \<open>None\<close> is NULL. Cipher sets are flag words.
\<close>

section \<open>Finding the element\<close>

lemma rtw_get_ie_found_after: "rtw_get_ie buf pbuf index len0 limit = Inr (Some p, len) \<Longrightarrow> pbuf \<le> p"
  using rtw_get_ie_loop_sound [of buf pbuf index "nat limit" 0 p len]
  by (auto simp: rtw_get_ie_def split: if_splits)

function get_wpa_ie_loop ::
  "u8 list \<Rightarrow> nat \<Rightarrow> int \<Rightarrow> nat \<Rightarrow> nat \<Rightarrow> int \<Rightarrow> (nat option \<times> nat) cres" where
  "get_wpa_ie_loop buf pie limit pbuf len0 limit_new =
     bindc (rtw_get_ie buf pbuf 0xdd len0 limit_new) (\<lambda>(p, len).
     case p of
       None \<Rightarrow> Inr (None, 0)
     | Some p \<Rightarrow>
         bindc (memeq buf (p + 2) [0x00, 0x50, 0xf2, 0x01]) (\<lambda>oui.
         bindc (if oui then bindc (rd buf (p + 6)) (\<lambda>v0. bindc (rd buf (p + 7)) (\<lambda>v1.
                  Inr (get_le16 v0 v1 = 0x0001))) else Inr False) (\<lambda>hit.
         if hit then bindc (rd buf (p + 1)) (\<lambda>l. Inr (Some p, unat l))
         else
           let limit_new = limit - (int p - int pie) - 2 - int len in
           if limit_new \<le> 0 then Inr (None, 0)
           else get_wpa_ie_loop buf pie limit (p + (2 + len)) len limit_new)))"
  by pat_completeness auto
termination
proof (relation "measure (\<lambda>(buf, pie, limit, pbuf, len0, limit_new). nat (limit + int pie - int pbuf))")
  fix buf :: "u8 list" and pie pbuf len0 p len :: nat and limit limit_new limit_new' :: int
    and x :: "nat option \<times> nat" and y ya hit oui
  assume "rtw_get_ie buf pbuf 0xdd len0 limit_new = Inr x" "(y, ya) = x" "y = Some p"
    "limit_new' = limit - (int p - int pie) - 2 - int ya" "\<not> limit_new' \<le> 0"
  then have "pbuf \<le> p" "0 < limit - (int p - int pie) - 2 - int ya"
    using rtw_get_ie_found_after by auto
  then show "((buf, pie, limit, p + (2 + ya), ya, limit_new'), buf, pie, limit, pbuf, len0, limit_new)
    \<in> measure (\<lambda>(buf, pie, limit, pbuf, len0, limit_new). nat (limit + int pie - int pbuf))"
    by simp
qed simp

text \<open>The local length variable is uninitialised in the C code when the limit is not positive; it
  is not read then.\<close>

definition rtw_get_wpa_ie :: "u8 list \<Rightarrow> nat \<Rightarrow> int \<Rightarrow> (nat option \<times> nat) cres" where
  "rtw_get_wpa_ie buf pie limit = get_wpa_ie_loop buf pie limit pie 0 limit"

definition rtw_get_wpa2_ie :: "u8 list \<Rightarrow> nat \<Rightarrow> nat \<Rightarrow> int \<Rightarrow> (nat option \<times> nat) cres" where
  "rtw_get_wpa2_ie buf pie rsn_ie_len limit = rtw_get_ie buf pie 48 rsn_ie_len limit"

section \<open>Cipher suites\<close>

definition WPA_CIPHER_NONE :: u32 where "WPA_CIPHER_NONE = 1"
definition WPA_CIPHER_WEP40 :: u32 where "WPA_CIPHER_WEP40 = 2"
definition WPA_CIPHER_WEP104 :: u32 where "WPA_CIPHER_WEP104 = 4"
definition WPA_CIPHER_TKIP :: u32 where "WPA_CIPHER_TKIP = 8"
definition WPA_CIPHER_CCMP :: u32 where "WPA_CIPHER_CCMP = 16"

definition rtw_get_wpa_cipher_suite :: "u8 list \<Rightarrow> nat \<Rightarrow> u32 cres" where
  "rtw_get_wpa_cipher_suite buf s =
     bindc (memeq buf s [0x00, 0x50, 0xf2, 0]) (\<lambda>b. if b then Inr WPA_CIPHER_NONE else
     bindc (memeq buf s [0x00, 0x50, 0xf2, 1]) (\<lambda>b. if b then Inr WPA_CIPHER_WEP40 else
     bindc (memeq buf s [0x00, 0x50, 0xf2, 2]) (\<lambda>b. if b then Inr WPA_CIPHER_TKIP else
     bindc (memeq buf s [0x00, 0x50, 0xf2, 4]) (\<lambda>b. if b then Inr WPA_CIPHER_CCMP else
     bindc (memeq buf s [0x00, 0x50, 0xf2, 5]) (\<lambda>b. if b then Inr WPA_CIPHER_WEP104 else
     Inr 0)))))"

definition rtw_get_wpa2_cipher_suite :: "u8 list \<Rightarrow> nat \<Rightarrow> u32 cres" where
  "rtw_get_wpa2_cipher_suite buf s =
     bindc (memeq buf s [0x00, 0x0f, 0xac, 0]) (\<lambda>b. if b then Inr WPA_CIPHER_NONE else
     bindc (memeq buf s [0x00, 0x0f, 0xac, 1]) (\<lambda>b. if b then Inr WPA_CIPHER_WEP40 else
     bindc (memeq buf s [0x00, 0x0f, 0xac, 2]) (\<lambda>b. if b then Inr WPA_CIPHER_TKIP else
     bindc (memeq buf s [0x00, 0x0f, 0xac, 4]) (\<lambda>b. if b then Inr WPA_CIPHER_CCMP else
     bindc (memeq buf s [0x00, 0x0f, 0xac, 5]) (\<lambda>b. if b then Inr WPA_CIPHER_WEP104 else
     Inr 0)))))"

text \<open>Or-ing the suites of a list that starts at \<open>pos\<close>.\<close>

fun or_suites :: "(u8 list \<Rightarrow> nat \<Rightarrow> u32 cres) \<Rightarrow> u8 list \<Rightarrow> nat \<Rightarrow> nat \<Rightarrow> u32 \<Rightarrow> u32 cres" where
  "or_suites suite buf pos 0 acc = Inr acc"
| "or_suites suite buf pos (Suc n) acc =
     bindc (suite buf pos) (\<lambda>c. or_suites suite buf (pos + 4) n (acc OR c))"

section \<open>The WPA element\<close>

text \<open>The outputs are the flags before and after; \<open>is_8021x\<close> is optional. The result is false
  for \<open>_FAIL\<close>.\<close>

type_synonym wpa_out = "u32 \<times> u32 \<times> u32 option"

definition parse_wpa_8021x :: "u8 list \<Rightarrow> nat \<Rightarrow> int \<Rightarrow> u32 \<Rightarrow> u32 \<Rightarrow> u32 option \<Rightarrow> (bool \<times> wpa_out) cres" where
  "parse_wpa_8021x buf pos left gc pc is_8021x =
     (case is_8021x of
        None \<Rightarrow> Inr (True, gc, pc, None)
      | Some x \<Rightarrow>
          (if left \<ge> 6 then
             bindc (memeq buf (pos + 2) [0x00, 0x50, 0xf2, 1]) (\<lambda>b.
             Inr (True, gc, pc, Some (if b then 1 else x)))
           else Inr (True, gc, pc, Some x)))"

definition parse_wpa_pairwise :: "u8 list \<Rightarrow> nat \<Rightarrow> int \<Rightarrow> u32 \<Rightarrow> u32 \<Rightarrow> u32 option \<Rightarrow> (bool \<times> wpa_out) cres" where
  "parse_wpa_pairwise buf pos left gc pc is_8021x =
     (if left \<ge> 2 then
        bindc (rd buf pos) (\<lambda>c0. bindc (rd buf (pos + 1)) (\<lambda>c1.
          let count = unat (get_le16 c0 c1); pos = pos + 2; left = left - 2 in
          if count = 0 \<or> left < int count * 4 then Inr (False, gc, pc, is_8021x)
          else bindc (or_suites rtw_get_wpa_cipher_suite buf pos count pc) (\<lambda>pc.
            parse_wpa_8021x buf (pos + 4 * count) (left - 4 * int count) gc pc is_8021x)))
      else if left = 1 then Inr (False, gc, pc, is_8021x)
      else parse_wpa_8021x buf pos left gc pc is_8021x)"

definition rtw_parse_wpa_ie :: "u8 list \<Rightarrow> nat \<Rightarrow> int \<Rightarrow> u32 \<Rightarrow> u32 \<Rightarrow> u32 option \<Rightarrow> (bool \<times> wpa_out) cres" where
  "rtw_parse_wpa_ie buf wpa_ie wpa_ie_len gc pc is_8021x =
     (if wpa_ie_len \<le> 0 then Inr (False, gc, pc, is_8021x)
      else
        bindc (rd buf wpa_ie) (\<lambda>b0. if b0 \<noteq> 0xdd then Inr (False, gc, pc, is_8021x) else
        bindc (rd buf (wpa_ie + 1)) (\<lambda>b1.
          if b1 \<noteq> word_of_int (wpa_ie_len - 2) then Inr (False, gc, pc, is_8021x) else
        bindc (memeq buf (wpa_ie + 2) [0x00, 0x50, 0xf2, 1]) (\<lambda>oui.
          if \<not> oui then Inr (False, gc, pc, is_8021x) else
        let pos = wpa_ie + 8; left = wpa_ie_len - 8 in
        if left \<ge> 4 then
          bindc (rtw_get_wpa_cipher_suite buf pos) (\<lambda>gc.
          parse_wpa_pairwise buf (pos + 4) (left - 4) gc pc is_8021x)
        else if left > 0 then Inr (False, gc, pc, is_8021x)
        else parse_wpa_pairwise buf pos left gc pc is_8021x))))"

section \<open>The RSN element\<close>

record rsne_info =
  gcs :: "nat option"
  pcs_cnt :: u16
  pcs_list :: "nat option"
  akm_cnt :: u16
  akm_list :: "nat option"
  rsn_cap :: "nat option"
  pmkid_cnt :: u16
  pmkid_list :: "nat option"
  gmcs :: "nat option"
  rsne_err :: bool

definition rsne_zero :: rsne_info where
  "rsne_zero = \<lparr>gcs = None, pcs_cnt = 0, pcs_list = None, akm_cnt = 0, akm_list = None, rsn_cap = None,
     pmkid_cnt = 0, pmkid_list = None, gmcs = None, rsne_err = False\<rparr>"

text \<open>The labels \<open>err\<close> and \<open>exit\<close>, and the choice between them when the field at \<open>pos\<close> does not
  fit: the element must end exactly there. \<open>ie_end\<close> is \<open>ie + ie_len\<close>.\<close>

definition rsne_fail :: "rsne_info \<Rightarrow> (bool \<times> rsne_info) cres" where
  "rsne_fail info = Inr (False, info\<lparr>rsne_err := True\<rparr>)"

definition rsne_short :: "nat \<Rightarrow> nat \<Rightarrow> rsne_info \<Rightarrow> (bool \<times> rsne_info) cres" where
  "rsne_short ie_end pos info = (if ie_end \<noteq> pos then rsne_fail info else Inr (True, info))"

definition rsne_gmcs :: "nat \<Rightarrow> nat \<Rightarrow> rsne_info \<Rightarrow> (bool \<times> rsne_info) cres" where
  "rsne_gmcs ie_end pos info =
     (if ie_end < pos + 4 then rsne_short ie_end pos info
      else Inr (True, info\<lparr>gmcs := Some pos\<rparr>))"

definition rsne_count :: "u8 list \<Rightarrow> nat \<Rightarrow> u16 cres" where
  "rsne_count buf pos = bindc (rd buf pos) (\<lambda>c0. bindc (rd buf (pos + 1)) (\<lambda>c1. Inr (get_le16 c0 c1)))"

definition rsne_pmkid :: "u8 list \<Rightarrow> nat \<Rightarrow> nat \<Rightarrow> rsne_info \<Rightarrow> (bool \<times> rsne_info) cres" where
  "rsne_pmkid buf ie_end pos info =
     (if ie_end < pos + 2 then rsne_short ie_end pos info
      else bindc (rsne_count buf pos) (\<lambda>cnt.
        let pos = pos + 2 in
        if ie_end < pos + 16 * unat cnt then rsne_short ie_end pos info
        else rsne_gmcs ie_end (pos + 16 * unat cnt) (info\<lparr>pmkid_cnt := cnt, pmkid_list := Some pos\<rparr>)))"

definition rsne_cap :: "u8 list \<Rightarrow> nat \<Rightarrow> nat \<Rightarrow> rsne_info \<Rightarrow> (bool \<times> rsne_info) cres" where
  "rsne_cap buf ie_end pos info =
     (if ie_end < pos + 2 then rsne_short ie_end pos info
      else rsne_pmkid buf ie_end (pos + 2) (info\<lparr>rsn_cap := Some pos\<rparr>))"

definition rsne_akm :: "u8 list \<Rightarrow> nat \<Rightarrow> nat \<Rightarrow> rsne_info \<Rightarrow> (bool \<times> rsne_info) cres" where
  "rsne_akm buf ie_end pos info =
     (if ie_end < pos + 2 then rsne_short ie_end pos info
      else bindc (rsne_count buf pos) (\<lambda>cnt.
        let pos = pos + 2 in
        if ie_end < pos + 4 * unat cnt then rsne_short ie_end pos info
        else rsne_cap buf ie_end (pos + 4 * unat cnt) (info\<lparr>akm_cnt := cnt, akm_list := Some pos\<rparr>)))"

definition rsne_pcs :: "u8 list \<Rightarrow> nat \<Rightarrow> nat \<Rightarrow> rsne_info \<Rightarrow> (bool \<times> rsne_info) cres" where
  "rsne_pcs buf ie_end pos info =
     (if ie_end < pos + 2 then rsne_short ie_end pos info
      else bindc (rsne_count buf pos) (\<lambda>cnt.
        let pos = pos + 2 in
        if ie_end < pos + 4 * unat cnt then rsne_short ie_end pos info
        else rsne_akm buf ie_end (pos + 4 * unat cnt) (info\<lparr>pcs_cnt := cnt, pcs_list := Some pos\<rparr>)))"

definition rsne_gcs :: "u8 list \<Rightarrow> nat \<Rightarrow> nat \<Rightarrow> rsne_info \<Rightarrow> (bool \<times> rsne_info) cres" where
  "rsne_gcs buf ie_end pos info =
     (if ie_end < pos + 4 then rsne_short ie_end pos info
      else rsne_pcs buf ie_end (pos + 4) (info\<lparr>gcs := Some pos\<rparr>))"

definition rtw_rsne_info_parse :: "u8 list \<Rightarrow> nat \<Rightarrow> nat \<Rightarrow> (bool \<times> rsne_info) cres" where
  "rtw_rsne_info_parse buf ie ie_len =
     (if ie + ie_len < ie + 4 then rsne_fail rsne_zero
      else bindc (rd buf ie) (\<lambda>b0. if b0 \<noteq> 48 then rsne_fail rsne_zero else
        bindc (rd buf (ie + 1)) (\<lambda>b1. if unat b1 \<noteq> ie_len - 2 then rsne_fail rsne_zero else
        rsne_gcs buf (ie + ie_len) (ie + (2 + 2)) rsne_zero)))"

definition MFP_NO :: u8 where "MFP_NO = 0"

definition rtw_parse_wpa2_ie ::
  "u8 list \<Rightarrow> nat \<Rightarrow> nat \<Rightarrow> u32 option \<Rightarrow> u32 option \<Rightarrow> u32 option \<Rightarrow> u8 option \<Rightarrow>
   (bool \<times> u32 option \<times> u32 option \<times> u32 option \<times> u8 option) cres" where
  "rtw_parse_wpa2_ie buf rsn_ie rsn_ie_len group_cipher pairwise_cipher is_8021x mfp_opt =
     bindc (rtw_rsne_info_parse buf rsn_ie rsn_ie_len) (\<lambda>(ret, info).
     if \<not> ret then Inr (False, group_cipher, pairwise_cipher, is_8021x, mfp_opt)
     else
       bindc (if group_cipher = None then Inr None
              else case gcs info of None \<Rightarrow> Inr (Some 0)
                   | Some p \<Rightarrow> bindc (rtw_get_wpa2_cipher_suite buf p) (\<lambda>c. Inr (Some c))) (\<lambda>gc.
       bindc (if pairwise_cipher = None then Inr None
              else case pcs_list info of None \<Rightarrow> Inr (Some 0)
                   | Some p \<Rightarrow> bindc (or_suites rtw_get_wpa2_cipher_suite buf p (unat (pcs_cnt info)) 0)
                       (\<lambda>c. Inr (Some c))) (\<lambda>pc.
       bindc (if is_8021x = None then Inr None
              else case akm_list info of None \<Rightarrow> Inr (Some 0)
                   | Some p \<Rightarrow> if akm_cnt info = 0 then Inr (Some 0)
                       else bindc (memeq buf p [0x00, 0x0f, 0xac, 0x01])
                         (\<lambda>b. Inr (Some (if b then 1 else 0)))) (\<lambda>x.
       bindc (if mfp_opt = None then Inr None
              else case rsn_cap info of None \<Rightarrow> Inr (Some MFP_NO)
                   | Some p \<Rightarrow> bindc (rd buf p) (\<lambda>c0. bindc (rd buf (p + 1)) (\<lambda>c1.
                       Inr (Some (ucast (drop_bit 6 (get_le16 c0 c1) AND 3)))))) (\<lambda>mfp.
       Inr (True, gc, pc, x, mfp))))))"

section \<open>Copying the security elements\<close>

text \<open>The loops of \<open>rtw_get_sec_ie\<close> and \<open>rtw_get_wapi_ie\<close>; the outputs are optional copy
  destinations and the lengths found so far.\<close>

function sec_ie_loop ::
  "u8 list \<Rightarrow> nat \<Rightarrow> nat \<Rightarrow> u8 list option \<Rightarrow> nat \<Rightarrow> u8 list option \<Rightarrow> nat \<Rightarrow> nat \<Rightarrow>
   (u8 list option \<times> nat \<times> u8 list option \<times> nat) cres" where
  "sec_ie_loop buf in_ie in_len rsn_ie rsn_len wpa_ie wpa_len cnt =
     (if \<not> cnt < in_len then Inr (rsn_ie, rsn_len, wpa_ie, wpa_len)
      else bindc (rd buf (in_ie + cnt)) (\<lambda>authmode.
        bindc (if authmode = 0xdd then memeq buf (in_ie + (cnt + 2)) [0x0, 0x50, 0xf2, 0x01] else Inr False)
          (\<lambda>wpa.
        bindc (rd buf (in_ie + (cnt + 1))) (\<lambda>l.
        let n = unat l + 2 in
        if wpa then
          bindc (if wpa_ie = None then Inr None
                 else bindc (rdn buf (in_ie + cnt) n) (copy_out wpa_ie)) (\<lambda>wpa_ie.
          sec_ie_loop buf in_ie in_len rsn_ie rsn_len wpa_ie n (cnt + n))
        else if authmode = 48 then
          bindc (if rsn_ie = None then Inr None
                 else bindc (rdn buf (in_ie + cnt) n) (copy_out rsn_ie)) (\<lambda>rsn_ie.
          sec_ie_loop buf in_ie in_len rsn_ie n wpa_ie wpa_len (cnt + n))
        else sec_ie_loop buf in_ie in_len rsn_ie rsn_len wpa_ie wpa_len (cnt + n)))))"
  by pat_completeness auto
termination
  by (relation "measure (\<lambda>(buf, in_ie, in_len, rsn_ie, rsn_len, wpa_ie, wpa_len, cnt). in_len - cnt)") auto

declare sec_ie_loop.simps [simp del]

text \<open>12 is the length of timestamp, beacon interval and capability field.\<close>

definition rtw_get_sec_ie ::
  "u8 list \<Rightarrow> nat \<Rightarrow> nat \<Rightarrow> u8 list option \<Rightarrow> nat \<Rightarrow> u8 list option \<Rightarrow> nat \<Rightarrow>
   (nat \<times> u8 list option \<times> nat \<times> u8 list option \<times> nat) cres" where
  "rtw_get_sec_ie buf in_ie in_len rsn_ie rsn_len wpa_ie wpa_len =
     bindc (sec_ie_loop buf in_ie in_len rsn_ie rsn_len wpa_ie wpa_len (8 + 2 + 2))
       (\<lambda>(rsn_ie, rsn_len, wpa_ie, wpa_len). Inr (rsn_len + wpa_len, rsn_ie, rsn_len, wpa_ie, wpa_len))"

function wapi_ie_loop ::
  "u8 list \<Rightarrow> nat \<Rightarrow> nat \<Rightarrow> u8 list option \<Rightarrow> nat option \<Rightarrow> nat \<Rightarrow> (u8 list option \<times> nat option) cres" where
  "wapi_ie_loop buf in_ie in_len wapi_ie wapi_len cnt =
     (if \<not> cnt < in_len then Inr (wapi_ie, wapi_len)
      else bindc (rd buf (in_ie + cnt)) (\<lambda>authmode.
        bindc (if authmode = 68
               then bindc (memeq buf (in_ie + (cnt + 6)) [0x0, 0x14, 0x72, 0x01]) (\<lambda>b.
                 if b then Inr True else memeq buf (in_ie + (cnt + 6)) [0x0, 0x14, 0x72, 0x02])
               else Inr False) (\<lambda>hit.
        bindc (rd buf (in_ie + (cnt + 1))) (\<lambda>l.
        let n = unat l + 2 in
        if hit then
          bindc (if wapi_ie = None then Inr None
                 else bindc (rdn buf (in_ie + cnt) n) (copy_out wapi_ie)) (\<lambda>wapi_ie.
          wapi_ie_loop buf in_ie in_len wapi_ie (map_option (\<lambda>_. n) wapi_len) (cnt + n))
        else wapi_ie_loop buf in_ie in_len wapi_ie wapi_len (cnt + n)))))"
  by pat_completeness auto
termination
  by (relation "measure (\<lambda>(buf, in_ie, in_len, wapi_ie, wapi_len, cnt). in_len - cnt)") auto

declare wapi_ie_loop.simps [simp del]

definition rtw_get_wapi_ie ::
  "u8 list \<Rightarrow> nat option \<Rightarrow> nat \<Rightarrow> u8 list option \<Rightarrow> nat option \<Rightarrow> (nat \<times> u8 list option \<times> nat option) cres" where
  "rtw_get_wapi_ie buf in_ie in_len wapi_ie wapi_len =
     (let wapi_len = map_option (\<lambda>_. 0) wapi_len in
      case in_ie of None \<Rightarrow> Inr (0, wapi_ie, wapi_len)
      | Some p \<Rightarrow>
          (if in_len \<le> 0 then Inr (0, wapi_ie, wapi_len)
           else bindc (wapi_ie_loop buf p in_len wapi_ie wapi_len (8 + 2 + 2)) (\<lambda>(wapi_ie, wapi_len).
             Inr (case wapi_len of None \<Rightarrow> 0 | Some l \<Rightarrow> l, wapi_ie, wapi_len))))"

section \<open>Safety of the RSN parser\<close>

text \<open>Every pointer the parser reports lies in the element with all that it is said to hold.\<close>

definition rsne_ok :: "nat \<Rightarrow> nat \<Rightarrow> rsne_info \<Rightarrow> bool" where
  "rsne_ok lo hi info \<longleftrightarrow>
     (\<forall>p. gcs info = Some p \<longrightarrow> lo \<le> p \<and> p + 4 \<le> hi) \<and>
     (\<forall>p. pcs_list info = Some p \<longrightarrow> lo \<le> p \<and> p + 4 * unat (pcs_cnt info) \<le> hi) \<and>
     (\<forall>p. akm_list info = Some p \<longrightarrow> lo \<le> p \<and> p + 4 * unat (akm_cnt info) \<le> hi) \<and>
     (\<forall>p. rsn_cap info = Some p \<longrightarrow> lo \<le> p \<and> p + 2 \<le> hi) \<and>
     (\<forall>p. pmkid_list info = Some p \<longrightarrow> lo \<le> p \<and> p + 16 * unat (pmkid_cnt info) \<le> hi) \<and>
     (\<forall>p. gmcs info = Some p \<longrightarrow> lo \<le> p \<and> p + 4 \<le> hi)"

definition stage_ok :: "nat \<Rightarrow> nat \<Rightarrow> (bool \<times> rsne_info) cres \<Rightarrow> bool" where
  "stage_ok lo hi r \<longleftrightarrow> (\<exists>ret info. r = Inr (ret, info) \<and> rsne_ok lo hi info \<and> rsne_err info = (\<not> ret))"

lemma rsne_short_ok:
  "rsne_ok lo hi info \<Longrightarrow> \<not> rsne_err info \<Longrightarrow> stage_ok lo hi (rsne_short ie_end pos info)"
  by (auto simp: stage_ok_def rsne_short_def rsne_fail_def rsne_ok_def)

lemma rsne_count_ok: "pos + 2 \<le> length buf \<Longrightarrow> rsne_count buf pos = Inr (get_le16 (buf ! pos) (buf ! (pos + 1)))"
  by (simp add: rsne_count_def mem_simps)

lemma rsne_gmcs_ok:
  "rsne_ok lo hi info \<Longrightarrow> \<not> rsne_err info \<Longrightarrow> lo \<le> pos \<Longrightarrow> stage_ok lo hi (rsne_gmcs hi pos info)"
  using rsne_short_ok by (auto simp: rsne_gmcs_def stage_ok_def rsne_ok_def)

lemma rsne_pmkid_ok:
  "rsne_ok lo hi info \<Longrightarrow> \<not> rsne_err info \<Longrightarrow> lo \<le> pos \<Longrightarrow> hi \<le> length buf \<Longrightarrow>
   stage_ok lo hi (rsne_pmkid buf hi pos info)"
  by (auto simp: rsne_pmkid_def rsne_count_ok Let_def not_less rsne_ok_def
      intro!: rsne_short_ok rsne_gmcs_ok)

lemma rsne_cap_ok:
  "rsne_ok lo hi info \<Longrightarrow> \<not> rsne_err info \<Longrightarrow> lo \<le> pos \<Longrightarrow> hi \<le> length buf \<Longrightarrow>
   stage_ok lo hi (rsne_cap buf hi pos info)"
  by (auto simp: rsne_cap_def not_less rsne_ok_def intro!: rsne_short_ok rsne_pmkid_ok)

lemma rsne_akm_ok:
  "rsne_ok lo hi info \<Longrightarrow> \<not> rsne_err info \<Longrightarrow> lo \<le> pos \<Longrightarrow> hi \<le> length buf \<Longrightarrow>
   stage_ok lo hi (rsne_akm buf hi pos info)"
  by (auto simp: rsne_akm_def rsne_count_ok Let_def not_less rsne_ok_def
      intro!: rsne_short_ok rsne_cap_ok)

lemma rsne_pcs_ok:
  "rsne_ok lo hi info \<Longrightarrow> \<not> rsne_err info \<Longrightarrow> lo \<le> pos \<Longrightarrow> hi \<le> length buf \<Longrightarrow>
   stage_ok lo hi (rsne_pcs buf hi pos info)"
  by (auto simp: rsne_pcs_def rsne_count_ok Let_def not_less rsne_ok_def
      intro!: rsne_short_ok rsne_akm_ok)

lemma rsne_gcs_ok:
  "rsne_ok lo hi info \<Longrightarrow> \<not> rsne_err info \<Longrightarrow> lo \<le> pos \<Longrightarrow> hi \<le> length buf \<Longrightarrow>
   stage_ok lo hi (rsne_gcs buf hi pos info)"
  by (auto simp: rsne_gcs_def not_less rsne_ok_def intro!: rsne_short_ok rsne_pcs_ok)

lemma rsne_info_parse_ok:
  assumes "ie + ie_len \<le> length buf"
  shows "stage_ok (ie + 4) (ie + ie_len) (rtw_rsne_info_parse buf ie ie_len)"
proof (cases "ie_len < 4")
  case True
  then show ?thesis
    by (auto simp: rtw_rsne_info_parse_def stage_ok_def rsne_fail_def rsne_zero_def rsne_ok_def)
next
  case False
  have z: "rsne_ok lo hi rsne_zero" "\<not> rsne_err rsne_zero" for lo hi
    by (simp_all add: rsne_ok_def rsne_zero_def)
  have f: "stage_ok lo hi (rsne_fail rsne_zero)" for lo hi
    by (auto simp: stage_ok_def rsne_fail_def rsne_ok_def rsne_zero_def)
  from False assms show ?thesis
    by (auto simp: rtw_rsne_info_parse_def mem_simps z f intro!: rsne_gcs_ok)
qed

section \<open>Cipher suites, on selectors\<close>

definition suite_flag :: "u8 list \<Rightarrow> u8 list \<Rightarrow> u32" where
  "suite_flag oui s =
     (if s = oui @ [0] then WPA_CIPHER_NONE else if s = oui @ [1] then WPA_CIPHER_WEP40
      else if s = oui @ [2] then WPA_CIPHER_TKIP else if s = oui @ [4] then WPA_CIPHER_CCMP
      else if s = oui @ [5] then WPA_CIPHER_WEP104 else 0)"

abbreviation wpa_flag :: "u8 list \<Rightarrow> u32" where "wpa_flag \<equiv> suite_flag [0x00, 0x50, 0xf2]"
abbreviation rsn_flag :: "u8 list \<Rightarrow> u32" where "rsn_flag \<equiv> suite_flag [0x00, 0x0f, 0xac]"

lemma memeq4:
  "p + 4 \<le> length buf \<Longrightarrow> memeq buf p [a, b, c, d] = Inr (take 4 (drop p buf) = [a, b, c, d])"
  using memeq_ok [of p "[a, b, c, d]" buf] by (simp add: numeral_eq_Suc)

lemma wpa_cipher_suite_at:
  "p + 4 \<le> length buf \<Longrightarrow> rtw_get_wpa_cipher_suite buf p = Inr (wpa_flag (take 4 (drop p buf)))"
  by (simp add: rtw_get_wpa_cipher_suite_def suite_flag_def memeq4)

lemma wpa2_cipher_suite_at:
  "p + 4 \<le> length buf \<Longrightarrow> rtw_get_wpa2_cipher_suite buf p = Inr (rsn_flag (take 4 (drop p buf)))"
  by (simp add: rtw_get_wpa2_cipher_suite_def suite_flag_def memeq4)

text \<open>The two selector routines promise the same to the list loop.\<close>

locale selector =
  fixes suite :: "u8 list \<Rightarrow> nat \<Rightarrow> u32 cres" and flag :: "u8 list \<Rightarrow> u32"
  assumes suite_at: "p + 4 \<le> length buf \<Longrightarrow> suite buf p = Inr (flag (take 4 (drop p buf)))"
begin

lemma or_suites_safe: "p + 4 * n \<le> length buf \<Longrightarrow> \<exists>c. or_suites suite buf p n acc = Inr c"
  by (induction n arbitrary: p acc) (auto simp: suite_at)

lemma or_suites_list:
  "\<forall>s \<in> set ss. length s = 4 \<Longrightarrow> holds_at buf p (concat ss) \<Longrightarrow>
   or_suites suite buf p (length ss) acc = Inr (fold (\<lambda>s a. a OR flag s) ss acc)"
proof (induction ss arbitrary: p acc)
  case Nil
  then show ?case by simp
next
  case (Cons s ss)
  then have "holds_at buf p s" "length s = 4" by simp_all
  then have "suite buf p = Inr (flag s)"
    using suite_at holds_at_length holds_at_take by metis
  with Cons show ?case by simp
qed

end

interpretation wpa_sel: selector rtw_get_wpa_cipher_suite wpa_flag
  by unfold_locales (rule wpa_cipher_suite_at)

interpretation rsn_sel: selector rtw_get_wpa2_cipher_suite rsn_flag
  by unfold_locales (rule wpa2_cipher_suite_at)

text \<open>The RSN parser is memory safe on arbitrary bytes: when the element lies in the buffer,
  \<open>rtw_parse_wpa2_ie\<close> accepts or rejects it without an access out of bounds, whatever its
  counts say.\<close>

theorem rtw_parse_wpa2_ie_safe:
  assumes "rsn_ie + rsn_ie_len \<le> length buf"
  shows "\<exists>r. rtw_parse_wpa2_ie buf rsn_ie rsn_ie_len gc pc x mfp = Inr r"
proof -
  obtain ret info where i: "rtw_rsne_info_parse buf rsn_ie rsn_ie_len = Inr (ret, info)"
    and ok: "rsne_ok (rsn_ie + 4) (rsn_ie + rsn_ie_len) info"
    using rsne_info_parse_ok [OF assms] by (auto simp: stage_ok_def)
  have gc: "\<exists>c. rtw_get_wpa2_cipher_suite buf p = Inr c" if "gcs info = Some p" for p
    using ok that assms by (auto simp: rsne_ok_def wpa2_cipher_suite_at)
  have pc: "\<exists>c. or_suites rtw_get_wpa2_cipher_suite buf p (unat (pcs_cnt info)) 0 = Inr c"
    if "pcs_list info = Some p" for p
    using ok that assms by (intro rsn_sel.or_suites_safe) (auto simp: rsne_ok_def)
  have x: "\<exists>b. memeq buf p [0x00, 0x0f, 0xac, 0x01] = Inr b"
    if "akm_list info = Some p" "akm_cnt info \<noteq> 0" for p
  proof -
    have "0 < unat (akm_cnt info)" using that(2) by (simp add: unat_gt_0)
    with ok that assms show ?thesis by (auto simp: rsne_ok_def memeq_ok)
  qed
  have c: "\<exists>a b. rd buf p = Inr a \<and> rd buf (Suc p) = Inr b" if "rsn_cap info = Some p" for p
    using ok that assms by (auto simp: rsne_ok_def rd_def)
  have "\<exists>y. (if mfp = None then Inr None else case rsn_cap info of None \<Rightarrow> Inr (Some MFP_NO)
      | Some p \<Rightarrow> bindc (rd buf p) (\<lambda>c0. bindc (rd buf (p + 1)) (\<lambda>c1.
          Inr (Some (ucast (drop_bit 6 (get_le16 c0 c1) AND 3)))))) = Inr y"
    using c by (fastforce split: option.split)
  moreover have "\<exists>y. (if x = None then Inr None else case akm_list info of None \<Rightarrow> Inr (Some 0)
      | Some p \<Rightarrow> if akm_cnt info = 0 then Inr (Some 0) else bindc (memeq buf p [0x00, 0x0f, 0xac, 0x01])
          (\<lambda>b. Inr (Some (if b then 1 else 0)))) = Inr y"
    using x by (fastforce split: option.split)
  moreover have "\<exists>y. (if pc = None then Inr None else case pcs_list info of None \<Rightarrow> Inr (Some 0)
      | Some p \<Rightarrow> bindc (or_suites rtw_get_wpa2_cipher_suite buf p (unat (pcs_cnt info)) 0)
          (\<lambda>c. Inr (Some c))) = Inr y"
    using pc by (fastforce split: option.split)
  moreover have "\<exists>y. (if gc = None then Inr None else case gcs info of None \<Rightarrow> Inr (Some 0)
      | Some p \<Rightarrow> bindc (rtw_get_wpa2_cipher_suite buf p) (\<lambda>c. Inr (Some c))) = Inr y"
    using gc by (fastforce split: option.split)
  ultimately show ?thesis
    unfolding rtw_parse_wpa2_ie_def i by (cases ret) auto
qed

theorem rtw_parse_wpa2_ie_safe_witness:
  "\<exists>r. rtw_parse_wpa2_ie [48, 4, 1, 0, 255, 255] 0 6 (Some 0) (Some 0) (Some 0) (Some 0) = Inr r"
  by (rule rtw_parse_wpa2_ie_safe) simp

section \<open>The RSN element, encoded\<close>

record rsne =
  r_gcs :: "u8 list"
  r_pcs :: "u8 list list"
  r_akm :: "u8 list list"
  r_cap :: u16
  r_pmkid :: "u8 list list"
  r_gmcs :: "u8 list option"

definition rsne_tail :: "rsne \<Rightarrow> u8 list" where
  "rsne_tail r = (case r_gmcs r of None \<Rightarrow> [] | Some s \<Rightarrow> s)"

definition rsne_body :: "rsne \<Rightarrow> u8 list" where
  "rsne_body r = [1, 0] @ r_gcs r @
     put_le16 (of_nat (length (r_pcs r))) @ concat (r_pcs r) @
     put_le16 (of_nat (length (r_akm r))) @ concat (r_akm r) @
     put_le16 (r_cap r) @
     put_le16 (of_nat (length (r_pmkid r))) @ concat (r_pmkid r) @
     rsne_tail r"

definition enc_rsne :: "rsne \<Rightarrow> u8 list" where
  "enc_rsne r = enc_ie (48, rsne_body r)"

definition wf_rsne :: "rsne \<Rightarrow> bool" where
  "wf_rsne r \<longleftrightarrow> length (rsne_body r) < 256 \<and> length (r_gcs r) = 4 \<and>
     (\<forall>s \<in> set (r_pcs r). length s = 4) \<and> (\<forall>s \<in> set (r_akm r). length s = 4) \<and>
     (\<forall>s \<in> set (r_pmkid r). length s = 16) \<and> (\<forall>s. r_gmcs r = Some s \<longrightarrow> length s = 4)"

lemma concat_length: "\<forall>s \<in> set ss. length s = n \<Longrightarrow> length (concat ss) = n * length ss"
  by (induction ss) auto

lemma rsne_count_at: "holds_at buf pos (put_le16 w) \<Longrightarrow> rsne_count buf pos = Inr w"
  by (simp add: rsne_count_def put_le16_def rd_ok)

lemma rsne_list_fits:
  assumes "\<forall>s \<in> set ss. length s = n" and "0 < n" and "length (concat ss) < 65536"
  shows "unat (of_nat (length ss) :: u16) = length ss" and "length (concat ss) = n * length ss"
proof -
  show l: "length (concat ss) = n * length ss" by (rule concat_length [OF assms(1)])
  have "length ss \<le> length (concat ss)" using assms(2) by (simp add: l)
  then show "unat (of_nat (length ss) :: u16) = length ss" using assms(3) by simp
qed

text \<open>What the parser reports for an encoded element at \<open>p\<close>.\<close>

definition rsne_report :: "nat \<Rightarrow> rsne \<Rightarrow> rsne_info" where
  "rsne_report p r =
     (let pcs = p + 10; akm = pcs + 4 * length (r_pcs r) + 2; c = akm + 4 * length (r_akm r);
          pm = c + 4; gm = pm + 16 * length (r_pmkid r)
      in \<lparr>gcs = Some (p + 4), pcs_cnt = of_nat (length (r_pcs r)), pcs_list = Some pcs,
          akm_cnt = of_nat (length (r_akm r)), akm_list = Some akm, rsn_cap = Some c,
          pmkid_cnt = of_nat (length (r_pmkid r)), pmkid_list = Some pm,
          gmcs = (if r_gmcs r = None then None else Some gm), rsne_err = False\<rparr>)"

text \<open>Each stage on a field that is there in full.\<close>

lemma rsne_stage_at:
  assumes "unat (of_nat n :: u16) = n" and "holds_at buf pos (put_le16 (of_nat n))"
  shows "pos + 2 + 4 * n \<le> ie_end \<Longrightarrow> rsne_pcs buf ie_end pos info =
      rsne_akm buf ie_end (pos + 2 + 4 * n) (info\<lparr>pcs_cnt := of_nat n, pcs_list := Some (pos + 2)\<rparr>)"
    and "pos + 2 + 4 * n \<le> ie_end \<Longrightarrow> rsne_akm buf ie_end pos info =
      rsne_cap buf ie_end (pos + 2 + 4 * n) (info\<lparr>akm_cnt := of_nat n, akm_list := Some (pos + 2)\<rparr>)"
    and "pos + 2 + 16 * n \<le> ie_end \<Longrightarrow> rsne_pmkid buf ie_end pos info =
      rsne_gmcs ie_end (pos + 2 + 16 * n) (info\<lparr>pmkid_cnt := of_nat n, pmkid_list := Some (pos + 2)\<rparr>)"
  using assms(1) rsne_count_at [OF assms(2)]
  by (simp_all add: rsne_pcs_def rsne_akm_def rsne_pmkid_def Let_def)

lemma rsne_parse_encoded:
  assumes "wf_rsne r" and "holds_at buf p (enc_rsne r)"
  shows "rtw_rsne_info_parse buf p (length (enc_rsne r)) = Inr (True, rsne_report p r)"
proof -
  note wf = assms(1) [unfolded wf_rsne_def]
  let ?np = "length (r_pcs r)" and ?na = "length (r_akm r)" and ?nm = "length (r_pmkid r)"
  have body: "length (concat (r_pcs r)) < 65536" "length (concat (r_akm r)) < 65536"
    "length (concat (r_pmkid r)) < 65536"
    using wf by (auto simp: rsne_body_def)
  have n: "unat (of_nat ?np :: u16) = ?np" "unat (of_nat ?na :: u16) = ?na"
    "unat (of_nat ?nm :: u16) = ?nm" "length (concat (r_pcs r)) = 4 * ?np"
    "length (concat (r_akm r)) = 4 * ?na" "length (concat (r_pmkid r)) = 16 * ?nm"
    using rsne_list_fits [OF _ _ body(1), of 4] rsne_list_fits [OF _ _ body(2), of 4]
      rsne_list_fits [OF _ _ body(3), of 16] wf by simp_all
  have g: "length (rsne_tail r) = (if r_gmcs r = None then 0 else 4)"
    using wf by (auto simp: rsne_tail_def split: option.split)
  let ?stop = "p + length (enc_rsne r)"
  have len: "?stop = p + 16 + 4 * ?np + 4 * ?na + 16 * ?nm + length (rsne_tail r)"
    using n(4,5,6) wf by (simp add: enc_rsne_def rsne_body_def)
  have at: "holds_at buf p [48, of_nat (length (rsne_body r))]"
    "holds_at buf (p + 8) (put_le16 (of_nat ?np))"
    "holds_at buf (p + 8 + 2 + 4 * ?np) (put_le16 (of_nat ?na))"
    "holds_at buf (p + 8 + 2 + 4 * ?np + 2 + 4 * ?na + 2) (put_le16 (of_nat ?nm))"
    using assms(2) n(4-6) wf unfolding enc_rsne_def rsne_body_def
    by (simp_all add: ac_simps)
  have "rsne_gcs buf ?stop (p + (2 + 2)) rsne_zero = Inr (True, rsne_report p r)"
    using len g rsne_stage_at(1) [OF n(1) at(2), of ?stop] rsne_stage_at(2) [OF n(2) at(3), of ?stop]
      rsne_stage_at(3) [OF n(3) at(4), of ?stop]
    by (auto simp: rsne_gcs_def rsne_cap_def rsne_gmcs_def rsne_short_def rsne_zero_def rsne_report_def
        Let_def ac_simps)
  moreover have "2 \<le> length (rsne_body r)" by (simp add: rsne_body_def)
  ultimately show ?thesis using at(1) wf
    by (simp add: rtw_rsne_info_parse_def rd_ok enc_rsne_def)
qed

text \<open>C6: Round trip of the RSN element: from the encoding of a group suite, lists of pairwise and
  AKM suites, capabilities, PMKIDs and an optional group management suite,
  \<open>rtw_parse_wpa2_ie\<close> recovers the group cipher, the union of all pairwise ciphers, whether the
  first AKM is 802.1X and the management frame protection bits.\<close>

theorem rtw_parse_wpa2_ie_encoded:
  assumes "wf_rsne r" and "holds_at buf p (enc_rsne r)"
  shows "rtw_parse_wpa2_ie buf p (length (enc_rsne r)) (Some gc0) (Some pc0) (Some x0) (Some m0) =
    Inr (True, Some (rsn_flag (r_gcs r)), Some (fold (\<lambda>s a. a OR rsn_flag s) (r_pcs r) 0),
      Some (if r_akm r \<noteq> [] \<and> hd (r_akm r) = [0x00, 0x0f, 0xac, 0x01] then 1 else 0),
      Some (ucast (drop_bit 6 (r_cap r) AND 3)))"
proof -
  note wf = assms(1) [unfolded wf_rsne_def]
  let ?np = "length (r_pcs r)" and ?na = "length (r_akm r)" and ?i = "rsne_report p r"
  have "length (concat (r_pcs r)) < 65536" "length (concat (r_akm r)) < 65536"
    using wf by (auto simp: rsne_body_def)
  then have n: "unat (of_nat ?np :: u16) = ?np" "unat (of_nat ?na :: u16) = ?na"
    "length (concat (r_pcs r)) = 4 * ?np" "length (concat (r_akm r)) = 4 * ?na"
    using rsne_list_fits [of "r_pcs r" 4] rsne_list_fits [of "r_akm r" 4] wf by simp_all
  have g: "holds_at buf (p + 4) (r_gcs r)" "length (r_gcs r) = 4"
    using assms(2) wf unfolding enc_rsne_def rsne_body_def by (simp_all add: numeral_eq_Suc)
  have pcs: "holds_at buf (p + 10) (concat (r_pcs r))"
    and akm: "holds_at buf (p + 12 + 4 * ?np) (concat (r_akm r))"
    and c: "holds_at buf (p + 12 + 4 * ?np + 4 * ?na) (put_le16 (r_cap r))"
    using assms(2) n wf unfolding enc_rsne_def rsne_body_def by (simp_all add: ac_simps)
  have gc: "rtw_get_wpa2_cipher_suite buf (p + 4) = Inr (rsn_flag (r_gcs r))"
    using holds_at_length [OF g(1)] holds_at_take [OF g(1)] g(2) by (simp add: wpa2_cipher_suite_at)
  have cap: "bindc (rd buf (p + 12 + 4 * ?np + 4 * ?na)) (\<lambda>c0. bindc (rd buf (p + 12 + 4 * ?np + 4 * ?na + 1))
      (\<lambda>c1. Inr (Some (ucast (drop_bit 6 (get_le16 c0 c1) AND 3) :: u8)))) =
      Inr (Some (ucast (drop_bit 6 (r_cap r) AND 3)))"
    using c by (simp add: rd_ok put_le16_def)
  have pc: "or_suites rtw_get_wpa2_cipher_suite buf (p + 10) ?np 0 =
      Inr (fold (\<lambda>s a. a OR rsn_flag s) (r_pcs r) 0)"
    using wf pcs by (intro rsn_sel.or_suites_list) auto
  have z: "(of_nat ?na :: u16) = 0 \<longleftrightarrow> r_akm r = []"
    unfolding word_unat_eq_iff n(2) by simp
  have x: "memeq buf (p + 12 + 4 * ?np) [0x00, 0x0f, 0xac, 0x01] = Inr (hd (r_akm r) = [0x00, 0x0f, 0xac, 0x01])"
    if ne: "r_akm r \<noteq> []"
  proof -
    obtain s ss where s: "r_akm r = s # ss" using ne by (cases "r_akm r") auto
    with akm wf have "holds_at buf (p + 12 + 4 * ?np) s" "length s = 4" by auto
    then show ?thesis using holds_at_length holds_at_take by (fastforce simp: memeq4 s)
  qed
  have R: "gcs ?i = Some (p + 4)" "pcs_list ?i = Some (p + 10)" "pcs_cnt ?i = of_nat ?np"
    "akm_list ?i = Some (p + 12 + 4 * ?np)" "akm_cnt ?i = of_nat ?na"
    "rsn_cap ?i = Some (p + 12 + 4 * ?np + 4 * ?na)"
    by (simp_all add: rsne_report_def Let_def)
  have akms: "(if (of_nat ?na :: u16) = 0 then Inr (Some 0)
      else bindc (memeq buf (p + 12 + 4 * ?np) [0x00, 0x0f, 0xac, 0x01]) (\<lambda>b. Inr (Some (if b then 1 else 0)))) =
    (Inr (Some (if r_akm r \<noteq> [] \<and> hd (r_akm r) = [0x00, 0x0f, 0xac, 0x01] then 1 else 0)) :: u32 option cres)"
    unfolding z using x by (cases "r_akm r = []") (simp_all only: bindc_Inr if_True if_False simp_thms)
  show ?thesis
    unfolding rtw_parse_wpa2_ie_def rsne_parse_encoded [OF assms] bindc_Inr prod.case R option.case n(1)
    by (simp only: gc pc cap akms bindc_Inr option.distinct if_False simp_thms)
qed

definition ex_rsne :: rsne where
  "ex_rsne = \<lparr>r_gcs = [0, 15, 172, 2], r_pcs = [[0, 15, 172, 4], [0, 15, 172, 2]], r_akm = [[0, 15, 172, 1]],
     r_cap = 0xC0, r_pmkid = [], r_gmcs = None\<rparr>"

theorem rtw_parse_wpa2_ie_encoded_witness:
  "rtw_parse_wpa2_ie (enc_rsne ex_rsne) 0 28 (Some 7) (Some 7) (Some 7) (Some 7) =
    Inr (True, Some 8, Some 24, Some 1, Some 3)"
proof -
  have "wf_rsne ex_rsne" and "length (enc_rsne ex_rsne) = 28"
    by (simp_all add: wf_rsne_def ex_rsne_def rsne_body_def rsne_tail_def put_le16_def enc_rsne_def)
  moreover have "holds_at (enc_rsne ex_rsne) 0 (enc_rsne ex_rsne)"
    using holds_at_self [of "[]" "enc_rsne ex_rsne" "[]"] by simp
  ultimately show ?thesis
    using rtw_parse_wpa2_ie_encoded [of ex_rsne "enc_rsne ex_rsne" 0 7 7 7 7]
    by (simp add: ex_rsne_def suite_flag_def WPA_CIPHER_TKIP_def WPA_CIPHER_CCMP_def)
qed

section \<open>The copies of the security elements\<close>

definition is_wpa :: "ie_elem \<Rightarrow> bool" where
  "is_wpa e \<longleftrightarrow> oui_match (0xdd, Some [0x00, 0x50, 0xf2, 0x01]) e"

definition is_rsn :: "ie_elem \<Rightarrow> bool" where
  "is_rsn e \<longleftrightarrow> fst e = 48"

definition sec_wf :: "ie_elem \<Rightarrow> bool" where
  "sec_wf e \<longleftrightarrow> oui_wf (0xdd, Some [0x00, 0x50, 0xf2, 0x01]) e"

text \<open>The length of the last element that satisfies a test, with its header.\<close>

definition last_len :: "(ie_elem \<Rightarrow> bool) \<Rightarrow> ie_elem list \<Rightarrow> nat \<Rightarrow> nat" where
  "last_len m es l0 = fold (\<lambda>e l. if m e then length (enc_ie e) else l) es l0"

lemma last_len_simps [simp]:
  "last_len m [] l0 = l0"
  "last_len m (e # es) l0 = last_len m es (if m e then length (enc_ie e) else l0)"
  by (simp_all add: last_len_def del: enc_ie_length)

text \<open>One round of the loop at an element.\<close>

lemma sec_ie_loop_step:
  assumes "sec_wf e" and "holds_at buf (in_ie + cnt) (enc_ie e)" and "cnt < in_len"
  shows "sec_ie_loop buf in_ie in_len rb rl wb wl cnt =
    (if is_wpa e then bindc (if wb = None then Inr None else copy_out wb (enc_ie e)) (\<lambda>wb.
       sec_ie_loop buf in_ie in_len rb rl wb (length (enc_ie e)) (cnt + length (enc_ie e)))
     else if is_rsn e then bindc (if rb = None then Inr None else copy_out rb (enc_ie e)) (\<lambda>rb.
       sec_ie_loop buf in_ie in_len rb (length (enc_ie e)) wb wl (cnt + length (enc_ie e)))
     else sec_ie_loop buf in_ie in_len rb rl wb wl (cnt + length (enc_ie e)))"
proof -
  obtain i d where e: "e = (i, d)" by (cases e)
  have wf: "length d < 256" "i = 0xdd \<longrightarrow> 4 \<le> length d"
    using assms(1) by (simp_all add: sec_wf_def e numeral_eq_Suc split: if_splits)
  have h: "holds_at buf (in_ie + cnt) (enc_ie e)" "holds_at buf (in_ie + (cnt + 2)) d"
    using assms(2) by (simp_all add: e)
  have b: "rd buf (in_ie + cnt) = Inr i" "rd buf (in_ie + (cnt + 1)) = Inr (of_nat (length d))"
    using h(1) by (simp_all add: e rd_ok)
  have oui: "(if i = 0xdd then memeq buf (in_ie + (cnt + 2)) [0x0, 0x50, 0xf2, 0x01] else Inr False) = Inr (is_wpa e)"
    using holds_at_memeq [OF h(2), of "[0x0, 0x50, 0xf2, 0x01]"] wf(2) by (auto simp: is_wpa_def e)
  note cp = holds_at_rdn [OF h(1)]
  have n: "unat (of_nat (length d) :: u8) + 2 = length (enc_ie e)" using wf(1) by (simp add: e)
  have r: "is_rsn e \<longleftrightarrow> i = 48" by (simp add: is_rsn_def e)
  show ?thesis
    by (subst sec_ie_loop.simps)
      (simp only: assms(3) b bindc_Inr oui n cp Let_def r not_True_eq_False if_False)
qed

lemma sec_ie_loop_lens:
  assumes "\<forall>e \<in> set es. sec_wf e" and "holds_at buf (in_ie + cnt) (ies_bytes es)"
    and "in_len = cnt + length (ies_bytes es)"
  shows "sec_ie_loop buf in_ie in_len None rl None wl cnt =
    Inr (None, last_len is_rsn es rl, None, last_len is_wpa es wl)"
  using assms
proof (induction es arbitrary: cnt rl wl)
  case Nil
  then show ?case by (subst sec_ie_loop.simps) simp
next
  case (Cons e es)
  have ex: "\<not> (is_wpa e \<and> is_rsn e)" by (cases e) (simp add: is_wpa_def is_rsn_def)
  have IH: "sec_ie_loop buf in_ie in_len None rl' None wl' (cnt + length (enc_ie e)) =
      Inr (None, last_len is_rsn es rl', None, last_len is_wpa es wl')" for rl' wl'
    using Cons.prems by (intro Cons.IH) (auto simp: add.assoc)
  have "sec_wf e" "holds_at buf (in_ie + cnt) (enc_ie e)" "cnt < in_len"
    using Cons.prems by auto
  from sec_ie_loop_step [OF this] ex IH show ?case
    by (cases "is_wpa e"; cases "is_rsn e")
      (simp_all only: bindc_Inr last_len_simps if_True if_False simp_thms)
qed

text \<open>\<open>rtw_get_sec_ie\<close> without copy destinations reports the lengths of the last WPA and the
  last RSN element behind the fixed fields (or keeps the caller's values), and returns their
  sum.\<close>

theorem rtw_get_sec_ie_lens:
  assumes "\<forall>e \<in> set es. sec_wf e" and "holds_at buf (p + 12) (ies_bytes es)"
  shows "rtw_get_sec_ie buf p (12 + length (ies_bytes es)) None r0 None w0 =
    Inr (last_len is_rsn es r0 + last_len is_wpa es w0,
      None, last_len is_rsn es r0, None, last_len is_wpa es w0)"
  using sec_ie_loop_lens [OF assms refl] by (simp add: rtw_get_sec_ie_def)

theorem rtw_get_sec_ie_lens_witness:
  "rtw_get_sec_ie (replicate 12 0 @ [48, 2, 1, 0, 0xdd, 4, 0x00, 0x50, 0xf2, 0x01]) 0 22 None 0 None 0 =
    Inr (10, None, 4, None, 6)"
proof -
  let ?es = "[(48, [1, 0]), (0xdd, [0x00, 0x50, 0xf2, 0x01])] :: ie_elem list"
  have "holds_at (replicate 12 0 @ ies_bytes ?es) (0 + 12) (ies_bytes ?es)"
    using holds_at_self [of "replicate 12 0" "ies_bytes ?es" "[]"] by simp
  moreover have "\<forall>e \<in> set ?es. sec_wf e" by (simp add: sec_wf_def)
  ultimately show ?thesis
    using rtw_get_sec_ie_lens [of ?es "replicate 12 0 @ ies_bytes ?es" 0 0 0]
    by (simp add: is_rsn_def is_wpa_def)
qed

text \<open>The copies are not bounded by the destination: an RSN element whose bytes do not fit
  into the caller's buffer (254 or 255 bytes of contents against the 255-byte buffers of the
  callers) is written past its end.\<close>

theorem rtw_get_sec_ie_overflow:
  assumes "\<forall>x \<in> set (es @ [e]). sec_wf x" and "holds_at buf (p + 12) (ies_bytes (es @ e # es'))"
    and "\<forall>x \<in> set es. \<not> is_rsn x" and "is_rsn e" and "length dst < length (enc_ie e)"
  shows "rtw_get_sec_ie buf p (12 + length (ies_bytes (es @ e # es'))) (Some dst) r0 None w0 =
    Inl OutOfBounds"
proof -
  have "sec_ie_loop buf p in_len (Some dst) rl None wl cnt = Inl OutOfBounds"
    if "in_len = cnt + length (ies_bytes (es @ e # es'))" "holds_at buf (p + cnt) (ies_bytes (es @ e # es'))"
      "\<forall>x \<in> set (es @ [e]). sec_wf x" "\<forall>x \<in> set es. \<not> is_rsn x" for in_len rl wl cnt
    using that
  proof (induction es arbitrary: cnt wl)
    case Nil
    have "\<not> is_wpa e" using assms(4) by (cases e) (simp add: is_wpa_def is_rsn_def)
    moreover have "copy_out (Some dst) (enc_ie e) = Inl OutOfBounds"
      using assms(5) by (simp add: copy_out_def wrn_def)
    ultimately show ?case
      using sec_ie_loop_step [of e buf p cnt in_len "Some dst" rl None wl] Nil assms(4) by simp
  next
    case (Cons x xs)
    have "sec_ie_loop buf p in_len (Some dst) rl None wl' (cnt + length (enc_ie x)) = Inl OutOfBounds" for wl'
      using Cons.prems by (intro Cons.IH) (auto simp: add.assoc)
    then show ?case
      using sec_ie_loop_step [of x buf p cnt in_len "Some dst" rl None wl] Cons.prems by simp
  qed
  from this [OF _ assms(2,1,3)] show ?thesis by (simp add: rtw_get_sec_ie_def add.assoc)
qed

theorem rtw_get_sec_ie_overflow_witness:
  "rtw_get_sec_ie (replicate 12 0 @ enc_ie (48, replicate 254 7)) 0 268 (Some (replicate 255 0)) 0 None 0 =
    Inl OutOfBounds"
proof -
  let ?e = "(48, replicate 254 7) :: ie_elem"
  have "holds_at (replicate 12 0 @ ies_bytes [?e]) (0 + 12) (ies_bytes [?e])"
    using holds_at_self [of "replicate 12 0" "ies_bytes [?e]" "[]"] by simp
  moreover have "sec_wf ?e" by (simp add: sec_wf_def)
  ultimately show ?thesis
    using rtw_get_sec_ie_overflow [of "[]" ?e "replicate 12 0 @ ies_bytes [?e]" 0 "[]" "replicate 255 0" 0 0]
    by (simp add: is_rsn_def)
qed

section \<open>The WPA element, encoded\<close>

definition wpa_body :: "u8 list \<Rightarrow> u8 list list \<Rightarrow> u8 list list \<Rightarrow> u8 list" where
  "wpa_body g pcs akms = [0x00, 0x50, 0xf2, 1, 1, 0] @ g @
     put_le16 (of_nat (length pcs)) @ concat pcs @ put_le16 (of_nat (length akms)) @ concat akms"

text \<open>Round trip of the WPA element: \<open>rtw_parse_wpa_ie\<close> recovers the group cipher, adds all
  pairwise ciphers to the caller's set and reports 802.1X exactly when the first of the AKM
  suites is the 802.1X one.\<close>

theorem rtw_parse_wpa_ie_encoded:
  assumes "length (wpa_body g pcs akms) < 256" and "length g = 4" and "pcs \<noteq> []"
    and "\<forall>s \<in> set pcs. length s = 4" and "\<forall>s \<in> set akms. length s = 4"
    and "holds_at buf p (enc_ie (0xdd, wpa_body g pcs akms))"
  shows "rtw_parse_wpa_ie buf p (int (length (enc_ie (0xdd, wpa_body g pcs akms)))) gc0 pc0 (Some x0) =
    Inr (True, wpa_flag g, fold (\<lambda>s a. a OR wpa_flag s) pcs pc0,
      Some (if akms \<noteq> [] \<and> hd akms = [0x00, 0x50, 0xf2, 1] then 1 else x0))"
proof -
  let ?np = "length pcs" and ?na = "length akms"
  let ?n = "length (enc_ie (0xdd, wpa_body g pcs akms))"
  have "length (concat pcs) < 65536" using assms(1) by (simp add: wpa_body_def)
  then have n: "unat (of_nat ?np :: u16) = ?np" "length (concat pcs) = 4 * ?np"
    using rsne_list_fits [of pcs 4] assms(4) by simp_all
  have na: "length (concat akms) = 4 * ?na" using assms(5) by (rule concat_length)
  have np: "0 < ?np" using assms(3) by simp
  have len: "?n = 16 + 4 * ?np + 4 * ?na" using n(2) na assms(2) by (simp add: wpa_body_def)
  have hd: "holds_at buf p [0xdd, of_nat (length (wpa_body g pcs akms))]"
    "holds_at buf (p + 2) [0x00, 0x50, 0xf2, 1]" and g: "holds_at buf (p + 8) g"
    using assms(2,6) by (simp_all add: wpa_body_def numeral_eq_Suc)
  have cnt: "holds_at buf (p + 8 + 4) (put_le16 (of_nat ?np))" and pc: "holds_at buf (p + 8 + 4 + 2) (concat pcs)"
    and akm: "holds_at buf (p + 8 + 4 + 2 + 4 * ?np + 2) (concat akms)"
    using assms(2,6) n(2) by (simp_all add: wpa_body_def ac_simps)
  have lb: "word_of_int (int ?n - 2) = (of_nat (length (wpa_body g pcs akms)) :: u8)"
    by simp
  have oui: "memeq buf (p + 2) [0x00, 0x50, 0xf2, 1] = Inr True"
    using holds_at_memeq [OF hd(2), of "[0x00, 0x50, 0xf2, 1]"] by simp
  have gc: "rtw_get_wpa_cipher_suite buf (p + 8) = Inr (wpa_flag g)"
    using holds_at_length [OF g] holds_at_take [OF g] assms(2) by (simp add: wpa_cipher_suite_at)
  have pcs: "or_suites rtw_get_wpa_cipher_suite buf (p + 8 + 4 + 2) ?np pc0 =
      Inr (fold (\<lambda>s a. a OR wpa_flag s) pcs pc0)"
    using assms(4) pc by (intro wpa_sel.or_suites_list) auto
  have x: "parse_wpa_8021x buf (p + 8 + 4 + 2 + 4 * ?np) (2 + 4 * int ?na) gc pc (Some x0) =
      Inr (True, gc, pc, Some (if akms \<noteq> [] \<and> hd akms = [0x00, 0x50, 0xf2, 1] then 1 else x0))" for gc pc
  proof (cases akms)
    case Nil
    then show ?thesis by (simp add: parse_wpa_8021x_def)
  next
    case (Cons s ss)
    with akm assms(5) have "holds_at buf (p + 8 + 4 + 2 + 4 * ?np + 2) s" "length s = 4" by auto
    then have "memeq buf (p + 8 + 4 + 2 + 4 * ?np + 2) [0x00, 0x50, 0xf2, 1] = Inr (s = [0x00, 0x50, 0xf2, 1])"
      using holds_at_length holds_at_take by (fastforce simp: memeq4)
    then show ?thesis by (simp add: parse_wpa_8021x_def Cons)
  qed
  have c: "rd buf (p + 8 + 4) = Inr (ucast ((of_nat ?np :: u16) AND 0xff))"
    "rd buf (p + 8 + 4 + 1) = Inr (ucast (drop_bit 8 (of_nat ?np :: u16)))"
    using cnt by (simp_all add: put_le16_def rd_ok)
  have "parse_wpa_pairwise buf (p + 8 + 4) (int ?n - 8 - 4) (wpa_flag g) pc0 (Some x0) =
    Inr (True, wpa_flag g, fold (\<lambda>s a. a OR wpa_flag s) pcs pc0,
      Some (if akms \<noteq> [] \<and> hd akms = [0x00, 0x50, 0xf2, 1] then 1 else x0))"
    using np x unfolding parse_wpa_pairwise_def Let_def c bindc_Inr get_put_le16 n(1) len pcs
    by simp
  moreover have "rd buf p = Inr 0xdd" "rd buf (p + 1) = Inr (of_nat (length (wpa_body g pcs akms)))"
    using hd(1) by (simp_all add: rd_ok)
  ultimately show ?thesis
    unfolding rtw_parse_wpa_ie_def Let_def lb using oui gc len np by simp
qed

theorem rtw_parse_wpa_ie_encoded_witness:
  "rtw_parse_wpa_ie (enc_ie (0xdd, wpa_body [0, 0x50, 0xf2, 2] [[0, 0x50, 0xf2, 4]] [[0, 0x50, 0xf2, 2]])) 0 24 0 0 (Some 0) =
    Inr (True, 8, 16, Some 0)"
  using rtw_parse_wpa_ie_encoded [of "[0, 0x50, 0xf2, 2]" "[[0, 0x50, 0xf2, 4]]" "[[0, 0x50, 0xf2, 2]]"
      "enc_ie (0xdd, wpa_body [0, 0x50, 0xf2, 2] [[0, 0x50, 0xf2, 4]] [[0, 0x50, 0xf2, 2]])" 0 0 0 0]
    holds_at_self [of "[]" "enc_ie (0xdd, wpa_body [0, 0x50, 0xf2, 2] [[0, 0x50, 0xf2, 4]] [[0, 0x50, 0xf2, 2]])" "[]"]
  by (simp add: wpa_body_def put_le16_def suite_flag_def WPA_CIPHER_TKIP_def WPA_CIPHER_CCMP_def)

end
