(* ===== verification/Vendor.thy ===== *)
theory Vendor
  imports Ie
begin

text \<open>
  Vendor elements and their attributes (core/rtw_ieee80211.c): Wi-Fi Protected Setup (WPS), P2P
  and Wi-Fi Display (WFD). The three element searches are the same loop with another OUI. The
  three attribute walks differ in the header, the byte order and the bounds checks; the 16-bit
  attribute length includes the header, so it can wrap to 0 and the walk may then never end. The
  walks are partial functions for this reason, and \<open>NoReturn\<close> is the result of a call that does
  not return.
\<close>

section \<open>Walks that may not end\<close>

text \<open>\<open>step c\<close> either ends the walk or gives the next offset.\<close>

partial_function (option) attr_walk :: "(nat \<Rightarrow> 'r + nat) \<Rightarrow> nat \<Rightarrow> 'r option" where
  "attr_walk step c = (case step c of Inl r \<Rightarrow> Some r | Inr c' \<Rightarrow> attr_walk step c')"

lemma attr_walk_end: "step c = Inl r \<Longrightarrow> attr_walk step c = Some r"
  by (subst attr_walk.simps) simp

lemma attr_walk_next: "step c = Inr c' \<Longrightarrow> attr_walk step c = attr_walk step c'"
  by (subst attr_walk.simps) simp

lemma attr_walk_stuck:
  assumes "step c = Inr c"
  shows "attr_walk step c = None"
proof -
  have "\<not> (s = step \<and> c' = c)" if "attr_walk s c' = Some r" for s c' r
    using that
  proof (rule attr_walk.raw_induct [where P = "\<lambda>s c' r. \<not> (s = step \<and> c' = c)", rotated])
    fix walk :: "(nat \<Rightarrow> 'a + nat) \<Rightarrow> nat \<Rightarrow> 'a option" and s c' r
    assume "\<And>s c' r. walk s c' = Some r \<Longrightarrow> \<not> (s = step \<and> c' = c)"
      and "(case s c' of Inl r \<Rightarrow> Some r | Inr c' \<Rightarrow> walk s c') = Some r"
    then show "\<not> (s = step \<and> c' = c)" using assms by (auto split: sum.splits)
  qed
  then show ?thesis by (cases "attr_walk step c") auto
qed

text \<open>A walk that moves ahead and stays within a bound ends.\<close>

lemma attr_walk_total:
  assumes "\<And>c c'. step c = Inr c' \<Longrightarrow> c < c' \<and> c' \<le> (lim :: nat)"
  shows "\<exists>r. attr_walk step c = Some r"
proof (induction "lim - c" arbitrary: c rule: less_induct)
  case less
  show ?case
  proof (cases "step c")
    case (Inl r)
    then show ?thesis by (blast dest: attr_walk_end)
  next
    case (Inr c')
    then have "lim - c' < lim - c" using assms [OF Inr] by (simp add: diff_less_mono2)
    from less [OF this] show ?thesis using attr_walk_next [where step = step, OF Inr] by simp
  qed
qed

definition returns :: "'a cres option \<Rightarrow> 'a cres" where
  "returns r = (case r of None \<Rightarrow> Inl NoReturn | Some x \<Rightarrow> x)"

lemma returns_simps [simp]: "returns None = Inl NoReturn" "returns (Some x) = x"
  by (simp_all add: returns_def)

section \<open>Finding a vendor element\<close>

definition MAX_IE_SZ :: nat where "MAX_IE_SZ = 768"

text \<open>The loop of \<open>rtw_get_wps_ie\<close>, \<open>rtw_get_p2p_ie\<close> and \<open>rtw_get_wfd_ie\<close>; \<open>ie\<close> is the optional
  copy destination and \<open>ielen\<close> the optional length output.\<close>

function vendor_ie_loop ::
  "u8 list \<Rightarrow> u8 list \<Rightarrow> nat \<Rightarrow> nat \<Rightarrow> u8 list option \<Rightarrow> nat option \<Rightarrow> nat \<Rightarrow>
   (nat option \<times> u8 list option \<times> nat option) cres" where
  "vendor_ie_loop oui buf in_ie in_len ie ielen cnt =
     (if \<not> cnt + 1 + 4 < in_len then Inr (None, ie, ielen)
      else bindc (rd buf (in_ie + cnt)) (\<lambda>eid.
        if cnt + 1 + 4 \<ge> MAX_IE_SZ then Inr (None, ie, ielen)
        else bindc (if eid = 0xdd then memeq buf (in_ie + (cnt + 2)) oui else Inr False) (\<lambda>hit.
          if hit then
            (if ie = None \<and> ielen = None then Inr (Some (in_ie + cnt), ie, ielen)
             else bindc (rd buf (in_ie + (cnt + 1))) (\<lambda>l.
               bindc (if ie = None then Inr None
                      else bindc (rdn buf (in_ie + cnt) (unat l + 2)) (copy_out ie)) (\<lambda>ie'.
               Inr (Some (in_ie + cnt), ie', map_option (\<lambda>_. unat l + 2) ielen))))
          else bindc (rd buf (in_ie + (cnt + 1))) (\<lambda>l.
            vendor_ie_loop oui buf in_ie in_len ie ielen (cnt + (unat l + 2))))))"
  by pat_completeness auto
termination
  by (relation "measure (\<lambda>(oui, buf, in_ie, in_len, ie, ielen, cnt). in_len - cnt)") auto

declare vendor_ie_loop.simps [simp del]

definition wps_oui :: "u8 list" where "wps_oui = [0x00, 0x50, 0xf2, 0x04]"
definition p2p_oui :: "u8 list" where "p2p_oui = [0x50, 0x6F, 0x9A, 0x09]"
definition wfd_oui :: "u8 list" where "wfd_oui = [0x50, 0x6F, 0x9A, 0x0A]"

lemma oui_length [simp]: "length wps_oui = 4" "length p2p_oui = 4" "length wfd_oui = 4"
  by (simp_all add: wps_oui_def p2p_oui_def wfd_oui_def)

definition rtw_get_wps_ie ::
  "u8 list \<Rightarrow> nat option \<Rightarrow> nat \<Rightarrow> u8 list option \<Rightarrow> nat option \<Rightarrow>
   (nat option \<times> u8 list option \<times> nat option) cres" where
  "rtw_get_wps_ie buf in_ie in_len wps_ie wps_ielen =
     (let wps_ielen = map_option (\<lambda>_. 0) wps_ielen in
      case in_ie of None \<Rightarrow> Inr (None, wps_ie, wps_ielen)
      | Some p \<Rightarrow>
          (if in_len \<le> 0 then Inr (None, wps_ie, wps_ielen)
           else vendor_ie_loop wps_oui buf p in_len wps_ie wps_ielen 0))"

text \<open>The length of the other two is a signed integer.\<close>

definition rtw_get_p2p_ie ::
  "u8 list \<Rightarrow> nat option \<Rightarrow> int \<Rightarrow> u8 list option \<Rightarrow> nat option \<Rightarrow>
   (nat option \<times> u8 list option \<times> nat option) cres" where
  "rtw_get_p2p_ie buf in_ie in_len p2p_ie p2p_ielen =
     (let p2p_ielen = map_option (\<lambda>_. 0) p2p_ielen in
      case in_ie of None \<Rightarrow> Inr (None, p2p_ie, p2p_ielen)
      | Some p \<Rightarrow>
          (if in_len \<le> 0 then Inr (None, p2p_ie, p2p_ielen)
           else vendor_ie_loop p2p_oui buf p (nat in_len) p2p_ie p2p_ielen 0))"

definition rtw_get_wfd_ie ::
  "u8 list \<Rightarrow> nat option \<Rightarrow> int \<Rightarrow> u8 list option \<Rightarrow> nat option \<Rightarrow>
   (nat option \<times> u8 list option \<times> nat option) cres" where
  "rtw_get_wfd_ie buf in_ie in_len wfd_ie wfd_ielen =
     (let wfd_ielen = map_option (\<lambda>_. 0) wfd_ielen in
      case in_ie of None \<Rightarrow> Inr (None, wfd_ie, wfd_ielen)
      | Some p \<Rightarrow>
          (if in_len \<le> 0 then Inr (None, wfd_ie, wfd_ielen)
           else vendor_ie_loop wfd_oui buf p (nat in_len) wfd_ie wfd_ielen 0))"

definition rtw_is_wps_ie :: "u8 list \<Rightarrow> nat option \<Rightarrow> nat \<Rightarrow> (bool \<times> nat) cres" where
  "rtw_is_wps_ie buf ie_ptr wps_ielen =
     (case ie_ptr of None \<Rightarrow> Inr (False, wps_ielen)
      | Some p \<Rightarrow>
        bindc (rd buf p) (\<lambda>eid.
        bindc (if eid = 0xdd then memeq buf (p + 2) wps_oui else Inr False) (\<lambda>hit.
        if hit then bindc (rd buf (p + 1)) (\<lambda>l. Inr (True, unat l + 2)) else Inr (False, wps_ielen))))"

datatype bss_type = BSS_TYPE_UNDEF | BSS_TYPE_BCN | BSS_TYPE_PROB_REQ | BSS_TYPE_PROB_RSP

definition rtw_get_wps_ie_from_scan_queue ::
  "u8 list \<Rightarrow> nat \<Rightarrow> nat \<Rightarrow> u8 list option \<Rightarrow> nat option \<Rightarrow> bss_type \<Rightarrow>
   (nat option \<times> u8 list option \<times> nat option) cres" where
  "rtw_get_wps_ie_from_scan_queue buf in_ie in_len wps_ie wps_ielen frame_type =
     (case frame_type of
        BSS_TYPE_BCN \<Rightarrow> rtw_get_wps_ie buf (Some (in_ie + 12)) (usub32 in_len 12) wps_ie wps_ielen
      | BSS_TYPE_PROB_RSP \<Rightarrow> rtw_get_wps_ie buf (Some (in_ie + 12)) (usub32 in_len 12) wps_ie wps_ielen
      | BSS_TYPE_PROB_REQ \<Rightarrow> rtw_get_wps_ie buf (Some (in_ie + 0)) (usub32 in_len 0) wps_ie wps_ielen
      | BSS_TYPE_UNDEF \<Rightarrow> Inr (None, wps_ie, wps_ielen))"

section \<open>Attributes\<close>

text \<open>A WPS attribute has a 4-byte big-endian header. The loop reads the header and moves on
  without comparing the attribute with the end of the element.\<close>

definition wps_attr_step ::
  "u8 list \<Rightarrow> nat \<Rightarrow> nat \<Rightarrow> u16 \<Rightarrow> nat \<Rightarrow> (nat \<times> nat) option cres + nat" where
  "wps_attr_step buf wps_ie wps_ielen target_attr_id c =
     (if \<not> c < wps_ielen then Inl (Inr None)
      else case bindc (rd buf (wps_ie + c)) (\<lambda>i0. bindc (rd buf (wps_ie + c + 1)) (\<lambda>i1.
                bindc (rd buf (wps_ie + c + 2)) (\<lambda>l0. bindc (rd buf (wps_ie + c + 3)) (\<lambda>l1.
                Inr (get_be16 i0 i1, get_be16 l0 l1))))) of
        Inl e \<Rightarrow> Inl (Inl e)
      | Inr (attr_id, attr_data_len) \<Rightarrow>
          let attr_len = attr_data_len + 4 in
          if attr_id = target_attr_id then Inl (Inr (Some (wps_ie + c, unat attr_len)))
          else Inr (c + unat attr_len))"

text \<open>P2P and WFD attributes have a 3-byte header, with a little-endian length in P2P and a
  big-endian one in WFD; the end of the attribute is compared with the end of the element.\<close>

definition attr3_step ::
  "(u8 \<Rightarrow> u8 \<Rightarrow> u16) \<Rightarrow> u8 list \<Rightarrow> nat \<Rightarrow> nat \<Rightarrow> u8 \<Rightarrow> nat \<Rightarrow> (nat \<times> nat) option cres + nat" where
  "attr3_step get16 buf ie ielen target_attr_id c =
     (if \<not> c + 3 \<le> ielen then Inl (Inr None)
      else case bindc (rd buf (ie + c)) (\<lambda>i. bindc (rd buf (ie + c + 1)) (\<lambda>l0.
                bindc (rd buf (ie + c + 2)) (\<lambda>l1. Inr (i, get16 l0 l1)))) of
        Inl e \<Rightarrow> Inl (Inl e)
      | Inr (attr_id, attr_data_len) \<Rightarrow>
          let attr_len = attr_data_len + 3 in
          if c + unat attr_len > ielen then Inl (Inr None)
          else if attr_id = target_attr_id then Inl (Inr (Some (ie + c, unat attr_len)))
          else Inr (c + unat attr_len))"

text \<open>What a hit writes: the optional copy of the attribute and the optional length.\<close>

definition attr_out ::
  "u8 list \<Rightarrow> u8 list option \<Rightarrow> nat option \<Rightarrow> (nat \<times> nat) option \<Rightarrow>
   (nat option \<times> u8 list option \<times> nat option) cres" where
  "attr_out buf buf_attr len_attr r =
     (case r of None \<Rightarrow> Inr (None, buf_attr, len_attr)
      | Some (p, n) \<Rightarrow>
          bindc (if buf_attr = None then Inr None else bindc (rdn buf p n) (copy_out buf_attr)) (\<lambda>b.
          Inr (Some p, b, map_option (\<lambda>_. n) len_attr)))"

definition rtw_get_wps_attr ::
  "u8 list \<Rightarrow> nat \<Rightarrow> nat \<Rightarrow> u16 \<Rightarrow> u8 list option \<Rightarrow> nat option \<Rightarrow>
   (nat option \<times> u8 list option \<times> nat option) cres" where
  "rtw_get_wps_attr buf wps_ie wps_ielen target_attr_id buf_attr len_attr =
     (let len_attr = map_option (\<lambda>_. 0) len_attr in
      bindc (rd buf wps_ie) (\<lambda>b0.
      bindc (if b0 = 0xdd then memeq buf (wps_ie + 2) wps_oui else Inr False) (\<lambda>ok.
      if \<not> ok then Inr (None, buf_attr, len_attr)
      else bindc (returns (attr_walk (wps_attr_step buf wps_ie wps_ielen target_attr_id) 6))
             (attr_out buf buf_attr len_attr))))"

definition get_attr3 ::
  "u8 list \<Rightarrow> (u8 \<Rightarrow> u8 \<Rightarrow> u16) \<Rightarrow> u8 list \<Rightarrow> nat option \<Rightarrow> nat \<Rightarrow> u8 \<Rightarrow> u8 list option \<Rightarrow> nat option \<Rightarrow>
   (nat option \<times> u8 list option \<times> nat option) cres" where
  "get_attr3 oui get16 buf ie ielen target_attr_id buf_attr len_attr =
     (let len_attr = map_option (\<lambda>_. 0) len_attr in
      case ie of None \<Rightarrow> Inr (None, buf_attr, len_attr)
      | Some p \<Rightarrow>
        (if ielen \<le> 6 then Inr (None, buf_attr, len_attr)
         else bindc (rd buf p) (\<lambda>b0.
           bindc (if b0 = 0xdd then memeq buf (p + 2) oui else Inr False) (\<lambda>ok.
           if \<not> ok then Inr (None, buf_attr, len_attr)
           else bindc (returns (attr_walk (attr3_step get16 buf p ielen target_attr_id) 6))
                  (attr_out buf buf_attr len_attr)))))"

definition rtw_get_p2p_attr ::
  "u8 list \<Rightarrow> nat option \<Rightarrow> nat \<Rightarrow> u8 \<Rightarrow> u8 list option \<Rightarrow> nat option \<Rightarrow>
   (nat option \<times> u8 list option \<times> nat option) cres" where
  "rtw_get_p2p_attr = get_attr3 p2p_oui get_le16"

definition rtw_get_wfd_attr ::
  "u8 list \<Rightarrow> nat option \<Rightarrow> nat \<Rightarrow> u8 \<Rightarrow> u8 list option \<Rightarrow> nat option \<Rightarrow>
   (nat option \<times> u8 list option \<times> nat option) cres" where
  "rtw_get_wfd_attr = get_attr3 wfd_oui get_be16"

text \<open>The content variants: the attribute without its header.\<close>

definition attr_content ::
  "nat \<Rightarrow> u8 list \<Rightarrow> u8 list option \<Rightarrow> nat option \<Rightarrow> nat option \<times> u8 list option \<times> nat option \<Rightarrow>
   (nat option \<times> u8 list option \<times> nat option) cres" where
  "attr_content hdr buf buf_content len_content r =
     (let len_content = map_option (\<lambda>_. 0) len_content in
      case r of
        (Some p, _, Some n) \<Rightarrow>
          (if n \<noteq> 0 then
             bindc (if buf_content = None then Inr None
                    else bindc (rdn buf (p + hdr) (usub32 n hdr)) (copy_out buf_content)) (\<lambda>b.
             Inr (Some (p + hdr), b, map_option (\<lambda>_. usub32 n hdr) len_content))
           else Inr (None, buf_content, len_content))
      | _ \<Rightarrow> Inr (None, buf_content, len_content))"

definition rtw_get_wps_attr_content ::
  "u8 list \<Rightarrow> nat \<Rightarrow> nat \<Rightarrow> u16 \<Rightarrow> u8 list option \<Rightarrow> nat option \<Rightarrow>
   (nat option \<times> u8 list option \<times> nat option) cres" where
  "rtw_get_wps_attr_content buf wps_ie wps_ielen target_attr_id buf_content len_content =
     bindc (rtw_get_wps_attr buf wps_ie wps_ielen target_attr_id None (Some 0))
       (attr_content 4 buf buf_content len_content)"

definition rtw_get_p2p_attr_content ::
  "u8 list \<Rightarrow> nat option \<Rightarrow> nat \<Rightarrow> u8 \<Rightarrow> u8 list option \<Rightarrow> nat option \<Rightarrow>
   (nat option \<times> u8 list option \<times> nat option) cres" where
  "rtw_get_p2p_attr_content buf p2p_ie p2p_ielen target_attr_id buf_content len_content =
     bindc (rtw_get_p2p_attr buf p2p_ie p2p_ielen target_attr_id None (Some 0))
       (attr_content 3 buf buf_content len_content)"

definition rtw_get_wfd_attr_content ::
  "u8 list \<Rightarrow> nat option \<Rightarrow> nat \<Rightarrow> u8 \<Rightarrow> u8 list option \<Rightarrow> nat option \<Rightarrow>
   (nat option \<times> u8 list option \<times> nat option) cres" where
  "rtw_get_wfd_attr_content buf wfd_ie wfd_ielen target_attr_id buf_content len_content =
     bindc (rtw_get_wfd_attr buf wfd_ie wfd_ielen target_attr_id None (Some 0))
       (attr_content 3 buf buf_content len_content)"

text \<open>The contents are optional; the length is that of the contents either way.\<close>

definition rtw_set_p2p_attr_content ::
  "u8 list \<Rightarrow> nat \<Rightarrow> u8 \<Rightarrow> u16 \<Rightarrow> u8 list option \<Rightarrow> (u8 list \<times> nat) cres" where
  "rtw_set_p2p_attr_content buf pbuf attr_id attr_len pdata_attr =
     bindc (wrn buf pbuf [attr_id]) (\<lambda>buf.
     bindc (wrn buf (pbuf + 1) (put_le16 attr_len)) (\<lambda>buf.
     bindc (case pdata_attr of None \<Rightarrow> Inr buf
            | Some d \<Rightarrow> bindc (rdn d 0 (unat attr_len)) (wrn buf (pbuf + 3))) (\<lambda>buf.
     Inr (buf, unat attr_len + 3))))"

section \<open>Deleting vendor elements and attributes\<close>

type_synonym searcher = "u8 list \<Rightarrow> nat \<Rightarrow> (nat option \<times> u8 list option \<times> nat option) cres"

text \<open>The loops of \<open>rtw_del_p2p_ie\<close> and \<open>rtw_del_wfd_ie\<close>: the search starts over after each removal;
  the space that becomes free is cleared.\<close>

fun del_ie_loop :: "searcher \<Rightarrow> nat \<Rightarrow> u8 list \<Rightarrow> nat \<Rightarrow> nat \<Rightarrow> (u8 list \<times> nat) cres" where
  "del_ie_loop get 0 buf ies ies_len = Inl NoReturn"
| "del_ie_loop get (Suc fuel) buf ies ies_len =
     bindc (get buf ies_len) (\<lambda>(target_ie, _, target_ie_len).
     case (target_ie, target_ie_len) of
       (Some t, Some n) \<Rightarrow>
         (if n = 0 then Inr (buf, ies_len)
          else let next_ie = t + n; remain_len = usub32 ies_len (next_ie - ies) in
            bindc (memmove buf t next_ie remain_len) (\<lambda>buf.
            bindc (memset buf (t + remain_len) 0 n) (\<lambda>buf.
            del_ie_loop get fuel buf ies (usub32 ies_len n))))
     | _ \<Rightarrow> Inr (buf, ies_len))"

definition rtw_del_p2p_ie :: "u8 list \<Rightarrow> nat \<Rightarrow> nat \<Rightarrow> (u8 list \<times> nat) cres" where
  "rtw_del_p2p_ie buf ies ies_len_ori =
     del_ie_loop (\<lambda>buf l. rtw_get_p2p_ie buf (Some ies) (sint32 l) None (Some 0)) (Suc ies_len_ori)
       buf ies ies_len_ori"

definition rtw_del_wfd_ie :: "u8 list \<Rightarrow> nat \<Rightarrow> nat \<Rightarrow> (u8 list \<times> nat) cres" where
  "rtw_del_wfd_ie buf ies ies_len_ori =
     del_ie_loop (\<lambda>buf l. rtw_get_wfd_ie buf (Some ies) (sint32 l) None (Some 0)) (Suc ies_len_ori)
       buf ies ies_len_ori"

text \<open>The loops of \<open>rtw_del_p2p_attr\<close> and \<open>rtw_del_wfd_attr\<close>: the length byte of the element is
  lowered with each attribute removed.\<close>

fun del_attr_loop :: "searcher \<Rightarrow> nat \<Rightarrow> u8 list \<Rightarrow> nat \<Rightarrow> nat \<Rightarrow> (u8 list \<times> nat) cres" where
  "del_attr_loop get 0 buf ie ielen = Inl NoReturn"
| "del_attr_loop get (Suc fuel) buf ie ielen =
     bindc (get buf ielen) (\<lambda>(target_attr, _, target_attr_len).
     case (target_attr, target_attr_len) of
       (Some t, Some n) \<Rightarrow>
         (if n = 0 then Inr (buf, ielen)
          else let next_attr = t + n; remain_len = usub32 ielen (next_attr - ie) in
            bindc (memmove buf t next_attr remain_len) (\<lambda>buf.
            bindc (memset buf (t + remain_len) 0 n) (\<lambda>buf.
            bindc (rd buf (ie + 1)) (\<lambda>l.
            bindc (wrn buf (ie + 1) [l - of_nat n]) (\<lambda>buf.
            del_attr_loop get fuel buf ie (usub32 ielen n))))))
     | _ \<Rightarrow> Inr (buf, ielen))"

definition rtw_del_p2p_attr :: "u8 list \<Rightarrow> nat \<Rightarrow> nat \<Rightarrow> u8 \<Rightarrow> (u8 list \<times> nat) cres" where
  "rtw_del_p2p_attr buf ie ielen_ori attr_id =
     del_attr_loop (\<lambda>buf l. rtw_get_p2p_attr buf (Some ie) l attr_id None (Some 0)) (Suc ielen_ori)
       buf ie ielen_ori"

definition rtw_del_wfd_attr :: "u8 list \<Rightarrow> nat \<Rightarrow> nat \<Rightarrow> u8 \<Rightarrow> (u8 list \<times> nat) cres" where
  "rtw_del_wfd_attr buf ie ielen_ori attr_id =
     del_attr_loop (\<lambda>buf l. rtw_get_wfd_attr buf (Some ie) l attr_id None (Some 0)) (Suc ielen_ori)
       buf ie ielen_ori"

section \<open>Vendor elements of a network description\<close>

record bss_ex =
  bss_kind :: bss_type
  IELength :: nat
  bss_ies :: "u8 list"

definition BSS_EX_FIXED_IE_OFFSET :: "bss_ex \<Rightarrow> nat" where
  "BSS_EX_FIXED_IE_OFFSET bss = (if bss_kind bss = BSS_TYPE_PROB_REQ then 0 else 12)"

definition BSS_EX_TLV_IES_LEN :: "bss_ex \<Rightarrow> nat" where
  "BSS_EX_TLV_IES_LEN bss = usub32 (IELength bss) (BSS_EX_FIXED_IE_OFFSET bss)"

definition rtw_bss_ex_get_p2p_ie ::
  "bss_ex \<Rightarrow> u8 list option \<Rightarrow> nat option \<Rightarrow> (nat option \<times> u8 list option \<times> nat option) cres" where
  "rtw_bss_ex_get_p2p_ie bss p2p_ie p2p_ielen =
     rtw_get_p2p_ie (bss_ies bss) (Some (BSS_EX_FIXED_IE_OFFSET bss))
       (sint32 (BSS_EX_TLV_IES_LEN bss)) p2p_ie p2p_ielen"

definition rtw_bss_ex_get_wfd_ie ::
  "bss_ex \<Rightarrow> u8 list option \<Rightarrow> nat option \<Rightarrow> (nat option \<times> u8 list option \<times> nat option) cres" where
  "rtw_bss_ex_get_wfd_ie bss wfd_ie wfd_ielen =
     rtw_get_wfd_ie (bss_ies bss) (Some (BSS_EX_FIXED_IE_OFFSET bss))
       (sint32 (BSS_EX_TLV_IES_LEN bss)) wfd_ie wfd_ielen"

definition bss_ex_del_ie :: "(u8 list \<Rightarrow> nat \<Rightarrow> nat \<Rightarrow> (u8 list \<times> nat) cres) \<Rightarrow> bss_ex \<Rightarrow> bss_ex cres" where
  "bss_ex_del_ie del bss =
     (let ies_len_ori = BSS_EX_TLV_IES_LEN bss in
      bindc (del (bss_ies bss) (BSS_EX_FIXED_IE_OFFSET bss) ies_len_ori) (\<lambda>(buf, ies_len).
      Inr (bss\<lparr>bss_ies := buf, IELength := usub32 (IELength bss) (usub32 ies_len_ori ies_len)\<rparr>)))"

definition rtw_bss_ex_del_p2p_ie :: "bss_ex \<Rightarrow> bss_ex cres" where
  "rtw_bss_ex_del_p2p_ie = bss_ex_del_ie rtw_del_p2p_ie"

definition rtw_bss_ex_del_wfd_ie :: "bss_ex \<Rightarrow> bss_ex cres" where
  "rtw_bss_ex_del_wfd_ie = bss_ex_del_ie rtw_del_wfd_ie"

text \<open>The attribute is deleted from every vendor element; what follows moves up.\<close>

fun bss_ex_del_attr_loop ::
  "(u8 list \<Rightarrow> nat \<Rightarrow> nat \<Rightarrow> (nat option \<times> u8 list option \<times> nat option) cres) \<Rightarrow>
   (u8 list \<Rightarrow> nat \<Rightarrow> nat \<Rightarrow> (u8 list \<times> nat) cres) \<Rightarrow> nat \<Rightarrow> bss_ex \<Rightarrow> nat \<Rightarrow> nat \<Rightarrow> bss_ex cres" where
  "bss_ex_del_attr_loop get del 0 bss ies ies_len = Inl NoReturn"
| "bss_ex_del_attr_loop get del (Suc fuel) bss ies ies_len =
     bindc (get (bss_ies bss) ies ies_len) (\<lambda>(ie, _, ie_len_ori).
     case (ie, ie_len_ori) of
       (Some ie, Some ie_len_ori) \<Rightarrow>
         let next_ie_ori = ie + ie_len_ori; remain_len = usub32 (IELength bss) next_ie_ori in
         bindc (del (bss_ies bss) ie ie_len_ori) (\<lambda>(buf, ie_len).
         if ie_len \<noteq> ie_len_ori then
           let next_ie = ie + ie_len; gone = usub32 ie_len_ori ie_len in
           bindc (memmove buf next_ie next_ie_ori remain_len) (\<lambda>buf.
           bindc (memset buf (next_ie + remain_len) 0 gone) (\<lambda>buf.
           bss_ex_del_attr_loop get del fuel
             (bss\<lparr>bss_ies := buf, IELength := usub32 (IELength bss) gone\<rparr>) next_ie remain_len))
         else bss_ex_del_attr_loop get del fuel (bss\<lparr>bss_ies := buf\<rparr>) next_ie_ori remain_len)
     | _ \<Rightarrow> Inr bss)"

definition rtw_bss_ex_del_p2p_attr :: "bss_ex \<Rightarrow> u8 \<Rightarrow> bss_ex cres" where
  "rtw_bss_ex_del_p2p_attr bss attr_id =
     bss_ex_del_attr_loop (\<lambda>buf p l. rtw_get_p2p_ie buf (Some p) (sint32 l) None (Some 0))
       (\<lambda>buf ie l. rtw_del_p2p_attr buf ie l attr_id) (Suc (BSS_EX_TLV_IES_LEN bss)) bss
       (BSS_EX_FIXED_IE_OFFSET bss) (BSS_EX_TLV_IES_LEN bss)"

definition rtw_bss_ex_del_wfd_attr :: "bss_ex \<Rightarrow> u8 \<Rightarrow> bss_ex cres" where
  "rtw_bss_ex_del_wfd_attr bss attr_id =
     bss_ex_del_attr_loop (\<lambda>buf p l. rtw_get_wfd_ie buf (Some p) (sint32 l) None (Some 0))
       (\<lambda>buf ie l. rtw_del_wfd_attr buf ie l attr_id) (Suc (BSS_EX_TLV_IES_LEN bss)) bss
       (BSS_EX_FIXED_IE_OFFSET bss) (BSS_EX_TLV_IES_LEN bss)"

section \<open>Merging P2P elements\<close>

text \<open>The length is an \<open>int\<close> in the first routine and a \<open>u8\<close> in the second. A negative number of
  bytes to copy is an access out of bounds.\<close>

function p2p_merged_len_loop :: "u8 list \<Rightarrow> nat \<Rightarrow> nat \<Rightarrow> nat \<Rightarrow> int \<Rightarrow> int cres" where
  "p2p_merged_len_loop buf in_ie in_len i len =
     (if \<not> i < in_len then Inr len
      else bindc (rd buf (in_ie + i)) (\<lambda>eid.
        bindc (if eid = 0xdd then memeq buf (in_ie + (i + 2)) p2p_oui else Inr False) (\<lambda>hit.
        bindc (rd buf (in_ie + (i + 1))) (\<lambda>l.
        p2p_merged_len_loop buf in_ie in_len (i + (unat l + 2))
          (if hit then len + (int (unat l) - 4) else len)))))"
  by pat_completeness auto
termination by (relation "measure (\<lambda>(buf, in_ie, in_len, i, len). in_len - i)") auto

declare p2p_merged_len_loop.simps [simp del]

definition rtw_get_p2p_merged_ies_len :: "u8 list \<Rightarrow> nat \<Rightarrow> nat \<Rightarrow> u32 cres" where
  "rtw_get_p2p_merged_ies_len buf in_ie in_len =
     bindc (p2p_merged_len_loop buf in_ie in_len 0 0) (\<lambda>len. Inr (word_of_int (len + 4)))"

function p2p_merge_loop :: "u8 list \<Rightarrow> nat \<Rightarrow> nat \<Rightarrow> u8 list \<Rightarrow> nat \<Rightarrow> u8 \<Rightarrow> nat \<Rightarrow> (u8 list \<times> u8) cres" where
  "p2p_merge_loop buf in_ie in_len dst merge_ie len i =
     (if \<not> i < in_len then Inr (dst, len)
      else bindc (rd buf (in_ie + i)) (\<lambda>eid.
        bindc (if eid = 0xdd then memeq buf (in_ie + (i + 2)) p2p_oui else Inr False) (\<lambda>hit.
        bindc (rd buf (in_ie + (i + 1))) (\<lambda>l.
        if hit then
          (if unat l < 4 then Inl OutOfBounds
           else bindc (rdn buf (in_ie + (i + 2) + 4) (unat l - 4)) (\<lambda>xs.
             bindc (wrn dst merge_ie xs) (\<lambda>dst.
             p2p_merge_loop buf in_ie in_len dst (merge_ie + (unat l - 4)) (len + (l - 4))
               (i + (unat l + 2)))))
        else p2p_merge_loop buf in_ie in_len dst merge_ie len (i + (unat l + 2))))))"
  by pat_completeness auto
termination
  by (relation "measure (\<lambda>(buf, in_ie, in_len, dst, merge_ie, len, i). in_len - i)") auto

declare p2p_merge_loop.simps [simp del]

definition rtw_p2p_merge_ies :: "u8 list \<Rightarrow> nat \<Rightarrow> nat \<Rightarrow> u8 list option \<Rightarrow> (u8 list option \<times> nat) cres" where
  "rtw_p2p_merge_ies buf in_ie in_len merge_ie =
     (case merge_ie of None \<Rightarrow> Inr (None, 0)
      | Some dst \<Rightarrow>
          bindc (wrn dst 0 [0xDD, 0x00, 0x50, 0x6f, 0x9a, 0x09]) (\<lambda>dst.
          bindc (p2p_merge_loop buf in_ie in_len dst 6 0 0) (\<lambda>(dst, len).
          Inr (Some dst, unat len + 4))))"

end
