(* ===== verification/VendorSpec.thy ===== *)
theory VendorSpec
  imports Vendor
begin

text \<open>
  What the vendor element and attribute routines promise: each search is an instance of the
  type-length-value contract, deletion keeps the other attributes and the length byte in step,
  merging concatenates the contents, and the walks that do not return.
\<close>

section \<open>Vendor elements\<close>

definition vendor_wf :: "ie_elem \<Rightarrow> bool" where
  "vendor_wf e \<longleftrightarrow> length (snd e) < 256 \<and> (fst e = 0xdd \<longrightarrow> 4 \<le> length (snd e))"

lemma vendor_ie_walker:
  assumes oui: "length oui = 4"
  shows "tlv_walker enc_ie (\<lambda>_. vendor_wf) (\<lambda>_. oui_match (0xdd, Some oui)) (\<lambda>lim. lim \<le> MAX_IE_SZ)
    (\<lambda>buf b lim (_ :: unit) c. vendor_ie_loop oui buf b lim None (Some 0) c)
    (\<lambda>p e. Inr (Some p, None, Some (length (snd e) + 2))) (Inr (None, None, Some 0))"
proof unfold_locales
  fix k :: unit and e :: ie_elem and lim b c :: nat and buf :: "u8 list"
  obtain i d where e: "e = (i, d)" by (cases e)
  assume wf: "vendor_wf e" and lim: "lim \<le> MAX_IE_SZ" "b + lim \<le> length buf" "c + length (enc_ie e) \<le> lim"
    and h: "holds_at buf (b + c) (enc_ie e)"
  have d: "length d < 256" "i = 0xdd \<longrightarrow> 4 \<le> length d" using wf by (simp_all add: vendor_wf_def e)
  have short: "vendor_ie_loop oui buf b lim None (Some 0) x = Inr (None, None, Some 0)" if "\<not> x + 1 + 4 < lim" for x
    using that by (subst vendor_ie_loop.simps) simp
  have hit: "(if i = 0xdd then memeq buf (b + (c + 2)) oui else Inr False) = Inr (oui_match (0xdd, Some oui) e)"
  proof (cases "i = 0xdd")
    case True
    have "holds_at buf (b + (c + 2)) d" using h by (simp add: e)
    from holds_at_memeq [OF this, of oui] True d oui show ?thesis by (simp add: e)
  qed (simp add: e)
  have b01: "rd buf (b + c) = Inr i" "rd buf (b + (c + 1)) = Inr (of_nat (length d))"
    using h by (simp_all add: e rd_ok)
  show "vendor_ie_loop oui buf b lim None (Some 0) c =
    (if oui_match (0xdd, Some oui) e then Inr (Some (b + c), None, Some (length (snd e) + 2))
     else if c + length (enc_ie e) = lim then Inr (None, None, Some 0)
     else vendor_ie_loop oui buf b lim None (Some 0) (c + length (enc_ie e)))"
  proof (cases "c + 1 + 4 < lim")
    case False
    then have "\<not> oui_match (0xdd, Some oui) e" using lim(3) d by (auto simp: e)
    with False short [of c] short [of "c + length (enc_ie e)"] show ?thesis by simp
  next
    case True
    then have "\<not> MAX_IE_SZ \<le> c + 1 + 4" using lim(1) by simp
    with True b01 hit d(1) short [of lim] show ?thesis
      by (subst vendor_ie_loop.simps) (auto simp: e simp del: oui_match.simps)
  qed
qed

text \<open>Closing a gap: the rest moves up and the space that becomes free is cleared.\<close>

lemma close_gap:
  assumes "p = length P" and "q = p + length A" and "n = length B" and "m = length A"
  shows "bindc (memmove (P @ A @ B @ R) p q n) (\<lambda>buf. memset buf (p + n) 0 m) =
    Inr (P @ B @ replicate m 0 @ R)"
proof -
  have "memmove (P @ A @ B @ R) p q n = Inr (P @ B @ drop (length B) (A @ B @ R))"
    using assms by (simp add: memmove_def rdn_def wrn_def)
  moreover have "drop (length A) (drop (length B) (A @ B @ R)) = R"
    by (simp add: add.commute)
  ultimately show ?thesis using assms by (simp add: memset_def wrn_def ac_simps)
qed

lemma bindc_nested: "bindc m (\<lambda>x. bindc (f x) g) = bindc (bindc m f) g"
  by (simp add: bindc_assoc)

locale vendor_elements =
  fixes oui :: "u8 list"
  assumes oui_length: "length oui = 4"
begin

abbreviation hit where "hit \<equiv> oui_match (0xdd, Some oui)"

sublocale walk: tlv_walker enc_ie "\<lambda>_. vendor_wf" "\<lambda>_. hit" "\<lambda>lim. lim \<le> MAX_IE_SZ"
  "\<lambda>buf b lim (_ :: unit) c. vendor_ie_loop oui buf b lim None (Some 0) c"
  "\<lambda>p e. Inr (Some p, None, Some (length (snd e) + 2))" "Inr (None, None, Some 0)"
  by (rule vendor_ie_walker [OF oui_length])

lemma search_elems:
  assumes "\<forall>e \<in> set es. vendor_wf e" and "holds_at buf b (ies_bytes es)"
    and "length (ies_bytes es) \<le> MAX_IE_SZ"
  shows "vendor_ie_loop oui buf b (length (ies_bytes es)) None (Some 0) 0 =
    (case tlv_find enc_ie hit 0 es of None \<Rightarrow> Inr (None, None, Some 0)
     | Some (c, e) \<Rightarrow> Inr (Some (b + c), None, Some (length (snd e) + 2)))"
proof (cases "es = []")
  case True
  then show ?thesis by (subst vendor_ie_loop.simps) simp
next
  case False
  then show ?thesis
    using assms holds_at_length [OF assms(2)] by (intro walk.walk_finds) auto
qed

text \<open>Deleting with any search that behaves like this on the elements.\<close>

lemma del_loop_elems:
  assumes get: "\<And>buf es. \<forall>e \<in> set es. vendor_wf e \<Longrightarrow> holds_at buf (length pre) (ies_bytes es) \<Longrightarrow>
      length (ies_bytes es) \<le> MAX_IE_SZ \<Longrightarrow> get buf (length (ies_bytes es)) =
      (case tlv_find enc_ie hit 0 es of None \<Rightarrow> Inr (None, None, Some 0)
       | Some (c, e) \<Rightarrow> Inr (Some (length pre + c), None, Some (length (snd e) + 2)))"
    and "\<forall>e \<in> set es. vendor_wf e" and "length (ies_bytes es) \<le> MAX_IE_SZ" and "length es < fuel"
  shows "del_ie_loop get fuel (pre @ ies_bytes es @ post) (length pre) (length (ies_bytes es)) =
    Inr (pre @ ies_bytes (keep hit es) @
      replicate (length (ies_bytes es) - length (ies_bytes (keep hit es))) 0 @ post,
      length (ies_bytes (keep hit es)))"
  using assms(2-)
proof (induction fuel arbitrary: es post)
  case 0
  then show ?case by simp
next
  case (Suc fuel)
  have h: "holds_at (pre @ ies_bytes es @ post) (length pre) (ies_bytes es)" by (rule holds_at_self)
  note g = get [OF Suc.prems(1) h Suc.prems(2)]
  show ?case
  proof (cases "tlv_find enc_ie hit 0 es")
    case None
    then have "keep hit es = es" by (simp add: tlv_find_None_iff filter_id_conv)
    with None g show ?thesis by simp
  next
    case (Some a)
    then obtain c e es1 es2 where a: "a = (c, e)" and es: "es = es1 @ e # es2"
      and e1: "\<forall>x \<in> set es1. \<not> hit x" and m: "hit e" and c: "c = length (ies_bytes es1)"
      using tlv_find_Some_split [of enc_ie hit 0 es] by (cases a) fastforce
    let ?n = "length (enc_ie e)" and ?r = "length (ies_bytes es2)" and ?t = "length pre + c"
    have tot: "length (ies_bytes es) = c + ?n + ?r" by (simp add: es c)
    have wrap: "usub32 (length (ies_bytes es)) (?t + ?n - length pre) = ?r"
      "usub32 (length (ies_bytes es)) ?n = length (ies_bytes (es1 @ es2))"
      using Suc.prems(2) tot by (simp_all add: MAX_IE_SZ_def c)
    have gap: "bindc (memmove (pre @ ies_bytes es @ post) ?t (?t + ?n) ?r) (\<lambda>buf. memset buf (?t + ?r) 0 ?n) =
      Inr (pre @ ies_bytes (es1 @ es2) @ replicate ?n 0 @ post)"
      using close_gap [of ?t "pre @ ies_bytes es1" "?t + ?n" "enc_ie e" ?r "ies_bytes es2" ?n post] c
      by (simp add: es)
    have keep: "keep hit es = keep hit (es1 @ es2)" using m by (simp add: es)
    have le: "length (ies_bytes (keep hit (es1 @ es2))) \<le> length (ies_bytes (es1 @ es2))"
      by (rule tlv_bytes_keep_le)
    have "del_ie_loop get (Suc fuel) (pre @ ies_bytes es @ post) (length pre) (length (ies_bytes es)) =
      del_ie_loop get fuel (pre @ ies_bytes (es1 @ es2) @ replicate ?n 0 @ post) (length pre)
        (length (ies_bytes (es1 @ es2)))"
      using g Some a wrap gap by (simp add: bindc_nested Let_def del: bindc_eq_Inr)
    also have "\<dots> = Inr (pre @ ies_bytes (keep hit (es1 @ es2)) @
        replicate (length (ies_bytes (es1 @ es2)) - length (ies_bytes (keep hit (es1 @ es2)))) 0 @
        replicate ?n 0 @ post, length (ies_bytes (keep hit (es1 @ es2))))"
      using Suc.prems tot by (intro Suc.IH) (auto simp: es c)
    also have "replicate (length (ies_bytes (es1 @ es2)) - length (ies_bytes (keep hit (es1 @ es2)))) 0 @
        replicate ?n (0 :: u8) @ post =
      replicate (length (ies_bytes es) - length (ies_bytes (keep hit es))) 0 @ post"
    proof -
      have "length (ies_bytes es) - length (ies_bytes (keep hit es)) =
        length (ies_bytes (es1 @ es2)) - length (ies_bytes (keep hit (es1 @ es2))) + ?n"
        using le tot by (simp add: keep c)
      then show ?thesis by (simp only: replicate_add append_assoc)
    qed
    finally show ?thesis by (simp only: keep)
  qed
qed

end

interpretation wps: vendor_elements wps_oui by unfold_locales simp
interpretation p2p: vendor_elements p2p_oui by unfold_locales simp
interpretation wfd: vendor_elements wfd_oui by unfold_locales simp

section \<open>Attributes\<close>

text \<open>A 16-bit length in either byte order, written and read back.\<close>

locale len16 =
  fixes get16 :: "u8 \<Rightarrow> u8 \<Rightarrow> u16" and put16 :: "u16 \<Rightarrow> u8 list"
  assumes get_put: "\<exists>a b. put16 w = [a, b] \<and> get16 a b = w"
begin

definition enc_attr :: "u8 \<times> u8 list \<Rightarrow> u8 list" where
  "enc_attr a = fst a # put16 (of_nat (length (snd a))) @ snd a"

lemma enc_attr_length [simp]: "length (enc_attr a) = length (snd a) + 3"
  using get_put [of "of_nat (length (snd a))"] by (auto simp: enc_attr_def)

lemma enc_attr_nonempty: "enc_attr a \<noteq> []"
  by (simp add: enc_attr_def)

text \<open>The step of the walk at an attribute whose length field does not make its total wrap.\<close>

lemma attr3_step_at:
  assumes "holds_at buf (ie + c) (i # put16 (of_nat n))" and "n < 65533" and "c + 3 \<le> ielen"
  shows "attr3_step get16 buf ie ielen k c =
    (if c + (n + 3) > ielen then Inl (Inr None)
     else if i = k then Inl (Inr (Some (ie + c, n + 3))) else Inr (c + (n + 3)))"
proof -
  obtain a b where ab: "put16 (of_nat n) = [a, b]" "get16 a b = of_nat n" using get_put by blast
  have "(of_nat n + 3 :: u16) = of_nat (n + 3)" by simp
  then have n3: "unat (of_nat n + 3 :: u16) = n + 3"
    using assms(2) unat_of_nat_u16 [of "n + 3"] by simp
  have "rd buf (ie + c) = Inr i" "rd buf (ie + c + 1) = Inr a" "rd buf (ie + c + 2) = Inr b"
    using assms(1) ab(1) by (simp_all add: rd_ok)
  with ab(2) n3 assms(3) show ?thesis by (simp add: attr3_step_def Let_def)
qed

sublocale attr: tlv_walker enc_attr "\<lambda>_ a. length (snd a) < 65533" "\<lambda>k a. fst a = k" "\<lambda>_. True"
  "\<lambda>buf b lim k c. attr_walk (attr3_step get16 buf b lim k) c"
  "\<lambda>p a. Some (Inr (Some (p, length (snd a) + 3)))" "Some (Inr None)"
proof unfold_locales
  fix k :: u8 and a :: "u8 \<times> u8 list" and lim b c :: nat and buf :: "u8 list"
  let ?step = "attr3_step get16 buf b lim k" and ?n = "length (snd a)"
  assume n: "?n < 65533" and lim: "c + length (enc_attr a) \<le> lim" and h: "holds_at buf (b + c) (enc_attr a)"
  have "holds_at buf (b + c) (fst a # put16 (of_nat ?n))"
    using h unfolding enc_attr_def by simp
  from attr3_step_at [OF this n, of lim k] lim have st: "?step c =
    (if fst a = k then Inl (Inr (Some (b + c, ?n + 3))) else Inr (c + (?n + 3)))" by simp
  have last: "attr_walk ?step lim = Some (Inr None)"
    by (rule attr_walk_end) (simp add: attr3_step_def)
  show "attr_walk ?step c =
    (if fst a = k then Some (Inr (Some (b + c, ?n + 3)))
     else if c + length (enc_attr a) = lim then Some (Inr None)
     else attr_walk ?step (c + length (enc_attr a)))"
  proof (cases "fst a = k")
    case True
    with st show ?thesis by (simp add: attr_walk_end)
  next
    case False
    with st have "attr_walk ?step c = attr_walk ?step (c + (?n + 3))"
      by (intro attr_walk_next) simp
    with False last show ?thesis by auto
  qed
qed

text \<open>An attribute with the length 0xFFFD and another identifier: the total wraps to 0 and the walk
  stays where it is.\<close>

lemma attr3_step_wraps:
  assumes "holds_at buf (ie + c) (i # put16 0xFFFD)" and "c + 3 \<le> ielen" and "i \<noteq> k"
  shows "attr3_step get16 buf ie ielen k c = Inr c"
proof -
  obtain a b where ab: "put16 0xFFFD = [a, b]" "get16 a b = 0xFFFD" using get_put by blast
  have "rd buf (ie + c) = Inr i" "rd buf (ie + c + 1) = Inr a" "rd buf (ie + c + 2) = Inr b"
    using assms(1) ab(1) by (simp_all add: rd_ok)
  with ab(2) assms(2,3) show ?thesis by (simp add: attr3_step_def Let_def)
qed

end

interpretation le: len16 get_le16 put_le16
  by unfold_locales (auto simp: put_le16_def)

interpretation be: len16 get_be16 put_be16
  by unfold_locales (auto simp: put_be16_def)

section \<open>Attributes of a vendor element\<close>

locale vendor_attrs = len16 +
  fixes oui :: "u8 list"
  assumes oui_length: "length oui = 4"
begin

text \<open>The element header with the length byte \<open>l\<close>, and the search on the attributes.\<close>

definition hdr :: "u8 \<Rightarrow> u8 list" where
  "hdr l = [0xdd, l] @ oui"

lemma hdr_length [simp]: "length (hdr l) = 6"
  by (simp add: hdr_def oui_length)

abbreviation attrs_bytes where "attrs_bytes \<equiv> tlv_bytes enc_attr"
abbreviation has_id where "has_id k a \<equiv> fst a = k"

definition attrs_ok :: "(u8 \<times> u8 list) list \<Rightarrow> bool" where
  "attrs_ok as \<longleftrightarrow> (\<forall>a \<in> set as. length (snd a) < 65533)"

lemma get_attr3_header:
  assumes "holds_at buf ie (hdr l)" and "6 < ielen"
  shows "get_attr3 oui get16 buf (Some ie) ielen k None (Some 0) =
    bindc (returns (attr_walk (attr3_step get16 buf ie ielen k) 6)) (attr_out buf None (Some 0))"
proof -
  have "holds_at buf (ie + 2) oui" "rd buf ie = Inr 0xdd"
    using assms(1) by (simp_all add: hdr_def rd_ok)
  then show ?thesis
    using holds_at_memeq [of buf "ie + 2" oui oui] assms(2) by (simp add: get_attr3_def Let_def)
qed

lemma get_attr3_elems:
  assumes "attrs_ok as" and "holds_at buf ie (hdr l @ attrs_bytes as)"
  shows "get_attr3 oui get16 buf (Some ie) (6 + length (attrs_bytes as)) k None (Some 0) =
    (case tlv_find enc_attr (has_id k) 6 as of None \<Rightarrow> Inr (None, None, Some 0)
     | Some (c, a) \<Rightarrow> Inr (Some (ie + c), None, Some (length (snd a) + 3)))"
proof (cases "as = []")
  case True
  then show ?thesis by (simp add: get_attr3_def)
next
  case False
  have h: "holds_at buf ie (hdr l)" "holds_at buf (ie + 6) (attrs_bytes as)"
    using assms(2) by simp_all
  have pos: "0 < length (attrs_bytes as)" using False by (cases as) auto
  have "attr_walk (attr3_step get16 buf ie (6 + length (attrs_bytes as)) k) 6 =
    (case tlv_find enc_attr (has_id k) 6 as of None \<Rightarrow> Some (Inr None)
     | Some (c, a) \<Rightarrow> Some (Inr (Some (ie + c, length (snd a) + 3))))"
    using assms(1) h(2) holds_at_length [OF h(2)] False
    by (intro attr.walk_finds) (auto simp: attrs_ok_def enc_attr_nonempty)
  then show ?thesis
    using get_attr3_header [OF h(1), of "6 + length (attrs_bytes as)" k] pos
    by (auto simp: attr_out_def split: option.split)
qed

text \<open>An attribute of length 0xFFFD in front of the one that is searched.\<close>

lemma get_attr3_hangs:
  assumes "attrs_ok as" and "\<forall>a \<in> set as. \<not> has_id k a" and "i \<noteq> k"
    and "holds_at buf ie (hdr l @ attrs_bytes as @ i # put16 0xFFFD)"
    and "6 + length (attrs_bytes as) + 3 \<le> ielen"
  shows "get_attr3 oui get16 buf (Some ie) ielen k None (Some 0) = Inl NoReturn"
proof -
  let ?step = "attr3_step get16 buf ie ielen k"
  have "attr_walk ?step c = None"
    if "holds_at buf (ie + c) (attrs_bytes as @ i # put16 0xFFFD)" "c + length (attrs_bytes as) + 3 \<le> ielen"
      "attrs_ok as" "\<forall>a \<in> set as. \<not> has_id k a" for c
    using that
  proof (induction as arbitrary: c)
    case Nil
    then have "?step c = Inr c" using assms(3) by (intro attr3_step_wraps) auto
    then show ?case by (rule attr_walk_stuck)
  next
    case (Cons a as)
    have "holds_at buf (ie + c) (fst a # put16 (of_nat (length (snd a))))"
      using Cons.prems(1) by (simp add: enc_attr_def)
    from attr3_step_at [OF this, of ielen k] Cons.prems
    have "?step c = Inr (c + (length (snd a) + 3))" by (simp add: attrs_ok_def)
    then have "attr_walk ?step c = attr_walk ?step (c + (length (snd a) + 3))" by (rule attr_walk_next)
    also have "\<dots> = None"
      using Cons.prems by (intro Cons.IH) (auto simp: attrs_ok_def add.assoc)
    finally show ?case .
  qed
  from this [of 6] assms have "attr_walk ?step 6 = None" by simp
  moreover have "holds_at buf ie (hdr l)" using assms(4) by simp
  ultimately show ?thesis using assms(5) by (simp add: get_attr3_header)
qed

text \<open>On arbitrary bytes of the element the search makes no access out of bounds.\<close>

lemma get_attr3_in_bounds:
  assumes "ie + ielen \<le> length buf"
  shows "get_attr3 oui get16 buf (Some ie) ielen k None (Some 0) \<noteq> Inl OutOfBounds"
proof -
  have walk: "s = attr3_step get16 buf ie ielen k \<longrightarrow> (\<exists>y. r = Inr y)" if "attr_walk s c = Some r" for s c r
    using that
  proof (rule attr_walk.raw_induct [where P = "\<lambda>s c r. s = attr3_step get16 buf ie ielen k \<longrightarrow> (\<exists>y. r = Inr y)", rotated])
    fix walk :: "(nat \<Rightarrow> (nat \<times> nat) option cres + nat) \<Rightarrow> nat \<Rightarrow> (nat \<times> nat) option cres option" and s c r
    assume "\<And>s c r. walk s c = Some r \<Longrightarrow> s = attr3_step get16 buf ie ielen k \<longrightarrow> (\<exists>y. r = Inr y)"
      and "(case s c of Inl r \<Rightarrow> Some r | Inr c' \<Rightarrow> walk s c') = Some r"
    then show "s = attr3_step get16 buf ie ielen k \<longrightarrow> (\<exists>y. r = Inr y)"
      using assms by (auto simp: attr3_step_def rd_ok Let_def split: sum.splits if_splits)
  qed
  show ?thesis
  proof (cases "6 < ielen")
    case True
    have "memeq buf (ie + 2) oui \<noteq> Inl e" for e
      using assms True oui_length by (simp add: memeq_ok)
    then show ?thesis
      using True assms walk [THEN mp, OF _ refl]
      by (cases "attr_walk (attr3_step get16 buf ie ielen k) 6")
        (auto simp: get_attr3_def rd_ok memeq_ok oui_length bindc_eq_Inl attr_out_def Let_def split: option.splits)
  qed (simp add: get_attr3_def)
qed

text \<open>Deletion: the attributes with the identifier go, the length byte and the length follow, and
  the freed bytes are cleared.\<close>

lemma del_attr_loop_elems:
  assumes "attrs_ok as" and "6 + length (attrs_bytes as) < 2 ^ 32" and "length as < fuel"
  shows "del_attr_loop (\<lambda>buf n. get_attr3 oui get16 buf (Some (length pre)) n k None (Some 0)) fuel
      (pre @ hdr l @ attrs_bytes as @ post) (length pre) (6 + length (attrs_bytes as)) =
    (let gone = length (attrs_bytes as) - length (attrs_bytes (keep (has_id k) as)) in
     Inr (pre @ hdr (l - of_nat gone) @ attrs_bytes (keep (has_id k) as) @ replicate gone 0 @ post,
       6 + length (attrs_bytes (keep (has_id k) as))))"
  using assms
proof (induction fuel arbitrary: as l post)
  case 0
  then show ?case by simp
next
  case (Suc fuel)
  let ?B = "pre @ hdr l @ attrs_bytes as @ post"
  have "holds_at (pre @ (hdr l @ attrs_bytes as) @ post) (length pre) (hdr l @ attrs_bytes as)"
    by (rule holds_at_self)
  then have h: "holds_at ?B (length pre) (hdr l @ attrs_bytes as)" by simp
  note g = get_attr3_elems [OF Suc.prems(1) h, of k]
  show ?case
  proof (cases "tlv_find enc_attr (has_id k) 6 as")
    case None
    then have "keep (has_id k) as = as" by (simp add: tlv_find_None_iff filter_id_conv)
    with None g show ?thesis by simp
  next
    case (Some r)
    then obtain c a as1 as2 where r: "r = (c, a)" and as: "as = as1 @ a # as2"
      and m: "has_id k a" and c: "c = 6 + length (attrs_bytes as1)"
      using tlv_find_Some_split [of enc_attr "has_id k" 6 as] by (cases r) fastforce
    let ?n = "length (enc_attr a)" and ?r = "length (attrs_bytes as2)" and ?t = "length pre + c"
    let ?rest = "as1 @ as2"
    have tot: "6 + length (attrs_bytes as) = c + ?n + ?r" by (simp add: as c)
    have wrap: "usub32 (6 + length (attrs_bytes as)) (?t + ?n - length pre) = ?r"
      "usub32 (6 + length (attrs_bytes as)) ?n = 6 + length (attrs_bytes ?rest)"
      using Suc.prems(2) tot by (simp_all add: c)
    have gap: "bindc (memmove ?B ?t (?t + ?n) ?r) (\<lambda>buf. memset buf (?t + ?r) 0 ?n) =
      Inr (pre @ hdr l @ attrs_bytes ?rest @ replicate ?n 0 @ post)"
      using close_gap [of ?t "pre @ hdr l @ attrs_bytes as1" "?t + ?n" "enc_attr a" ?r "attrs_bytes as2" ?n post] c
      by (simp add: as)
    have len: "rd (pre @ hdr l @ xs) (length pre + 1) = Inr l"
      "wrn (pre @ hdr l @ xs) (length pre + 1) [x] = Inr (pre @ hdr x @ xs)" for x xs
      by (simp_all add: hdr_def rd_def wrn_def nth_append)
    have keep: "keep (has_id k) as = keep (has_id k) ?rest" using m by (simp add: as)
    let ?g = "length (attrs_bytes ?rest) - length (attrs_bytes (keep (has_id k) ?rest))"
    have gone: "length (attrs_bytes as) - length (attrs_bytes (keep (has_id k) as)) = ?g + ?n"
      using tlv_bytes_keep_le [of enc_attr "has_id k" ?rest] m by (simp add: keep) (simp add: as)
    have "del_attr_loop (\<lambda>buf n. get_attr3 oui get16 buf (Some (length pre)) n k None (Some 0)) (Suc fuel)
        ?B (length pre) (6 + length (attrs_bytes as)) =
      del_attr_loop (\<lambda>buf n. get_attr3 oui get16 buf (Some (length pre)) n k None (Some 0)) fuel
        (pre @ hdr (l - of_nat ?n) @ attrs_bytes ?rest @ replicate ?n 0 @ post) (length pre)
        (6 + length (attrs_bytes ?rest))"
      using g Some r wrap gap len by (simp add: bindc_nested Let_def del: bindc_eq_Inr)
    also have "\<dots> = Inr (pre @ hdr (l - of_nat ?n - of_nat ?g) @ attrs_bytes (keep (has_id k) ?rest) @
        replicate ?g 0 @ replicate ?n 0 @ post, 6 + length (attrs_bytes (keep (has_id k) ?rest)))"
      using Suc.prems tot by (subst Suc.IH) (auto simp: as attrs_ok_def Let_def)
    also have "l - of_nat ?n - of_nat ?g = l - of_nat (?g + ?n)" by (simp add: algebra_simps)
    also have "replicate ?g 0 @ replicate ?n (0 :: u8) @ post = replicate (?g + ?n) 0 @ post"
      by (simp only: replicate_add append_assoc)
    finally show ?thesis unfolding Let_def gone by (simp only: keep)
  qed
qed

end

interpretation p2pa: vendor_attrs get_le16 put_le16 p2p_oui
  by unfold_locales simp

interpretation wfda: vendor_attrs get_be16 put_be16 wfd_oui
  by unfold_locales simp

section \<open>The P2P and WFD element, written out\<close>

definition p2p_attr_enc :: "u8 \<times> u8 list \<Rightarrow> u8 list" where
  "p2p_attr_enc a = fst a # put_le16 (of_nat (length (snd a))) @ snd a"

definition wfd_attr_enc :: "u8 \<times> u8 list \<Rightarrow> u8 list" where
  "wfd_attr_enc a = fst a # put_be16 (of_nat (length (snd a))) @ snd a"

definition p2p_element :: "u8 \<Rightarrow> (u8 \<times> u8 list) list \<Rightarrow> u8 list" where
  "p2p_element l as = [0xdd, l] @ p2p_oui @ tlv_bytes p2p_attr_enc as"

definition wfd_element :: "u8 \<Rightarrow> (u8 \<times> u8 list) list \<Rightarrow> u8 list" where
  "wfd_element l as = [0xdd, l] @ wfd_oui @ tlv_bytes wfd_attr_enc as"

lemma attr_enc_eq: "le.enc_attr = p2p_attr_enc" "be.enc_attr = wfd_attr_enc"
  by (simp_all add: fun_eq_iff le.enc_attr_def be.enc_attr_def p2p_attr_enc_def wfd_attr_enc_def)

lemma element_eq:
  "p2p_element l as = p2pa.hdr l @ tlv_bytes p2p_attr_enc as"
  "wfd_element l as = wfda.hdr l @ tlv_bytes wfd_attr_enc as"
  by (simp_all add: p2p_element_def wfd_element_def p2pa.hdr_def wfda.hdr_def)

lemma element_length [simp]:
  "length (p2p_element l as) = 6 + length (tlv_bytes p2p_attr_enc as)"
  "length (wfd_element l as) = 6 + length (tlv_bytes wfd_attr_enc as)"
  by (simp_all add: p2p_element_def wfd_element_def)

lemma attr_enc_length [simp]:
  "length (p2p_attr_enc a) = length (snd a) + 3" "length (wfd_attr_enc a) = length (snd a) + 3"
  by (simp_all add: p2p_attr_enc_def wfd_attr_enc_def put_be16_def)

text \<open>On a P2P element, \<open>rtw_get_p2p_attr\<close> returns the position and the total length of the
  first attribute with the identifier, and NULL when there is none. The length byte of the
  element plays no part.\<close>

theorem rtw_get_p2p_attr_first:
  assumes "\<forall>a \<in> set as. length (snd a) < 65533" and "holds_at buf ie (p2p_element l as)"
  shows "rtw_get_p2p_attr buf (Some ie) (length (p2p_element l as)) k None (Some 0) =
    Inr (case tlv_find p2p_attr_enc (\<lambda>a. fst a = k) 6 as of None \<Rightarrow> (None, None, Some 0)
         | Some (c, a) \<Rightarrow> (Some (ie + c), None, Some (length (snd a) + 3)))"
  using p2pa.get_attr3_elems [of as buf ie l k] assms
  by (simp add: rtw_get_p2p_attr_def p2pa.attrs_ok_def attr_enc_eq element_eq split: option.split)

theorem rtw_get_p2p_attr_first_witness:
  "rtw_get_p2p_attr ([0, 0] @ p2p_element 14 [(2, [1]), (5, [7, 8])]) (Some 2) 15 5 None (Some 0) =
    Inr (Some 12, None, Some 5)"
proof -
  let ?as = "[(2, [1]), (5, [7, 8])] :: (u8 \<times> u8 list) list"
  have "holds_at ([0, 0] @ p2p_element 14 ?as) 2 (p2p_element 14 ?as)"
    using holds_at_self [of "[0, 0]" "p2p_element 14 ?as" "[]"] by (simp add: numeral_eq_Suc)
  from rtw_get_p2p_attr_first [OF _ this, of 5] show ?thesis by simp
qed

text \<open>Both attribute searches stay within the element on arbitrary bytes: no access out of
  bounds when the element's \<open>ielen\<close> bytes lie in the buffer.\<close>

theorem rtw_get_p2p_wfd_attr_in_bounds:
  assumes "ie + ielen \<le> length buf"
  shows "rtw_get_p2p_attr buf (Some ie) ielen k None (Some 0) \<noteq> Inl OutOfBounds \<and>
    rtw_get_wfd_attr buf (Some ie) ielen k None (Some 0) \<noteq> Inl OutOfBounds"
  using p2pa.get_attr3_in_bounds [OF assms] wfda.get_attr3_in_bounds [OF assms]
  by (simp add: rtw_get_p2p_attr_def rtw_get_wfd_attr_def)

theorem rtw_get_p2p_wfd_attr_in_bounds_witness:
  "rtw_get_p2p_attr [0xdd, 7, 0x50, 0x6F, 0x9A, 0x09, 1, 255, 255] (Some 0) 9 5 None (Some 0) \<noteq> Inl OutOfBounds"
  using rtw_get_p2p_wfd_attr_in_bounds [of 0 9 "[0xdd, 7, 0x50, 0x6F, 0x9A, 0x09, 1, 255, 255]" 5] by simp

text \<open>C7: The searches need not return: an attribute in front of the wanted one (or without it)
  whose length field is 0xFFFD has the 16-bit total 0, passes the bounds check and is visited
  for ever. Three bytes of room are enough.\<close>

theorem rtw_get_p2p_wfd_attr_hangs:
  assumes "\<forall>a \<in> set as. length (snd a) < 65533 \<and> fst a \<noteq> k" and "i \<noteq> k"
    and "length (p2p_element l as) + 3 \<le> ielen"
  shows "(holds_at buf ie (p2p_element l as @ [i, 0xFD, 0xFF]) \<longrightarrow>
      rtw_get_p2p_attr buf (Some ie) ielen k None (Some 0) = Inl NoReturn) \<and>
    (holds_at buf ie (wfd_element l as @ [i, 0xFF, 0xFD]) \<longrightarrow>
      rtw_get_wfd_attr buf (Some ie) ielen k None (Some 0) = Inl NoReturn)"
proof -
  have put: "put_le16 0xFFFD = [0xFD, 0xFF]" "put_be16 0xFFFD = [0xFF, 0xFD]"
    by (simp_all add: put_le16_def put_be16_def)
  have len: "length (tlv_bytes wfd_attr_enc xs) = length (tlv_bytes p2p_attr_enc xs)" for xs
    by (induction xs) auto
  show ?thesis
    using p2pa.get_attr3_hangs [of as k i buf ie l ielen] wfda.get_attr3_hangs [of as k i buf ie l ielen]
      assms
    by (simp add: rtw_get_p2p_attr_def rtw_get_wfd_attr_def p2pa.attrs_ok_def attr_enc_eq element_eq put len)
qed

theorem rtw_get_p2p_wfd_attr_hangs_witness:
  "rtw_get_p2p_attr [0xdd, 7, 0x50, 0x6F, 0x9A, 0x09, 1, 0xFD, 0xFF] (Some 0) 9 5 None (Some 0) = Inl NoReturn"
  using rtw_get_p2p_wfd_attr_hangs [of "[]" 5 1 7 9 "[0xdd, 7, 0x50, 0x6F, 0x9A, 0x09, 1, 0xFD, 0xFF]" 0]
  by (simp add: p2p_element_def p2p_oui_def)

text \<open>Deleting attributes: on a P2P or WFD element \<open>rtw_del_p2p_attr\<close> and \<open>rtw_del_wfd_attr\<close>
  remove exactly the attributes with the identifier, keep the others in order, lower the length
  byte by the bytes removed, clear the freed bytes at the end and touch nothing else.\<close>

theorem rtw_del_attr_keeps:
  assumes "\<forall>a \<in> set as. length (snd a) < 65533" and "length (p2p_element l as) < 2 ^ 32"
  shows "let ks = keep (\<lambda>a. fst a = k) as; gone = length (p2p_element l as) - length (p2p_element l ks) in
    rtw_del_p2p_attr (pre @ p2p_element l as @ post) (length pre) (length (p2p_element l as)) k =
      Inr (pre @ p2p_element (l - of_nat gone) ks @ replicate gone 0 @ post, length (p2p_element l ks)) \<and>
    rtw_del_wfd_attr (pre @ wfd_element l as @ post) (length pre) (length (wfd_element l as)) k =
      Inr (pre @ wfd_element (l - of_nat gone) ks @ replicate gone 0 @ post, length (wfd_element l ks))"
proof -
  have same: "length (tlv_bytes wfd_attr_enc xs) = length (tlv_bytes p2p_attr_enc xs)" for xs
    by (induction xs) auto
  have "length as \<le> length (tlv_bytes p2p_attr_enc as)" by (induction as) auto
  then have fuel: "length as < Suc (length (p2p_element l as))" by simp
  show ?thesis
    using p2pa.del_attr_loop_elems [of as "Suc (length (p2p_element l as))" pre k l post]
      wfda.del_attr_loop_elems [of as "Suc (length (p2p_element l as))" pre k l post] assms(1,2) fuel
    by (simp add: rtw_del_p2p_attr_def rtw_get_p2p_attr_def rtw_del_wfd_attr_def rtw_get_wfd_attr_def
        p2pa.attrs_ok_def attr_enc_eq element_eq Let_def same)
qed

theorem rtw_del_attr_keeps_witness:
  "rtw_del_p2p_attr (p2p_element 16 [(2, [1]), (5, [7]), (2, [])]) 0 17 2 =
    Inr (p2p_element 9 [(5, [7])] @ replicate 7 0, 10)"
proof -
  let ?as = "[(2, [1]), (5, [7]), (2, [])] :: (u8 \<times> u8 list) list"
  have "\<forall>a \<in> set ?as. length (snd a) < 65533" "length (p2p_element 16 ?as) < 2 ^ 32" by simp_all
  from rtw_del_attr_keeps [OF this, of 2 "[]" "[]"] have
    "rtw_del_p2p_attr (p2p_element 16 ?as) 0 (length (p2p_element 16 ?as)) 2 =
      Inr (p2p_element (16 - of_nat 7) [(5, [7])] @ replicate 7 0, length (p2p_element 16 [(5, [7])]))"
    by (simp add: Let_def)
  then show ?thesis by simp
qed

text \<open>The searches with a length output are their loop.\<close>

lemma get_ie_loop:
  "rtw_get_p2p_ie buf (Some p) (int n) None (Some 0) = vendor_ie_loop p2p_oui buf p n None (Some 0) 0"
  "rtw_get_wfd_ie buf (Some p) (int n) None (Some 0) = vendor_ie_loop wfd_oui buf p n None (Some 0) 0"
  "rtw_get_wps_ie buf (Some p) n None (Some 0) = vendor_ie_loop wps_oui buf p n None (Some 0) 0"
proof -
  have "vendor_ie_loop oui buf p 0 None (Some 0) 0 = Inr (None, None, Some 0)" for oui
    by (subst vendor_ie_loop.simps) simp
  then show
    "rtw_get_p2p_ie buf (Some p) (int n) None (Some 0) = vendor_ie_loop p2p_oui buf p n None (Some 0) 0"
    "rtw_get_wfd_ie buf (Some p) (int n) None (Some 0) = vendor_ie_loop wfd_oui buf p n None (Some 0) 0"
    "rtw_get_wps_ie buf (Some p) n None (Some 0) = vendor_ie_loop wps_oui buf p n None (Some 0) 0"
    by (cases n; simp add: rtw_get_p2p_ie_def rtw_get_wfd_ie_def rtw_get_wps_ie_def nat_add_distrib)+
qed

text \<open>Deleting elements: \<open>rtw_del_p2p_ie\<close> and \<open>rtw_del_wfd_ie\<close> on up to 768 bytes of well-formed
  elements remove exactly the elements with their OUI, keep the others in order, clear the freed
  bytes and return the new length.\<close>

theorem rtw_del_ie_keeps:
  assumes "\<forall>e \<in> set es. vendor_wf e" and "length (ies_bytes es) \<le> MAX_IE_SZ"
  shows "rtw_del_p2p_ie (pre @ ies_bytes es @ post) (length pre) (length (ies_bytes es)) =
      (let ks = keep (oui_match (0xdd, Some p2p_oui)) es in
       Inr (pre @ ies_bytes ks @ replicate (length (ies_bytes es) - length (ies_bytes ks)) 0 @ post,
         length (ies_bytes ks))) \<and>
    rtw_del_wfd_ie (pre @ ies_bytes es @ post) (length pre) (length (ies_bytes es)) =
      (let ks = keep (oui_match (0xdd, Some wfd_oui)) es in
       Inr (pre @ ies_bytes ks @ replicate (length (ies_bytes es) - length (ies_bytes ks)) 0 @ post,
         length (ies_bytes ks)))"
proof -
  have "length es \<le> length (ies_bytes es)" by (induction es) auto
  then have fuel: "length es < Suc (length (ies_bytes es))" by simp
  have lim: "n \<le> MAX_IE_SZ \<Longrightarrow> sint32 n = int n" for n by (simp add: MAX_IE_SZ_def)
  have g: "rtw_get_p2p_ie buf (Some (length pre)) (sint32 (length (ies_bytes fs))) None (Some 0) =
      (case tlv_find enc_ie p2p.hit 0 fs of None \<Rightarrow> Inr (None, None, Some 0)
       | Some (c, e) \<Rightarrow> Inr (Some (length pre + c), None, Some (length (snd e) + 2)))"
    "rtw_get_wfd_ie buf (Some (length pre)) (sint32 (length (ies_bytes fs))) None (Some 0) =
      (case tlv_find enc_ie wfd.hit 0 fs of None \<Rightarrow> Inr (None, None, Some 0)
       | Some (c, e) \<Rightarrow> Inr (Some (length pre + c), None, Some (length (snd e) + 2)))"
    if "\<forall>e \<in> set fs. vendor_wf e" "holds_at buf (length pre) (ies_bytes fs)" "length (ies_bytes fs) \<le> MAX_IE_SZ"
    for buf and fs :: "ie_elem list"
    unfolding lim [OF that(3)] get_ie_loop
    by (rule p2p.search_elems [OF that], rule wfd.search_elems [OF that])
  note d1 = p2p.del_loop_elems [where post = post and
    get = "\<lambda>buf l. rtw_get_p2p_ie buf (Some (length pre)) (sint32 l) None (Some 0)", OF g(1) assms fuel]
  note d2 = wfd.del_loop_elems [where post = post and
    get = "\<lambda>buf l. rtw_get_wfd_ie buf (Some (length pre)) (sint32 l) None (Some 0)", OF g(2) assms fuel]
  show ?thesis
    unfolding rtw_del_p2p_ie_def rtw_del_wfd_ie_def Let_def by (rule conjI [OF d1 d2])
qed

theorem rtw_del_ie_keeps_witness:
  "rtw_del_p2p_ie (ies_bytes [(0, [65]), (0xdd, p2p_oui), (3, [6])]) 0
      (length (ies_bytes [(0, [65]), (0xdd, p2p_oui), (3, [6])])) =
    Inr (ies_bytes [(0, [65]), (3, [6])] @ replicate 6 0, 6)"
proof -
  let ?es = "[(0, [65]), (0xdd, p2p_oui), (3, [6])] :: ie_elem list"
  have ks: "keep (oui_match (0xdd, Some p2p_oui)) ?es = [(0, [65]), (3, [6])]" by simp
  have n: "length (ies_bytes [(0, [65]), (3, [6])]) = 6" "length (ies_bytes ?es) = 12" by simp_all
  have "\<forall>e \<in> set ?es. vendor_wf e" "length (ies_bytes ?es) \<le> MAX_IE_SZ"
    by (simp_all add: vendor_wf_def MAX_IE_SZ_def)
  from rtw_del_ie_keeps [OF this, of "[]" "[]"] show ?thesis
    unfolding ks Let_def n by (simp only: append_Nil append_Nil2 list.size diff_numeral_simps) simp
qed

section \<open>WPS attributes\<close>

definition wps_attr_enc :: "u16 \<times> u8 list \<Rightarrow> u8 list" where
  "wps_attr_enc a = put_be16 (fst a) @ put_be16 (of_nat (length (snd a))) @ snd a"

lemma wps_attr_enc_length [simp]: "length (wps_attr_enc a) = length (snd a) + 4"
  by (simp add: wps_attr_enc_def)

lemma wps_attr_step_at:
  assumes "holds_at buf (ie + c) (put_be16 i @ put_be16 w)" and "c < ielen"
  shows "wps_attr_step buf ie ielen k c =
    (if i = k then Inl (Inr (Some (ie + c, unat (w + 4)))) else Inr (c + unat (w + 4)))"
proof -
  have "rd buf (ie + c) = Inr (ucast (drop_bit 8 i))" "rd buf (ie + c + 1) = Inr (ucast (i AND 0xff))"
    "rd buf (ie + c + 2) = Inr (ucast (drop_bit 8 w))" "rd buf (ie + c + 3) = Inr (ucast (w AND 0xff))"
    using assms(1) by (simp_all add: put_be16_def rd_ok eval_nat_numeral)
  with assms(2) show ?thesis by (simp add: wps_attr_step_def Let_def)
qed

interpretation wps_attr: tlv_walker wps_attr_enc "\<lambda>_ a. length (snd a) < 65532" "\<lambda>k a. fst a = k" "\<lambda>_. True"
  "\<lambda>buf b lim k c. attr_walk (wps_attr_step buf b lim k) c"
  "\<lambda>p a. Some (Inr (Some (p, length (snd a) + 4)))" "Some (Inr None)"
proof unfold_locales
  fix k :: u16 and a :: "u16 \<times> u8 list" and lim b c :: nat and buf :: "u8 list"
  let ?step = "wps_attr_step buf b lim k" and ?n = "length (snd a)"
  assume n: "?n < 65532" and lim: "c + length (wps_attr_enc a) \<le> lim" and h: "holds_at buf (b + c) (wps_attr_enc a)"
  have "(of_nat ?n + 4 :: u16) = of_nat (?n + 4)" by simp
  then have n4: "unat (of_nat ?n + 4 :: u16) = ?n + 4"
    using n unat_of_nat_u16 [of "?n + 4"] by simp
  have st: "?step c = (if fst a = k then Inl (Inr (Some (b + c, ?n + 4))) else Inr (c + (?n + 4)))"
    using wps_attr_step_at [of buf b c "fst a" "of_nat ?n" lim k] h lim unfolding wps_attr_enc_def n4
    by simp
  have last: "attr_walk ?step lim = Some (Inr None)"
    by (rule attr_walk_end) (simp add: wps_attr_step_def)
  show "attr_walk ?step c =
    (if fst a = k then Some (Inr (Some (b + c, ?n + 4)))
     else if c + length (wps_attr_enc a) = lim then Some (Inr None)
     else attr_walk ?step (c + length (wps_attr_enc a)))"
  proof (cases "fst a = k")
    case True
    with st show ?thesis by (simp add: attr_walk_end)
  next
    case False
    with st have "attr_walk ?step c = attr_walk ?step (c + (?n + 4))"
      by (intro attr_walk_next) simp
    with False last show ?thesis by auto
  qed
qed

definition wps_element :: "u8 \<Rightarrow> (u16 \<times> u8 list) list \<Rightarrow> u8 list" where
  "wps_element l as = [0xdd, l] @ wps_oui @ tlv_bytes wps_attr_enc as"

lemma wps_element_length [simp]: "length (wps_element l as) = 6 + length (tlv_bytes wps_attr_enc as)"
  by (simp add: wps_element_def)

lemma wps_element_body: "holds_at buf ie (wps_element l as @ xs) \<Longrightarrow> holds_at buf (ie + 6) (tlv_bytes wps_attr_enc as @ xs)"
proof -
  have "wps_element l as @ xs = ([0xdd, l] @ wps_oui) @ tlv_bytes wps_attr_enc as @ xs"
    and "length ([0xdd, l] @ wps_oui) = 6"
    by (simp_all add: wps_element_def)
  then show "holds_at buf ie (wps_element l as @ xs) \<Longrightarrow> holds_at buf (ie + 6) (tlv_bytes wps_attr_enc as @ xs)"
    by (metis holds_at_append)
qed

lemma rtw_get_wps_attr_header:
  assumes "holds_at buf ie (wps_element l as)"
  shows "rtw_get_wps_attr buf ie ielen k None (Some 0) =
    bindc (returns (attr_walk (wps_attr_step buf ie ielen k) 6)) (attr_out buf None (Some 0))"
proof -
  have "holds_at buf (ie + 2) wps_oui" "rd buf ie = Inr 0xdd"
    using assms by (simp_all add: wps_element_def rd_ok)
  then show ?thesis
    using holds_at_memeq [of buf "ie + 2" wps_oui wps_oui] by (simp add: rtw_get_wps_attr_def Let_def)
qed

text \<open>On a WPS element, \<open>rtw_get_wps_attr\<close> returns the position and the total length of the
  first attribute with the identifier, and NULL when there is none.\<close>

theorem rtw_get_wps_attr_first:
  assumes "\<forall>a \<in> set as. length (snd a) < 65532" and "holds_at buf ie (wps_element l as)"
  shows "rtw_get_wps_attr buf ie (length (wps_element l as)) k None (Some 0) =
    Inr (case tlv_find wps_attr_enc (\<lambda>a. fst a = k) 6 as of None \<Rightarrow> (None, None, Some 0)
         | Some (c, a) \<Rightarrow> (Some (ie + c), None, Some (length (snd a) + 4)))"
proof (cases "as = []")
  case True
  have "attr_walk (wps_attr_step buf ie 6 k) 6 = Some (Inr None)"
    by (rule attr_walk_end) (simp add: wps_attr_step_def)
  with True show ?thesis by (simp add: rtw_get_wps_attr_header [OF assms(2)] attr_out_def)
next
  case False
  have "holds_at buf (ie + 6) (tlv_bytes wps_attr_enc as)"
    using wps_element_body [of buf ie l as "[]"] assms(2) by simp
  then have "attr_walk (wps_attr_step buf ie (length (wps_element l as)) k) 6 =
    (case tlv_find wps_attr_enc (\<lambda>a. fst a = k) 6 as of None \<Rightarrow> Some (Inr None)
     | Some (c, a) \<Rightarrow> Some (Inr (Some (ie + c, length (snd a) + 4))))"
    using assms(1) holds_at_length [OF assms(2)] False
    by (intro wps_attr.walk_finds) (auto simp flip: length_greater_0_conv)
  then show ?thesis
    by (simp add: rtw_get_wps_attr_header [OF assms(2)] attr_out_def split: option.split)
qed

theorem rtw_get_wps_attr_first_witness:
  "rtw_get_wps_attr (wps_element 16 [(0x104A, [1]), (0x1044, [2])]) 0 16 0x1044 None (Some 0) =
    Inr (Some 11, None, Some 5)"
proof -
  let ?as = "[(0x104A, [1]), (0x1044, [2])] :: (u16 \<times> u8 list) list"
  have "holds_at (wps_element 16 ?as) 0 (wps_element 16 ?as)"
    using holds_at_self [of "[]" "wps_element 16 ?as" "[]"] by simp
  from rtw_get_wps_attr_first [OF _ this, of "0x1044"] show ?thesis by simp
qed

text \<open>\<open>rtw_get_wps_attr\<close> does not return when an attribute in front of the wanted one (or
  without it) has the length field 0xFFFC: the 16-bit total is 0. The element may be as short as
  one byte beyond its well-formed attributes; the header is read all the same.\<close>

theorem rtw_get_wps_attr_hangs:
  assumes "\<forall>a \<in> set as. length (snd a) < 65532 \<and> fst a \<noteq> k" and "i \<noteq> k"
    and "holds_at buf ie (wps_element l as @ put_be16 i @ put_be16 0xFFFC)"
    and "length (wps_element l as) < ielen"
  shows "rtw_get_wps_attr buf ie ielen k None (Some 0) = Inl NoReturn"
proof -
  let ?step = "wps_attr_step buf ie ielen k" and ?z = "put_be16 i @ put_be16 0xFFFC"
  have "attr_walk ?step c = None"
    if "holds_at buf (ie + c) (tlv_bytes wps_attr_enc as @ ?z)" "c + length (tlv_bytes wps_attr_enc as) < ielen"
      "\<forall>a \<in> set as. length (snd a) < 65532 \<and> fst a \<noteq> k" for c
    using that
  proof (induction as arbitrary: c)
    case Nil
    have "?step c = Inr c"
      using wps_attr_step_at [of buf ie c i "0xFFFC" ielen k] Nil assms(2) by simp
    then show ?case by (rule attr_walk_stuck)
  next
    case (Cons a as)
    let ?n = "length (snd a)"
    have "(of_nat ?n + 4 :: u16) = of_nat (?n + 4)" by simp
    then have n4: "unat (of_nat ?n + 4 :: u16) = ?n + 4"
      using Cons.prems(3) unat_of_nat_u16 [of "?n + 4"] by simp
    have "?step c = Inr (c + (?n + 4))"
      using wps_attr_step_at [of buf ie c "fst a" "of_nat ?n" ielen k] Cons.prems
      unfolding n4 by (simp add: wps_attr_enc_def)
    then have "attr_walk ?step c = attr_walk ?step (c + (?n + 4))" by (rule attr_walk_next)
    also have "\<dots> = None" using Cons.prems by (intro Cons.IH) (auto simp: add.assoc)
    finally show ?case .
  qed
  from this [OF wps_element_body [OF assms(3)]] assms have "attr_walk ?step 6 = None" by simp
  moreover have "holds_at buf ie (wps_element l as)" using assms(3) by simp
  ultimately show ?thesis by (simp add: rtw_get_wps_attr_header)
qed

theorem rtw_get_wps_attr_hangs_witness:
  "rtw_get_wps_attr (wps_element 8 [] @ [0x10, 0x4A, 0xFF, 0xFC]) 0 10 0x1044 None (Some 0) = Inl NoReturn"
proof -
  have z: "put_be16 0x104A @ put_be16 0xFFFC = [0x10, 0x4A, 0xFF, 0xFC]" by (simp add: put_be16_def)
  have "holds_at (wps_element 8 [] @ put_be16 0x104A @ put_be16 0xFFFC) 0
      (wps_element 8 [] @ put_be16 0x104A @ put_be16 0xFFFC)"
    using holds_at_self [of "[]" "wps_element 8 [] @ put_be16 0x104A @ put_be16 0xFFFC" "[]"]
    by (simp only: append_Nil append_Nil2 list.size)
  from rtw_get_wps_attr_hangs [OF _ _ this, of "0x1044" 10] show ?thesis unfolding z by simp
qed

section \<open>Merging P2P elements\<close>

abbreviation is_p2p :: "ie_elem \<Rightarrow> bool" where
  "is_p2p \<equiv> oui_match (0xdd, Some p2p_oui)"

text \<open>The contents of the P2P elements of a sequence, without their OUIs.\<close>

definition p2p_contents :: "ie_elem list \<Rightarrow> u8 list" where
  "p2p_contents es = concat (map (\<lambda>e. drop 4 (snd e)) (filter is_p2p es))"

lemma p2p_contents_simps [simp]:
  "p2p_contents [] = []"
  "p2p_contents (e # es) = (if is_p2p e then drop 4 (snd e) else []) @ p2p_contents es"
  by (simp_all add: p2p_contents_def)

text \<open>What both loops read at an element.\<close>

lemma p2p_loop_reads:
  assumes "vendor_wf (i, d)" and "holds_at buf (in_ie + c) (enc_ie (i, d))"
  shows "rd buf (in_ie + c) = Inr i" and "rd buf (in_ie + (c + 1)) = Inr (of_nat (length d))"
    and "(if i = 0xdd then memeq buf (in_ie + (c + 2)) p2p_oui else Inr False) = Inr (is_p2p (i, d))"
    and "unat (of_nat (length d) :: u8) = length d"
    and "is_p2p (i, d) \<Longrightarrow> 4 \<le> length d"
    and "is_p2p (i, d) \<Longrightarrow> rdn buf (in_ie + (c + 2) + 4) (length d - 4) = Inr (drop 4 d)"
proof -
  have d: "length d < 256" "i = 0xdd \<longrightarrow> 4 \<le> length d" using assms(1) by (simp_all add: vendor_wf_def)
  have h: "holds_at buf (in_ie + (c + 2)) d" using assms(2) by simp
  show "rd buf (in_ie + c) = Inr i" "rd buf (in_ie + (c + 1)) = Inr (of_nat (length d))"
    using assms(2) by (simp_all add: rd_ok)
  show "(if i = 0xdd then memeq buf (in_ie + (c + 2)) p2p_oui else Inr False) = Inr (is_p2p (i, d))"
    using holds_at_memeq [OF h, of p2p_oui] d by auto
  show "unat (of_nat (length d) :: u8) = length d" using d by simp
  show l: "is_p2p (i, d) \<Longrightarrow> 4 \<le> length d" using d by simp
  show "rdn buf (in_ie + (c + 2) + 4) (length d - 4) = Inr (drop 4 d)" if "is_p2p (i, d)"
  proof -
    have "holds_at buf (in_ie + (c + 2)) (take 4 d @ drop 4 d)" using h by (simp only: append_take_drop_id)
    moreover have "length (take 4 d) = 4" using l [OF that] by simp
    ultimately have "holds_at buf (in_ie + (c + 2) + 4) (drop 4 d)" by (metis holds_at_append)
    from holds_at_rdn [OF this] show ?thesis by simp
  qed
qed

lemma p2p_merged_len_loop_elems:
  assumes "\<forall>e \<in> set es. vendor_wf e" and "holds_at buf (in_ie + c) (ies_bytes es)"
    and "in_len = c + length (ies_bytes es)"
  shows "p2p_merged_len_loop buf in_ie in_len c len = Inr (len + int (length (p2p_contents es)))"
  using assms
proof (induction es arbitrary: c len)
  case Nil
  then show ?case by (subst p2p_merged_len_loop.simps) simp
next
  case (Cons e es)
  obtain i d where e: "e = (i, d)" by (cases e)
  have "vendor_wf (i, d)" "holds_at buf (in_ie + c) (enc_ie (i, d))" using Cons.prems by (simp_all add: e)
  note r = p2p_loop_reads [OF this]
  have c: "c < in_len" using Cons.prems by (simp add: e)
  have IH: "p2p_merged_len_loop buf in_ie in_len (c + (length d + 2)) len' =
      Inr (len' + int (length (p2p_contents es)))" for len'
    using Cons.prems by (intro Cons.IH) (auto simp: e add.assoc)
  show ?case
    unfolding p2p_merged_len_loop.simps [of buf in_ie in_len c] r(1-3) bindc_Inr r(4) IH
    using r(5) c by (simp add: e of_nat_diff del: oui_match.simps)
qed

lemma p2p_merge_loop_elems:
  assumes "\<forall>e \<in> set es. vendor_wf e" and "holds_at buf (in_ie + c) (ies_bytes es)"
    and "in_len = c + length (ies_bytes es)" and "p = length xs" and "length xs + length (p2p_contents es) \<le> length dst"
  shows "p2p_merge_loop buf in_ie in_len (written dst 0 xs) p len c =
    Inr (written dst 0 (xs @ p2p_contents es), len + of_nat (length (p2p_contents es)))"
  using assms
proof (induction es arbitrary: c len xs p)
  case Nil
  then show ?case by (subst p2p_merge_loop.simps) simp
next
  case (Cons e es)
  obtain i d where e: "e = (i, d)" by (cases e)
  have "vendor_wf (i, d)" "holds_at buf (in_ie + c) (enc_ie (i, d))" using Cons.prems by (simp_all add: e)
  note r = p2p_loop_reads [OF this]
  have c: "c < in_len" using Cons.prems by (simp add: e)
  have tail: "\<forall>e \<in> set es. vendor_wf e" "holds_at buf (in_ie + (c + (length d + 2))) (ies_bytes es)"
    "in_len = c + (length d + 2) + length (ies_bytes es)"
    using Cons.prems by (auto simp: e add.assoc)
  show ?case
  proof (cases "is_p2p (i, d)")
    case False
    then have "length xs + length (p2p_contents es) \<le> length dst" using Cons.prems(5) by (simp add: e)
    note IH = Cons.IH [OF tail Cons.prems(4) this]
    show ?thesis
      unfolding p2p_merge_loop.simps [of buf in_ie in_len _ _ _ c] r(1-3) bindc_Inr r(4) IH
      using False c by (simp add: e del: oui_match.simps)
  next
    case True
    note r4 = r(5) [OF True]
    have fit: "length (xs @ drop 4 d) + length (p2p_contents es) \<le> length dst"
      using Cons.prems(5) True r4 by (simp add: e del: oui_match.simps)
    have w: "wrn (written dst 0 xs) p (drop 4 d) = Inr (written dst 0 (xs @ drop 4 d))"
      using fit r4 Cons.prems(4) by (simp add: wrn_written written_append)
    have len: "len + (of_nat (length d) - 4) + of_nat (length (p2p_contents es)) =
        len + of_nat (length d - 4 + length (p2p_contents es))"
      using r4 by (simp add: of_nat_diff)
    have p: "p + (length d - 4) = length (xs @ drop 4 d)" using Cons.prems(4) r4 by simp
    note IH = Cons.IH [OF tail p fit, of "len + (of_nat (length d) - 4)"]
    show ?thesis
      unfolding p2p_merge_loop.simps [of buf in_ie in_len _ _ _ c] r(1-3) bindc_Inr r(4) r(6) [OF True] w IH len
      using True c r4 by (simp add: e del: oui_match.simps)
  qed
qed

text \<open>Merging P2P elements concatenates their contents behind one OUI, but the two routines
  disagree on the length: \<open>rtw_get_p2p_merged_ies_len\<close> counts all bytes, while
  \<open>rtw_p2p_merge_ies\<close> counts in 8 bits and returns the count modulo 256. The length byte of the
  merged element stays 0.\<close>

theorem rtw_p2p_merge_ies_elems:
  assumes "\<forall>e \<in> set es. vendor_wf e" and "holds_at buf in_ie (ies_bytes es)"
    and "6 + length (p2p_contents es) \<le> length dst"
  shows "rtw_p2p_merge_ies buf in_ie (length (ies_bytes es)) (Some dst) =
      Inr (Some (written dst 0 ([0xDD, 0x00, 0x50, 0x6f, 0x9a, 0x09] @ p2p_contents es)),
        length (p2p_contents es) mod 256 + 4) \<and>
    rtw_get_p2p_merged_ies_len buf in_ie (length (ies_bytes es)) =
      Inr (of_nat (length (p2p_contents es) + 4))"
proof
  have h: "holds_at buf (in_ie + 0) (ies_bytes es)" using assms(2) by simp
  have "p2p_merge_loop buf in_ie (length (ies_bytes es)) (written dst 0 [0xDD, 0x00, 0x50, 0x6f, 0x9a, 0x09]) 6 0 0 =
    Inr (written dst 0 ([0xDD, 0x00, 0x50, 0x6f, 0x9a, 0x09] @ p2p_contents es), 0 + of_nat (length (p2p_contents es)))"
    using assms(3) by (intro p2p_merge_loop_elems [OF assms(1) h]) simp_all
  moreover have "wrn dst 0 [0xDD, 0x00, 0x50, 0x6f, 0x9a, 0x09] = Inr (written dst 0 [0xDD, 0x00, 0x50, 0x6f, 0x9a, 0x09])"
    using assms(3) by (intro wrn_written) simp
  ultimately show "rtw_p2p_merge_ies buf in_ie (length (ies_bytes es)) (Some dst) =
      Inr (Some (written dst 0 ([0xDD, 0x00, 0x50, 0x6f, 0x9a, 0x09] @ p2p_contents es)),
        length (p2p_contents es) mod 256 + 4)"
    by (simp add: rtw_p2p_merge_ies_def unat_of_nat)
  show "rtw_get_p2p_merged_ies_len buf in_ie (length (ies_bytes es)) =
      Inr (of_nat (length (p2p_contents es) + 4))"
    using p2p_merged_len_loop_elems [OF assms(1) h] by (simp add: rtw_get_p2p_merged_ies_len_def)
qed

theorem rtw_p2p_merge_ies_elems_witness:
  "rtw_p2p_merge_ies (ies_bytes [(0xdd, p2p_oui @ [1, 2]), (0, []), (0xdd, p2p_oui @ [3])]) 0
      (length (ies_bytes [(0xdd, p2p_oui @ [1, 2]), (0, []), (0xdd, p2p_oui @ [3])])) (Some (replicate 10 0)) =
    Inr (Some [0xDD, 0x00, 0x50, 0x6f, 0x9a, 0x09, 1, 2, 3, 0], 7)"
proof -
  let ?es = "[(0xdd, p2p_oui @ [1, 2]), (0, []), (0xdd, p2p_oui @ [3])] :: ie_elem list"
  have c: "p2p_contents ?es = [1, 2, 3]" by simp
  have "\<forall>e \<in> set ?es. vendor_wf e" by (simp add: vendor_wf_def)
  moreover have "holds_at (ies_bytes ?es) 0 (ies_bytes ?es)"
    using holds_at_self [of "[]" "ies_bytes ?es" "[]"] by simp
  moreover have "6 + length (p2p_contents ?es) \<le> length (replicate 10 (0 :: u8))" unfolding c by simp
  ultimately have "rtw_p2p_merge_ies (ies_bytes ?es) 0 (length (ies_bytes ?es)) (Some (replicate 10 0)) =
      Inr (Some (written (replicate 10 0) 0 ([0xDD, 0x00, 0x50, 0x6f, 0x9a, 0x09] @ [1, 2, 3])), 3 mod 256 + 4)"
    using rtw_p2p_merge_ies_elems [of ?es "ies_bytes ?es" 0 "replicate 10 0"] unfolding c by simp
  moreover have "written (replicate 10 0) 0 ([0xDD, 0x00, 0x50, 0x6f, 0x9a, 0x09] @ [1, 2, 3]) =
      [0xDD, 0x00, 0x50, 0x6f, 0x9a, 0x09, 1, 2, 3, 0]"
    by (simp add: written_def)
  ultimately show ?thesis by simp
qed

end
