(* ===== verification/Elems.thy ===== *)
theory Elems
  imports Ie
begin

text \<open>
  The element table of a management frame (\<open>rtw_ieee802_11_parse_elems\<close>, core/rtw_ieee80211.c).
  The C structure holds a pointer and a length per known element; a field of the record below
  is both, with \<open>None\<close> for the NULL pointer (whose length stays 0). The record has the fields of
  a build without \<open>CONFIG_RTW_MESH\<close>. The parameter \<open>show_errors\<close> only selects log output.
\<close>

type_synonym elem_ref = "(nat \<times> u8) option"

record rtw_ieee802_11_elems =
  ssid :: elem_ref
  supp_rates :: elem_ref
  fh_params :: elem_ref
  ds_params :: elem_ref
  cf_params :: elem_ref
  tim :: elem_ref
  ibss_params :: elem_ref
  challenge :: elem_ref
  erp_info :: elem_ref
  ext_supp_rates :: elem_ref
  wpa_ie :: elem_ref
  rsn_ie :: elem_ref
  wme :: elem_ref
  wme_tspec :: elem_ref
  wps_ie :: elem_ref
  power_cap :: elem_ref
  supp_channels :: elem_ref
  mdie :: elem_ref
  ftie :: elem_ref
  timeout_int :: elem_ref
  ht_capabilities :: elem_ref
  ht_operation :: elem_ref
  vendor_ht_cap :: elem_ref
  vht_capabilities :: elem_ref
  vht_operation :: elem_ref
  vht_op_mode_notify :: elem_ref
  rm_en_cap :: elem_ref

type_synonym elems = rtw_ieee802_11_elems

definition elems_zero :: elems where
  "elems_zero = \<lparr> ssid = None, supp_rates = None, fh_params = None, ds_params = None,
     cf_params = None, tim = None, ibss_params = None, challenge = None, erp_info = None,
     ext_supp_rates = None, wpa_ie = None, rsn_ie = None, wme = None, wme_tspec = None,
     wps_ie = None, power_cap = None, supp_channels = None, mdie = None, ftie = None,
     timeout_int = None, ht_capabilities = None, ht_operation = None, vendor_ht_cap = None,
     vht_capabilities = None, vht_operation = None, vht_op_mode_notify = None, rm_en_cap = None \<rparr>"

datatype ParseRes = ParseOK | ParseUnknown | ParseFailed

section \<open>Vendor specific elements\<close>

definition OUI_MICROSOFT :: u32 where "OUI_MICROSOFT = 0x0050f2"
definition OUI_BROADCOM :: u32 where "OUI_BROADCOM = 0x00904c"

definition parse_vendor_microsoft :: "u8 list \<Rightarrow> nat \<Rightarrow> u8 \<Rightarrow> elems \<Rightarrow> (elems \<times> int) cres" where
  "parse_vendor_microsoft buf pos elen es =
     bindc (rd buf (pos + 3)) (\<lambda>oui_type.
     if oui_type = 1 then Inr (es\<lparr>wpa_ie := Some (pos, elen)\<rparr>, 0)
     else if oui_type = 2 then
       (if elen < 5 then Inr (es, -1)
        else bindc (rd buf (pos + 4)) (\<lambda>subtype.
          if subtype = 0 \<or> subtype = 1 then Inr (es\<lparr>wme := Some (pos, elen)\<rparr>, 0)
          else if subtype = 2 then Inr (es\<lparr>wme_tspec := Some (pos, elen)\<rparr>, 0)
          else Inr (es, -1)))
     else if oui_type = 4 then Inr (es\<lparr>wps_ie := Some (pos, elen)\<rparr>, 0)
     else Inr (es, -1))"

definition parse_vendor_broadcom :: "u8 list \<Rightarrow> nat \<Rightarrow> u8 \<Rightarrow> elems \<Rightarrow> (elems \<times> int) cres" where
  "parse_vendor_broadcom buf pos elen es =
     bindc (rd buf (pos + 3)) (\<lambda>oui_type.
     if oui_type = 0x33 then Inr (es\<lparr>vendor_ht_cap := Some (pos, elen)\<rparr>, 0)
     else Inr (es, -1))"

definition rtw_ieee802_11_parse_vendor_specific ::
  "u8 list \<Rightarrow> nat \<Rightarrow> u8 \<Rightarrow> elems \<Rightarrow> (elems \<times> int) cres" where
  "rtw_ieee802_11_parse_vendor_specific buf pos elen es =
     (if elen < 4 then Inr (es, -1)
      else bindc (rd buf pos) (\<lambda>b0. bindc (rd buf (pos + 1)) (\<lambda>b1. bindc (rd buf (pos + 2)) (\<lambda>b2.
        let oui = get_be24 b0 b1 b2 in
        if oui = OUI_MICROSOFT then parse_vendor_microsoft buf pos elen es
        else if oui = OUI_BROADCOM then parse_vendor_broadcom buf pos elen es
        else Inr (es, -1)))))"

section \<open>The table\<close>

text \<open>The cases of the switch that store a reference; \<open>None\<close> is the default case.\<close>

definition elems_store :: "u8 \<Rightarrow> nat \<times> u8 \<Rightarrow> elems \<Rightarrow> elems option" where
  "elems_store eid r es =
     (if eid = 0 then Some (es\<lparr>ssid := Some r\<rparr>)
      else if eid = 1 then Some (es\<lparr>supp_rates := Some r\<rparr>)
      else if eid = 2 then Some (es\<lparr>fh_params := Some r\<rparr>)
      else if eid = 3 then Some (es\<lparr>ds_params := Some r\<rparr>)
      else if eid = 4 then Some (es\<lparr>cf_params := Some r\<rparr>)
      else if eid = 5 then Some (es\<lparr>tim := Some r\<rparr>)
      else if eid = 6 then Some (es\<lparr>ibss_params := Some r\<rparr>)
      else if eid = 16 then Some (es\<lparr>challenge := Some r\<rparr>)
      else if eid = 42 then Some (es\<lparr>erp_info := Some r\<rparr>)
      else if eid = 50 then Some (es\<lparr>ext_supp_rates := Some r\<rparr>)
      else if eid = 48 then Some (es\<lparr>rsn_ie := Some r\<rparr>)
      else if eid = 33 then Some (es\<lparr>power_cap := Some r\<rparr>)
      else if eid = 36 then Some (es\<lparr>supp_channels := Some r\<rparr>)
      else if eid = 54 then Some (es\<lparr>mdie := Some r\<rparr>)
      else if eid = 55 then Some (es\<lparr>ftie := Some r\<rparr>)
      else if eid = 56 then Some (es\<lparr>timeout_int := Some r\<rparr>)
      else if eid = 45 then Some (es\<lparr>ht_capabilities := Some r\<rparr>)
      else if eid = 61 then Some (es\<lparr>ht_operation := Some r\<rparr>)
      else if eid = 191 then Some (es\<lparr>vht_capabilities := Some r\<rparr>)
      else if eid = 192 then Some (es\<lparr>vht_operation := Some r\<rparr>)
      else if eid = 199 then Some (es\<lparr>vht_op_mode_notify := Some r\<rparr>)
      else if eid = 70 then Some (es\<lparr>rm_en_cap := Some r\<rparr>)
      else None)"

definition parse_elems_switch ::
  "u8 list \<Rightarrow> u8 \<Rightarrow> nat \<Rightarrow> u8 \<Rightarrow> elems \<Rightarrow> nat \<Rightarrow> (elems \<times> nat) cres" where
  "parse_elems_switch buf eid pos elen es unknown =
     (if eid = 221 then
        bindc (rtw_ieee802_11_parse_vendor_specific buf pos elen es) (\<lambda>(es', ret).
        Inr (es', if ret \<noteq> 0 then unknown + 1 else unknown))
      else case elems_store eid (pos, elen) es of
        Some es' \<Rightarrow> Inr (es', unknown)
      | None \<Rightarrow> Inr (es, unknown + 1))"

function parse_elems_loop ::
  "u8 list \<Rightarrow> nat \<Rightarrow> nat \<Rightarrow> nat \<Rightarrow> elems \<Rightarrow> (elems \<times> ParseRes) cres" where
  "parse_elems_loop buf pos left unknown es =
     (if left < 2 then
        Inr (es, if left \<noteq> 0 then ParseFailed else if unknown \<noteq> 0 then ParseUnknown else ParseOK)
      else bindc (rd buf pos) (\<lambda>eid. bindc (rd buf (pos + 1)) (\<lambda>elen.
        if unat elen > left - 2 then Inr (es, ParseFailed)
        else bindc (parse_elems_switch buf eid (pos + 2) elen es unknown) (\<lambda>(es', unknown').
          parse_elems_loop buf (pos + 2 + unat elen) (left - 2 - unat elen) unknown' es'))))"
  by pat_completeness auto
termination by (relation "measure (\<lambda>(buf, pos, left, unknown, es). left)") auto

declare parse_elems_loop.simps [simp del]

definition rtw_ieee802_11_parse_elems :: "u8 list \<Rightarrow> nat \<Rightarrow> nat \<Rightarrow> (elems \<times> ParseRes) cres" where
  "rtw_ieee802_11_parse_elems buf start len = parse_elems_loop buf start len 0 elems_zero"

section \<open>What a field refers to\<close>

text \<open>The table as a specification: for each field, which elements it refers to.\<close>

definition has_eid :: "u8 \<Rightarrow> ie_elem \<Rightarrow> bool" where
  "has_eid i e \<longleftrightarrow> fst e = i"

definition vendor_type :: "u8 list \<Rightarrow> ie_elem \<Rightarrow> bool" where
  "vendor_type t e \<longleftrightarrow> fst e = 221 \<and> take 4 (snd e) = t"

definition wme_type :: "u8 list \<Rightarrow> ie_elem \<Rightarrow> bool" where
  "wme_type subtypes e \<longleftrightarrow>
     vendor_type [0, 0x50, 0xf2, 2] e \<and> length (snd e) \<ge> 5 \<and> snd e ! 4 \<in> set subtypes"

definition elem_fields :: "((ie_elem \<Rightarrow> bool) \<times> (elems \<Rightarrow> elem_ref)) list" where
  "elem_fields =
     [(has_eid 0, ssid), (has_eid 1, supp_rates), (has_eid 2, fh_params), (has_eid 3, ds_params),
      (has_eid 4, cf_params), (has_eid 5, tim), (has_eid 6, ibss_params), (has_eid 16, challenge),
      (has_eid 42, erp_info), (has_eid 50, ext_supp_rates), (has_eid 48, rsn_ie),
      (has_eid 33, power_cap), (has_eid 36, supp_channels), (has_eid 54, mdie), (has_eid 55, ftie),
      (has_eid 56, timeout_int), (has_eid 45, ht_capabilities), (has_eid 61, ht_operation),
      (has_eid 191, vht_capabilities), (has_eid 192, vht_operation),
      (has_eid 199, vht_op_mode_notify), (has_eid 70, rm_en_cap),
      (vendor_type [0, 0x50, 0xf2, 1], wpa_ie), (vendor_type [0, 0x50, 0xf2, 4], wps_ie),
      (wme_type [0, 1], wme), (wme_type [2], wme_tspec),
      (vendor_type [0, 0x90, 0x4c, 0x33], vendor_ht_cap)]"

definition known_elem :: "ie_elem \<Rightarrow> bool" where
  "known_elem e \<longleftrightarrow> (\<exists>(P, f) \<in> set elem_fields. P e)"

text \<open>One turn of the switch, for the element \<open>e\<close> with its contents at \<open>r\<close>.\<close>

definition elem_stored :: "ie_elem \<Rightarrow> nat \<times> u8 \<Rightarrow> elems \<Rightarrow> elems \<Rightarrow> bool" where
  "elem_stored e r es es' \<longleftrightarrow> (\<forall>(P, f) \<in> set elem_fields. f es' = (if P e then Some r else f es))"

lemmas elem_table_defs =
  elem_stored_def known_elem_def elem_fields_def has_eid_def vendor_type_def wme_type_def

lemma get_be24_bytes:
  "ucast (drop_bit 16 (get_be24 a b c)) = a"
  "ucast (drop_bit 8 (get_be24 a b c)) = b"
  "ucast (get_be24 a b c) = c"
  unfolding get_be24_def by (rule bit_word_eqI; auto simp: bit_simps dest: bit_imp_le_length)+

lemma get_be24_eq_iff: "get_be24 a b c = get_be24 a' b' c' \<longleftrightarrow> a = a' \<and> b = b' \<and> c = c'"
  by (metis get_be24_bytes)

lemma oui_consts:
  "OUI_MICROSOFT = get_be24 0 0x50 0xf2" "OUI_BROADCOM = get_be24 0 0x90 0x4c"
  by (simp_all add: OUI_MICROSOFT_def OUI_BROADCOM_def get_be24_def push_bit_eq_mult)


lemma elems_store_stored:
  assumes "elems_store eid r es = Some es'"
  shows "elem_stored (eid, d) r es es' \<and> known_elem (eid, d)"
  using assms unfolding elems_store_def
  by (simp only: option.inject option.distinct split: if_split_asm)
    (clarify, simp add: elem_table_defs)+

lemma elems_store_unknown:
  assumes "elems_store eid r es = None" and "eid \<noteq> 221"
  shows "elem_stored (eid, d) r es es \<and> \<not> known_elem (eid, d)"
  using assms unfolding elems_store_def
  by (simp only: option.distinct split: if_split_asm) (simp add: elem_table_defs)

lemma take4_eq:
  "length d \<ge> 4 \<Longrightarrow>
   take 4 d = [a, b, c, e] \<longleftrightarrow> d ! 0 = a \<and> d ! 1 = b \<and> d ! 2 = c \<and> d ! 3 = e"
  by (cases d; cases "tl d"; cases "tl (tl d)"; cases "tl (tl (tl d))") (auto simp: numeral_eq_Suc)

lemma u8_less_numeral [simp]: "length d < 256 \<Longrightarrow> (of_nat (length d) :: u8) < 4 \<longleftrightarrow> length d < 4"
  "length d < 256 \<Longrightarrow> (of_nat (length d) :: u8) < 5 \<longleftrightarrow> length d < 5"
  by (simp_all add: word_less_nat_alt)

text \<open>The vendor elements that the table knows; a short one is unknown.\<close>

lemma known_vendor:
  "known_elem (221, d) \<longleftrightarrow> take 4 d \<in> {[0, 0x50, 0xf2, 1], [0, 0x50, 0xf2, 4], [0, 0x90, 0x4c, 0x33]} \<or>
     take 4 d = [0, 0x50, 0xf2, 2] \<and> length d \<ge> 5 \<and> d ! 4 \<in> {0, 1, 2}"
  by (simp add: elem_table_defs) blast

lemma stored_vendor:
  "elem_stored (221, d) r es es' \<longleftrightarrow>
     (\<forall>(P, f) \<in> set (take 22 elem_fields). f es' = f es) \<and>
     wpa_ie es' = (if take 4 d = [0, 0x50, 0xf2, 1] then Some r else wpa_ie es) \<and>
     wps_ie es' = (if take 4 d = [0, 0x50, 0xf2, 4] then Some r else wps_ie es) \<and>
     wme es' = (if wme_type [0, 1] (221, d) then Some r else wme es) \<and>
     wme_tspec es' = (if wme_type [2] (221, d) then Some r else wme_tspec es) \<and>
     vendor_ht_cap es' = (if take 4 d = [0, 0x90, 0x4c, 0x33] then Some r else vendor_ht_cap es)"
  by (simp add: elem_stored_def elem_fields_def has_eid_def vendor_type_def)

lemma parse_vendor_stored:
  assumes "holds_at buf pos d" and "length d < 256"
  shows "\<exists>es'. rtw_ieee802_11_parse_vendor_specific buf pos (of_nat (length d)) es =
      Inr (es', if known_elem (221, d) then 0 else -1) \<and>
    elem_stored (221, d) (pos, of_nat (length d)) es es'"
proof (cases "length d < 4")
  case True
  then have short: "take 4 d \<noteq> [a, b, c, e]" for a b c e
    by (auto dest!: arg_cong [of _ _ length])
  show ?thesis
    using True assms(2) short
    by (simp add: rtw_ieee802_11_parse_vendor_specific_def known_vendor stored_vendor wme_type_def
        vendor_type_def elem_fields_def)
next
  case False
  then have len: "length d \<ge> 4" by simp
  have rd: "rd buf (pos + i) = Inr (d ! i)" if "i < length d" for i
    using holds_at_rd [OF assms(1) that] .
  have r0: "rd buf pos = Inr (d ! 0)" using rd [of 0] len by (cases d) auto
  have r: "rd buf (pos + 1) = Inr (d ! 1)" "rd buf (pos + 2) = Inr (d ! 2)" "rd buf (pos + 3) = Inr (d ! 3)"
    using len by (intro rd; simp)+
  have r4: "rd buf (pos + 4) = Inr (d ! 4)" if "length d \<ge> 5"
    using that by (intro rd) simp
  have stay: "elem_stored (221, d) (pos, of_nat (length d)) es es" if "\<not> known_elem (221, d)"
    using that by (auto simp: elem_stored_def known_elem_def)
  note defs = rtw_ieee802_11_parse_vendor_specific_def r0 r r [simplified] take4_eq [OF len] oui_consts
    get_be24_eq_iff assms(2) not_less
  consider (ms) "d ! 0 = 0" "d ! 1 = 0x50" "d ! 2 = 0xf2" | (bc) "d ! 0 = 0" "d ! 1 = 0x90" "d ! 2 = 0x4c"
    | (other) "get_be24 (d ! 0) (d ! 1) (d ! 2) \<notin> {OUI_MICROSOFT, OUI_BROADCOM}"
    by (auto simp: oui_consts get_be24_eq_iff)
  then show ?thesis
  proof cases
    case ms
    have t: "take 4 d = [a, b, c, x] \<longleftrightarrow> a = 0 \<and> b = 0x50 \<and> c = 0xf2 \<and> d ! 3 = x" for a b c x
      using ms by (auto simp: take4_eq [OF len])
    have parse: "rtw_ieee802_11_parse_vendor_specific buf pos (of_nat (length d)) es =
        parse_vendor_microsoft buf pos (of_nat (length d)) es"
      using ms len by (simp add: defs)
    consider "d ! 3 = 1" | "d ! 3 = 2" | "d ! 3 = 4" | "d ! 3 \<notin> {1, 2, 4}" by blast
    then show ?thesis
    proof cases
      case 2
      show ?thesis
      proof (cases "length d < 5")
        case True
        then have "\<not> known_elem (221, d)" using 2 by (simp add: known_vendor t del: take_all)
        with 2 True show ?thesis using stay
          by (simp add: parse parse_vendor_microsoft_def r assms(2))
      next
        case False
        consider "d ! 4 = 0" | "d ! 4 = 1" | "d ! 4 = 2" | "d ! 4 \<notin> {0, 1, 2}" by blast
        then show ?thesis
          using 2 False stay len
          by cases (simp_all add: parse parse_vendor_microsoft_def r r4 assms(2) known_vendor t stored_vendor
              elem_fields_def wme_type_def vendor_type_def)
      qed
    qed (use stay in \<open>simp_all add: parse parse_vendor_microsoft_def r known_vendor t stored_vendor elem_fields_def
        wme_type_def vendor_type_def\<close>)
  next
    case bc
    have t: "take 4 d = [a, b, c, x] \<longleftrightarrow> a = 0 \<and> b = 0x90 \<and> c = 0x4c \<and> d ! 3 = x" for a b c x
      using bc by (auto simp: take4_eq [OF len])
    have parse: "rtw_ieee802_11_parse_vendor_specific buf pos (of_nat (length d)) es =
        parse_vendor_broadcom buf pos (of_nat (length d)) es"
      using bc len by (simp add: defs)
    show ?thesis
      using stay by (cases "d ! 3 = 0x33") (simp_all add: parse parse_vendor_broadcom_def r known_vendor t
        stored_vendor elem_fields_def wme_type_def vendor_type_def)
  next
    case other
    then show ?thesis using stay len by (auto simp: defs known_vendor)
  qed
qed

lemma parse_switch_stored:
  assumes "holds_at buf pos d" and "length d < 256"
  shows "\<exists>es'. parse_elems_switch buf eid pos (of_nat (length d)) es unknown =
      Inr (es', if known_elem (eid, d) then unknown else unknown + 1) \<and>
    elem_stored (eid, d) (pos, of_nat (length d)) es es'"
proof (cases "eid = 221")
  case True
  from parse_vendor_stored [OF assms, of es] obtain es' where
    "rtw_ieee802_11_parse_vendor_specific buf pos (of_nat (length d)) es =
       Inr (es', if known_elem (221, d) then 0 else -1)"
    "elem_stored (221, d) (pos, of_nat (length d)) es es'"
    by blast
  with True show ?thesis by (simp add: parse_elems_switch_def)
next
  case False
  show ?thesis
  proof (cases "elems_store eid (pos, of_nat (length d)) es")
    case None
    from elems_store_unknown [OF this False, of d] None False show ?thesis
      by (simp add: parse_elems_switch_def)
  next
    case (Some es')
    from elems_store_stored [OF this, of d] Some False show ?thesis
      by (simp add: parse_elems_switch_def)
  qed
qed

section \<open>The walk\<close>

definition elem_seq :: "u8 list \<Rightarrow> bool" where
  "elem_seq xs \<longleftrightarrow> (\<exists>es. (\<forall>e \<in> set es. wf_ie e) \<and> xs = ies_bytes es)"

lemma elem_seq_Nil [simp]: "elem_seq []"
  by (auto simp: elem_seq_def intro: exI [of _ "[]"])

lemma elem_seq_single [simp]: "\<not> elem_seq [x]"
proof
  assume "elem_seq [x]"
  then obtain es where "[x] = ies_bytes es" by (auto simp: elem_seq_def)
  then show False by (cases es; cases "hd es") auto
qed

lemma elem_seq_Cons:
  "elem_seq (i # l # xs) \<longleftrightarrow> unat l \<le> length xs \<and> elem_seq (drop (unat l) xs)"
proof
  assume "elem_seq (i # l # xs)"
  then obtain es where es: "\<forall>e \<in> set es. wf_ie e" "i # l # xs = ies_bytes es"
    by (auto simp: elem_seq_def)
  then obtain j d es' where "es = (j, d) # es'" by (cases es) auto
  with es show "unat l \<le> length xs \<and> elem_seq (drop (unat l) xs)"
    by (auto simp: elem_seq_def wf_ie_def)
next
  assume h: "unat l \<le> length xs \<and> elem_seq (drop (unat l) xs)"
  then obtain es where es: "\<forall>e \<in> set es. wf_ie e" "drop (unat l) xs = ies_bytes es"
    by (auto simp: elem_seq_def)
  have "i # l # xs = i # l # take (unat l) xs @ drop (unat l) xs" by simp
  also have "\<dots> = ies_bytes ((i, take (unat l) xs) # es)"
    using h unfolding es(2) by (simp add: min_absorb2)
  finally have "i # l # xs = ies_bytes ((i, take (unat l) xs) # es)" .
  moreover have "wf_ie (i, take (unat l) xs)" using unat_u8_less [of l] h by (simp add: wf_ie_def)
  ultimately show "elem_seq (i # l # xs)"
    using es(1) unfolding elem_seq_def by (metis set_ConsD)
qed

text \<open>Where a stored reference lies: an element of the walked bytes, its length in front.\<close>

definition ref_within :: "u8 list \<Rightarrow> nat \<Rightarrow> nat \<Rightarrow> elem_ref \<Rightarrow> bool" where
  "ref_within buf start stop r \<longleftrightarrow>
     (case r of None \<Rightarrow> True
      | Some (p, l) \<Rightarrow> start + 2 \<le> p \<and> p + unat l \<le> stop \<and> buf ! (p - 1) = l)"

lemma parse_elems_loop_turn:
  assumes "pos + left \<le> length buf" and "2 \<le> left" and "unat (buf ! (pos + 1)) + 2 \<le> left"
    and d: "d = take (unat (buf ! (pos + 1))) (drop (pos + 2) buf)"
  shows "\<exists>es'. parse_elems_loop buf pos left unknown es =
      parse_elems_loop buf (pos + 2 + length d) (left - 2 - length d)
        (if known_elem (buf ! pos, d) then unknown else unknown + 1) es' \<and>
    elem_stored (buf ! pos, d) (pos + 2, buf ! (pos + 1)) es es'"
proof -
  have len: "length d = unat (buf ! (pos + 1))" using assms by (simp add: d)
  then have l: "buf ! (pos + 1) = of_nat (length d)" by simp
  have "holds_at buf (pos + 2) d" using assms(1,3) by (simp add: holds_at_def len) (simp add: d)
  from parse_switch_stored [OF this, of "buf ! pos" es unknown] obtain es' where
    "parse_elems_switch buf (buf ! pos) (pos + 2) (buf ! (pos + 1)) es unknown =
       Inr (es', if known_elem (buf ! pos, d) then unknown else unknown + 1)"
    "elem_stored (buf ! pos, d) (pos + 2, buf ! (pos + 1)) es es'"
    using unat_u8_less [of "buf ! (pos + 1)"] len l by (metis (no_types, lifting))
  moreover have "rd buf pos = Inr (buf ! pos)" "rd buf (pos + 1) = Inr (buf ! (pos + 1))"
    using assms(1,2) by (simp_all add: rd_ok)
  moreover have "\<not> left < 2" "\<not> unat (buf ! (pos + 1)) > left - 2" using assms(2,3) by simp_all
  ultimately show ?thesis
    by (intro exI [of _ es']) (subst parse_elems_loop.simps, simp add: len)
qed

lemma parse_elems_loop_stop:
  assumes "pos + left \<le> length buf" and "2 \<le> left" and "\<not> unat (buf ! (pos + 1)) + 2 \<le> left"
  shows "parse_elems_loop buf pos left unknown es = Inr (es, ParseFailed)"
proof -
  have "rd buf pos = Inr (buf ! pos)" "rd buf (pos + 1) = Inr (buf ! (pos + 1))"
    using assms(1,2) by (simp_all add: rd_ok)
  moreover have "unat (buf ! (pos + 1)) > left - 2" using assms(2,3) by simp
  ultimately show ?thesis using assms(2) by (subst parse_elems_loop.simps) simp
qed

lemma elem_seq_at:
  assumes "pos + left \<le> length buf" and "2 \<le> left"
  shows "elem_seq (take left (drop pos buf)) \<longleftrightarrow>
    unat (buf ! (pos + 1)) + 2 \<le> left \<and>
    elem_seq (take (left - 2 - unat (buf ! (pos + 1))) (drop (pos + 2 + unat (buf ! (pos + 1))) buf))"
proof -
  obtain n where n: "left = Suc (Suc n)" using assms(2) by (metis Suc_le_D numeral_2_eq_2 Suc_le_mono)
  have "drop pos buf = buf ! pos # buf ! (pos + 1) # drop (pos + 2) buf"
    using assms by (simp add: Cons_nth_drop_Suc)
  then have "take left (drop pos buf) = buf ! pos # buf ! (pos + 1) # take n (drop (pos + 2) buf)"
    by (simp add: n)
  then show ?thesis using assms(1) by (auto simp: elem_seq_Cons n drop_take add.commute)
qed

lemma parse_elems_loop_any:
  assumes "pos + left \<le> length buf" and "start \<le> pos"
    and "\<forall>(P, f) \<in> set elem_fields. ref_within buf start pos (f es)"
  shows "\<exists>es' res. parse_elems_loop buf pos left unknown es = Inr (es', res) \<and>
    (res = ParseFailed \<longleftrightarrow> \<not> elem_seq (take left (drop pos buf))) \<and>
    (\<forall>(P, f) \<in> set elem_fields. ref_within buf start (pos + left) (f es'))"
  using assms
proof (induction left arbitrary: pos unknown es rule: less_induct)
  case (less left)
  have grow: "ref_within buf start e r \<Longrightarrow> e \<le> e' \<Longrightarrow> ref_within buf start e' r" for e e' r
    by (auto simp: ref_within_def split: option.splits)
  consider "left < 2" | "2 \<le> left" "\<not> unat (buf ! (pos + 1)) + 2 \<le> left"
    | (go) "2 \<le> left" "unat (buf ! (pos + 1)) + 2 \<le> left"
    by linarith
  then show ?case
  proof cases
    case 1
    then have "left = 0 \<or> left = 1" by auto
    then have "elem_seq (take left (drop pos buf)) \<longleftrightarrow> left = 0"
      using less.prems(1) by (auto simp: take_Suc_conv_app_nth)
    with 1 less.prems(3) show ?thesis
      by (subst parse_elems_loop.simps) (auto intro: grow)
  next
    case 2
    then show ?thesis
      using parse_elems_loop_stop [OF less.prems(1) 2] elem_seq_at [OF less.prems(1) 2(1)] less.prems(3)
      by (auto intro: grow)
  next
    case go
    let ?l = "unat (buf ! (pos + 1))"
    obtain d where d: "d = take ?l (drop (pos + 2) buf)" by blast
    then have len: "length d = ?l" using less.prems(1) go by simp
    from parse_elems_loop_turn [OF less.prems(1) go d, of unknown es] obtain u es' where
      turn: "parse_elems_loop buf pos left unknown es =
        parse_elems_loop buf (pos + 2 + ?l) (left - 2 - ?l) u es'"
      and st: "elem_stored (buf ! pos, d) (pos + 2, buf ! (pos + 1)) es es'"
      unfolding len by blast
    have "ref_within buf start (pos + 2 + ?l) (Some (pos + 2, buf ! (pos + 1)))"
      using less.prems(2) by (simp add: ref_within_def)
    then have "\<forall>(P, f) \<in> set elem_fields. ref_within buf start (pos + 2 + ?l) (f es')"
      using st less.prems(3) by (fastforce simp: elem_stored_def intro: grow [of pos])
    note inner = this
    have lt: "left - 2 - ?l < left" "pos + 2 + ?l + (left - 2 - ?l) \<le> length buf" "start \<le> pos + 2 + ?l"
      using go less.prems(1,2) by linarith+
    have e: "pos + 2 + ?l + (left - 2 - ?l) = pos + left" using go by linarith
    from less.IH [OF lt inner, of u] obtain es'' res where r:
      "parse_elems_loop buf (pos + 2 + ?l) (left - 2 - ?l) u es' = Inr (es'', res)"
      "res = ParseFailed \<longleftrightarrow> \<not> elem_seq (take (left - 2 - ?l) (drop (pos + 2 + ?l) buf))"
      "\<forall>(P, f) \<in> set elem_fields. ref_within buf start (pos + 2 + ?l + (left - 2 - ?l)) (f es'')"
      by blast
    show ?thesis
      using r(1,2) r(3) [unfolded e] elem_seq_at [OF less.prems(1) go(1)] go(2) unfolding turn by simp
  qed
qed

text \<open>C8: \<open>rtw_ieee802_11_parse_elems\<close> on arbitrary bytes returns without an access outside
  the walked bytes; it reports \<open>ParseFailed\<close> exactly when they are not a sequence of complete
  elements; and every reference it stores, on a failure too, is to the contents of an element
  inside the walked bytes, whose length byte lies in front of it.\<close>

theorem rtw_ieee802_11_parse_elems_safe:
  assumes "start + len \<le> length buf"
  shows "\<exists>es res. rtw_ieee802_11_parse_elems buf start len = Inr (es, res) \<and>
    (res = ParseFailed \<longleftrightarrow> \<not> elem_seq (take len (drop start buf))) \<and>
    (\<forall>(P, f) \<in> set elem_fields. ref_within buf start (start + len) (f es))"
proof -
  have "\<forall>(P, f) \<in> set elem_fields. ref_within buf start start (f elems_zero)"
    by (simp add: elem_fields_def elems_zero_def ref_within_def)
  from parse_elems_loop_any [OF assms _ this, of 0] show ?thesis
    by (simp add: rtw_ieee802_11_parse_elems_def)
qed

theorem rtw_ieee802_11_parse_elems_safe_witness:
  "\<exists>es res. rtw_ieee802_11_parse_elems [0, 1, 65, 221, 9] 0 5 = Inr (es, res) \<and>
    (res = ParseFailed \<longleftrightarrow> \<not> elem_seq (take 5 (drop 0 [0, 1, 65, 221, 9]))) \<and>
    (\<forall>(P, f) \<in> set elem_fields. ref_within [0, 1, 65, 221, 9] 0 (0 + 5) (f es))"
  by (rule rtw_ieee802_11_parse_elems_safe) simp

section \<open>The table of an encoded frame\<close>

definition last_ref :: "(ie_elem \<Rightarrow> bool) \<Rightarrow> nat \<Rightarrow> ie_elem list \<Rightarrow> elem_ref" where
  "last_ref P start es =
     map_option (\<lambda>(p, e). (p + 2, of_nat (length (snd e)))) (tlv_last enc_ie P start es)"

lemma last_ref_simps:
  "last_ref P c [] = None"
  "last_ref P c (e # es) =
     (case last_ref P (c + (length (snd e) + 2)) es of Some r \<Rightarrow> Some r
      | None \<Rightarrow> if P e then Some (c + 2, of_nat (length (snd e))) else None)"
  by (auto simp: last_ref_def split: option.splits)

lemma parse_elems_loop_encoded:
  assumes "\<forall>e \<in> set es. wf_ie e" and "holds_at buf pos (ies_bytes es)"
  shows "\<exists>t'. parse_elems_loop buf pos (length (ies_bytes es)) unknown t =
      Inr (t', if unknown = 0 \<and> (\<forall>e \<in> set es. known_elem e) then ParseOK else ParseUnknown) \<and>
    (\<forall>(P, f) \<in> set elem_fields. f t' = (case last_ref P pos es of Some r \<Rightarrow> Some r | None \<Rightarrow> f t))"
  using assms
proof (induction es arbitrary: pos unknown t)
  case Nil
  then show ?case by (subst parse_elems_loop.simps) (auto simp: last_ref_simps)
next
  case (Cons e es)
  obtain i d where e: "e = (i, d)" by (cases e)
  have d: "length d < 256" using Cons.prems(1) by (simp add: e wf_ie_def)
  have at: "holds_at buf (pos + 2) d" "holds_at buf (pos + 2 + length d) (ies_bytes es)" "buf ! pos = i"
    "buf ! (pos + 1) = of_nat (length d)"
    using Cons.prems(2) by (simp_all add: e)
  let ?n = "length (ies_bytes (e # es))" and ?u = "if known_elem (i, d) then unknown else unknown + 1"
  have "pos + ?n \<le> length buf" using holds_at_length [OF Cons.prems(2)] .
  moreover have "2 \<le> ?n" "unat (buf ! (pos + 1)) + 2 \<le> ?n"
    using at(4) d by (simp_all add: e)
  moreover have "d = take (unat (buf ! (pos + 1))) (drop (pos + 2) buf)"
    using at(4) d holds_at_take [OF at(1)] by simp
  ultimately have "\<exists>t1. parse_elems_loop buf pos ?n unknown t =
      parse_elems_loop buf (pos + 2 + length d) (?n - 2 - length d) ?u t1 \<and>
    elem_stored (i, d) (pos + 2, of_nat (length d)) t t1"
    using parse_elems_loop_turn [of pos ?n buf d unknown t] unfolding at(3,4) by blast
  then obtain t1 where
    turn: "parse_elems_loop buf pos ?n unknown t =
      parse_elems_loop buf (pos + 2 + length d) (?n - 2 - length d) ?u t1" and
    st: "elem_stored (i, d) (pos + 2, of_nat (length d)) t t1"
    by blast
  have left: "length (ies_bytes (e # es)) - 2 - length d = length (ies_bytes es)" by (simp add: e)
  from Cons.IH [OF _ at(2), of ?u t1] Cons.prems(1) obtain t' where t':
    "parse_elems_loop buf (pos + 2 + length d) (length (ies_bytes es)) ?u t1 =
       Inr (t', if ?u = 0 \<and> (\<forall>e \<in> set es. known_elem e) then ParseOK else ParseUnknown)"
    "\<forall>(P, f) \<in> set elem_fields. f t' =
       (case last_ref P (pos + 2 + length d) es of Some r \<Rightarrow> Some r | None \<Rightarrow> f t1)"
    unfolding list.set ball_simps by blast
  have "(?u = 0 \<and> (\<forall>e \<in> set es. known_elem e)) \<longleftrightarrow>
      (unknown = 0 \<and> (\<forall>x \<in> set (e # es). known_elem x))"
    by (simp add: e)
  moreover have "f t' = (case last_ref P pos (e # es) of Some r \<Rightarrow> Some r | None \<Rightarrow> f t)"
    if m: "(P, f) \<in> set elem_fields" for P f
    using bspec [OF t'(2) m] bspec [OF st [unfolded elem_stored_def] m]
    by (simp add: last_ref_simps e add.commute add.left_commute split: option.split)
  ultimately show ?case
    unfolding turn left using t'(1) by (intro exI [of _ t']) (simp only: split: prod.split, blast)
qed

text \<open>C9: on the bytes of a sequence of elements \<open>rtw_ieee802_11_parse_elems\<close> makes every field
  of the table refer to the last element of its kind (for the vendor fields: its OUI, type and
  subtype), or be NULL when there is none, and it reports \<open>ParseOK\<close> exactly when every element
  is of a kind that the table has.\<close>

theorem rtw_ieee802_11_parse_elems_last:
  assumes "\<forall>e \<in> set es. wf_ie e" and "holds_at buf start (ies_bytes es)"
    and "len = length (ies_bytes es)"
  shows "\<exists>t. rtw_ieee802_11_parse_elems buf start len =
      Inr (t, if \<forall>e \<in> set es. known_elem e then ParseOK else ParseUnknown) \<and>
    (\<forall>(P, f) \<in> set elem_fields. f t = last_ref P start es)"
proof -
  from parse_elems_loop_encoded [OF assms(1,2), of 0 elems_zero] obtain t where t:
    "parse_elems_loop buf start len 0 elems_zero =
       Inr (t, if \<forall>e \<in> set es. known_elem e then ParseOK else ParseUnknown)"
    "\<forall>(P, f) \<in> set elem_fields. f t =
       (case last_ref P start es of Some r \<Rightarrow> Some r | None \<Rightarrow> f elems_zero)"
    unfolding assms(3) by auto
  have "f elems_zero = None" if "(P, f) \<in> set elem_fields" for P f
    using that by (auto simp: elem_fields_def elems_zero_def)
  with t(2) have "\<forall>(P, f) \<in> set elem_fields. f t = last_ref P start es"
    by (fastforce split: option.splits)
  with t(1) show ?thesis by (auto simp: rtw_ieee802_11_parse_elems_def)
qed

theorem rtw_ieee802_11_parse_elems_last_witness:
  "\<exists>t. rtw_ieee802_11_parse_elems [0, 1, 65, 1, 2, 130, 132, 0, 1, 66] 0 10 =
      Inr (t, if \<forall>e \<in> set [(0, [65]), (1, [130, 132]), (0, [66])]. known_elem e then ParseOK else ParseUnknown) \<and>
    (\<forall>(P, f) \<in> set elem_fields. f t = last_ref P 0 [(0, [65]), (1, [130, 132]), (0, [66])])"
  by (rule rtw_ieee802_11_parse_elems_last) (simp_all add: wf_ie_def)

end
