(* ===== verification/Serial.thy ===== *)
theory Serial
  imports Prelude
begin

text \<open>
  Serial-number comparison. The driver compares 12-bit sequence numbers (\<open>SN_LESS\<close>) and
  48-bit packet numbers (\<open>PN_LESS_CHK\<close>) by the top bit of their difference. The contract of
  both: on counters that differ by less than half the range, the comparison of the truncated
  values is the comparison of the counters.
\<close>

lemma and_bit_nonzero_int: "((x :: int) AND 2 ^ k \<noteq> 0) = (2 ^ k \<le> x mod 2 ^ Suc k)"
proof -
  have "(x AND 2 ^ k \<noteq> 0) = bit x k"
    by (simp add: and_exp_eq_0_iff_not_bit)
  also have "\<dots> = (2 ^ k \<le> x mod 2 ^ Suc k)"
  proof -
    have "x mod 2 ^ Suc k = x mod 2 ^ k + 2 ^ k * of_bool (bit x k)"
      by (metis take_bit_Suc_from_most take_bit_eq_mod add.commute)
    moreover have "0 \<le> x mod 2 ^ k" and "\<not> 2 ^ k \<le> x mod 2 ^ k" by (simp_all add: not_le)
    ultimately show ?thesis by (cases "bit x k") auto
  qed
  finally show ?thesis .
qed

locale serial_number =
  fixes less :: "'a \<Rightarrow> 'a \<Rightarrow> bool"
    and val :: "'a \<Rightarrow> int"
    and half :: int
  assumes half_pos: "0 < half"
    and less_iff: "less a b \<longleftrightarrow> half \<le> (val a - val b) mod (2 * half)"
begin

definition represents :: "'a \<Rightarrow> int \<Rightarrow> bool" where
  "represents a n \<longleftrightarrow> val a mod (2 * half) = n mod (2 * half)"

lemma less_represents:
  assumes "represents a m" and "represents b n" and "- half \<le> m - n" and "m - n < half"
  shows "less a b \<longleftrightarrow> m < n"
proof -
  have "(val a - val b) mod (2 * half) = (m - n) mod (2 * half)"
    using assms(1,2) unfolding represents_def by (metis mod_diff_cong)
  moreover have "(m - n) mod (2 * half) = (if m < n then m - n + 2 * half else m - n)"
  proof (cases "m < n")
    case True
    have "(m - n) mod (2 * half) = (m - n + 2 * half) mod (2 * half)" by simp
    also have "\<dots> = m - n + 2 * half"
      using assms(3) True half_pos by (intro mod_pos_pos_trivial) auto
    finally show ?thesis using True by simp
  next
    case False
    then show ?thesis using assms(4) half_pos by (simp add: mod_pos_pos_trivial)
  qed
  ultimately show ?thesis
    using assms(3,4) half_pos by (auto simp: less_iff)
qed

lemma less_irrefl: "\<not> less a a"
  using half_pos by (simp add: less_iff)

lemma less_asym:
  assumes "less a b" and "(val a - val b) mod (2 * half) \<noteq> half"
  shows "\<not> less b a"
proof -
  let ?d = "(val a - val b) mod (2 * half)"
  have d: "half < ?d" "?d < 2 * half"
    using assms half_pos by (auto simp: less_iff)
  have "(val b - val a) mod (2 * half) = (- ?d) mod (2 * half)"
    by (metis minus_diff_eq mod_minus_eq)
  also have "\<dots> = (2 * half - ?d) mod (2 * half)"
    by (metis mod_add_self1 uminus_add_conv_diff add.commute)
  also have "\<dots> = 2 * half - ?d"
    using d by (intro mod_pos_pos_trivial) auto
  finally show ?thesis using d by (auto simp: less_iff)
qed

text \<open>The counter value that a truncated number stands for, near a reference counter \<open>w\<close>.\<close>

definition near :: "int \<Rightarrow> 'a \<Rightarrow> int" where
  "near w a = w - half + (val a - w + half) mod (2 * half)"

lemma near_represents: "represents a (near w a)"
proof -
  have "(w - half + (val a - w + half) mod (2 * half)) mod (2 * half) =
    (w - half + (val a - w + half)) mod (2 * half)"
    by (rule mod_add_right_eq)
  then show ?thesis unfolding represents_def near_def by simp
qed

lemma near_bounds: "w - half \<le> near w a" "near w a < w + half"
proof -
  have "0 \<le> (val a - w + half) mod (2 * half)" "(val a - w + half) mod (2 * half) < 2 * half"
    using half_pos by simp_all
  then show "w - half \<le> near w a" "near w a < w + half"
    by (simp_all add: near_def)
qed

end

end
