(* ===== verification/Reorder.thy ===== *)
theory Reorder
  imports Serial "HOL-Library.Multiset"
begin

text \<open>
  Receive reordering of an A-MPDU stream (core/rtw_recv.c): the window of one TID
  (\<open>struct recv_reorder_ctrl\<close>), the admission of a frame, the ordered pending queue, the
  in-order indication and the reorder timer. The C comparisons work on values promoted to
  \<open>int\<close>; the fields are kept at their widths. The processing of an indicated frame
  (\<open>recv_process_mpdu\<close>) appears as the trace \<open>indicated\<close>, and whether it succeeds is the
  parameter \<open>mpdu_ok\<close>.
\<close>

section \<open>State\<close>

record rx_frame =
  rf_seq_num :: u16
  rf_qos :: bool
  rf_tag :: nat

record reorder_ctrl =
  enable :: bool
  indicate_seq :: u16
  wsize_b :: u8
  ampdu_size :: u8
  pending :: "rx_frame list"
  bReorderWaiting :: bool
  timer_set :: bool

record recv_priv =
  rx_drop :: u64
  dbg_rx_drop_count :: u64
  dbg_rx_ampdu_drop_count :: u64
  dbg_rx_ampdu_forced_indicate_count :: u64
  dbg_rx_ampdu_loss_count :: u64
  dbg_rx_ampdu_window_shift_cnt :: u64
  indicated :: "rx_frame list"

datatype rx_ret = RX_FAIL | RX_SUCCESS | RX_HANDLED

section \<open>Operations\<close>

definition SN_LESS :: "u16 \<Rightarrow> u16 \<Rightarrow> bool" where
  "SN_LESS a b \<longleftrightarrow> (uint a - uint b) AND 0x800 \<noteq> 0"

definition SN_EQUAL :: "u16 \<Rightarrow> u16 \<Rightarrow> bool" where
  "SN_EQUAL a b \<longleftrightarrow> a = b"

definition check_indicate_seq ::
  "recv_priv \<Rightarrow> reorder_ctrl \<Rightarrow> u16 \<Rightarrow> bool \<times> recv_priv \<times> reorder_ctrl" where
  "check_indicate_seq rp c seq_num =
     (let wsize = uint (wsize_b c);
          wend = word_of_int ((uint (indicate_seq c) + wsize - 1) AND 0xFFF) :: u16;
          c = (if indicate_seq c = 0xFFFF then c\<lparr>indicate_seq := seq_num\<rparr> else c)
      in if SN_LESS seq_num (indicate_seq c) then (False, rp, c)
         else if SN_EQUAL seq_num (indicate_seq c) then
           (True, rp, c\<lparr>indicate_seq := word_of_int ((uint (indicate_seq c) + 1) AND 0xFFF)\<rparr>)
         else if SN_LESS wend seq_num then
           (True, rp\<lparr>dbg_rx_ampdu_window_shift_cnt := dbg_rx_ampdu_window_shift_cnt rp + 1\<rparr>,
            c\<lparr>indicate_seq :=
                (if uint seq_num \<ge> wsize - 1 then word_of_int (uint seq_num + 1 - wsize)
                 else word_of_int (0xFFF - (wsize - (uint seq_num + 1)) + 1))\<rparr>)
         else (True, rp, c))"

text \<open>The ordered insertion into the pending queue; \<open>None\<close> is the duplicate case.\<close>

fun enqueue_pending :: "rx_frame \<Rightarrow> rx_frame list \<Rightarrow> rx_frame list option" where
  "enqueue_pending f [] = Some [f]"
| "enqueue_pending f (g # gs) =
     (if SN_LESS (rf_seq_num g) (rf_seq_num f) then map_option ((#) g) (enqueue_pending f gs)
      else if SN_EQUAL (rf_seq_num g) (rf_seq_num f) then None
      else Some (f # g # gs))"

definition enqueue_reorder_recvframe ::
  "reorder_ctrl \<Rightarrow> rx_frame \<Rightarrow> bool \<times> reorder_ctrl" where
  "enqueue_reorder_recvframe c f =
     (case enqueue_pending f (pending c) of None \<Rightarrow> (False, c)
      | Some q \<Rightarrow> (True, c\<lparr>pending := q\<rparr>))"

definition recv_indicatepkts_pkt_loss_cnt :: "recv_priv \<Rightarrow> u64 \<Rightarrow> u64 \<Rightarrow> recv_priv" where
  "recv_indicatepkts_pkt_loss_cnt rp prev_seq current_seq =
     (let n = (if current_seq < prev_seq then 4096 + current_seq - prev_seq
               else current_seq - prev_seq)
      in rp\<lparr>dbg_rx_ampdu_loss_count := dbg_rx_ampdu_loss_count rp + n, rx_drop := rx_drop rp + n\<rparr>)"

text \<open>The indication loop: the pending queue is consumed from its head; the result says
  whether a frame is left in it.\<close>

fun indicate_loop ::
  "(rx_frame \<Rightarrow> bool) \<Rightarrow> recv_priv \<Rightarrow> u16 \<Rightarrow> rx_frame list \<Rightarrow> bool \<times> recv_priv \<times> u16 \<times> rx_frame list" where
  "indicate_loop mpdu_ok rp iseq [] = (False, rp, iseq, [])"
| "indicate_loop mpdu_ok rp iseq (f # q) =
     (if \<not> SN_LESS iseq (rf_seq_num f) then
        let iseq' = (if SN_EQUAL iseq (rf_seq_num f) then word_of_int ((uint iseq + 1) AND 0xFFF)
                     else iseq);
            rp' = rp\<lparr>indicated := indicated rp @ [f],
                     dbg_rx_drop_count :=
                       dbg_rx_drop_count rp + (if mpdu_ok f then 0 else 1)\<rparr>
        in indicate_loop mpdu_ok rp' iseq' q
      else (True, rp, iseq, f # q))"

definition recv_indicatepkts_in_order ::
  "(rx_frame \<Rightarrow> bool) \<Rightarrow> recv_priv \<Rightarrow> reorder_ctrl \<Rightarrow> bool \<Rightarrow> bool \<times> recv_priv \<times> reorder_ctrl" where
  "recv_indicatepkts_in_order mpdu_ok rp c bforced =
     (let run = (\<lambda>rp c. let (left, rp', iseq', q') = indicate_loop mpdu_ok rp (indicate_seq c) (pending c)
                        in (left, rp', c\<lparr>indicate_seq := iseq', pending := q'\<rparr>))
      in if bforced then
           (let rp1 = rp\<lparr>dbg_rx_ampdu_forced_indicate_count := dbg_rx_ampdu_forced_indicate_count rp + 1\<rparr>
            in case pending c of
                 [] \<Rightarrow> (True, rp1, c)
               | f # _ \<Rightarrow>
                   run (recv_indicatepkts_pkt_loss_cnt rp1 (ucast (indicate_seq c)) (ucast (rf_seq_num f)))
                       (c\<lparr>indicate_seq := rf_seq_num f\<rparr>))
         else run rp c)"

definition recv_indicatepkt_reorder ::
  "(rx_frame \<Rightarrow> bool) \<Rightarrow> recv_priv \<Rightarrow> reorder_ctrl option \<Rightarrow> rx_frame \<Rightarrow>
   rx_ret \<times> recv_priv \<times> reorder_ctrl option" where
  "recv_indicatepkt_reorder mpdu_ok rp preorder_ctrl f =
     (case preorder_ctrl of
        None \<Rightarrow> (RX_SUCCESS, rp, None)
      | Some c \<Rightarrow>
        (if \<not> rf_qos f \<or> \<not> enable c then (RX_SUCCESS, rp, Some c)
         else
           let (ok, rp, c) = check_indicate_seq rp c (rf_seq_num f) in
           if \<not> ok then
             (RX_FAIL, rp\<lparr>dbg_rx_ampdu_drop_count := dbg_rx_ampdu_drop_count rp + 1\<rparr>, Some c)
           else
             let (ok, c) = enqueue_reorder_recvframe c f in
             if \<not> ok then (RX_FAIL, rp, Some c)
             else
               let (left, rp, c) = recv_indicatepkts_in_order mpdu_ok rp c False in
               if left then
                 (RX_HANDLED, rp,
                  Some (if \<not> bReorderWaiting c then c\<lparr>bReorderWaiting := True, timer_set := True\<rparr> else c))
               else (RX_HANDLED, rp, Some (c\<lparr>bReorderWaiting := False, timer_set := False\<rparr>))))"

text \<open>The handler runs when the timer has expired, so the timer is no longer set.\<close>

definition rtw_reordering_ctrl_timeout_handler ::
  "(rx_frame \<Rightarrow> bool) \<Rightarrow> bool \<Rightarrow> recv_priv \<Rightarrow> reorder_ctrl \<Rightarrow> recv_priv \<times> reorder_ctrl" where
  "rtw_reordering_ctrl_timeout_handler mpdu_ok cannot_run rp c =
     (let c = c\<lparr>timer_set := False\<rparr> in
      if cannot_run then (rp, c)
      else
        let (left, rp, c) = recv_indicatepkts_in_order mpdu_ok rp (c\<lparr>bReorderWaiting := False\<rparr>) True in
        (rp, if left then c\<lparr>timer_set := True\<rparr> else c))"

definition recv_set_iseq_before_mpdu_process :: "reorder_ctrl option \<Rightarrow> u16 \<Rightarrow> reorder_ctrl option" where
  "recv_set_iseq_before_mpdu_process c seq_num = map_option (\<lambda>c. c\<lparr>indicate_seq := seq_num\<rparr>) c"

definition recv_set_iseq_after_mpdu_process :: "reorder_ctrl option \<Rightarrow> u16 \<Rightarrow> reorder_ctrl option" where
  "recv_set_iseq_after_mpdu_process c seq_num =
     map_option (\<lambda>c. c\<lparr>indicate_seq := word_of_int ((uint (indicate_seq c) + 1) mod 4096)\<rparr>) c"

section \<open>Sequence numbers\<close>

interpretation sn: serial_number SN_LESS uint 2048
proof unfold_locales
  show "SN_LESS a b = (2048 \<le> (uint a - uint b) mod (2 * 2048))" for a b
    using and_bit_nonzero_int [of "uint a - uint b" 11] by (simp add: SN_LESS_def)
qed simp

text \<open>\<open>sn_rep s n\<close>: the 12-bit field \<open>s\<close> carries the counter \<open>n\<close>.\<close>

definition sn_rep :: "u16 \<Rightarrow> int \<Rightarrow> bool" where
  "sn_rep s n \<longleftrightarrow> uint s = n mod 4096"

lemma sn_rep_less:
  "sn_rep a m \<Longrightarrow> sn_rep b n \<Longrightarrow> - 2048 \<le> m - n \<Longrightarrow> m - n < 2048 \<Longrightarrow> SN_LESS a b \<longleftrightarrow> m < n"
  using sn.less_represents [of a m b n] by (simp add: sn_rep_def sn.represents_def)

lemma sn_rep_eq:
  assumes "sn_rep a m" and "sn_rep b n" and "\<bar>m - n\<bar> < 4096"
  shows "SN_EQUAL a b \<longleftrightarrow> m = n"
proof -
  have "a = b \<longleftrightarrow> m mod 4096 = n mod 4096"
    using assms(1,2) by (metis sn_rep_def word_uint_eqI)
  also have "\<dots> \<longleftrightarrow> m = n"
  proof
    assume "m mod 4096 = n mod 4096"
    then have "4096 dvd m - n" by (simp add: mod_eq_dvd_iff)
    with assms(3) show "m = n" by (metis dvd_imp_le_int linorder_not_less abs_numeral
          eq_iff_diff_eq_0)
  qed simp
  finally show ?thesis by (simp add: SN_EQUAL_def)
qed

lemma and_fff: "(x :: int) AND 4095 = x mod 4096"
  using take_bit_eq_mask [of 12 x] by (simp add: take_bit_eq_mod mask_eq_exp_minus_1)

lemma uint_of_12bit: "0 \<le> x \<Longrightarrow> x < 4096 \<Longrightarrow> uint (word_of_int x :: u16) = x"
  by (simp add: uint_word_of_int)

lemma sn_rep_word: "sn_rep (word_of_int (x AND 4095)) n \<longleftrightarrow> x mod 4096 = n mod 4096"
  by (simp add: sn_rep_def and_fff uint_of_12bit)

lemma sn_rep_word_exact:
  "0 \<le> x \<Longrightarrow> x < 4096 \<Longrightarrow> x mod 4096 = n mod 4096 \<Longrightarrow> sn_rep (word_of_int x) n"
  by (simp add: sn_rep_def uint_of_12bit)

lemma sn_rep_range: "sn_rep s n \<Longrightarrow> uint s < 4096"
  by (simp add: sn_rep_def)

lemma sn_rep_not_init: "sn_rep s n \<Longrightarrow> s \<noteq> 0xFFFF"
  using sn_rep_range by fastforce

section \<open>The abstract window\<close>

text \<open>The specification works on unbounded counters. The window is its start \<open>W\<close> and the
  ordered list of counters received ahead of it.\<close>

fun a_insert :: "int \<Rightarrow> int list \<Rightarrow> int list option" where
  "a_insert n [] = Some [n]"
| "a_insert n (p # ps) =
     (if p < n then map_option ((#) p) (a_insert n ps)
      else if p = n then None else Some (n # p # ps))"

fun a_drain :: "int \<Rightarrow> int list \<Rightarrow> int list \<times> int \<times> int list" where
  "a_drain W [] = ([], W, [])"
| "a_drain W (p # ps) =
     (if p \<le> W then let (ds, W', ps') = a_drain (if p = W then W + 1 else W) ps in (p # ds, W', ps')
      else ([], W, p # ps))"

definition a_shift :: "int \<Rightarrow> int \<Rightarrow> int \<Rightarrow> int" where
  "a_shift w W n = (if n = W then W + 1 else if W + w - 1 < n then n + 1 - w else W)"

definition a_recv :: "int \<Rightarrow> int \<times> int list \<Rightarrow> int \<Rightarrow> rx_ret \<times> int list \<times> int \<times> int list" where
  "a_recv w = (\<lambda>(W, P) n.
     if n < W then (RX_FAIL, [], W, P)
     else case a_insert n P of
            None \<Rightarrow> (RX_FAIL, [], a_shift w W n, P)
          | Some P' \<Rightarrow> (RX_HANDLED, a_drain (a_shift w W n) P'))"

definition a_timeout :: "int \<times> int list \<Rightarrow> int list \<times> int \<times> int list" where
  "a_timeout = (\<lambda>(W, P). case P of [] \<Rightarrow> ([], W, []) | p # _ \<Rightarrow> a_drain p P)"

definition a_inv :: "int \<Rightarrow> int \<times> int list \<Rightarrow> bool" where
  "a_inv w = (\<lambda>(W, P). sorted_wrt (<) P \<and> (\<forall>p \<in> set P. W < p \<and> p < W + w))"

lemma a_insert_set: "a_insert n P = Some P' \<Longrightarrow> set P' = insert n (set P)"
  by (induction P arbitrary: P') (auto split: if_splits)

lemma a_insert_sorted: "a_insert n P = Some P' \<Longrightarrow> sorted_wrt (<) P \<Longrightarrow> sorted_wrt (<) P'"
proof (induction P arbitrary: P')
  case Nil
  then show ?case by auto
next
  case (Cons p ps)
  then show ?case by (fastforce simp: a_insert_set split: if_splits)
qed

lemma a_insert_None: "sorted_wrt (<) P \<Longrightarrow> a_insert n P = None \<longleftrightarrow> n \<in> set P"
  by (induction P) auto

lemma a_insert_mset: "a_insert n P = Some P' \<Longrightarrow> length P' = Suc (length P)"
  by (induction P arbitrary: P') (auto split: if_splits)

text \<open>What draining a sorted list does: the drained part and the rest make up the list, the
  drained counters are below the new start, the rest above it.\<close>

lemma a_drain_spec:
  "a_drain W P = (ds, W', P') \<Longrightarrow> sorted_wrt (<) P \<Longrightarrow>
   P = ds @ P' \<and> W \<le> W' \<and> (\<forall>d \<in> set ds. d < W') \<and> (\<forall>p \<in> set P'. W' < p) \<and>
   (W' = W \<or> W' - 1 \<in> set ds) \<and> (\<forall>k. W \<le> k \<longrightarrow> k < W' \<longrightarrow> k \<in> set ds)"
proof (induction P arbitrary: W ds)
  case Nil
  then show ?case by auto
next
  case (Cons p ps)
  show ?case
  proof (cases "p \<le> W")
    case False
    with Cons.prems show ?thesis by fastforce
  next
    case True
    let ?W = "if p = W then W + 1 else W"
    from Cons.prems True obtain ds' where ds: "ds = p # ds'" and d: "a_drain ?W ps = (ds', W', P')"
      by (auto split: prod.splits)
    have srt: "sorted_wrt (<) ps" using Cons.prems(2) by simp
    from Cons.IH [OF d srt] have e: "ps = ds' @ P'" "?W \<le> W'" "\<forall>d \<in> set ds'. d < W'"
      "\<forall>p \<in> set P'. W' < p" "W' = ?W \<or> W' - 1 \<in> set ds'"
      and all: "\<forall>k. ?W \<le> k \<longrightarrow> k < W' \<longrightarrow> k \<in> set ds'" by blast+
    have "k \<in> set ds" if "W \<le> k" "k < W'" for k
    proof (cases "k = p")
      case False
      with that True have "?W \<le> k" by (simp split: if_split)
      with that(2) all have "k \<in> set ds'" by blast
      then show ?thesis by (simp add: ds)
    qed (simp add: ds)
    moreover have "p < W'" "W \<le> W'" using e(2) True by (simp_all split: if_split_asm)
    moreover have "W' = W \<or> W' - 1 \<in> set ds" using e(5) ds by (cases "p = W") auto
    ultimately show ?thesis using e(1,3,4) ds by simp
  qed
qed

section \<open>Refinement\<close>

text \<open>\<open>cnt\<close> gives each frame the counter its sender meant. \<open>reorder_rel cnt c (W, P)\<close>: the
  control block \<open>c\<close> represents the abstract window.\<close>

definition frep :: "(rx_frame \<Rightarrow> int) \<Rightarrow> rx_frame \<Rightarrow> bool" where
  "frep cnt f \<longleftrightarrow> sn_rep (rf_seq_num f) (cnt f)"

definition reorder_rel :: "(rx_frame \<Rightarrow> int) \<Rightarrow> reorder_ctrl \<Rightarrow> int \<times> int list \<Rightarrow> bool" where
  "reorder_rel cnt c = (\<lambda>(W, P).
     sn_rep (indicate_seq c) W \<and> (\<forall>f \<in> set (pending c). frep cnt f) \<and>
     map cnt (pending c) = P \<and> a_inv (uint (wsize_b c)) (W, P) \<and> 0 < wsize_b c)"

lemma wsize_bounds: "0 < (w :: u8) \<Longrightarrow> 1 \<le> uint w \<and> uint w \<le> 255"
  using uint_lt2p [of w] by (simp add: word_less_def)

lemma check_indicate_seq_refines:
  assumes W: "sn_rep (indicate_seq c) W" and s: "sn_rep s n" and w: "0 < wsize_b c"
    and lo: "W - 2048 \<le> n" and hi: "n < W + 2048"
  shows "\<exists>rp' iseq'. check_indicate_seq rp c s = (\<not> n < W, rp', c\<lparr>indicate_seq := iseq'\<rparr>) \<and>
    sn_rep iseq' (if n < W then W else a_shift (uint (wsize_b c)) W n) \<and>
    indicated rp' = indicated rp"
proof -
  let ?w = "uint (wsize_b c)" and ?i = "indicate_seq c"
  define wend :: u16 where "wend = word_of_int ((uint ?i + ?w - 1) AND 0xFFF)"
  have wb: "1 \<le> ?w" "?w \<le> 255" using wsize_bounds [OF w] by auto
  have ini: "?i \<noteq> 0xFFFF" using W by (rule sn_rep_not_init)
  have wend: "sn_rep wend (W + ?w - 1)"
    unfolding wend_def sn_rep_word using W
    by (simp add: sn_rep_def) (metis mod_diff_left_eq mod_add_left_eq)
  have less: "SN_LESS s ?i \<longleftrightarrow> n < W" using sn_rep_less [OF s W] lo hi by simp
  have eq: "SN_EQUAL s ?i \<longleftrightarrow> n = W" using sn_rep_eq [OF s W] lo hi by simp
  have out: "\<not> n < W \<Longrightarrow> SN_LESS wend s \<longleftrightarrow> W + ?w - 1 < n"
    using sn_rep_less [OF wend s] hi wb by simp
  have us: "uint s = n mod 4096" using s by (simp add: sn_rep_def)
  have mv: "sn_rep (if uint s \<ge> ?w - 1 then word_of_int (uint s + 1 - ?w)
      else word_of_int (0xFFF - (?w - (uint s + 1)) + 1)) (n + 1 - ?w)"
  proof (cases "uint s \<ge> ?w - 1")
    case True
    have "(uint s + 1 - ?w) mod 4096 = (n + 1 - ?w) mod 4096"
      unfolding us by (metis mod_add_left_eq mod_diff_left_eq)
    with True us wb show ?thesis by (simp add: sn_rep_word_exact)
  next
    case False
    have "(0xFFF - (?w - (uint s + 1)) + 1) mod 4096 = (uint s + 1 - ?w + 4096) mod 4096"
      by (simp add: algebra_simps)
    also have "\<dots> = (n + 1 - ?w) mod 4096"
      unfolding us mod_add_self2 by (metis mod_add_left_eq mod_diff_left_eq)
    finally show ?thesis using False us wb by (simp add: sn_rep_word_exact)
  qed
  have nxt: "sn_rep (word_of_int ((uint ?i + 1) AND 0xFFF)) (W + 1)"
    unfolding sn_rep_word using W by (simp add: sn_rep_def mod_add_left_eq)
  note defs = check_indicate_seq_def Let_def a_shift_def wend_def [symmetric]
  consider "n < W" | "n = W" | "W < n" "W + ?w - 1 < n" | "W < n" "\<not> W + ?w - 1 < n"
    by linarith
  then show ?thesis
  proof cases
    case 1
    with less ini W show ?thesis
      by (intro exI [of _ rp] exI [of _ ?i]) (simp add: defs)
  next
    case 2
    with less eq ini nxt show ?thesis
      by (intro exI [of _ rp] exI [of _ "word_of_int ((uint ?i + 1) AND 0xFFF)"]) (simp add: defs)
  next
    case 3
    with less eq ini out mv show ?thesis
      by (intro exI [of _ "rp\<lparr>dbg_rx_ampdu_window_shift_cnt := dbg_rx_ampdu_window_shift_cnt rp + 1\<rparr>"]
            exI [of _ "if uint s \<ge> ?w - 1 then word_of_int (uint s + 1 - ?w)
              else word_of_int (0xFFF - (?w - (uint s + 1)) + 1)"])
        (simp add: defs)
  next
    case 4
    with less eq ini out W show ?thesis
      by (intro exI [of _ rp] exI [of _ ?i]) (simp add: defs)
  qed
qed

lemma enqueue_pending_refines:
  assumes "\<forall>g \<in> set q. frep cnt g \<and> \<bar>cnt g - cnt f\<bar> < 2048" and "frep cnt f"
  shows "map_option (map cnt) (enqueue_pending f q) = a_insert (cnt f) (map cnt q)"
  using assms
proof (induction q)
  case Nil
  then show ?case by simp
next
  case (Cons g gs)
  have g: "sn_rep (rf_seq_num g) (cnt g)" "sn_rep (rf_seq_num f) (cnt f)" "\<bar>cnt g - cnt f\<bar> < 2048"
    using Cons.prems by (auto simp: frep_def)
  then have "SN_LESS (rf_seq_num g) (rf_seq_num f) \<longleftrightarrow> cnt g < cnt f"
    and "SN_EQUAL (rf_seq_num g) (rf_seq_num f) \<longleftrightarrow> cnt g = cnt f"
    using sn_rep_less [OF g(1,2)] sn_rep_eq [OF g(1,2)] by auto
  with Cons show ?case
    by (auto simp: option.map_comp comp_def simp flip: Cons.IH)
qed

lemma enqueue_pending_mset:
  "enqueue_pending f q = Some q' \<Longrightarrow> mset q' = add_mset f (mset q)"
  by (induction q arbitrary: q') (auto split: if_splits)

lemma indicate_loop_refines:
  assumes "\<forall>f \<in> set q. frep cnt f \<and> W - 2048 < cnt f \<and> cnt f < W + 2048" and "sn_rep iseq W"
    and "sorted_wrt (<) (map cnt q)" and "a_drain W (map cnt q) = (ds, W', P')"
  shows "\<exists>rp' iseq' new q'. indicate_loop ok rp iseq q = (q' \<noteq> [], rp', iseq', q') \<and>
    q = new @ q' \<and> map cnt new = ds \<and> map cnt q' = P' \<and> sn_rep iseq' W' \<and>
    indicated rp' = indicated rp @ new"
  using assms
proof (induction q arbitrary: rp iseq W ds)
  case Nil
  then show ?case by auto
next
  case (Cons f fs)
  have f: "sn_rep (rf_seq_num f) (cnt f)" "W - 2048 < cnt f" "cnt f < W + 2048"
    using Cons.prems(1) by (auto simp: frep_def)
  have less: "SN_LESS iseq (rf_seq_num f) \<longleftrightarrow> W < cnt f"
    using sn_rep_less [OF Cons.prems(2) f(1)] f(2,3) by simp
  have eq: "SN_EQUAL iseq (rf_seq_num f) \<longleftrightarrow> W = cnt f"
    using sn_rep_eq [OF Cons.prems(2) f(1)] f(2,3) by simp
  show ?case
  proof (cases "W < cnt f")
    case True
    with Cons.prems(2,4) less show ?thesis by auto
  next
    case False
    let ?W = "if cnt f = W then W + 1 else W"
    let ?i = "if SN_EQUAL iseq (rf_seq_num f) then word_of_int ((uint iseq + 1) AND 0xFFF) else iseq"
    let ?rp = "rp\<lparr>indicated := indicated rp @ [f],
        dbg_rx_drop_count := dbg_rx_drop_count rp + (if ok f then 0 else 1)\<rparr>"
    from False Cons.prems(4) obtain ds' where ds: "ds = cnt f # ds'"
      and dr: "a_drain ?W (map cnt fs) = (ds', W', P')" by (auto split: prod.splits)
    have i: "sn_rep ?i ?W"
    proof (cases "W = cnt f")
      case True
      have "(uint iseq + 1) mod 4096 = (W + 1) mod 4096"
        using Cons.prems(2) by (simp add: sn_rep_def mod_add_left_eq)
      with True eq show ?thesis by (simp add: sn_rep_word)
    next
      case False
      with eq Cons.prems(2) show ?thesis by simp
    qed
    have "\<forall>g \<in> set fs. frep cnt g \<and> ?W - 2048 < cnt g \<and> cnt g < ?W + 2048"
      using Cons.prems(1,3) by auto
    from Cons.IH [OF this i _ dr, of ?rp] Cons.prems(3) obtain rp' iseq' new q' where
      "indicate_loop ok ?rp ?i fs = (q' \<noteq> [], rp', iseq', q')" "fs = new @ q'" "map cnt new = ds'"
      "map cnt q' = P'" "sn_rep iseq' W'" "indicated rp' = indicated ?rp @ new" by auto
    then show ?thesis
      using False less ds by (intro exI [of _ rp'] exI [of _ iseq'] exI [of _ "f # new"] exI [of _ q'])
        (simp add: Let_def)
  qed
qed

lemma a_shift_bounds:
  assumes "1 \<le> w" and "W \<le> n"
  shows "W \<le> a_shift w W n" and "n < a_shift w W n + w" and "n = W \<Longrightarrow> n < a_shift w W n"
    and "a_shift w W n \<le> n + 1 \<or> a_shift w W n = W"
  using assms by (auto simp: a_shift_def)

lemma a_recv_facts:
  assumes "a_inv w (W, P)" and "1 \<le> w" and "a_recv w (W, P) n = (r, ds, W', P')"
  shows "a_inv w (W', P')" and "W \<le> W'" and "sorted_wrt (<) ds" and "\<forall>d \<in> set ds. W \<le> d \<and> d < W'"
    and "r = RX_HANDLED \<or> r = RX_FAIL"
    and "r = RX_HANDLED \<Longrightarrow> set ds \<union> set P' = insert n (set P)"
    and "r = RX_FAIL \<Longrightarrow> ds = [] \<and> P' = P \<and> W' = W \<and> (n < W \<or> n \<in> set P)"
    and "r = RX_HANDLED \<Longrightarrow> W \<le> n \<and> n < W' + w"
    and "W' = W \<or> W' \<le> n + 1 \<or> W' - 1 \<in> set ds"
    and "k < W' \<Longrightarrow> W \<le> k \<Longrightarrow> n - w < k \<Longrightarrow> k \<in> set ds"
proof -
  have srt: "sorted_wrt (<) P" and win: "\<forall>p \<in> set P. W < p \<and> p < W + w"
    using assms(1) by (auto simp: a_inv_def)
  have "a_inv w (W', P') \<and> W \<le> W' \<and> sorted_wrt (<) ds \<and> (\<forall>d \<in> set ds. W \<le> d \<and> d < W') \<and>
    (r = RX_HANDLED \<or> r = RX_FAIL) \<and> (r = RX_HANDLED \<longrightarrow> set ds \<union> set P' = insert n (set P)) \<and>
    (r = RX_FAIL \<longrightarrow> ds = [] \<and> P' = P \<and> W' = W \<and> (n < W \<or> n \<in> set P)) \<and>
    (r = RX_HANDLED \<longrightarrow> W \<le> n \<and> n < W' + w) \<and> (W' = W \<or> W' \<le> n + 1 \<or> W' - 1 \<in> set ds) \<and>
    (\<forall>k. k < W' \<longrightarrow> W \<le> k \<longrightarrow> n - w < k \<longrightarrow> k \<in> set ds)"
  proof (cases "n < W \<or> a_insert n P = None")
    case True
    have "a_recv w (W, P) n = (RX_FAIL, [], W, P) \<and> (n < W \<or> n \<in> set P)"
    proof (cases "n < W")
      case False
      with True srt have n: "a_insert n P = None" "n \<in> set P" by (auto simp: a_insert_None)
      then have "a_shift w W n = W" using win by (auto simp: a_shift_def)
      with False n show ?thesis by (simp add: a_recv_def)
    qed (simp add: a_recv_def)
    with assms(1,3) show ?thesis by auto
  next
    case False
    then obtain P1 where ins: "a_insert n P = Some P1" and nW: "W \<le> n" by auto
    let ?W1 = "a_shift w W n"
    have dr: "a_drain ?W1 P1 = (ds, W', P')" and r: "r = RX_HANDLED"
      using False assms(3) ins by (auto simp: a_recv_def)
    have s1: "set P1 = insert n (set P)" "sorted_wrt (<) P1"
      using a_insert_set [OF ins] a_insert_sorted [OF ins srt] by auto
    from a_drain_spec [OF dr s1(2)] have d: "P1 = ds @ P'" "?W1 \<le> W'" "\<forall>d \<in> set ds. d < W'"
      "\<forall>p \<in> set P'. W' < p" and W': "W' = ?W1 \<or> W' - 1 \<in> set ds"
      and all: "\<forall>k. ?W1 \<le> k \<longrightarrow> k < W' \<longrightarrow> k \<in> set ds" by auto
    have W1: "W \<le> ?W1" "n < ?W1 + w" "?W1 \<le> n + 1 \<or> ?W1 = W" "n = W \<Longrightarrow> n < ?W1"
      using a_shift_bounds [OF assms(2) nW] by auto
    have gap: "k \<in> set ds" if k: "k < W'" "W \<le> k" "n - w < k" for k
    proof (cases "?W1 \<le> k")
      case True
      with all k(1) show ?thesis by blast
    next
      case False
      then have "n = W" "k = n" using k by (auto simp: a_shift_def split: if_splits)
      then have "n \<in> set P1" "W' > n" using s1(1) W1(4) d(2) by auto
      with d(1,4) have "n \<in> set ds" by force
      with \<open>k = n\<close> show ?thesis by simp
    qed
    have "\<forall>p \<in> set P'. p < W' + w"
    proof
      fix p assume "p \<in> set P'"
      then have "p = n \<or> p \<in> set P" using s1(1) d(1) by auto
      with win W1 d(2) show "p < W' + w" by force
    qed
    moreover have "sorted_wrt (<) ds" "sorted_wrt (<) P'"
      using s1(2) by (simp_all add: d(1) sorted_wrt_append)
    moreover have "\<forall>d \<in> set ds. W \<le> d"
    proof
      fix x assume "x \<in> set ds"
      then have "x = n \<or> x \<in> set P" using s1(1) d(1) by auto
      with win nW show "W \<le> x" by force
    qed
    moreover have "set ds \<union> set P' = insert n (set P)"
      using s1(1) by (simp add: d(1))
    ultimately show ?thesis using d W1(1,2,3) W' r nW gap by (auto simp: a_inv_def)
  qed
  then show "a_inv w (W', P')" "W \<le> W'" "sorted_wrt (<) ds" "\<forall>d \<in> set ds. W \<le> d \<and> d < W'"
    "r = RX_HANDLED \<Longrightarrow> W \<le> n \<and> n < W' + w" "W' = W \<or> W' \<le> n + 1 \<or> W' - 1 \<in> set ds"
    "k < W' \<Longrightarrow> W \<le> k \<Longrightarrow> n - w < k \<Longrightarrow> k \<in> set ds"
    "r = RX_HANDLED \<or> r = RX_FAIL"
    "r = RX_HANDLED \<Longrightarrow> set ds \<union> set P' = insert n (set P)"
    "r = RX_FAIL \<Longrightarrow> ds = [] \<and> P' = P \<and> W' = W \<and> (n < W \<or> n \<in> set P)"
    by auto
qed

lemma a_timeout_facts:
  assumes "a_inv w (W, P)" and "1 \<le> w" and "a_timeout (W, P) = (ds, W', P')"
  shows "a_inv w (W', P')" and "W \<le> W'" and "sorted_wrt (<) ds" and "\<forall>d \<in> set ds. W \<le> d \<and> d < W'"
    and "ds @ P' = P" and "P \<noteq> [] \<Longrightarrow> ds \<noteq> []"
    and "W' = W \<or> W' \<in> set P \<or> W' - 1 \<in> set P"
proof -
  have "a_inv w (W', P') \<and> W \<le> W' \<and> sorted_wrt (<) ds \<and> (\<forall>d \<in> set ds. W \<le> d \<and> d < W') \<and>
    ds @ P' = P \<and> (P \<noteq> [] \<longrightarrow> ds \<noteq> []) \<and> (W' = W \<or> W' \<in> set P \<or> W' - 1 \<in> set P)"
  proof (cases P)
    case Nil
    with assms show ?thesis by (auto simp: a_timeout_def)
  next
    case (Cons p ps)
    have srt: "sorted_wrt (<) P" and win: "\<forall>p \<in> set P. W < p \<and> p < W + w"
      using assms(1) by (auto simp: a_inv_def)
    have dr: "a_drain p P = (ds, W', P')" using assms(3) Cons by (simp add: a_timeout_def)
    from a_drain_spec [OF dr srt] have d: "P = ds @ P'" "p \<le> W'" "\<forall>d \<in> set ds. d < W'"
      "\<forall>p \<in> set P'. W' < p" and W': "W' = p \<or> W' - 1 \<in> set ds" by auto
    have "p \<in> set P" using Cons by simp
    then have "W' = W \<or> W' \<in> set P \<or> W' - 1 \<in> set P" using W' d(1) by auto
    moreover have p: "p \<in> set P" "W < p" using Cons win by auto
    have mem: "x \<in> set P" if "x \<in> set P' \<or> x \<in> set ds" for x
      using that d(1) by auto
    have "\<forall>x \<in> set P'. x < W' + w"
    proof
      fix x assume "x \<in> set P'"
      with mem win have "x < W + w" by blast
      with d(2) p(2) show "x < W' + w" by linarith
    qed
    moreover have "\<forall>x \<in> set ds. W \<le> x"
    proof
      fix x assume "x \<in> set ds"
      with mem win have "W < x" by blast
      then show "W \<le> x" by simp
    qed
    moreover have "sorted_wrt (<) ds" "sorted_wrt (<) P'"
      using srt by (simp_all add: d(1) sorted_wrt_append)
    moreover have "ds \<noteq> []" using dr Cons by (auto split: prod.splits)
    ultimately show ?thesis using d p(2) by (auto simp: a_inv_def)
  qed
  then show "a_inv w (W', P')" "W \<le> W'" "sorted_wrt (<) ds" "\<forall>d \<in> set ds. W \<le> d \<and> d < W'"
    "ds @ P' = P" "P \<noteq> [] \<Longrightarrow> ds \<noteq> []" "W' = W \<or> W' \<in> set P \<or> W' - 1 \<in> set P" by auto
qed

lemma reorder_step_refines:
  assumes rel: "reorder_rel cnt c (W, P)" and f: "frep cnt f"
    and lo: "W - 2048 \<le> cnt f" and hi: "cnt f < W + 2048"
    and on: "enable c" "rf_qos f"
    and a: "a_recv (uint (wsize_b c)) (W, P) (cnt f) = (r, ds, W', P')"
  shows "\<exists>rp' c' new. recv_indicatepkt_reorder ok rp (Some c) f = (r, rp', Some c') \<and>
    reorder_rel cnt c' (W', P') \<and> indicated rp' = indicated rp @ new \<and> map cnt new = ds \<and>
    mset new + mset (pending c') = (if r = RX_HANDLED then {#f#} else {#}) + mset (pending c) \<and>
    enable c' \<and> wsize_b c' = wsize_b c"
proof -
  let ?w = "uint (wsize_b c)"
  have i: "sn_rep (indicate_seq c) W" and q: "\<forall>f \<in> set (pending c). frep cnt f"
    and P: "map cnt (pending c) = P" and inv: "a_inv ?w (W, P)" and w: "0 < wsize_b c"
    using rel by (auto simp: reorder_rel_def)
  have wb: "1 \<le> ?w" "?w \<le> 255" using wsize_bounds [OF w] by auto
  have win: "\<forall>g \<in> set (pending c). W < cnt g \<and> cnt g < W + ?w"
    using inv P by (auto simp: a_inv_def)
  note facts = a_recv_facts [OF inv wb(1) a]
  from check_indicate_seq_refines [OF i f [unfolded frep_def] w lo hi, of rp] obtain rp1 iseq1 where
    chk: "check_indicate_seq rp c (rf_seq_num f) = (\<not> cnt f < W, rp1, c\<lparr>indicate_seq := iseq1\<rparr>)"
    and i1: "sn_rep iseq1 (if cnt f < W then W else a_shift ?w W (cnt f))"
    and ind1: "indicated rp1 = indicated rp" by blast
  show ?thesis
  proof (cases "cnt f < W")
    case True
    then have "(r, ds, W', P') = (RX_FAIL, [], W, P)" using a by (simp add: a_recv_def)
    with True chk i1 ind1 on q P inv w show ?thesis
      by (auto simp: recv_indicatepkt_reorder_def reorder_rel_def)
  next
    case False
    let ?W1 = "a_shift ?w W (cnt f)"
    have W1: "W \<le> ?W1" "cnt f < ?W1 + ?w" "?W1 \<le> cnt f + 1 \<or> ?W1 = W"
      using a_shift_bounds [OF wb(1), of W "cnt f"] False by auto
    have "\<forall>g \<in> set (pending c). frep cnt g \<and> \<bar>cnt g - cnt f\<bar> < 2048"
      using q win wb hi False by fastforce
    from enqueue_pending_refines [OF this f]
    have ins: "map_option (map cnt) (enqueue_pending f (pending c)) = a_insert (cnt f) P"
      by (simp add: P)
    show ?thesis
    proof (cases "enqueue_pending f (pending c)")
      case None
      with ins have "a_insert (cnt f) P = None" by simp
      with False a have r: "r = RX_FAIL" "ds = []" "W' = ?W1" "P' = P" by (auto simp: a_recv_def)
      with None False chk i1 ind1 on q P w facts(1) show ?thesis
        by (auto simp: recv_indicatepkt_reorder_def enqueue_reorder_recvframe_def reorder_rel_def)
    next
      case (Some q1)
      with ins have ai: "a_insert (cnt f) P = Some (map cnt q1)" by simp
      with False a have r: "r = RX_HANDLED" and dr: "a_drain ?W1 (map cnt q1) = (ds, W', P')"
        by (auto simp: a_recv_def)
      have m: "mset q1 = add_mset f (mset (pending c))" by (rule enqueue_pending_mset [OF Some])
      then have s1: "set q1 = insert f (set (pending c))"
        by (metis set_mset_mset set_mset_add_mset_insert)
      have srt: "sorted_wrt (<) (map cnt q1)"
        using a_insert_sorted [OF ai] inv by (simp add: a_inv_def)
      have near: "\<forall>g \<in> set q1. frep cnt g \<and> ?W1 - 2048 < cnt g \<and> cnt g < ?W1 + 2048"
      proof
        fix g assume "g \<in> set q1"
        then have "g = f \<or> g \<in> set (pending c)" using s1 by auto
        then show "frep cnt g \<and> ?W1 - 2048 < cnt g \<and> cnt g < ?W1 + 2048"
          using W1 win q f wb hi False by force
      qed
      have i1': "sn_rep iseq1 ?W1" using i1 False by simp
      from indicate_loop_refines [OF near i1' srt dr, of ok rp1] obtain rp' iseq' new q' where
        lp: "indicate_loop ok rp1 iseq1 q1 = (q' \<noteq> [], rp', iseq', q')" and n: "q1 = new @ q'"
        "map cnt new = ds" "map cnt q' = P'" "sn_rep iseq' W'" "indicated rp' = indicated rp1 @ new"
        by blast
      let ?c = "c\<lparr>indicate_seq := iseq1, pending := q1, indicate_seq := iseq', pending := q'\<rparr>"
      have run: "recv_indicatepkts_in_order ok rp1 (c\<lparr>indicate_seq := iseq1, pending := q1\<rparr>) False =
        (q' \<noteq> [], rp', ?c)"
        using lp by (simp add: recv_indicatepkts_in_order_def)
      have rel0: "reorder_rel cnt ?c (W', P')"
        using n near facts(1) w by (auto simp: reorder_rel_def)
      have rel': "reorder_rel cnt (?c\<lparr>bReorderWaiting := b, timer_set := t\<rparr>) (W', P')" for b t
        using n near facts(1) w by (auto simp: reorder_rel_def)
      have ms: "mset new + mset q' = {#f#} + mset (pending c)"
        using m n(1) by simp
      show ?thesis
        using False chk Some run on r ind1 n ms rel0 rel' [of True True] rel' [of False False]
        by (cases "bReorderWaiting c"; cases "q' = []")
          (auto simp: recv_indicatepkt_reorder_def enqueue_reorder_recvframe_def)
    qed
  qed
qed

lemma reorder_timeout_refines:
  assumes rel: "reorder_rel cnt c (W, P)" and a: "a_timeout (W, P) = (ds, W', P')"
  shows "\<exists>rp' c' new. rtw_reordering_ctrl_timeout_handler ok False rp c = (rp', c') \<and>
    reorder_rel cnt c' (W', P') \<and> indicated rp' = indicated rp @ new \<and> map cnt new = ds \<and>
    new @ pending c' = pending c \<and> enable c' = enable c \<and> wsize_b c' = wsize_b c"
proof (cases "pending c")
  case Nil
  with rel a show ?thesis
    by (auto simp: rtw_reordering_ctrl_timeout_handler_def recv_indicatepkts_in_order_def
        reorder_rel_def a_timeout_def)
next
  case (Cons f fs)
  let ?w = "uint (wsize_b c)"
  have q: "\<forall>f \<in> set (pending c). frep cnt f" and P: "map cnt (pending c) = P"
    and inv: "a_inv ?w (W, P)" and w: "0 < wsize_b c"
    using rel by (auto simp: reorder_rel_def)
  have wb: "1 \<le> ?w" "?w \<le> 255" using wsize_bounds [OF w] by auto
  have win: "\<forall>g \<in> set (pending c). W < cnt g \<and> cnt g < W + ?w"
    using inv P by (auto simp: a_inv_def)
  have dr: "a_drain (cnt f) (map cnt (pending c)) = (ds, W', P')"
    using a Cons by (simp add: a_timeout_def flip: P)
  have near: "\<forall>g \<in> set (pending c). frep cnt g \<and> cnt f - 2048 < cnt g \<and> cnt g < cnt f + 2048"
    using q win wb Cons by fastforce
  have i: "sn_rep (rf_seq_num f) (cnt f)" using q Cons by (simp add: frep_def)
  have srt: "sorted_wrt (<) (map cnt (pending c))" using inv P by (simp add: a_inv_def)
  let ?rp = "recv_indicatepkts_pkt_loss_cnt
      (rp\<lparr>dbg_rx_ampdu_forced_indicate_count := dbg_rx_ampdu_forced_indicate_count rp + 1\<rparr>)
      (ucast (indicate_seq c)) (ucast (rf_seq_num f))"
  from indicate_loop_refines [OF near i srt dr, of ok ?rp] obtain rp' iseq' new q' where
    lp: "indicate_loop ok ?rp (rf_seq_num f) (pending c) = (q' \<noteq> [], rp', iseq', q')"
    and n: "pending c = new @ q'" "map cnt new = ds" "map cnt q' = P'" "sn_rep iseq' W'"
    "indicated rp' = indicated ?rp @ new" by blast
  let ?c0 = "c\<lparr>timer_set := False, bReorderWaiting := False\<rparr>"
  let ?c1 = "?c0\<lparr>indicate_seq := rf_seq_num f, indicate_seq := iseq', pending := q'\<rparr>"
  have "recv_indicatepkts_in_order ok rp ?c0 True = (q' \<noteq> [], rp', ?c1)"
    using lp Cons by (simp add: recv_indicatepkts_in_order_def)
  then have "rtw_reordering_ctrl_timeout_handler ok False rp c =
      (rp', if q' \<noteq> [] then ?c1\<lparr>timer_set := True\<rparr> else ?c1)"
    by (simp add: rtw_reordering_ctrl_timeout_handler_def)
  moreover have "reorder_rel cnt (?c1\<lparr>timer_set := b\<rparr>) (W', P')" "reorder_rel cnt ?c1 (W', P')" for b
    using n q w a_timeout_facts(1) [OF inv wb(1) a] by (auto simp: reorder_rel_def)
  moreover have "indicated rp' = indicated rp @ new"
    using n(5) by (simp add: recv_indicatepkts_pkt_loss_cnt_def Let_def)
  ultimately show ?thesis using n(1,2) by (cases "q' = []") auto
qed

section \<open>Runs\<close>

datatype rx_event = Rx rx_frame | Expire

fun reorder_run ::
  "(rx_frame \<Rightarrow> bool) \<Rightarrow> recv_priv \<times> reorder_ctrl \<Rightarrow> rx_event list \<Rightarrow> recv_priv \<times> reorder_ctrl" where
  "reorder_run ok (rp, c) [] = (rp, c)"
| "reorder_run ok (rp, c) (Rx f # es) =
     (let (_, rp', c') = recv_indicatepkt_reorder ok rp (Some c) f
      in reorder_run ok (rp', case c' of None \<Rightarrow> c | Some c'' \<Rightarrow> c'') es)"
| "reorder_run ok (rp, c) (Expire # es) =
     reorder_run ok (rtw_reordering_ctrl_timeout_handler ok False rp c) es"

text \<open>The counter a frame was sent with is its tag; its sequence number is that counter
  modulo 4096. \<open>displaced_ok w M es\<close>: every frame lies less than half the number space away from
  the largest counter \<open>M\<close> before it (on the far side, less the window \<open>w\<close>).\<close>

definition sent :: "rx_frame \<Rightarrow> int" where
  "sent f = int (rf_tag f)"

fun displaced_ok :: "int \<Rightarrow> int \<Rightarrow> rx_event list \<Rightarrow> bool" where
  "displaced_ok w M [] = True"
| "displaced_ok w M (Rx f # es) =
     (rf_qos f \<and> uint (rf_seq_num f) = sent f mod 4096 \<and> M - 2048 < sent f \<and> sent f + w \<le> M + 2048 \<and>
      displaced_ok w (max M (sent f)) es)"
| "displaced_ok w M (Expire # es) = displaced_ok w M es"

fun arrivals :: "rx_event list \<Rightarrow> rx_frame list" where
  "arrivals [] = []"
| "arrivals (Rx f # es) = f # arrivals es"
| "arrivals (Expire # es) = arrivals es"

text \<open>The invariant of a run: \<open>M\<close> is the largest counter received.\<close>

definition run_inv :: "int \<Rightarrow> recv_priv \<Rightarrow> reorder_ctrl \<Rightarrow> int \<Rightarrow> bool" where
  "run_inv M rp c W \<longleftrightarrow>
     reorder_rel sent c (W, map sent (pending c)) \<and> enable c \<and>
     M - uint (wsize_b c) < W \<and> W \<le> M + 1 \<and> (\<forall>f \<in> set (pending c). sent f \<le> M) \<and>
     sorted_wrt (<) (map sent (indicated rp)) \<and> (\<forall>f \<in> set (indicated rp). sent f < W)"

lemma reorder_rel_wsize: "reorder_rel cnt c WP \<Longrightarrow> 1 \<le> uint (wsize_b c) \<and> uint (wsize_b c) \<le> 255"
  using wsize_bounds by (auto simp: reorder_rel_def split: prod.splits)

lemma reorder_rel_inv: "reorder_rel cnt c WP \<Longrightarrow> a_inv (uint (wsize_b c)) WP"
  by (auto simp: reorder_rel_def split: prod.splits)

lemma reorder_rel_pending: "reorder_rel cnt c (W, P) \<Longrightarrow> map cnt (pending c) = P"
  by (simp add: reorder_rel_def)

text \<open>One received frame. Besides the invariant: what is indicated or pending afterwards, and
  that the window passes no counter that was not indicated, behind a full window.\<close>

lemma run_inv_rx:
  assumes inv: "run_inv M rp c W" and f: "displaced_ok (uint (wsize_b c)) M (Rx f # es)"
  shows "\<exists>r rp' c' W' new. recv_indicatepkt_reorder ok rp (Some c) f = (r, rp', Some c') \<and>
    run_inv (max M (sent f)) rp' c' W' \<and> wsize_b c' = wsize_b c \<and> W \<le> W' \<and>
    indicated rp' = indicated rp @ new \<and>
    mset new + mset (pending c') = (if r = RX_HANDLED then {#f#} else {#}) + mset (pending c) \<and>
    (r = RX_HANDLED \<or> sent f < W \<or> sent f \<in> sent ` set (pending c)) \<and>
    (\<forall>k. W \<le> k \<longrightarrow> k < W' \<longrightarrow> max M (sent f) - uint (wsize_b c) < k \<longrightarrow> k \<in> sent ` set new)"
proof -
  let ?w = "uint (wsize_b c)" and ?P = "map sent (pending c)"
  have rel: "reorder_rel sent c (W, ?P)" and en: "enable c" and M: "M - ?w < W" "W \<le> M + 1"
    and pM: "\<forall>f \<in> set (pending c). sent f \<le> M" and srt: "sorted_wrt (<) (map sent (indicated rp))"
    and ilt: "\<forall>f \<in> set (indicated rp). sent f < W"
    using inv by (auto simp: run_inv_def)
  have qos: "rf_qos f" and fr: "frep sent f" and d: "M - 2048 < sent f" "sent f + ?w \<le> M + 2048"
    using f by (auto simp: frep_def sn_rep_def)
  have wb: "1 \<le> ?w" "?w \<le> 255" using reorder_rel_wsize [OF rel] by auto
  have lohi: "W - 2048 \<le> sent f" "sent f < W + 2048" using M d by linarith+
  obtain r ds W' P' where a: "a_recv ?w (W, ?P) (sent f) = (r, ds, W', P')"
    by (cases "a_recv ?w (W, ?P) (sent f)") auto
  note facts = a_recv_facts [OF reorder_rel_inv [OF rel] wb(1) a]
  from reorder_step_refines [OF rel fr lohi en qos a, of ok rp] obtain rp' c' new where
    st: "recv_indicatepkt_reorder ok rp (Some c) f = (r, rp', Some c')"
    and rel': "reorder_rel sent c' (W', P')" and ind: "indicated rp' = indicated rp @ new"
    and new: "map sent new = ds" and ms: "mset new + mset (pending c') =
      (if r = RX_HANDLED then {#f#} else {#}) + mset (pending c)"
    and c': "enable c'" "wsize_b c' = wsize_b c" by blast
  have P': "P' = map sent (pending c')" using reorder_rel_pending [OF rel'] by simp
  have dsP: "set ds \<union> set P' \<subseteq> insert (sent f) (set ?P)"
    using facts(5,6,7) by (cases "r = RX_HANDLED") auto
  have le: "x \<le> max M (sent f)" if "x \<in> set ds \<union> set P'" for x
    using that dsP pM by fastforce
  have fail: "r \<noteq> RX_HANDLED \<Longrightarrow> sent f \<le> M \<and> W' = W"
    using facts(5,7) M(2) pM by fastforce
  have up: "W' \<le> max M (sent f) + 1"
    using facts(9) M(2) le [of "W' - 1"] by auto
  have lo: "max M (sent f) - ?w < W'"
    using facts(2,8) M(1) fail by (cases "r = RX_HANDLED") auto
  have "sorted_wrt (<) (map sent (indicated rp @ new))"
    using srt facts(3,4) ilt new by (fastforce simp: sorted_wrt_append)
  moreover have "\<forall>g \<in> set (indicated rp @ new). sent g < W'"
    using ilt facts(2,4) new by fastforce
  ultimately have "run_inv (max M (sent f)) rp' c' W'"
    using rel' c' up lo le P' ind by (auto simp: run_inv_def)
  moreover have "k \<in> sent ` set new" if "W \<le> k" "k < W'" "max M (sent f) - ?w < k" for k
  proof -
    have "k \<in> set (map sent new)" using facts(10) [of k] that unfolding new by simp
    then show ?thesis by simp
  qed
  moreover have "r = RX_HANDLED \<or> sent f < W \<or> sent f \<in> sent ` set (pending c)"
    using facts(5,7) by auto
  ultimately show ?thesis
    using st ind ms c'(2) facts(2)
    by (intro exI [of _ r] exI [of _ rp'] exI [of _ c'] exI [of _ W'] exI [of _ new] conjI) simp_all
qed

lemma run_inv_expire:
  assumes inv: "run_inv M rp c W"
  shows "\<exists>rp' c' W' new. rtw_reordering_ctrl_timeout_handler ok False rp c = (rp', c') \<and>
    run_inv M rp' c' W' \<and> wsize_b c' = wsize_b c \<and> indicated rp' = indicated rp @ new \<and>
    new @ pending c' = pending c"
proof -
  let ?w = "uint (wsize_b c)" and ?P = "map sent (pending c)"
  have rel: "reorder_rel sent c (W, ?P)" and en: "enable c" and M: "M - ?w < W" "W \<le> M + 1"
    and pM: "\<forall>f \<in> set (pending c). sent f \<le> M" and srt: "sorted_wrt (<) (map sent (indicated rp))"
    and ilt: "\<forall>f \<in> set (indicated rp). sent f < W"
    using inv by (auto simp: run_inv_def)
  have wb: "1 \<le> ?w" using reorder_rel_wsize [OF rel] by auto
  obtain ds W' P' where a: "a_timeout (W, ?P) = (ds, W', P')"
    by (cases "a_timeout (W, ?P)") auto
  note facts = a_timeout_facts [OF reorder_rel_inv [OF rel] wb a]
  from reorder_timeout_refines [OF rel a, of ok rp] obtain rp' c' new where
    st: "rtw_reordering_ctrl_timeout_handler ok False rp c = (rp', c')"
    and rel': "reorder_rel sent c' (W', P')" and ind: "indicated rp' = indicated rp @ new"
    and new: "map sent new = ds" and q: "new @ pending c' = pending c"
    and c': "enable c' = enable c" "wsize_b c' = wsize_b c" by blast
  have P': "P' = map sent (pending c')" using reorder_rel_pending [OF rel'] by simp
  have "x \<in> set ?P \<Longrightarrow> x \<le> M" for x using pM by auto
  then have up: "W' \<le> M + 1" using facts(7) M(2) by force
  have pM': "\<forall>f \<in> set (pending c'). sent f \<le> M" using pM by (simp flip: q)
  have "sorted_wrt (<) (map sent (indicated rp @ new))"
    using srt facts(3,4) ilt new by (fastforce simp: sorted_wrt_append)
  moreover have "\<forall>g \<in> set (indicated rp @ new). sent g < W'"
    using ilt facts(2,4) new by fastforce
  ultimately have "run_inv M rp' c' W'"
    using rel' c' en up M(1) facts(2) P' ind pM' by (auto simp: run_inv_def)
  with st c'(2) ind q show ?thesis by blast
qed

lemma reorder_run_inv:
  assumes "run_inv M rp c W" and "displaced_ok (uint (wsize_b c)) M es"
    and "reorder_run ok (rp, c) es = (rp', c')"
  shows "\<exists>M' W'. run_inv M' rp' c' W' \<and>
    mset (indicated rp') + mset (pending c') \<subseteq># mset (indicated rp) + mset (pending c) + mset (arrivals es)"
  using assms
proof (induction es arbitrary: M rp c W)
  case Nil
  then show ?case by auto
next
  case (Cons e es)
  show ?case
  proof (cases e)
    case (Rx f)
    from run_inv_rx [OF Cons.prems(1) Cons.prems(2) [unfolded Rx], of ok] obtain r rp1 c1 W1 new where
      st: "recv_indicatepkt_reorder ok rp (Some c) f = (r, rp1, Some c1)"
      and inv1: "run_inv (max M (sent f)) rp1 c1 W1" and w: "wsize_b c1 = wsize_b c"
      and ind: "indicated rp1 = indicated rp @ new" and ms: "mset new + mset (pending c1) =
        (if r = RX_HANDLED then {#f#} else {#}) + mset (pending c)" by blast
    have "displaced_ok (uint (wsize_b c1)) (max M (sent f)) es"
      using Cons.prems(2) by (simp add: Rx w)
    moreover have "reorder_run ok (rp1, c1) es = (rp', c')"
      using Cons.prems(3) st by (simp add: Rx)
    ultimately obtain M' W' where "run_inv M' rp' c' W'" and
      sub: "mset (indicated rp') + mset (pending c') \<subseteq>#
        mset (indicated rp1) + mset (pending c1) + mset (arrivals es)"
      using Cons.IH [OF inv1] by blast
    moreover have "mset (indicated rp1) + mset (pending c1) \<subseteq>#
        mset (indicated rp) + mset (pending c) + {#f#}"
      using ms by (simp add: ind add.assoc)
    ultimately show ?thesis
      using subset_mset.order_trans [OF sub] by (auto simp: Rx intro: subset_mset.add_right_mono)
  next
    case Expire
    from run_inv_expire [OF Cons.prems(1), of ok] obtain rp1 c1 W1 new where
      st: "rtw_reordering_ctrl_timeout_handler ok False rp c = (rp1, c1)"
      and inv1: "run_inv M rp1 c1 W1" and w: "wsize_b c1 = wsize_b c"
      and ind: "indicated rp1 = indicated rp @ new" and q: "new @ pending c1 = pending c" by blast
    have "reorder_run ok (rp1, c1) es = (rp', c')" using Cons.prems(3) st by (simp add: Expire)
    with Cons.IH [OF inv1] Cons.prems(2) have "\<exists>M' W'. run_inv M' rp' c' W' \<and>
        mset (indicated rp') + mset (pending c') \<subseteq>#
        mset (indicated rp1) + mset (pending c1) + mset (arrivals es)"
      by (simp add: Expire w)
    moreover have "mset (indicated rp1) + mset (pending c1) = mset (indicated rp) + mset (pending c)"
      by (simp add: ind add.assoc flip: q)
    ultimately show ?thesis by (simp add: Expire)
  qed
qed

text \<open>The first frame: the control block is in its reset state, with the window start 0xFFFF and
  nothing pending. The window start becomes the frame's number.\<close>

definition reorder_reset :: "reorder_ctrl \<Rightarrow> bool" where
  "reorder_reset c \<longleftrightarrow> enable c \<and> indicate_seq c = 0xFFFF \<and> pending c = [] \<and> 0 < wsize_b c"

lemma reorder_first:
  assumes "indicate_seq c = 0xFFFF" and "rf_seq_num f \<noteq> 0xFFFF" and "enable c" and "rf_qos f"
  shows "recv_indicatepkt_reorder ok rp (Some c) f =
    recv_indicatepkt_reorder ok rp (Some (c\<lparr>indicate_seq := rf_seq_num f\<rparr>)) f"
  using assms sn.less_irrefl [of "rf_seq_num f"]
  by (simp add: recv_indicatepkt_reorder_def check_indicate_seq_def SN_EQUAL_def)

lemma run_inv_first:
  assumes c: "reorder_reset c" and f: "uint (rf_seq_num f) = sent f mod 4096" and "indicated rp = []"
  shows "run_inv (sent f) rp (c\<lparr>indicate_seq := rf_seq_num f\<rparr>) (sent f)"
  using assms wsize_bounds [of "wsize_b c"]
  by (auto simp: reorder_reset_def run_inv_def reorder_rel_def a_inv_def sn_rep_def)

lemma reorder_run_first:
  assumes c: "reorder_reset c" and f: "uint (rf_seq_num f) = sent f mod 4096" "rf_qos f"
  shows "reorder_run ok (rp, c) (Rx f # es) =
    reorder_run ok (rp, c\<lparr>indicate_seq := rf_seq_num f\<rparr>) (Rx f # es)"
proof -
  have "rf_seq_num f \<noteq> 0xFFFF"
  proof
    assume "rf_seq_num f = 0xFFFF"
    with f(1) have "(65535 :: int) = sent f mod 4096" by simp
    then show False using pos_mod_bound [of 4096 "sent f"] by simp
  qed
  then have st: "recv_indicatepkt_reorder ok rp (Some c) f =
      recv_indicatepkt_reorder ok rp (Some (c\<lparr>indicate_seq := rf_seq_num f\<rparr>)) f"
    using c f(2) by (intro reorder_first) (auto simp: reorder_reset_def)
  have "\<exists>r rp' c'. recv_indicatepkt_reorder ok rp (Some d) f = (r, rp', Some c')" for d
    by (auto simp: recv_indicatepkt_reorder_def split: prod.splits if_splits)
  then obtain r rp' c' where r: "recv_indicatepkt_reorder ok rp (Some c) f = (r, rp', Some c')" by blast
  have "recv_indicatepkt_reorder ok rp (Some (c\<lparr>indicate_seq := rf_seq_num f\<rparr>)) f = (r, rp', Some c')"
    using st r by simp
  with r show ?thesis by simp
qed

text \<open>Frames inside the window: none is older than the first frame \<open>B\<close> or than a full window
  behind the largest counter, and the timer does not fire.\<close>

fun in_window :: "int \<Rightarrow> int \<Rightarrow> int \<Rightarrow> rx_event list \<Rightarrow> bool" where
  "in_window w B M [] = True"
| "in_window w B M (Rx f # es) =
     (rf_qos f \<and> uint (rf_seq_num f) = sent f mod 4096 \<and> B \<le> sent f \<and> M - w < sent f \<and>
      sent f + w \<le> M + 2048 \<and> in_window w B (max M (sent f)) es)"
| "in_window w B M (Expire # es) = False"

lemma in_window_displaced: "in_window w B M es \<Longrightarrow> w \<le> 2048 \<Longrightarrow> displaced_ok w M es"
  by (induction w B M es rule: in_window.induct) auto

definition covered :: "int \<Rightarrow> int \<Rightarrow> int \<Rightarrow> rx_frame set \<Rightarrow> bool" where
  "covered B lo W S \<longleftrightarrow> (\<forall>k. B \<le> k \<longrightarrow> lo < k \<longrightarrow> k < W \<longrightarrow> k \<in> sent ` S)"

lemma reorder_run_complete:
  assumes "run_inv M rp c W" and "in_window (uint (wsize_b c)) B M es"
    and "covered B (M - uint (wsize_b c)) W (set (indicated rp))"
    and "reorder_run ok (rp, c) es = (rp', c')"
  shows "sent ` (set (indicated rp) \<union> set (pending c) \<union> set (arrivals es)) \<subseteq>
    sent ` (set (indicated rp') \<union> set (pending c'))"
  using assms
proof (induction es arbitrary: M rp c W)
  case Nil
  then show ?case by auto
next
  case (Cons e es)
  let ?w = "uint (wsize_b c)"
  obtain f where e: "e = Rx f" using Cons.prems(2) by (cases e) auto
  have "reorder_rel sent c (W, map sent (pending c))" using Cons.prems(1) by (simp add: run_inv_def)
  then have wb: "?w \<le> 2048" using reorder_rel_wsize [of sent c] by fastforce
  have f: "B \<le> sent f" "M - ?w < sent f" using Cons.prems(2) by (auto simp: e)
  from run_inv_rx [OF Cons.prems(1) in_window_displaced [OF Cons.prems(2) wb, unfolded e], of ok]
  obtain r rp1 c1 W1 new where
    st: "recv_indicatepkt_reorder ok rp (Some c) f = (r, rp1, Some c1)"
    and inv1: "run_inv (max M (sent f)) rp1 c1 W1" and w: "wsize_b c1 = wsize_b c"
    and ind: "indicated rp1 = indicated rp @ new" and ms: "mset new + mset (pending c1) =
      (if r = RX_HANDLED then {#f#} else {#}) + mset (pending c)"
    and cs: "r = RX_HANDLED \<or> sent f < W \<or> sent f \<in> sent ` set (pending c)"
    and gap: "\<forall>k. W \<le> k \<longrightarrow> k < W1 \<longrightarrow> max M (sent f) - ?w < k \<longrightarrow> k \<in> sent ` set new" by blast
  have sets: "set new \<union> set (pending c1) = (if r = RX_HANDLED then {f} else {}) \<union> set (pending c)"
    using arg_cong [OF ms, of set_mset] by (simp split: if_splits)
  have cov: "covered B (max M (sent f) - uint (wsize_b c1)) W1 (set (indicated rp1))"
    unfolding covered_def
  proof (intro allI impI)
    fix k assume k: "B \<le> k" "max M (sent f) - uint (wsize_b c1) < k" "k < W1"
    show "k \<in> sent ` set (indicated rp1)"
    proof (cases "k < W")
      case True
      then show ?thesis using Cons.prems(3) k by (auto simp: covered_def ind w)
    next
      case False
      then have "W \<le> k" by simp
      with gap k w have "k \<in> sent ` set new" by simp
      then show ?thesis by (auto simp: ind)
    qed
  qed
  have "in_window (uint (wsize_b c1)) B (max M (sent f)) es"
    using Cons.prems(2) by (simp add: e w)
  moreover have "reorder_run ok (rp1, c1) es = (rp', c')"
    using Cons.prems(4) st by (simp add: e)
  ultimately have IH: "sent ` (set (indicated rp1) \<union> set (pending c1) \<union> set (arrivals es)) \<subseteq>
      sent ` (set (indicated rp') \<union> set (pending c'))"
    using Cons.IH [OF inv1 _ cov] by blast
  have "sent f < W \<Longrightarrow> sent f \<in> sent ` set (indicated rp)"
    using Cons.prems(3) f by (auto simp: covered_def)
  then have "sent f \<in> sent ` (set (indicated rp1) \<union> set (pending c1))"
    using cs sets by (auto simp: ind split: if_splits)
  moreover have "set (indicated rp) \<union> set (pending c) \<subseteq> set (indicated rp1) \<union> set (pending c1)"
    using sets by (auto simp: ind split: if_splits)
  ultimately have "sent ` (set (indicated rp) \<union> set (pending c) \<union> set (arrivals (e # es))) \<subseteq>
      sent ` (set (indicated rp1) \<union> set (pending c1) \<union> set (arrivals es))"
    by (auto simp: e)
  with IH show ?case by blast
qed

section \<open>Events from the peer\<close>

text \<open>The control blocks of a station, one per TID. A BlockAckReq frame sets the window start
  without looking at the frames that are held (core/rtw_wlan_util.c). The response to an ADDBA
  request resets the start (core/rtw_mlme_ext.c); \<open>status\<close> 0 accepts the request, 37 rejects it.
  The transmission of the response does not touch the window.\<close>

definition rtw_process_bar_frame ::
  "(nat \<Rightarrow> reorder_ctrl) option \<Rightarrow> u8 list \<Rightarrow> (nat \<Rightarrow> reorder_ctrl) option cres" where
  "rtw_process_bar_frame psta pframe =
     (case psta of None \<Rightarrow> Inr None
      | Some ctrl \<Rightarrow>
        bindc (rd pframe 16) (\<lambda>t0. bindc (rd pframe 17) (\<lambda>t1.
        bindc (rd pframe 18) (\<lambda>s0. bindc (rd pframe 19) (\<lambda>s1.
          let tid = unat (drop_bit 12 (get_le16 t0 t1 AND 0xf000));
              start_seq = drop_bit 4 (get_le16 s0 s1)
          in Inr (Some (ctrl(tid := (ctrl tid)\<lparr>indicate_seq := start_seq\<rparr>))))))))"

definition add_ba_rsp_hdl ::
  "(nat \<Rightarrow> reorder_ctrl) option \<Rightarrow> nat \<Rightarrow> u8 \<Rightarrow> u8 \<Rightarrow> (nat \<Rightarrow> reorder_ctrl) option" where
  "add_ba_rsp_hdl psta tid status sz =
     map_option (\<lambda>ctrl.
       let c = (ctrl tid)\<lparr>indicate_seq := 0xffff\<rparr>;
           c = (if status = 0 then c\<lparr>enable := True, ampdu_size := sz\<rparr>
                else if status = 37 then c\<lparr>enable := False\<rparr> else c)
       in ctrl(tid := c)) psta"

section \<open>What the reordering promises\<close>

lemma indicate_loop_progress:
  "indicate_loop ok rp i q = (left, rp', i', q') \<Longrightarrow>
   \<exists>new. indicated rp' = indicated rp @ new \<and> new @ q' = q \<and> left = (q' \<noteq> []) \<and>
     (\<forall>g gs. q = g # gs \<longrightarrow> \<not> SN_LESS i (rf_seq_num g) \<longrightarrow> new \<noteq> [])"
proof (induction ok rp i q arbitrary: left rp' i' q' rule: indicate_loop.induct)
  case (2 ok rp i g q)
  show ?case
  proof (cases "SN_LESS i (rf_seq_num g)")
    case True
    with "2.prems" show ?thesis by auto
  next
    case False
    from "2.IH" [OF _ refl refl] False "2.prems" obtain new where
      "indicated rp' = indicated rp @ g # new" "new @ q' = q" "left = (q' \<noteq> [])"
      by (fastforce simp: Let_def)
    then show ?thesis by (intro exI [of _ "g # new"]) simp
  qed
qed auto

text \<open>A timer expiry with frames held: the window start becomes the number of the first one and
  the indication loop runs.\<close>

definition forced_rp :: "recv_priv \<Rightarrow> reorder_ctrl \<Rightarrow> rx_frame \<Rightarrow> recv_priv" where
  "forced_rp rp c f = recv_indicatepkts_pkt_loss_cnt
     (rp\<lparr>dbg_rx_ampdu_forced_indicate_count := dbg_rx_ampdu_forced_indicate_count rp + 1\<rparr>)
     (ucast (indicate_seq c)) (ucast (rf_seq_num f))"

lemma forced_rp_indicated [simp]: "indicated (forced_rp rp c f) = indicated rp"
  by (simp add: forced_rp_def recv_indicatepkts_pkt_loss_cnt_def Let_def)

lemma timeout_forced:
  assumes "pending c = f # fs"
    and "indicate_loop ok (forced_rp rp c f) (rf_seq_num f) (f # fs) = (left, rp1, i1, q1)"
  shows "rtw_reordering_ctrl_timeout_handler ok False rp c =
    (rp1, c\<lparr>indicate_seq := i1, pending := q1, bReorderWaiting := False, timer_set := left\<rparr>)"
  using assms unfolding rtw_reordering_ctrl_timeout_handler_def recv_indicatepkts_in_order_def
    forced_rp_def Let_def
  by (cases left) (simp_all del: indicate_loop.simps)

lemma timeout_progress:
  assumes "rtw_reordering_ctrl_timeout_handler ok False rp c = (rp', c')"
  shows "\<exists>new. indicated rp' = indicated rp @ new \<and> new @ pending c' = pending c \<and>
    (pending c \<noteq> [] \<longrightarrow> new \<noteq> [])"
proof (cases "pending c")
  case Nil
  with assms show ?thesis
    by (auto simp: rtw_reordering_ctrl_timeout_handler_def recv_indicatepkts_in_order_def Let_def)
next
  case (Cons f fs)
  obtain left rp1 i1 q1 where
    lp: "indicate_loop ok (forced_rp rp c f) (rf_seq_num f) (f # fs) = (left, rp1, i1, q1)"
    using prod_cases4 by blast
  from timeout_forced [OF Cons lp] assms have "rp' = rp1" "pending c' = q1" by auto
  with indicate_loop_progress [OF lp] sn.less_irrefl [of "rf_seq_num f"] Cons show ?thesis by auto
qed

lemma expire_flushes:
  "length (pending c) \<le> n \<Longrightarrow> reorder_run ok (rp, c) (replicate n Expire) = (rp', c') \<Longrightarrow>
   pending c' = [] \<and> indicated rp' = indicated rp @ pending c"
proof (induction n arbitrary: rp c)
  case 0
  then show ?case by simp
next
  case (Suc n)
  obtain rp1 c1 where st: "rtw_reordering_ctrl_timeout_handler ok False rp c = (rp1, c1)" by fastforce
  from timeout_progress [OF st] obtain new where n: "indicated rp1 = indicated rp @ new"
    "new @ pending c1 = pending c" "pending c \<noteq> [] \<longrightarrow> new \<noteq> []" by blast
  have "length (pending c1) \<le> n"
    using arg_cong [OF n(2), of length] n(3) Suc.prems(1) by (cases new) auto
  with Suc.IH [of c1 rp1] Suc.prems(2) st n show ?case by simp
qed

text \<open>C1: Receiving one frame refines the abstract window on unbounded counters: when the frame's
  counter is less than half the 12-bit number space away from the window start, the result, the
  frames indicated, the new start and the new pending queue are those of \<open>a_recv\<close>, and no frame
  is lost or duplicated in the step.\<close>

theorem recv_indicatepkt_reorder_refines:
  assumes "reorder_rel cnt c (W, P)" and "frep cnt f" and "\<bar>cnt f - W\<bar> < 2048"
    and "enable c" and "rf_qos f"
    and "a_recv (uint (wsize_b c)) (W, P) (cnt f) = (r, ds, W', P')"
  shows "\<exists>rp' c' new. recv_indicatepkt_reorder ok rp (Some c) f = (r, rp', Some c') \<and>
    reorder_rel cnt c' (W', P') \<and> indicated rp' = indicated rp @ new \<and> map cnt new = ds \<and>
    mset new + mset (pending c') = (if r = RX_HANDLED then {#f#} else {#}) + mset (pending c)"
proof -
  have "W - 2048 \<le> cnt f" "cnt f < W + 2048" using assms(3) by linarith+
  from reorder_step_refines [OF assms(1,2) this assms(4,5,6), of ok rp] show ?thesis by blast
qed

definition ex_rp :: recv_priv where
  "ex_rp = \<lparr>rx_drop = 0, dbg_rx_drop_count = 0, dbg_rx_ampdu_drop_count = 0,
     dbg_rx_ampdu_forced_indicate_count = 0, dbg_rx_ampdu_loss_count = 0,
     dbg_rx_ampdu_window_shift_cnt = 0, indicated = []\<rparr>"

definition ex_ctrl :: reorder_ctrl where
  "ex_ctrl = \<lparr>enable = True, indicate_seq = 0xFFFF, wsize_b = 64, ampdu_size = 64, pending = [],
     bReorderWaiting = False, timer_set = False\<rparr>"

definition ex_frame :: "nat \<Rightarrow> rx_frame" where
  "ex_frame n = \<lparr>rf_seq_num = of_nat (n mod 4096), rf_qos = True, rf_tag = n\<rparr>"

theorem recv_indicatepkt_reorder_refines_witness:
  "\<exists>rp' c' new. recv_indicatepkt_reorder (\<lambda>_. True) ex_rp
      (Some (ex_ctrl\<lparr>indicate_seq := 4095, pending := [ex_frame 4096]\<rparr>)) (ex_frame 4095) =
      (RX_HANDLED, rp', Some c') \<and> reorder_rel sent c' (4097, []) \<and>
    indicated rp' = indicated ex_rp @ new \<and> map sent new = [4095, 4096] \<and>
    mset new + mset (pending c') = {#ex_frame 4095#} +
      mset (pending (ex_ctrl\<lparr>indicate_seq := 4095, pending := [ex_frame 4096]\<rparr>))"
proof -
  let ?c = "ex_ctrl\<lparr>indicate_seq := 4095, pending := [ex_frame 4096]\<rparr>"
  note defs = reorder_rel_def a_inv_def sn_rep_def frep_def ex_ctrl_def ex_frame_def sent_def
  have "reorder_rel sent ?c (4095, [4096])" "frep sent (ex_frame 4095)"
    "\<bar>sent (ex_frame 4095) - 4095\<bar> < 2048" "enable ?c" "rf_qos (ex_frame 4095)"
    by (simp_all add: defs)
  moreover have "a_recv (uint (wsize_b ?c)) (4095, [4096]) (sent (ex_frame 4095)) =
      (RX_HANDLED, [4095, 4096], 4097, [])"
    by (simp add: a_recv_def a_shift_def defs)
  ultimately show ?thesis
    using recv_indicatepkt_reorder_refines [of sent ?c 4095 "[4096]" "ex_frame 4095" RX_HANDLED
        "[4095, 4096]" 4097 "[]" "\<lambda>_. True" ex_rp] by (simp only: if_True simp_thms)
qed

text \<open>C2: A stream on a fresh control block, in any order with each frame less than half the
  number space from the largest counter before it, and with timer expiries anywhere: the frames
  are indicated in strictly increasing order of their counters, and none is indicated twice or
  both indicated and held.\<close>

theorem reorder_in_order:
  assumes "reorder_reset c" and "indicated rp = []"
    and "displaced_ok (uint (wsize_b c)) (sent f) (Rx f # es)"
    and "reorder_run ok (rp, c) (Rx f # es) = (rp', c')"
  shows "sorted_wrt (<) (map sent (indicated rp')) \<and>
    mset (indicated rp') + mset (pending c') \<subseteq># mset (arrivals (Rx f # es))"
proof -
  let ?c = "c\<lparr>indicate_seq := rf_seq_num f\<rparr>"
  have f: "uint (rf_seq_num f) = sent f mod 4096" "rf_qos f" using assms(3) by auto
  have "reorder_run ok (rp, ?c) (Rx f # es) = (rp', c')"
    using reorder_run_first [OF assms(1) f] assms(4) by simp
  moreover have "displaced_ok (uint (wsize_b ?c)) (sent f) (Rx f # es)" using assms(3) by simp
  ultimately obtain M' W' where "run_inv M' rp' c' W'"
    and "mset (indicated rp') + mset (pending c') \<subseteq>#
      mset (indicated rp) + mset (pending ?c) + mset (arrivals (Rx f # es))"
    using reorder_run_inv [OF run_inv_first [OF assms(1) f(1) assms(2)]] by blast
  then show ?thesis using assms(1,2) by (auto simp: run_inv_def reorder_reset_def)
qed

theorem reorder_in_order_witness:
  "sorted_wrt (<) (map sent (indicated (fst (reorder_run (\<lambda>_. True) (ex_rp, ex_ctrl)
     [Rx (ex_frame 4094), Rx (ex_frame 4097), Expire, Rx (ex_frame 4095)]))))"
  using reorder_in_order [of ex_ctrl ex_rp "ex_frame 4094" "[Rx (ex_frame 4097), Expire, Rx (ex_frame 4095)]"
      "\<lambda>_. True"]
  by (cases "reorder_run (\<lambda>_. True) (ex_rp, ex_ctrl)
       [Rx (ex_frame 4094), Rx (ex_frame 4097), Expire, Rx (ex_frame 4095)]")
    (simp add: ex_rp_def ex_ctrl_def ex_frame_def sent_def reorder_reset_def del: reorder_run.simps)

text \<open>C3: No loss inside the window: when no frame is older than the first one or a full window
  behind the largest counter before it, and the timer does not fire, every counter that arrived
  has been indicated or is held in the pending queue.\<close>

theorem reorder_no_loss:
  assumes "reorder_reset c" and "indicated rp = []"
    and "in_window (uint (wsize_b c)) (sent f) (sent f) (Rx f # es)"
    and "reorder_run ok (rp, c) (Rx f # es) = (rp', c')"
  shows "sent ` set (arrivals (Rx f # es)) = sent ` (set (indicated rp') \<union> set (pending c'))"
proof -
  let ?c = "c\<lparr>indicate_seq := rf_seq_num f\<rparr>"
  have f: "uint (rf_seq_num f) = sent f mod 4096" "rf_qos f" using assms(3) by auto
  have run: "reorder_run ok (rp, ?c) (Rx f # es) = (rp', c')"
    using reorder_run_first [OF assms(1) f] assms(4) by simp
  note inv = run_inv_first [OF assms(1) f(1) assms(2)]
  have w: "in_window (uint (wsize_b ?c)) (sent f) (sent f) (Rx f # es)" using assms(3) by simp
  have "uint (wsize_b c) \<le> 2048"
    using assms(1) wsize_bounds [of "wsize_b c"] by (auto simp: reorder_reset_def)
  then have d: "displaced_ok (uint (wsize_b ?c)) (sent f) (Rx f # es)"
    using in_window_displaced [OF w] by simp
  have nil: "pending ?c = []" using assms(1) by (simp add: reorder_reset_def)
  have "sent ` set (arrivals (Rx f # es)) \<subseteq> sent ` (set (indicated rp') \<union> set (pending c'))"
    using reorder_run_complete [OF inv w _ run] assms(2) nil by (auto simp: covered_def)
  moreover have "mset (indicated rp') + mset (pending c') \<subseteq># mset (arrivals (Rx f # es))"
    using reorder_run_inv [OF inv d run] assms(2) nil by auto
  then have "set (indicated rp') \<union> set (pending c') \<subseteq> set (arrivals (Rx f # es))"
    using set_mset_mono by fastforce
  ultimately show ?thesis by blast
qed

theorem reorder_no_loss_witness:
  "let (rp', c') = reorder_run (\<lambda>_. True) (ex_rp, ex_ctrl)
     [Rx (ex_frame 4094), Rx (ex_frame 4097), Rx (ex_frame 4095)]
   in {4094, 4097, 4095} = sent ` (set (indicated rp') \<union> set (pending c'))"
  using reorder_no_loss [of ex_ctrl ex_rp "ex_frame 4094" "[Rx (ex_frame 4097), Rx (ex_frame 4095)]"
      "\<lambda>_. True"]
  by (cases "reorder_run (\<lambda>_. True) (ex_rp, ex_ctrl)
       [Rx (ex_frame 4094), Rx (ex_frame 4097), Rx (ex_frame 4095)]")
    (simp add: ex_rp_def ex_ctrl_def ex_frame_def sent_def reorder_reset_def del: reorder_run.simps)

text \<open>C4: The reorder timer makes progress from every state: as many expiries as frames are held
  release all of them, in the order of the pending queue.\<close>

theorem reorder_expire_flushes:
  "(case reorder_run ok (rp, c) (replicate (length (pending c)) Expire) of
      (rp', c') \<Rightarrow> pending c' = [] \<and> indicated rp' = indicated rp @ pending c)"
  using expire_flushes [where n = "length (pending c)" and c = c] by (auto split: prod.split)

text \<open>An ADDBA response resets the window start to 0xFFFF and keeps the frames that are held.
  If the timer then fires, the loss statistic takes 0xFFFF for a sequence number: instead of
  counting lost frames, it lowers the 64-bit drop counters by 61439 less the number of the
  first held frame.\<close>

theorem addba_reset_loss_count:
  assumes "pending (ctrl tid) = f # fs" and "uint (rf_seq_num f) < 4096"
    and "add_ba_rsp_hdl (Some ctrl) tid status sz = Some ctrl'"
    and "rtw_reordering_ctrl_timeout_handler ok False rp (ctrl' tid) = (rp', c')"
  shows "rx_drop rp' = rx_drop rp - (61439 - ucast (rf_seq_num f)) \<and>
    pending (ctrl' tid) = f # fs"
proof -
  have c: "pending (ctrl' tid) = f # fs" "indicate_seq (ctrl' tid) = 0xFFFF"
    using assms(1,3) by (auto simp: add_ba_rsp_hdl_def Let_def)
  have drop: "rx_drop (fst (snd (indicate_loop ok rp i q))) = rx_drop rp" for rp i q
    by (induction ok rp i q rule: indicate_loop.induct) (auto simp: Let_def)
  obtain left rp1 i1 q1 where lp: "indicate_loop ok (forced_rp rp (ctrl' tid) f) (rf_seq_num f) (f # fs) =
      (left, rp1, i1, q1)"
    using prod_cases4 by blast
  from timeout_forced [OF c(1) lp] assms(4) have "rp' = rp1" by auto
  then have "rx_drop rp' = rx_drop (forced_rp rp (ctrl' tid) f)"
    using drop [of "forced_rp rp (ctrl' tid) f" "rf_seq_num f" "f # fs"] lp by simp
  moreover have "(ucast (rf_seq_num f) :: u64) < 0xFFFF"
    using assms(2) by (simp add: word_less_def uint_up_ucast is_up)
  ultimately have "rx_drop rp' = rx_drop rp + (4096 + ucast (rf_seq_num f) - 0xFFFF)"
    using c(2) by (simp only: forced_rp_def recv_indicatepkts_pkt_loss_cnt_def Let_def) simp
  moreover have "x + (4096 + y - 0xFFFF) = x - (61439 - y)" for x y :: u64
    by simp
  ultimately show ?thesis using c(1) by simp
qed

theorem addba_reset_loss_count_witness:
  "\<exists>ctrl'. add_ba_rsp_hdl (Some (\<lambda>_. ex_ctrl\<lparr>indicate_seq := 6, pending := [ex_frame 7]\<rparr>)) 0 0 64 = Some ctrl' \<and>
    rx_drop (fst (rtw_reordering_ctrl_timeout_handler (\<lambda>_. True) False ex_rp (ctrl' 0))) = - 61432"
proof -
  let ?ctrl = "\<lambda>_ :: nat. ex_ctrl\<lparr>indicate_seq := 6, pending := [ex_frame 7]\<rparr>"
  obtain ctrl' where c: "add_ba_rsp_hdl (Some ?ctrl) 0 0 64 = Some ctrl'"
    by (simp add: add_ba_rsp_hdl_def)
  obtain rp' c' where "rtw_reordering_ctrl_timeout_handler (\<lambda>_. True) False ex_rp (ctrl' 0) = (rp', c')"
    by fastforce
  with addba_reset_loss_count [of ?ctrl 0 "ex_frame 7" "[]" 0 64 ctrl' "\<lambda>_. True" ex_rp rp' c'] c
  show ?thesis by (simp add: ex_frame_def ex_rp_def)
qed

end
