(* ===== verification/SwSec.thy ===== *)
theory SwSec
  imports Prelude
begin

text \<open>
  What the software ciphers of core/rtw_security.c share: the packet attributes and the key
  store they read, their packet counters, and the loop over the fragments of a transmit frame.
  The contract of a fragment cipher is stated here once, as a locale, and the loop is proved
  against it; WEP, TKIP and CCMP provide it.
\<close>

section \<open>State\<close>

record pkt_attrib =
  hdrlen :: nat
  last_txcmdsz :: nat
  nr_frags :: nat
  encrypt :: nat
  iv_len :: nat
  icv_len :: nat
  ra :: "u8 list"
  ta :: "u8 list"
  dot118021x_UncstKey :: "u8 list"

record rx_pkt_attrib =
  rx_hdrlen :: nat
  rx_encrypt :: nat
  rx_iv_len :: nat
  rx_ra :: "u8 list"
  rx_ta :: "u8 list"
  rx_key_index :: nat
  rx_len :: nat

text \<open>Packets seen with a broadcast, a multicast and a unicast receiver address.\<close>

record sec_cnt =
  cnt_bc :: u64
  cnt_mc :: u64
  cnt_uc :: u64

record security_priv =
  dot11PrivacyKeyIndex :: nat
  dot11DefKey :: "u8 list list"
  dot11DefKeylen :: "nat list"
  dot118021XGrpKeyid :: nat
  dot118021XGrpKey :: "u8 list list"
  binstallGrpkey :: bool
  busetkipkey :: bool
  hw_decrypted :: bool
  binstallBIPkey :: bool
  dot11wBIPKeyid :: nat
  dot11wBIPKey :: "u8 list list"
  dot11wBIPtxpn :: u64
  dot11wBIPrxpn :: u64
  wep_sw_enc_cnt :: sec_cnt
  wep_sw_dec_cnt :: sec_cnt
  tkip_sw_enc_cnt :: sec_cnt
  tkip_sw_dec_cnt :: sec_cnt
  aes_sw_enc_cnt :: sec_cnt
  aes_sw_dec_cnt :: sec_cnt

definition WEP40 :: nat where "WEP40 = 1"
definition TKIP :: nat where "TKIP = 2"
definition AES :: nat where "AES = 4"
definition WEP104 :: nat where "WEP104 = 5"

definition is_broadcast_mac_addr :: "u8 list \<Rightarrow> bool" where
  "is_broadcast_mac_addr addr \<longleftrightarrow> take 6 addr = replicate 6 0xff"

definition is_multicast_mac_addr :: "u8 list \<Rightarrow> bool" where
  "is_multicast_mac_addr addr \<longleftrightarrow> addr ! 0 \<noteq> 0xff \<and> 0x01 AND addr ! 0 \<noteq> 0"

definition IS_MCAST :: "u8 list \<Rightarrow> bool" where
  "IS_MCAST da \<longleftrightarrow> da ! 0 AND 0x01 \<noteq> 0"

definition sw_cnt_inc :: "u8 list \<Rightarrow> sec_cnt \<Rightarrow> sec_cnt" where
  "sw_cnt_inc addr cnt =
     (if is_broadcast_mac_addr addr then cnt\<lparr>cnt_bc := cnt_bc cnt + 1\<rparr>
      else if is_multicast_mac_addr addr then cnt\<lparr>cnt_mc := cnt_mc cnt + 1\<rparr>
      else cnt\<lparr>cnt_uc := cnt_uc cnt + 1\<rparr>)"

section \<open>Fragments of a transmit frame\<close>

text \<open>The frame lies at \<open>buf_addr\<close>, behind the descriptor. \<open>RND4\<close> rounds an address up.\<close>

definition TXDESC_OFFSET :: nat where "TXDESC_OFFSET = 48"

definition RND4 :: "nat \<Rightarrow> nat" where
  "RND4 x = (x div 4 + (if x mod 4 = 0 then 0 else 1)) * 4"

text \<open>The payload length of a fragment, computed with \<open>uint\<close> and read as \<open>sint\<close>.\<close>

definition frag_length :: "pkt_attrib \<Rightarrow> nat \<Rightarrow> int" where
  "frag_length at sz = sint32 (usub32 (usub32 (usub32 sz (hdrlen at)) (iv_len at)) (icv_len at))"

text \<open>\<open>frag_loop body at frag_len base n p mem\<close>: \<open>n\<close> fragments are left, the next is at offset
  \<open>p\<close> of the buffer \<open>mem\<close>, whose address is \<open>base\<close>. \<open>body\<close> encrypts one fragment.\<close>

fun frag_loop ::
  "(nat \<Rightarrow> int \<Rightarrow> u8 list \<Rightarrow> u8 list cres) \<Rightarrow> pkt_attrib \<Rightarrow> nat \<Rightarrow> nat \<Rightarrow> nat \<Rightarrow> nat \<Rightarrow> u8 list \<Rightarrow> u8 list cres" where
  "frag_loop body at frag_len base 0 p mem = Inr mem"
| "frag_loop body at frag_len base (Suc n) p mem =
     (if n = 0 then body p (frag_length at (last_txcmdsz at)) mem
      else bindc (body p (frag_length at frag_len) mem) (\<lambda>mem'.
        frag_loop body at frag_len base n (RND4 (base + p + frag_len) - base) mem'))"

text \<open>Where the fragments lie, and how many payload bytes each has.\<close>

fun frags :: "pkt_attrib \<Rightarrow> nat \<Rightarrow> nat \<Rightarrow> nat \<Rightarrow> nat \<Rightarrow> (nat \<times> nat) list" where
  "frags at frag_len base 0 p = []"
| "frags at frag_len base (Suc n) p =
     (if n = 0 then [(p, last_txcmdsz at - (hdrlen at + iv_len at + icv_len at))]
      else (p, frag_len - (hdrlen at + iv_len at + icv_len at)) #
        frags at frag_len base n (RND4 (base + p + frag_len) - base))"

lemma frags_numeral:
  "frags at fl base (numeral k) p =
     (if pred_numeral k = 0 then [(p, last_txcmdsz at - (hdrlen at + iv_len at + icv_len at))]
      else (p, fl - (hdrlen at + iv_len at + icv_len at)) #
        frags at fl base (pred_numeral k) (RND4 (base + p + fl) - base))"
  by (simp add: numeral_eq_Suc)

definition frag_sizes_ok :: "pkt_attrib \<Rightarrow> nat \<Rightarrow> bool" where
  "frag_sizes_ok at frag_len \<longleftrightarrow>
     hdrlen at + iv_len at + icv_len at \<le> frag_len \<and> frag_len < 2 ^ 31 \<and>
     hdrlen at + iv_len at + icv_len at \<le> last_txcmdsz at \<and> last_txcmdsz at < 2 ^ 31"

lemma frag_length_ok:
  "hdrlen at + iv_len at + icv_len at \<le> sz \<Longrightarrow> sz < 2 ^ 31 \<Longrightarrow>
   frag_length at sz = int (sz - (hdrlen at + iv_len at + icv_len at))"
  by (simp add: frag_length_def)

lemma RND4_ge: "x \<le> RND4 x"
  unfolding RND4_def by (cases "x mod 4 = 0") (auto simp: algebra_simps)

lemma frags_ge: "(q, n) \<in> set (frags at fl base k p) \<Longrightarrow> p \<le> q"
proof (induction k arbitrary: p)
  case (Suc k)
  have "p \<le> RND4 (base + p + fl) - base" using RND4_ge [of "base + p + fl"] by simp
  with Suc show ?case by (fastforce split: if_splits)
qed simp

abbreviation chunk :: "u8 list \<Rightarrow> nat \<Rightarrow> nat \<Rightarrow> u8 list" where
  "chunk mem p n \<equiv> take n (drop p mem)"

lemma chunk_take: "take q mem' = take q mem \<Longrightarrow> p + n \<le> q \<Longrightarrow> chunk mem' p n = chunk mem p n"
  using take_eq_mono [of q mem' mem "n + p"] by (simp add: take_drop add.commute)

lemma chunk_drop: "drop q mem' = drop q mem \<Longrightarrow> q \<le> p \<Longrightarrow> chunk mem' p n = chunk mem p n"
  using drop_eq_mono [of q mem' mem p] by simp

lemma chunk_add: "chunk mem p (a + b) = chunk mem p a @ chunk mem (p + a) b"
  by (simp add: take_add add.commute)

lemma frag_total:
  "frag_sizes_ok at fl \<Longrightarrow> (q, n) \<in> set (frags at fl base k p) \<Longrightarrow>
   hdrlen at + iv_len at + n + icv_len at < 2 ^ 31"
  by (induction k arbitrary: p) (auto simp: frag_sizes_ok_def split: if_splits)

text \<open>
  The contract: in an admissible context \<open>c\<close> (keys and attributes) and for a fragment at \<open>p\<close> whose
  header is admissible the body for \<open>n\<close> payload bytes replaces the payload and the \<open>tail c\<close> bytes behind it by
  \<open>sealed c hdr payload\<close>, where \<open>hdr\<close> are the \<open>hl c\<close> bytes in front of it, and touches nothing else.
\<close>

locale fragment_cipher =
  fixes ok :: "'c \<Rightarrow> bool"
    and hdr_ok :: "'c \<Rightarrow> u8 list \<Rightarrow> bool"
    and body :: "'c \<Rightarrow> nat \<Rightarrow> int \<Rightarrow> u8 list \<Rightarrow> u8 list cres"
    and hl :: "'c \<Rightarrow> nat"
    and tail :: "'c \<Rightarrow> nat"
    and sealed :: "'c \<Rightarrow> u8 list \<Rightarrow> u8 list \<Rightarrow> u8 list"
  assumes body_spec:
    "ok c \<Longrightarrow> hdr_ok c (chunk mem p (hl c)) \<Longrightarrow> p + hl c + n + tail c \<le> length mem \<Longrightarrow> n < 2 ^ 31 \<Longrightarrow>
     body c p (int n) mem = Inr (written mem (p + hl c) (sealed c (chunk mem p (hl c)) (chunk mem (p + hl c) n)))"
    and sealed_length: "ok c \<Longrightarrow> length (sealed c h xs) = length xs + tail c"
begin

lemma body_frame:
  assumes ok: "ok c" and "p + hl c + n + tail c \<le> length mem" and "n < 2 ^ 31" and "hdr_ok c (chunk mem p (hl c))"
  shows "\<exists>mem'. body c p (int n) mem = Inr mem' \<and> length mem' = length mem \<and> take p mem' = take p mem \<and>
    drop (p + hl c + n + tail c) mem' = drop (p + hl c + n + tail c) mem \<and>
    chunk mem' p (hl c + n + tail c) = chunk mem p (hl c) @ sealed c (chunk mem p (hl c)) (chunk mem (p + hl c) n)"
proof -
  let ?s = "sealed c (chunk mem p (hl c)) (chunk mem (p + hl c) n)"
  have len: "length ?s = n + tail c" using assms(2) by (simp add: sealed_length [OF ok])
  have fits: "p + hl c + length ?s \<le> length mem" using assms(2) len by simp
  let ?m = "written mem (p + hl c) ?s"
  have "take (p + hl c) ?m = take (p + hl c) mem" using fits by (rule written_take)
  moreover have "chunk ?m (p + hl c) (length ?s) = ?s"
    using written_holds [OF fits] by (rule holds_at_take)
  moreover have "chunk ?m p (hl c + n + tail c) = chunk ?m p (hl c) @ chunk ?m (p + hl c) (n + tail c)"
    using chunk_add [of "hl c" "n + tail c" p ?m] by (simp only: add.assoc)
  ultimately have "chunk ?m p (hl c + n + tail c) = chunk mem p (hl c) @ ?s"
    using chunk_take [of "p + hl c" ?m mem p "hl c"] len by simp
  moreover have "take p ?m = take p mem"
    using take_eq_mono [OF written_take [OF fits], of p] by simp
  ultimately show ?thesis
    using body_spec [OF ok assms(4,2,3)] fits len by (auto simp: written_drop)
qed

lemma frag_loop_seals:
  assumes ok: "ok c" and "frag_sizes_ok at fl" and "hl c = hdrlen at + iv_len at" and "tail c = icv_len at"
    and "\<forall>(q, n) \<in> set (frags at fl base k p). q + hl c + n + tail c \<le> length mem \<and> hdr_ok c (chunk mem q (hl c))"
  shows "\<exists>mem'. frag_loop (body c) at fl base k p mem = Inr mem' \<and> length mem' = length mem \<and>
    take p mem' = take p mem \<and>
    (\<forall>(q, n) \<in> set (frags at fl base k p).
       chunk mem' q (hl c + n + tail c) = chunk mem q (hl c) @ sealed c (chunk mem q (hl c)) (chunk mem (q + hl c) n))"
  using assms(5)
proof (induction k arbitrary: p mem)
  case 0
  then show ?case by simp
next
  case (Suc k)
  have sz: "hdrlen at + iv_len at + icv_len at \<le> fl" "fl < 2 ^ 31"
    "hdrlen at + iv_len at + icv_len at \<le> last_txcmdsz at" "last_txcmdsz at < 2 ^ 31"
    using assms(2) by (simp_all add: frag_sizes_ok_def)
  show ?case
  proof (cases "k = 0")
    case True
    let ?n = "last_txcmdsz at - (hdrlen at + iv_len at + icv_len at)"
    have "?n < 2 ^ 31" "p + hl c + ?n + tail c \<le> length mem" "hdr_ok c (chunk mem p (hl c))"
      using sz(4) Suc.prems True by simp_all
    from body_frame [OF ok this(2,1,3)] show ?thesis
      using True frag_length_ok [OF sz(3,4)] by auto
  next
    case False
    let ?n = "fl - (hdrlen at + iv_len at + icv_len at)" and ?p' = "RND4 (base + p + fl) - base"
    have n: "?n < 2 ^ 31" "p + hl c + ?n + tail c \<le> length mem" "hdr_ok c (chunk mem p (hl c))"
      using sz(2) Suc.prems False by simp_all
    from body_frame [OF ok this(2,1,3)] obtain m1 where m1: "body c p (int ?n) mem = Inr m1"
      "length m1 = length mem" "take p m1 = take p mem"
      "drop (p + hl c + ?n + tail c) m1 = drop (p + hl c + ?n + tail c) mem"
      "chunk m1 p (hl c + ?n + tail c) = chunk mem p (hl c) @ sealed c (chunk mem p (hl c)) (chunk mem (p + hl c) ?n)"
      by blast
    have e: "p + hl c + ?n + tail c = p + fl" using sz(1) assms(3,4) by simp
    have p': "p + fl \<le> ?p'" using RND4_ge [of "base + p + fl"] by simp
    have same: "chunk m1 q j = chunk mem q j" if "p + fl \<le> q" for q j
      using chunk_drop [OF m1(4) [unfolded e] that] .
    have "\<forall>(q, n) \<in> set (frags at fl base k ?p'). q + hl c + n + tail c \<le> length m1 \<and> hdr_ok c (chunk m1 q (hl c))"
      using Suc.prems False m1(2) frags_ge [of _ _ at fl base k ?p'] p' by (fastforce simp: same)
    from Suc.IH [OF this] obtain m2 where m2: "frag_loop (body c) at fl base k ?p' m1 = Inr m2"
      "length m2 = length m1" "take ?p' m2 = take ?p' m1"
      "\<forall>(q, n) \<in> set (frags at fl base k ?p').
         chunk m2 q (hl c + n + tail c) = chunk m1 q (hl c) @ sealed c (chunk m1 q (hl c)) (chunk m1 (q + hl c) n)"
      by blast
    have "chunk m2 p (hl c + ?n + tail c) = chunk m1 p (hl c + ?n + tail c)"
      using p' e by (intro chunk_take [OF m2(3)]) simp
    moreover have "chunk m2 q (hl c + n + tail c) = chunk mem q (hl c) @ sealed c (chunk mem q (hl c)) (chunk mem (q + hl c) n)"
      if "(q, n) \<in> set (frags at fl base k ?p')" for q n
      using bspec [OF m2(4) that] frags_ge [OF that] p' by (simp add: same)
    moreover have "take p m2 = take p mem"
      using take_eq_mono [OF m2(3), of p] p' m1(3) by simp
    ultimately show ?thesis
      using m1(1,2,5) m2(1,2) False frag_length_ok [OF sz(1,2)] by auto
  qed
qed

end

end
