(* ===== verification/Wep.thy ===== *)
theory Wep
  imports SwSec "HOL-Library.Multiset"
begin

text \<open>
  Software WEP (core/rtw_security.c): the RC4 stream cipher, the table-driven CRC-32 of the
  integrity check value, and the encryption and decryption of frames. Frames lie in a byte
  list; all routines work in place.
\<close>

section \<open>RC4\<close>

text \<open>The masked indices \<open>x\<close> and \<open>y\<close> are numbers below 256.\<close>

record arc4context =
  arc_x :: nat
  arc_y :: nat
  arc_state :: "u8 list"

fun arcfour_init_loop ::
  "nat \<Rightarrow> u8 list \<Rightarrow> nat \<Rightarrow> nat \<Rightarrow> nat \<Rightarrow> nat \<Rightarrow> u8 list \<Rightarrow> u8 list cres" where
  "arcfour_init_loop 0 key key_len counter keyindex stateindex state = Inr state"
| "arcfour_init_loop (Suc n) key key_len counter keyindex stateindex state =
     bindc (rd key keyindex) (\<lambda>k.
       let t = state ! counter;
           stateindex' = (stateindex + unat k + unat t) mod 256;
           u = state ! stateindex';
           keyindex' = (if Suc keyindex \<ge> key_len then 0 else Suc keyindex)
       in arcfour_init_loop n key key_len (Suc counter) keyindex' stateindex'
            (state[stateindex' := t, counter := u]))"

definition arcfour_init :: "u8 list \<Rightarrow> nat \<Rightarrow> arc4context cres" where
  "arcfour_init key key_len =
     bindc (arcfour_init_loop 256 key key_len 0 0 0 (map of_nat [0..<256])) (\<lambda>st.
     Inr \<lparr> arc_x = 0, arc_y = 0, arc_state = st \<rparr>)"

definition arcfour_byte :: "arc4context \<Rightarrow> u8 \<times> arc4context" where
  "arcfour_byte ctx =
     (let x = (arc_x ctx + 1) mod 256;
          sx = arc_state ctx ! x;
          y = (unat sx + arc_y ctx) mod 256;
          sy = arc_state ctx ! y;
          st = (arc_state ctx)[y := sx, x := sy]
      in (st ! ((unat sx + unat sy) mod 256), \<lparr> arc_x = x, arc_y = y, arc_state = st \<rparr>))"

fun arcfour_encrypt :: "arc4context \<Rightarrow> u8 list \<Rightarrow> u8 list \<times> arc4context" where
  "arcfour_encrypt ctx [] = ([], ctx)"
| "arcfour_encrypt ctx (s # src) =
     (let (b, ctx') = arcfour_byte ctx;
          (dest, ctx'') = arcfour_encrypt ctx' src
      in ((s XOR b) # dest, ctx''))"

subsection \<open>The state stays a permutation\<close>

definition arc_perm :: "u8 list \<Rightarrow> bool" where
  "arc_perm st \<longleftrightarrow> mset st = mset (map of_nat [0..<256])"

definition arc_ok :: "arc4context \<Rightarrow> bool" where
  "arc_ok ctx \<longleftrightarrow> arc_x ctx < 256 \<and> arc_y ctx < 256 \<and> arc_perm (arc_state ctx)"

lemma arc_perm_length: "arc_perm st \<Longrightarrow> length st = 256"
  unfolding arc_perm_def by (metis diff_zero length_map length_upt size_mset)

lemma arc_perm_swap:
  assumes "arc_perm st" and "i < 256" and "j < 256"
  shows "arc_perm (st[i := st ! j, j := st ! i])"
  using assms arc_perm_length [OF assms(1)] mset_swap [of j st i]
  by (simp add: arc_perm_def)

lemma arcfour_init_loop_perm:
  assumes "arc_perm st" and "counter + n \<le> 256" and "ki < length key" and "key_len \<le> length key" and "0 < key_len"
  shows "\<exists>st'. arcfour_init_loop n key key_len counter ki si st = Inr st' \<and> arc_perm st'"
  using assms
proof (induction n arbitrary: counter ki si st)
  case 0
  then show ?case by simp
next
  case (Suc n)
  let ?s = "(si + unat (key ! ki) + unat (st ! counter)) mod 256"
  have "arc_perm (st[?s := st ! counter, counter := st ! ?s])"
    using Suc.prems(1,2) by (intro arc_perm_swap) auto
  moreover have "(if Suc ki \<ge> key_len then 0 else Suc ki) < length key"
    using Suc.prems(3,4,5) by auto
  ultimately obtain st' where
    "arcfour_init_loop n key key_len (Suc counter) (if Suc ki \<ge> key_len then 0 else Suc ki) ?s
       (st[?s := st ! counter, counter := st ! ?s]) = Inr st'" "arc_perm st'"
    using Suc.IH Suc.prems(2,4,5) by (metis add_Suc add_Suc_right)
  with Suc.prems(3) show ?case by (simp add: rd_ok Let_def)
qed

lemma arcfour_init_ok:
  assumes "key_len \<le> length key" and "0 < key_len"
  shows "\<exists>ctx. arcfour_init key key_len = Inr ctx \<and> arc_ok ctx"
proof -
  have "arc_perm (map of_nat [0..<256])" by (simp add: arc_perm_def)
  moreover have "0 < length key" using assms by linarith
  ultimately obtain st where
    "arcfour_init_loop 256 key key_len 0 0 0 (map of_nat [0..<256]) = Inr st" "arc_perm st"
    using arcfour_init_loop_perm [of "map of_nat [0..<256]" 0 256 0 key key_len 0] assms by auto
  then show ?thesis unfolding arcfour_init_def arc_ok_def by simp
qed

lemma arcfour_byte_ok: "arc_ok ctx \<Longrightarrow> arc_ok (snd (arcfour_byte ctx))"
  by (auto simp: arcfour_byte_def arc_ok_def Let_def intro!: arc_perm_swap)

lemma arcfour_encrypt_ok: "arc_ok ctx \<Longrightarrow> arc_ok (snd (arcfour_encrypt ctx xs))"
proof (induction xs arbitrary: ctx)
  case (Cons x xs)
  from Cons.IH [OF arcfour_byte_ok [OF Cons.prems]] show ?case
    by (simp add: split_beta)
qed simp

subsection \<open>A stream cipher\<close>

text \<open>The key stream does not depend on the data, so encrypting twice restores them.\<close>

lemma arcfour_encrypt_length [simp]: "length (fst (arcfour_encrypt ctx xs)) = length xs"
  by (induction xs arbitrary: ctx) (simp_all add: split_beta)

lemma arcfour_encrypt_append:
  "arcfour_encrypt ctx (xs @ ys) =
     (let (xs', ctx') = arcfour_encrypt ctx xs; (ys', ctx'') = arcfour_encrypt ctx' ys
      in (xs' @ ys', ctx''))"
  by (induction xs arbitrary: ctx) (simp_all add: split_beta)

lemma arcfour_encrypt_ctx: "length xs = length ys \<Longrightarrow> snd (arcfour_encrypt ctx xs) = snd (arcfour_encrypt ctx ys)"
  by (induction xs ys arbitrary: ctx rule: list_induct2) (simp_all add: split_beta)

lemma arcfour_encrypt_twice: "fst (arcfour_encrypt ctx (fst (arcfour_encrypt ctx xs))) = xs"
  by (induction xs arbitrary: ctx) (simp_all add: split_beta xor.assoc)

section \<open>The integrity check value\<close>

definition CRC32_POLY :: u32 where "CRC32_POLY = 0x04c11db7"

definition crc32_reverseBit :: "u8 \<Rightarrow> u8" where
  "crc32_reverseBit d =
     (push_bit 7 d AND 0x80) OR (push_bit 5 d AND 0x40) OR (push_bit 3 d AND 0x20) OR
     (push_bit 1 d AND 0x10) OR (drop_bit 1 d AND 0x08) OR (drop_bit 3 d AND 0x04) OR
     (drop_bit 5 d AND 0x02) OR (drop_bit 7 d AND 0x01)"

definition crc32_shift :: "u32 \<Rightarrow> u32" where
  "crc32_shift c = (if c AND 0x80000000 \<noteq> 0 then push_bit 1 c XOR CRC32_POLY else push_bit 1 c)"

text \<open>One entry of the table; \<open>c\<close> and the entry are accessed by bytes, the low one first.\<close>

definition crc32_entry :: "u8 \<Rightarrow> u32" where
  "crc32_entry i =
     (let k = crc32_reverseBit i;
          c = (crc32_shift ^^ 8) (push_bit 24 (ucast k))
      in get_le32 (crc32_reverseBit (ucast (drop_bit 24 c))) (crc32_reverseBit (ucast (drop_bit 16 c)))
           (crc32_reverseBit (ucast (drop_bit 8 c))) (crc32_reverseBit (ucast c)))"

definition crc32_new_table :: "u32 list" where
  "crc32_new_table = map (\<lambda>i. crc32_entry (of_nat i)) [0..<256]"

text \<open>The table is filled on first use.\<close>

record crc_state =
  bcrc32initialized :: int
  crc32_table :: "u32 list"

definition crc32_init :: "crc_state \<Rightarrow> crc_state" where
  "crc32_init cs =
     (if bcrc32initialized cs = 1 then cs
      else cs\<lparr>crc32_table := crc32_new_table, bcrc32initialized := 1\<rparr>)"

fun getcrc32_loop :: "u32 list \<Rightarrow> u8 list \<Rightarrow> u32 \<Rightarrow> u32" where
  "getcrc32_loop tab [] crc = crc"
| "getcrc32_loop tab (p # ps) crc =
     getcrc32_loop tab ps (tab ! unat ((crc XOR ucast p) AND 0xff) XOR drop_bit 8 crc)"

definition getcrc32 :: "crc_state \<Rightarrow> u8 list \<Rightarrow> u32 \<times> crc_state" where
  "getcrc32 cs buf =
     (let cs' = (if bcrc32initialized cs = 0 then crc32_init cs else cs)
      in (NOT (getcrc32_loop (crc32_table cs') buf 0xffffffff), cs'))"

subsection \<open>The bitwise CRC-32\<close>

text \<open>The reference: one bit at a time, least significant bit first.\<close>

definition crc_bit :: "u32 \<Rightarrow> u32" where
  "crc_bit c = (if bit c 0 then drop_bit 1 c XOR 0xEDB88320 else drop_bit 1 c)"

definition crc_byte :: "u32 \<Rightarrow> u8 \<Rightarrow> u32" where
  "crc_byte c b = (crc_bit ^^ 8) (c XOR ucast b)"

definition crc32_spec :: "u8 list \<Rightarrow> u32" where
  "crc32_spec xs = NOT (foldl crc_byte 0xffffffff xs)"

text \<open>The table is computed with the polynomial and the register reversed.\<close>

definition rev32 :: "u32 \<Rightarrow> u32" where
  "rev32 c = get_le32 (crc32_reverseBit (ucast (drop_bit 24 c))) (crc32_reverseBit (ucast (drop_bit 16 c)))
     (crc32_reverseBit (ucast (drop_bit 8 c))) (crc32_reverseBit (ucast c))"

lemma bit_reverseBit: "bit (crc32_reverseBit d) n \<longleftrightarrow> n < 8 \<and> bit d (7 - n)"
proof (cases "n < 8")
  case True
  then consider "n = 0" | "n = 1" | "n = 2" | "n = 3" | "n = 4" | "n = 5" | "n = 6" | "n = 7"
    by linarith
  then show ?thesis
    by cases (simp_all only: crc32_reverseBit_def bit_or_iff bit_and_iff bit_push_bit_iff bit_drop_bit_eq, simp_all)
next
  case False
  then show ?thesis using bit_imp_le_length [of "crc32_reverseBit d" n] by auto
qed

lemma bit_get_le32:
  "bit (get_le32 b0 b1 b2 b3) n \<longleftrightarrow>
     (if n < 8 then bit b0 n else if n < 16 then bit b1 (n - 8) else if n < 24 then bit b2 (n - 16)
      else bit b3 (n - 24))"
  unfolding get_le32_def
  by (auto simp: bit_simps dest: bit_imp_le_length)

lemma bit_rev32: "bit (rev32 c) n \<longleftrightarrow> n < 32 \<and> bit c (31 - n)"
proof (cases "n < 32")
  case True
  then show ?thesis
    by (auto simp: rev32_def bit_get_le32 bit_reverseBit bit_simps)
next
  case False
  then show ?thesis using bit_imp_le_length [of "rev32 c" n] by auto
qed

lemma rev32_xor: "rev32 (a XOR b) = rev32 a XOR rev32 b"
  by (rule bit_word_eqI) (auto simp: bit_rev32 bit_simps)

lemma rev32_push1: "rev32 (push_bit 1 c) = drop_bit 1 (rev32 c)"
  by (rule bit_word_eqI) (auto simp: bit_rev32 bit_push_bit_iff bit_drop_bit_eq simp del: push_bit_Suc
      dest: bit_imp_le_length)

lemma rev32_poly: "rev32 CRC32_POLY = 0xEDB88320"
  by code_simp

lemma and_msb32: "(c :: u32) AND 0x80000000 \<noteq> 0 \<longleftrightarrow> bit c 31"
  using bit_iff_and_push_bit_not_eq_0 [of c 31] by simp

lemma rev32_shift: "rev32 (crc32_shift c) = crc_bit (rev32 c)"
  by (simp only: crc32_shift_def crc_bit_def and_msb32 bit_rev32 rev32_xor rev32_push1 rev32_poly
      if_distrib [of rev32]) simp

lemma rev32_shifts: "rev32 ((crc32_shift ^^ n) c) = (crc_bit ^^ n) (rev32 c)"
  by (induction n) (simp_all add: rev32_shift)

lemma rev32_top_byte: "rev32 (push_bit 24 (ucast (crc32_reverseBit i))) = ucast i"
proof (rule bit_word_eqI)
  fix n
  show "bit (rev32 (push_bit 24 (ucast (crc32_reverseBit i)))) n \<longleftrightarrow> bit (ucast i :: u32) n"
    if "n < LENGTH(32)"
    using that bit_imp_le_length [of i n]
    by (cases "n < 8") (auto simp: bit_rev32 bit_reverseBit bit_simps)
qed

lemma crc32_entry_bits: "crc32_entry i = (crc_bit ^^ 8) (ucast i)"
  by (simp add: crc32_entry_def Let_def rev32_shifts rev32_top_byte flip: rev32_def)

lemma ff_mask32: "(0xff :: u32) = mask 8"
  by (simp add: mask_numeral)

text \<open>One table step is eight bit steps: the register splits into its low byte and the rest.\<close>

lemma crc_bit_xor: "crc_bit (a XOR b) = crc_bit a XOR crc_bit b"
  by (rule bit_word_eqI) (auto simp: crc_bit_def bit_simps)

lemma crc_bits_xor: "(crc_bit ^^ n) (a XOR b) = (crc_bit ^^ n) a XOR (crc_bit ^^ n) b"
  by (induction n) (simp_all add: crc_bit_xor)

lemma crc_bits_high: "(\<And>k. k < n \<Longrightarrow> \<not> bit c k) \<Longrightarrow> (crc_bit ^^ n) c = drop_bit n c"
proof (induction n arbitrary: c)
  case (Suc n)
  have "\<not> bit c 0" using Suc.prems [of 0] by simp
  then have "crc_bit c = drop_bit 1 c" by (simp add: crc_bit_def)
  moreover have "(crc_bit ^^ n) (drop_bit 1 c) = drop_bit n (drop_bit 1 c)"
    using Suc.prems by (intro Suc.IH) (simp add: bit_simps)
  ultimately show ?case
    by (simp only: funpow_Suc_right comp_apply drop_bit_drop_bit) simp
qed simp

lemma crc_table_step:
  "crc32_entry (ucast c) XOR drop_bit 8 c = (crc_bit ^^ 8) c"
proof -
  have split: "c = ucast (ucast c :: u8) XOR (c AND NOT 0xff)"
    unfolding ff_mask32 by (rule bit_word_eqI) (auto simp: bit_simps)
  have "(crc_bit ^^ 8) (c AND NOT 0xff) = drop_bit 8 (c AND NOT 0xff)"
    unfolding ff_mask32 by (rule crc_bits_high) (auto simp: bit_simps)
  also have "\<dots> = drop_bit 8 c"
    unfolding ff_mask32 by (rule bit_word_eqI) (auto simp: bit_simps dest: bit_imp_le_length)
  finally show ?thesis
    by (subst (2) split) (simp add: crc32_entry_bits crc_bits_xor)
qed

definition crc_ok :: "crc_state \<Rightarrow> bool" where
  "crc_ok cs \<longleftrightarrow>
     bcrc32initialized cs = 0 \<or>
     bcrc32initialized cs = 1 \<and> crc32_table cs = crc32_new_table"

lemma crc32_new_table_nth: "i < 256 \<Longrightarrow> crc32_new_table ! i = crc32_entry (of_nat i)"
  unfolding crc32_new_table_def by (simp only: nth_map length_upt nth_upt diff_zero add_0)

lemma unat_low_byte: "unat ((w :: u32) AND 0xff) = unat (ucast w :: u8)"
  by (simp add: ff_mask32 take_bit_eq_mask [symmetric] unsigned_take_bit_eq unsigned_ucast_eq)

lemma getcrc32_loop_spec:
  "getcrc32_loop crc32_new_table xs c = foldl crc_byte c xs"
proof (induction xs arbitrary: c)
  case (Cons x xs)
  let ?i = "unat ((c XOR ucast x) AND 0xff)"
  have "?i = unat (ucast (c XOR ucast x) :: u8)" by (rule unat_low_byte)
  then have "crc32_new_table ! ?i = crc32_entry (ucast (c XOR ucast x))"
    using unat_u8_less [of "ucast (c XOR ucast x)"] by (simp add: crc32_new_table_nth)
  moreover have "drop_bit 8 (c XOR ucast x) = drop_bit 8 c"
    by (rule bit_word_eqI) (auto simp: bit_simps dest: bit_imp_le_length)
  ultimately have "crc32_new_table ! ?i XOR drop_bit 8 c = crc_byte c x"
    using crc_table_step [of "c XOR ucast x"] by (simp add: crc_byte_def)
  then show ?case by (simp only: getcrc32_loop.simps foldl.simps Cons.IH)
qed simp

lemma getcrc32_ok: "crc_ok cs \<Longrightarrow> fst (getcrc32 cs xs) = crc32_spec xs \<and> crc_ok (snd (getcrc32 cs xs))"
  by (auto simp: getcrc32_def crc32_spec_def crc_ok_def crc32_init_def Let_def getcrc32_loop_spec)

subsection \<open>A changed byte changes the check value\<close>

lemma crc_bit_inj: "crc_bit a = crc_bit b \<Longrightarrow> a = b"
proof -
  assume e: "crc_bit a = crc_bit b"
  have top: "bit (crc_bit c) 31 = bit c 0" for c
    by (auto simp: crc_bit_def bit_simps dest: bit_imp_le_length)
  from top [of a] top [of b] e have low: "bit a 0 = bit b 0" by simp
  then have "drop_bit 1 a = drop_bit 1 b"
    using e by (auto simp: crc_bit_def split: if_splits dest: xor_right_cancel)
  then have "bit a (Suc n) = bit b (Suc n)" for n
    by (metis bit_drop_bit_eq comp_apply plus_1_eq_Suc)
  with low show "a = b" by (intro bit_word_eqI) (metis not0_implies_Suc)
qed

lemma crc_bits_inj: "(crc_bit ^^ n) a = (crc_bit ^^ n) b \<Longrightarrow> a = b"
  by (induction n) (auto dest: crc_bit_inj)

lemma crc_byte_inj: "crc_byte a x = crc_byte b x \<Longrightarrow> a = b"
  unfolding crc_byte_def by (drule crc_bits_inj) (rule xor_right_cancel)

lemma crc_byte_inj_byte: "crc_byte a x = crc_byte a y \<Longrightarrow> x = y"
proof -
  assume "crc_byte a x = crc_byte a y"
  then have "a XOR ucast x = a XOR ucast y" unfolding crc_byte_def by (rule crc_bits_inj)
  then have "(ucast x :: u32) = ucast y" by (rule xor_left_cancel)
  then have "ucast (ucast x :: u32) = (ucast (ucast y :: u32) :: u8)" by (rule arg_cong)
  moreover have "ucast (ucast z :: u32) = z" for z :: u8
    by (rule bit_word_eqI) (simp add: bit_simps)
  ultimately show "x = y" by simp
qed

lemma foldl_crc_inj: "foldl crc_byte a xs = foldl crc_byte b xs \<Longrightarrow> a = b"
  by (induction xs arbitrary: a b) (auto dest: crc_byte_inj)

lemma crc32_spec_byte:
  assumes "crc32_spec (pre @ x # post) = crc32_spec (pre @ y # post)"
  shows "x = y"
proof -
  have "foldl crc_byte 0xffffffff (pre @ x # post) = foldl crc_byte 0xffffffff (pre @ y # post)"
    using assms unfolding crc32_spec_def by (metis bit.double_compl)
  then have "crc_byte (foldl crc_byte 0xffffffff pre) x = crc_byte (foldl crc_byte 0xffffffff pre) y"
    by (auto dest: foldl_crc_inj)
  then show ?thesis by (rule crc_byte_inj_byte)
qed

section \<open>Frames\<close>

text \<open>The check value does not depend on whether the table was filled before (\<open>getcrc32_ok\<close>);
  the frame routines use it from the state at load time.\<close>

definition crc_start :: crc_state where
  "crc_start = \<lparr> bcrc32initialized = 0, crc32_table = replicate 256 0 \<rparr>"

definition icv_bytes :: "u8 list \<Rightarrow> u8 list" where
  "icv_bytes xs = put_le32 (fst (getcrc32 crc_start xs))"

text \<open>\<open>arcfour_encrypt\<close> on a buffer in place.\<close>

definition arcfour_at :: "arc4context \<Rightarrow> u8 list \<Rightarrow> nat \<Rightarrow> nat \<Rightarrow> (u8 list \<times> arc4context) cres" where
  "arcfour_at ctx mem p len =
     bindc (rdn mem p len) (\<lambda>xs.
       let (ys, ctx') = arcfour_encrypt ctx xs in
       bindc (wrn mem p ys) (\<lambda>mem'. Inr (mem', ctx')))"

text \<open>The seed: three bytes of the IV and the key, in an array of 16 bytes.\<close>

definition wep_seed :: "security_priv \<Rightarrow> nat \<Rightarrow> u8 list \<Rightarrow> nat \<Rightarrow> (u8 list \<times> nat) cres" where
  "wep_seed sec keyid mem iv =
     bindc (nth_chk (dot11DefKeylen sec) keyid) (\<lambda>keylength.
     bindc (rdn mem iv 3) (\<lambda>v.
     bindc (nth_chk (dot11DefKey sec) keyid) (\<lambda>skey.
     bindc (rdn skey 0 keylength) (\<lambda>k.
     if 3 + keylength \<le> 16 then Inr (v @ k, keylength) else Inl OutOfBounds))))"

text \<open>Encrypting \<open>len\<close> bytes of payload and the check value behind them with a fresh key.\<close>

definition rc4_seal :: "u8 list \<Rightarrow> nat \<Rightarrow> u8 list \<Rightarrow> nat \<Rightarrow> int \<Rightarrow> u8 list cres" where
  "rc4_seal key key_len mem payload len =
     bindc (rdn mem payload (nat len)) (\<lambda>xs.
     let crc = icv_bytes xs in
     bindc (arcfour_init key key_len) (\<lambda>ctx.
     bindc (arcfour_at ctx mem payload (nat (len mod 2 ^ 32))) (\<lambda>(mem', ctx').
     wrn mem' (nat (int payload + len)) (fst (arcfour_encrypt ctx' crc)))))"

definition wep_encrypt_frag ::
  "security_priv \<times> pkt_attrib \<Rightarrow> nat \<Rightarrow> int \<Rightarrow> u8 list \<Rightarrow> u8 list cres" where
  "wep_encrypt_frag = (\<lambda>(sec, at) pframe len mem.
     bindc (wep_seed sec (dot11PrivacyKeyIndex sec) mem (pframe + hdrlen at)) (\<lambda>(wepkey, keylength).
     rc4_seal wepkey (3 + keylength) mem (pframe + iv_len at + hdrlen at) len))"

definition rtw_wep_encrypt ::
  "security_priv \<Rightarrow> pkt_attrib \<Rightarrow> nat \<Rightarrow> nat option \<Rightarrow> u8 list \<Rightarrow> (u8 list \<times> security_priv) cres" where
  "rtw_wep_encrypt sec at frag_len buf_addr mem =
     (case buf_addr of None \<Rightarrow> Inr (mem, sec)
      | Some base \<Rightarrow>
        (if encrypt at = WEP40 \<or> encrypt at = WEP104 then
           bindc (frag_loop (wep_encrypt_frag (sec, at)) at frag_len base (nr_frags at) TXDESC_OFFSET mem)
             (\<lambda>mem'. Inr (mem', sec\<lparr>wep_sw_enc_cnt := sw_cnt_inc (ra at) (wep_sw_enc_cnt sec)\<rparr>))
         else Inr (mem, sec)))"

text \<open>Decryption computes the check value and drops it: a frame with a wrong one passes.\<close>

definition rtw_wep_decrypt ::
  "security_priv \<Rightarrow> rx_pkt_attrib \<Rightarrow> u8 list \<Rightarrow> (u8 list \<times> security_priv) cres" where
  "rtw_wep_decrypt sec at mem =
     (if rx_encrypt at = WEP40 \<or> rx_encrypt at = WEP104 then
        bindc (wep_seed sec (rx_key_index at) mem (rx_hdrlen at)) (\<lambda>(wepkey, keylength).
        let len = sint32 (usub32 (usub32 (rx_len at) (rx_hdrlen at)) (rx_iv_len at));
            payload = rx_iv_len at + rx_hdrlen at in
        bindc (arcfour_init wepkey (3 + keylength)) (\<lambda>ctx.
        bindc (arcfour_at ctx mem payload (nat (len mod 2 ^ 32))) (\<lambda>(mem', _).
        bindc (rdn mem' payload (nat (len - 4))) (\<lambda>_.
        Inr (mem', sec\<lparr>wep_sw_dec_cnt := sw_cnt_inc (rx_ra at) (wep_sw_dec_cnt sec)\<rparr>)))))
      else Inr (mem, sec))"

subsection \<open>The contract\<close>

definition rc4_stream :: "u8 list \<Rightarrow> u8 list \<Rightarrow> u8 list" where
  "rc4_stream key xs = fst (arcfour_encrypt (projr (arcfour_init key (length key))) xs)"

lemma rc4_stream_length [simp]: "length (rc4_stream key xs) = length xs"
  by (simp add: rc4_stream_def)

lemma rc4_stream_twice [simp]: "rc4_stream key (rc4_stream key xs) = xs"
  by (simp add: rc4_stream_def arcfour_encrypt_twice)

lemma icv_bytes_spec: "icv_bytes xs = put_le32 (crc32_spec xs)"
  using getcrc32_ok [of crc_start xs] by (simp add: icv_bytes_def crc_ok_def crc_start_def)

lemma icv_bytes_length [simp]: "length (icv_bytes xs) = 4"
  by (simp add: icv_bytes_def)

lemma arcfour_init_stream:
  assumes "key \<noteq> []"
  shows "\<exists>ctx. arcfour_init key (length key) = Inr ctx \<and>
    (\<forall>xs. rc4_stream key xs = fst (arcfour_encrypt ctx xs))"
proof -
  obtain ctx where "arcfour_init key (length key) = Inr ctx"
    using arcfour_init_ok [of "length key" key] assms by auto
  then show ?thesis by (simp add: rc4_stream_def)
qed

lemma rc4_seal_written:
  assumes "key \<noteq> []" and "payload + n + 4 \<le> length mem" and "n < 2 ^ 31"
  shows "rc4_seal key (length key) mem payload (int n) =
    Inr (written mem payload (rc4_stream key (chunk mem payload n @ icv_bytes (chunk mem payload n))))"
proof -
  let ?xs = "chunk mem payload n"
  obtain ctx where ctx: "arcfour_init key (length key) = Inr ctx"
    "\<And>xs. rc4_stream key xs = fst (arcfour_encrypt ctx xs)"
    using arcfour_init_stream [OF assms(1)] by blast
  obtain ys ctx' where e: "arcfour_encrypt ctx ?xs = (ys, ctx')" by (cases "arcfour_encrypt ctx ?xs")
  then have ys: "length ys = n"
    using arcfour_encrypt_length [of ctx ?xs] assms(2) by simp
  have n: "int n mod 2 ^ 32 = int n" using assms(3) by simp
  have "arcfour_at ctx mem payload n = Inr (written mem payload ys, ctx')"
    using assms(2) ys e by (simp add: arcfour_at_def rdn_ok wrn_written)
  moreover have "wrn (written mem payload ys) (payload + n) (fst (arcfour_encrypt ctx' (icv_bytes ?xs))) =
      Inr (written mem payload (ys @ fst (arcfour_encrypt ctx' (icv_bytes ?xs))))"
    using assms(2) ys by (simp add: wrn_written written_append)
  moreover have "rc4_stream key (?xs @ icv_bytes ?xs) = ys @ fst (arcfour_encrypt ctx' (icv_bytes ?xs))"
    by (simp add: ctx(2) arcfour_encrypt_append e split_beta)
  moreover have "nat (int payload + int n) = payload + n" by simp
  ultimately show ?thesis
    unfolding rc4_seal_def n ctx(1) using assms(2) by (simp add: rdn_ok)
qed

definition def_key :: "security_priv \<Rightarrow> nat \<Rightarrow> u8 list" where
  "def_key sec i = take (dot11DefKeylen sec ! i) (dot11DefKey sec ! i)"

definition def_key_ok :: "security_priv \<Rightarrow> nat \<Rightarrow> bool" where
  "def_key_ok sec i \<longleftrightarrow> i < length (dot11DefKey sec) \<and> i < length (dot11DefKeylen sec) \<and>
     dot11DefKeylen sec ! i \<le> 13 \<and> dot11DefKeylen sec ! i \<le> length (dot11DefKey sec ! i)"

definition wep_ok :: "security_priv \<times> pkt_attrib \<Rightarrow> bool" where
  "wep_ok = (\<lambda>(sec, at). def_key_ok sec (dot11PrivacyKeyIndex sec) \<and> 3 \<le> iv_len at)"

definition wep_sealed :: "security_priv \<times> pkt_attrib \<Rightarrow> u8 list \<Rightarrow> u8 list \<Rightarrow> u8 list" where
  "wep_sealed = (\<lambda>(sec, at) h xs.
     rc4_stream (chunk h (hdrlen at) 3 @ def_key sec (dot11PrivacyKeyIndex sec)) (xs @ icv_bytes xs))"

lemma wep_seed_ok:
  assumes "def_key_ok sec i" and "iv + 3 \<le> length mem"
  shows "wep_seed sec i mem iv = Inr (chunk mem iv 3 @ def_key sec i, dot11DefKeylen sec ! i)"
    and "length (chunk mem iv 3 @ def_key sec i) = 3 + dot11DefKeylen sec ! i"
  using assms by (auto simp: wep_seed_def nth_chk_def def_key_ok_def def_key_def rdn_ok)

lemma chunk_chunk: "a + b \<le> n \<Longrightarrow> chunk (chunk mem p n) a b = chunk mem (p + a) b"
  by (simp add: drop_take min_def add.commute)

lemma wep_frag_written:
  assumes "wep_ok (sec, at)" and "p + (hdrlen at + iv_len at) + n + 4 \<le> length mem" and "n < 2 ^ 31"
  shows "wep_encrypt_frag (sec, at) p (int n) mem =
    Inr (written mem (p + (hdrlen at + iv_len at))
      (wep_sealed (sec, at) (chunk mem p (hdrlen at + iv_len at)) (chunk mem (p + (hdrlen at + iv_len at)) n)))"
proof -
  let ?i = "dot11PrivacyKeyIndex sec" and ?pay = "p + iv_len at + hdrlen at"
  have ok: "def_key_ok sec ?i" and iv: "3 \<le> iv_len at" using assms(1) by (simp_all add: wep_ok_def)
  have fits: "p + hdrlen at + 3 \<le> length mem" using assms(2) iv by simp
  note seed = wep_seed_ok [OF ok fits]
  have "rc4_seal (chunk mem (p + hdrlen at) 3 @ def_key sec ?i) (3 + dot11DefKeylen sec ! ?i) mem ?pay (int n) =
      Inr (written mem ?pay (rc4_stream (chunk mem (p + hdrlen at) 3 @ def_key sec ?i)
        (chunk mem ?pay n @ icv_bytes (chunk mem ?pay n))))"
    unfolding seed(2) [symmetric] using seed(2) assms(2,3) by (intro rc4_seal_written) auto
  moreover have "chunk (chunk mem p (hdrlen at + iv_len at)) (hdrlen at) 3 = chunk mem (p + hdrlen at) 3"
    using iv by (intro chunk_chunk) simp
  moreover have "?pay = p + (hdrlen at + iv_len at)" by simp
  ultimately show ?thesis
    unfolding wep_encrypt_frag_def wep_sealed_def by (simp only: prod.case seed(1) bindc_Inr)
qed

interpretation wep: fragment_cipher wep_ok "\<lambda>_ _. True" wep_encrypt_frag "\<lambda>(sec, at). hdrlen at + iv_len at" "\<lambda>_. 4" wep_sealed
proof (standard, goal_cases)
  case (1 c p n mem)
  then show ?case by (cases c) (simp only: prod.case wep_frag_written)
next
  case (2 c h xs)
  then show ?case by (cases c) (simp add: wep_sealed_def)
qed

text \<open>Decrypting what the key stream of the frame's IV was added to.\<close>

lemma rtw_wep_decrypt_stream:
  assumes "rx_encrypt rx = WEP40 \<or> rx_encrypt rx = WEP104" and "def_key_ok sec (rx_key_index rx)"
    and "length h = rx_hdrlen rx + rx_iv_len rx" and "3 \<le> rx_iv_len rx"
    and "rx_len rx = length h + length cs" and "rx_len rx < 2 ^ 31"
  shows "rtw_wep_decrypt sec rx (h @ cs) =
    Inr (h @ rc4_stream (chunk h (rx_hdrlen rx) 3 @ def_key sec (rx_key_index rx)) cs,
      sec\<lparr>wep_sw_dec_cnt := sw_cnt_inc (rx_ra rx) (wep_sw_dec_cnt sec)\<rparr>)"
proof -
  let ?i = "rx_key_index rx" and ?pay = "rx_iv_len rx + rx_hdrlen rx"
  let ?key = "chunk h (rx_hdrlen rx) 3 @ def_key sec ?i"
  have fits: "rx_hdrlen rx + 3 \<le> length (h @ cs)" using assms(3,4) by simp
  note seed = wep_seed_ok [OF assms(2) fits]
  have k: "chunk (h @ cs) (rx_hdrlen rx) 3 = chunk h (rx_hdrlen rx) 3" using assms(3,4) by simp
  have kl: "length ?key = 3 + dot11DefKeylen sec ! ?i" using seed(2) by (simp only: k)
  then have "?key \<noteq> []" by auto
  then obtain ctx where ctx: "arcfour_init ?key (length ?key) = Inr ctx"
    "\<And>xs. rc4_stream ?key xs = fst (arcfour_encrypt ctx xs)"
    using arcfour_init_stream by blast
  obtain ys c' where ys: "arcfour_encrypt ctx cs = (ys, c')" by (cases "arcfour_encrypt ctx cs")
  then have len: "length ys = length cs" using arcfour_encrypt_length [of ctx cs] by simp
  have l: "sint32 (usub32 (usub32 (rx_len rx) (rx_hdrlen rx)) (rx_iv_len rx)) = int (length cs)"
    using assms(3,5,6) by simp
  have m: "nat (int (length cs) mod 4294967296) = length cs" using assms(5,6) by simp
  have at: "arcfour_at ctx (h @ cs) ?pay (length cs) = Inr (h @ ys, c')"
    using assms(3) ys len by (simp add: arcfour_at_def rdn_ok wrn_def add.commute)
  have "?pay + nat (int (length cs) - 4) \<le> length (h @ ys)" using assms(3) len by simp
  then show ?thesis
    using assms(1) ctx(2) [of cs] ys at
    by (simp add: rtw_wep_decrypt_def Let_def seed(1) [unfolded k] l m ctx(1) [unfolded kl] rdn_ok)
qed

text \<open>WEP round trip. \<open>rtw_wep_encrypt\<close> seals every fragment of the frame in place, and
  \<open>rtw_wep_decrypt\<close>, given any one of the fragments it produced and the same key, returns the
  header and the plaintext payload of that fragment, followed by the payload's check value.\<close>

theorem rtw_wep_roundtrip:
  assumes "encrypt at = WEP40 \<or> encrypt at = WEP104"
    and "def_key_ok sec (dot11PrivacyKeyIndex sec)" and "3 \<le> iv_len at" and "icv_len at = 4"
    and "frag_sizes_ok at fl" and "fs = frags at fl base (nr_frags at) TXDESC_OFFSET"
    and "\<forall>(q, n) \<in> set fs. q + (hdrlen at + iv_len at) + n + 4 \<le> length mem"
  shows "\<exists>mem' sec'. rtw_wep_encrypt sec at fl (Some base) mem = Inr (mem', sec') \<and>
    (\<forall>(q, n) \<in> set fs. \<forall>rx. rx_encrypt rx = encrypt at \<and> rx_key_index rx = dot11PrivacyKeyIndex sec \<and>
       rx_hdrlen rx = hdrlen at \<and> rx_iv_len rx = iv_len at \<and> rx_len rx = hdrlen at + iv_len at + n + 4 \<longrightarrow>
       (\<exists>sec''. rtw_wep_decrypt sec' rx (chunk mem' q (rx_len rx)) =
          Inr (chunk mem q (hdrlen at + iv_len at + n) @
            icv_bytes (chunk mem (q + (hdrlen at + iv_len at)) n), sec'')))"
proof -
  let ?hl = "hdrlen at + iv_len at"
  let ?sec' = "sec\<lparr>wep_sw_enc_cnt := sw_cnt_inc (ra at) (wep_sw_enc_cnt sec)\<rparr>"
  have "wep_ok (sec, at)" using assms(2,3) by (simp add: wep_ok_def)
  from wep.frag_loop_seals [OF this assms(5) _ _, of base "nr_frags at" TXDESC_OFFSET mem] assms(4,7)
  obtain mem' where mem': "frag_loop (wep_encrypt_frag (sec, at)) at fl base (nr_frags at) TXDESC_OFFSET mem = Inr mem'"
    "\<forall>(q, n) \<in> set fs. chunk mem' q (?hl + n + 4) =
       chunk mem q ?hl @ wep_sealed (sec, at) (chunk mem q ?hl) (chunk mem (q + ?hl) n)"
    unfolding assms(6) by auto
  have "rtw_wep_decrypt ?sec' rx (chunk mem' q (rx_len rx)) =
      Inr (chunk mem q (?hl + n) @ icv_bytes (chunk mem (q + ?hl) n),
        ?sec'\<lparr>wep_sw_dec_cnt := sw_cnt_inc (rx_ra rx) (wep_sw_dec_cnt ?sec')\<rparr>)"
    if m: "(q, n) \<in> set fs" and rx: "rx_encrypt rx = encrypt at" "rx_key_index rx = dot11PrivacyKeyIndex sec"
      "rx_hdrlen rx = hdrlen at" "rx_iv_len rx = iv_len at" "rx_len rx = ?hl + n + 4" for q n rx
  proof -
    have fit: "q + ?hl + n + 4 \<le> length mem" using assms(7) m by auto
    have n: "?hl + n + 4 < 2 ^ 31" using frag_total [OF assms(5) m [unfolded assms(6)]] assms(4) by simp
    have same: "def_key_ok ?sec' i = def_key_ok sec i" "def_key ?sec' i = def_key sec i" for i
      by (simp_all add: def_key_ok_def def_key_def)
    have "rtw_wep_decrypt ?sec' rx
        (chunk mem q ?hl @ wep_sealed (sec, at) (chunk mem q ?hl) (chunk mem (q + ?hl) n)) =
      Inr (chunk mem q ?hl @ chunk mem (q + ?hl) n @ icv_bytes (chunk mem (q + ?hl) n),
        ?sec'\<lparr>wep_sw_dec_cnt := sw_cnt_inc (rx_ra rx) (wep_sw_dec_cnt ?sec')\<rparr>)"
      using assms(1,2,3) fit n rx by (subst rtw_wep_decrypt_stream) (simp_all add: same wep_sealed_def)
    moreover have "chunk mem' q (rx_len rx) =
        chunk mem q ?hl @ wep_sealed (sec, at) (chunk mem q ?hl) (chunk mem (q + ?hl) n)"
      using bspec [OF mem'(2) m] by (simp add: rx(5))
    ultimately show ?thesis using chunk_add [of ?hl n q mem] by (simp only: append_assoc)
  qed
  moreover have "rtw_wep_encrypt sec at fl (Some base) mem = Inr (mem', ?sec')"
    using assms(1) mem'(1) by (simp add: rtw_wep_encrypt_def)
  ultimately show ?thesis by fastforce
qed

definition wep_example_sec :: security_priv where
  "wep_example_sec = \<lparr> dot11PrivacyKeyIndex = 1, dot11DefKey = [replicate 16 0, replicate 16 7],
     dot11DefKeylen = [5, 5], dot118021XGrpKeyid = 0, dot118021XGrpKey = [replicate 16 9], binstallGrpkey = True,
     busetkipkey = False, hw_decrypted = False, binstallBIPkey = True, dot11wBIPKeyid = 4,
     dot11wBIPKey = [[], [], [], [], replicate 16 3, replicate 16 4], dot11wBIPtxpn = 6, dot11wBIPrxpn = 5,
     wep_sw_enc_cnt = \<lparr> cnt_bc = 0, cnt_mc = 0, cnt_uc = 0 \<rparr>,
     wep_sw_dec_cnt = \<lparr> cnt_bc = 0, cnt_mc = 0, cnt_uc = 0 \<rparr>,
     tkip_sw_enc_cnt = \<lparr> cnt_bc = 0, cnt_mc = 0, cnt_uc = 0 \<rparr>,
     tkip_sw_dec_cnt = \<lparr> cnt_bc = 0, cnt_mc = 0, cnt_uc = 0 \<rparr>,
     aes_sw_enc_cnt = \<lparr> cnt_bc = 0, cnt_mc = 0, cnt_uc = 0 \<rparr>,
     aes_sw_dec_cnt = \<lparr> cnt_bc = 0, cnt_mc = 0, cnt_uc = 0 \<rparr> \<rparr>"

definition wep_example_attrib :: pkt_attrib where
  "wep_example_attrib = \<lparr> hdrlen = 24, last_txcmdsz = 36, nr_frags = 2, encrypt = 1, iv_len = 4, icv_len = 4,
     ra = replicate 6 0, ta = replicate 6 0, dot118021x_UncstKey = [] \<rparr>"

theorem rtw_wep_roundtrip_witness:
  "\<exists>mem' sec'. rtw_wep_encrypt wep_example_sec wep_example_attrib 42 (Some 4096) (replicate 130 3) = Inr (mem', sec') \<and>
    (\<forall>(q, n) \<in> set [(48, 10), (92, 4)]. \<forall>rx. rx_encrypt rx = encrypt wep_example_attrib \<and>
       rx_key_index rx = dot11PrivacyKeyIndex wep_example_sec \<and>
       rx_hdrlen rx = hdrlen wep_example_attrib \<and> rx_iv_len rx = iv_len wep_example_attrib \<and>
       rx_len rx = hdrlen wep_example_attrib + iv_len wep_example_attrib + n + 4 \<longrightarrow>
       (\<exists>sec''. rtw_wep_decrypt sec' rx (chunk mem' q (rx_len rx)) =
          Inr (chunk (replicate 130 3) q (hdrlen wep_example_attrib + iv_len wep_example_attrib + n) @
            icv_bytes (chunk (replicate 130 3) (q + (hdrlen wep_example_attrib + iv_len wep_example_attrib)) n), sec'')))"
  by (rule rtw_wep_roundtrip)
    (simp_all add: wep_example_sec_def wep_example_attrib_def WEP40_def def_key_ok_def frag_sizes_ok_def
      TXDESC_OFFSET_def RND4_def frags_numeral)

text \<open>the table-driven \<open>getcrc32\<close>, whose table is built with reversed bytes and bits on first
  use, computes the bitwise CRC-32 of its input, whether the table was filled before or not.\<close>

theorem getcrc32_is_crc32:
  assumes "crc_ok cs"
  shows "fst (getcrc32 cs xs) = crc32_spec xs \<and> crc_ok (snd (getcrc32 cs xs))"
  using assms by (rule getcrc32_ok)

theorem getcrc32_is_crc32_witness:
  "fst (getcrc32 crc_start [1, 2]) = crc32_spec [1, 2] \<and> crc_ok (snd (getcrc32 crc_start [1, 2]))"
  by (rule getcrc32_is_crc32) (simp add: crc_ok_def crc_start_def)

text \<open>the check value finds every change of a single byte: two payloads that differ in exactly
  one byte have different values of \<open>getcrc32\<close>.\<close>

theorem getcrc32_detects_byte:
  assumes "crc_ok cs" and "x \<noteq> y"
  shows "fst (getcrc32 cs (pre @ x # post)) \<noteq> fst (getcrc32 cs (pre @ y # post))"
  using getcrc32_ok [OF assms(1)] crc32_spec_byte assms(2) by metis

theorem getcrc32_detects_byte_witness:
  "fst (getcrc32 crc_start ([1] @ 2 # [3])) \<noteq> fst (getcrc32 crc_start ([1] @ 4 # [3]))"
  by (rule getcrc32_detects_byte) (simp_all add: crc_ok_def crc_start_def)

end
