(* ===== verification/Tkip.thy ===== *)
theory Tkip
  imports Wep
begin

text \<open>
  TKIP (core/rtw_security.c): the Michael message integrity code, the two phases of the key
  mixing, and the encryption and decryption of frames with the mixed key.
\<close>

section \<open>Michael\<close>

record mic_data =
  mic_K0 :: u32
  mic_K1 :: u32
  mic_L :: u32
  mic_R :: u32
  mic_M :: u32
  nBytesInM :: nat

definition ROL32 :: "u32 \<Rightarrow> nat \<Rightarrow> u32" where
  "ROL32 a n = push_bit n a OR (drop_bit (32 - n) a AND mask n)"

definition ROR32 :: "u32 \<Rightarrow> nat \<Rightarrow> u32" where
  "ROR32 a n = ROL32 a (32 - n)"

fun secmicgetuint32 :: "nat \<Rightarrow> u8 list \<Rightarrow> u32" where
  "secmicgetuint32 i [] = 0"
| "secmicgetuint32 i (p # ps) = push_bit (8 * i) (ucast p) OR secmicgetuint32 (Suc i) ps"

fun secmicputuint32 :: "nat \<Rightarrow> u32 \<Rightarrow> u8 list" where
  "secmicputuint32 0 val = []"
| "secmicputuint32 (Suc n) val = ucast (val AND 0xff) # secmicputuint32 n (drop_bit 8 val)"

definition secmicclear :: "mic_data \<Rightarrow> mic_data" where
  "secmicclear d = d\<lparr>mic_L := mic_K0 d, mic_R := mic_K1 d, nBytesInM := 0, mic_M := 0\<rparr>"

definition rtw_secmicsetkey :: "mic_data \<Rightarrow> u8 list \<Rightarrow> mic_data cres" where
  "rtw_secmicsetkey d key =
     bindc (rdn key 0 4) (\<lambda>k0. bindc (rdn key 4 4) (\<lambda>k1.
     Inr (secmicclear (d\<lparr>mic_K0 := secmicgetuint32 0 k0, mic_K1 := secmicgetuint32 0 k1\<rparr>))))"

text \<open>The block function, on a full word.\<close>

definition michael_mix :: "u32 \<Rightarrow> u32 \<Rightarrow> u32 \<times> u32" where
  "michael_mix l0 r0 =
     (let r1 = r0 XOR ROL32 l0 17; l1 = l0 + r1;
          r2 = r1 XOR (drop_bit 8 (l1 AND 0xff00ff00) OR push_bit 8 (l1 AND 0x00ff00ff)); l2 = l1 + r2;
          r3 = r2 XOR ROL32 l2 3; l3 = l2 + r3;
          r4 = r3 XOR ROR32 l3 2; l4 = l3 + r4
      in (l4, r4))"

definition rtw_secmicappendbyte :: "mic_data \<Rightarrow> u8 \<Rightarrow> mic_data" where
  "rtw_secmicappendbyte d b =
     (let m = mic_M d OR push_bit (8 * nBytesInM d) (ucast b); n = nBytesInM d + 1 in
      if n \<ge> 4 then
        let (l, r) = michael_mix (mic_L d XOR m) (mic_R d)
        in d\<lparr>mic_L := l, mic_R := r, mic_M := 0, nBytesInM := 0\<rparr>
      else d\<lparr>mic_M := m, nBytesInM := n\<rparr>)"

fun rtw_secmicappend :: "mic_data \<Rightarrow> u8 list \<Rightarrow> mic_data" where
  "rtw_secmicappend d [] = d"
| "rtw_secmicappend d (b # src) = rtw_secmicappend (rtw_secmicappendbyte d b) src"

function mic_pad_loop :: "mic_data \<Rightarrow> mic_data" where
  "mic_pad_loop d = (if nBytesInM d \<noteq> 0 then mic_pad_loop (rtw_secmicappendbyte d 0) else d)"
  by pat_completeness auto
termination
  by (relation "measure (\<lambda>d. if nBytesInM d = 0 then 0 else if nBytesInM d \<ge> 4 then 1 else 4 - nBytesInM d)")
    (auto simp: rtw_secmicappendbyte_def Let_def split_beta)

declare mic_pad_loop.simps [simp del]

definition rtw_secgetmic :: "mic_data \<Rightarrow> u8 list \<times> mic_data" where
  "rtw_secgetmic d =
     (let d1 = rtw_secmicappendbyte d 0x5a;
          d2 = rtw_secmicappendbyte (rtw_secmicappendbyte (rtw_secmicappendbyte (rtw_secmicappendbyte d1 0) 0) 0) 0;
          d3 = mic_pad_loop d2
      in (secmicputuint32 4 (mic_L d3) @ secmicputuint32 4 (mic_R d3), secmicclear d3))"

text \<open>\<open>rtw_seccalctkipmic\<close>: the addresses of the pseudo header are chosen by the ToDS and FromDS
  bits of the frame header.\<close>

definition mic_zero :: mic_data where
  "mic_zero = \<lparr> mic_K0 = 0, mic_K1 = 0, mic_L = 0, mic_R = 0, mic_M = 0, nBytesInM = 0 \<rparr>"

definition mic_addresses :: "u8 list \<Rightarrow> (u8 list \<times> u8 list) cres" where
  "mic_addresses header =
     bindc (rd header 1) (\<lambda>fc.
     if fc AND 1 \<noteq> 0 then
       bindc (rdn header 16 6) (\<lambda>da.
       bindc (if fc AND 2 \<noteq> 0 then rdn header 24 6 else rdn header 10 6) (\<lambda>sa. Inr (da, sa)))
     else
       bindc (rdn header 4 6) (\<lambda>da.
       bindc (if fc AND 2 \<noteq> 0 then rdn header 16 6 else rdn header 10 6) (\<lambda>sa. Inr (da, sa))))"

definition rtw_seccalctkipmic :: "u8 list \<Rightarrow> u8 list \<Rightarrow> u8 list \<Rightarrow> nat \<Rightarrow> u8 \<Rightarrow> u8 list cres" where
  "rtw_seccalctkipmic key header dat data_len pri =
     bindc (rtw_secmicsetkey mic_zero key) (\<lambda>d0.
     bindc (mic_addresses header) (\<lambda>(da, sa).
     bindc (rdn dat 0 data_len) (\<lambda>xs.
     let d1 = rtw_secmicappend (rtw_secmicappend d0 da) sa;
         d2 = rtw_secmicappend d1 [pri, 0, 0, 0];
         d3 = rtw_secmicappend d2 xs
     in Inr (fst (rtw_secgetmic d3)))))"

subsection \<open>The reference\<close>

text \<open>Michael as IEEE 802.11 states it (12.5.2.3), over the little-endian words of the padded message. Each step of the
  block function rotates one half, or swaps the bytes in both halves of it, into the other and adds the other
  to it. \<open>le_words\<close> are the full words of a byte sequence, \<open>le_rest\<close> what is left behind them.\<close>

fun le_words :: "u8 list \<Rightarrow> u32 list" where
  "le_words (a # b # c # d # xs) = get_le32 a b c d # le_words xs"
| "le_words _ = []"

fun le_rest :: "u8 list \<Rightarrow> u8 list" where
  "le_rest (a # b # c # d # xs) = le_rest xs"
| "le_rest xs = xs"

definition xswap :: "u32 \<Rightarrow> u32" where
  "xswap w = (let b = put_le32 w in get_le32 (b ! 1) (b ! 0) (b ! 3) (b ! 2))"

definition michael_step :: "(u32 \<Rightarrow> u32) \<Rightarrow> u32 \<times> u32 \<Rightarrow> u32 \<times> u32" where
  "michael_step g = (\<lambda>(l, r). let r = r XOR g l in (l + r, r))"

definition michael_block :: "u32 \<times> u32 \<Rightarrow> u32 \<Rightarrow> u32 \<times> u32" where
  "michael_block = (\<lambda>(l, r) w.
     michael_step (word_rotr 2) (michael_step (word_rotl 3) (michael_step xswap (michael_step (word_rotl 17) (l XOR w, r)))))"

definition michael_pad :: "u8 list \<Rightarrow> u8 list" where
  "michael_pad msg = msg @ 0x5a # replicate (7 - length msg mod 4) 0"

definition michael :: "u8 list \<Rightarrow> u8 list \<Rightarrow> u8 list" where
  "michael key msg =
     (let k = (hd (le_words key), hd (tl (le_words key)));
          (l, r) = foldl michael_block k (le_words (michael_pad msg))
      in put_le32 l @ put_le32 r)"

text \<open>Destination and source of a frame by the DS bits of its header, and the pseudo header.\<close>

definition to_ds :: "u8 list \<Rightarrow> bool" where
  "to_ds h \<longleftrightarrow> bit (h ! 1) 0"

definition from_ds :: "u8 list \<Rightarrow> bool" where
  "from_ds h \<longleftrightarrow> bit (h ! 1) 1"

definition frame_addr :: "nat \<Rightarrow> u8 list \<Rightarrow> u8 list" where
  "frame_addr n h = take 6 (drop ([4, 10, 16, 24] ! (n - 1)) h)"

definition frame_da :: "u8 list \<Rightarrow> u8 list" where
  "frame_da h = frame_addr (if to_ds h then 3 else 1) h"

definition frame_sa :: "u8 list \<Rightarrow> u8 list" where
  "frame_sa h = frame_addr (if \<not> from_ds h then 2 else if to_ds h then 4 else 3) h"

subsection \<open>The block function of the code\<close>

lemma ROL32_rotl:
  assumes "0 < n" "n < 32"
  shows "ROL32 a n = word_rotl n a"
proof (rule bit_word_eqI)
  fix k assume k: "k < LENGTH(32)"
  show "bit (ROL32 a n) k = bit (word_rotl n a) k"
  proof (cases "k < n")
    case True
    then have "(k + (32 - n)) mod 32 = 32 - n + k" using assms by simp
    then show ?thesis
      using True assms k by (simp add: ROL32_def bit_or_iff bit_and_iff bit_push_bit_iff bit_drop_bit_eq bit_mask_iff
          bit_word_rotl_iff)
  next
    case False
    then have "k + (32 - n) = k - n + 32" using assms by simp
    then have "(k + (32 - n)) mod 32 = k - n" using k by (simp only: mod_add_self2) simp
    then show ?thesis
      using False assms k by (simp add: ROL32_def bit_or_iff bit_and_iff bit_push_bit_iff bit_drop_bit_eq bit_mask_iff
          bit_word_rotl_iff)
  qed
qed

lemma ROR32_rotr: "ROR32 a 2 = word_rotr 2 a"
  by (simp add: ROR32_def ROL32_rotl word_rotl_eq_word_rotr)

lemma xswap_masks: "drop_bit 8 (w AND 0xff00ff00) OR push_bit 8 (w AND 0x00ff00ff) = xswap w"
proof -
  have m: "(0xff00ff00 :: u32) = push_bit 8 (mask 8) OR push_bit 24 (mask 8)" "(0x00ff00ff :: u32) = mask 8 OR push_bit 16 (mask 8)"
    by (simp_all add: mask_eq_exp_minus_1 push_bit_eq_mult)
  show ?thesis
    unfolding m xswap_def Let_def put_le32_def get_le32_def
    by (rule bit_word_eqI)
      (auto simp: bit_or_iff bit_and_iff bit_push_bit_iff bit_drop_bit_eq bit_mask_iff bit_ucast_iff not_less dest: bit_imp_le_length)
qed

lemma michael_block_mix: "michael_block (l, r) w = michael_mix (l XOR w) r"
proof -
  have "ROL32 a 17 = word_rotl 17 a" "ROL32 a 3 = word_rotl 3 a" for a by (simp_all add: ROL32_rotl)
  then show ?thesis
    by (simp only: michael_block_def michael_step_def michael_mix_def Let_def split_conv ROR32_rotr xswap_masks)
qed

text \<open>The block function on the test vectors of the standard.\<close>

lemma michael_block_vectors:
  "michael_block (0, 1) 0 = (0xc00015a8, 0xc0000b95)"
  "michael_block (1, 0) 0 = (0x6b519593, 0x572b8b8a)"
  "michael_block (0x01234567, 0x83659326) 0 = (0x441492c2, 0x1d8427ed)"
  by (simp_all add: michael_block_mix michael_mix_def ROL32_def ROR32_def Let_def mask_eq_exp_minus_1)

subsection \<open>The accumulator holds the unfinished word\<close>

lemma le_snoc:
  "le_rest (xs @ [b]) = (if length (le_rest xs) = 3 then [] else le_rest xs @ [b])"
  "le_words (xs @ [b]) =
     (if length (le_rest xs) = 3
      then le_words xs @ [get_le32 (le_rest xs ! 0) (le_rest xs ! 1) (le_rest xs ! 2) b] else le_words xs)"
  by (induction xs rule: le_rest.induct) auto

lemma le_rest_length: "length (le_rest xs) = length xs mod 4"
  by (induction xs rule: le_rest.induct) auto

lemma le_rest_less [simp]: "length (le_rest xs) < 4"
  by (simp add: le_rest_length)

lemma get_le32_accu:
  "length xs = 3 \<Longrightarrow>
   secmicgetuint32 0 xs OR push_bit 24 (ucast b) = get_le32 (xs ! 0) (xs ! 1) (xs ! 2) b"
  by (auto simp: numeral_3_eq_3 length_Suc_conv get_le32_def or.assoc or.commute or.left_commute)

lemma secmicgetuint32_snoc:
  "secmicgetuint32 i (xs @ [b]) = secmicgetuint32 i xs OR push_bit (8 * (i + length xs)) (ucast b)"
  by (induction xs arbitrary: i) (simp_all add: or.assoc add.assoc)

definition mic_rel :: "u32 \<times> u32 \<Rightarrow> u8 list \<Rightarrow> mic_data \<Rightarrow> bool" where
  "mic_rel k msg d \<longleftrightarrow> (mic_K0 d, mic_K1 d) = k \<and> nBytesInM d = length (le_rest msg) \<and>
     mic_M d = secmicgetuint32 0 (le_rest msg) \<and> (mic_L d, mic_R d) = foldl michael_block k (le_words msg)"

lemma mic_rel_byte: "mic_rel k msg d \<Longrightarrow> mic_rel k (msg @ [b]) (rtw_secmicappendbyte d b)"
proof (cases "length (le_rest msg) = 3")
  case True
  assume r: "mic_rel k msg d"
  have "secmicgetuint32 0 (le_rest msg) OR push_bit 24 (ucast b) =
      get_le32 (le_rest msg ! 0) (le_rest msg ! 1) (le_rest msg ! 2) b"
    using True by (rule get_le32_accu)
  moreover have "foldl michael_block k (le_words msg) = (mic_L d, mic_R d)"
    using r by (simp add: mic_rel_def)
  ultimately show ?thesis
    using r True
    by (auto simp: mic_rel_def rtw_secmicappendbyte_def le_snoc michael_block_mix split: prod.splits)
next
  case False
  assume r: "mic_rel k msg d"
  moreover have "length (le_rest msg) < 3" using False le_rest_less [of msg] by linarith
  ultimately show ?thesis
    using False by (simp add: mic_rel_def rtw_secmicappendbyte_def le_snoc secmicgetuint32_snoc)
qed

lemma mic_rel_append: "mic_rel k msg d \<Longrightarrow> mic_rel k (msg @ xs) (rtw_secmicappend d xs)"
proof (induction xs arbitrary: msg d)
  case (Cons x xs)
  from Cons.IH [OF mic_rel_byte [OF Cons.prems, of x]] show ?case by simp
qed simp

lemma mic_rel_clear: "mic_rel (mic_K0 d, mic_K1 d) [] (secmicclear d)"
  by (simp add: mic_rel_def secmicclear_def)

lemma pad_count:
  assumes "l' = Suc l" and "l mod 4 \<noteq> 0"
  shows "(4 - l mod 4) mod 4 = Suc ((4 - l' mod 4) mod 4)"
proof -
  have "l mod 4 < 4" by simp
  then have "l mod 4 = 1 \<or> l mod 4 = 2 \<or> l mod 4 = 3" using assms(2) by linarith
  then show ?thesis by (auto simp: assms(1) mod_Suc)
qed

lemma pad_five: "7 - length msg mod 4 = 4 + (4 - length (msg @ [a, b, c, d, e]) mod 4) mod 4"
proof -
  have "length msg mod 4 < 4" by simp
  then have "length msg mod 4 = 0 \<or> length msg mod 4 = 1 \<or> length msg mod 4 = 2 \<or> length msg mod 4 = 3"
    by linarith
  moreover have "length (msg @ [a, b, c, d, e]) mod 4 = (length msg mod 4 + 1) mod 4"
    by (simp add: mod_simps) presburger
  ultimately show ?thesis by auto
qed

lemma mic_rel_pad_loop:
  "mic_rel k msg d \<Longrightarrow> mic_rel k (msg @ replicate ((4 - length msg mod 4) mod 4) 0) (mic_pad_loop d)"
proof (induction d arbitrary: msg rule: mic_pad_loop.induct)
  case (1 d)
  have n: "nBytesInM d = length msg mod 4" using 1(2) by (simp add: mic_rel_def le_rest_length)
  show ?case
  proof (cases "nBytesInM d = 0")
    case True
    then show ?thesis using 1(2) n by (simp add: mic_pad_loop.simps [of d])
  next
    case False
    have "(4 - length msg mod 4) mod 4 = Suc ((4 - length (msg @ [0]) mod 4) mod 4)"
      using False n by (intro pad_count) simp_all
    then have pad: "msg @ replicate ((4 - length msg mod 4) mod 4) 0 =
        (msg @ [0]) @ replicate ((4 - length (msg @ [0]) mod 4) mod 4) 0"
      by (simp only: replicate.simps append_assoc append_Cons append_Nil)
    have "mic_pad_loop d = mic_pad_loop (rtw_secmicappendbyte d 0)"
      using False by (subst mic_pad_loop.simps) simp
    then show ?thesis
      using 1(1) [OF False mic_rel_byte [OF 1(2)]] by (simp only: pad)
  qed
qed

lemma ucast_low_byte: "(ucast (w AND 0xff :: u32) :: u8) = ucast w"
  unfolding ff_mask32 by (rule bit_word_eqI) (auto simp: bit_simps)

lemma secmicput_le32: "secmicputuint32 4 w = put_le32 w"
proof -
  have "(4 :: nat) = Suc (Suc (Suc (Suc 0)))" by simp
  then show ?thesis
    by (simp only: secmicputuint32.simps put_le32_def ucast_low_byte drop_bit_drop_bit) simp
qed

lemma length_4: "length xs = 4 \<Longrightarrow> \<exists>a b c d. xs = [a, b, c, d]"
  by (auto simp: length_Suc_conv numeral_eq_Suc)

lemma length_8: "length xs = 8 \<Longrightarrow> \<exists>a b c d e f g h. xs = [a, b, c, d, e, f, g, h]"
  by (auto simp: length_Suc_conv numeral_eq_Suc)

lemma replicate_4: "replicate 4 x = [x, x, x, x]"
  by (simp add: numeral_eq_Suc)

lemma get_le32_uint: "secmicgetuint32 0 [a, b, c, d] = get_le32 a b c d"
  by (simp add: get_le32_def or.assoc or.commute or.left_commute)

lemma rtw_secgetmic_rel:
  assumes "mic_rel k msg d"
  shows "fst (rtw_secgetmic d) =
    (let (l, r) = foldl michael_block k (le_words (michael_pad msg)) in put_le32 l @ put_le32 r)"
proof -
  let ?m = "msg @ [0x5a, 0, 0, 0, 0]"
  let ?d2 = "rtw_secmicappend d [0x5a, 0, 0, 0, 0]" and ?n = "(4 - length ?m mod 4) mod 4"
  have r: "mic_rel k (?m @ replicate ?n 0) (mic_pad_loop ?d2)"
    using mic_rel_pad_loop [OF mic_rel_append [OF assms]] .
  have "7 - length msg mod 4 = 4 + ?n" by (rule pad_five)
  then have "michael_pad msg = ?m @ replicate ?n 0"
    by (simp add: michael_pad_def replicate_add replicate_4)
  moreover have "rtw_secgetmic d =
      (put_le32 (mic_L (mic_pad_loop ?d2)) @ put_le32 (mic_R (mic_pad_loop ?d2)), secmicclear (mic_pad_loop ?d2))"
    by (simp add: rtw_secgetmic_def Let_def secmicput_le32)
  moreover have "foldl michael_block k (le_words (?m @ replicate ?n 0)) =
      (mic_L (mic_pad_loop ?d2), mic_R (mic_pad_loop ?d2))"
    using r by (simp only: mic_rel_def)
  ultimately show ?thesis by (simp only: fst_conv prod.case Let_def)
qed

lemma seccalctkipmic_value:
  assumes "length key = 8" and "mic_addresses header = Inr (da, sa)" and "data_len \<le> length dat"
  shows "rtw_seccalctkipmic key header dat data_len pri =
    Inr (michael key (da @ sa @ [pri, 0, 0, 0] @ take data_len dat))"
proof -
  obtain a b c d e f g h where key: "key = [a, b, c, d, e, f, g, h]"
    using length_8 [OF assms(1)] by blast
  let ?k = "(get_le32 a b c d, get_le32 e f g h)"
  have set_key: "\<exists>d0. rtw_secmicsetkey mic_zero key = Inr d0 \<and> mic_rel ?k [] d0"
    using mic_rel_clear [of "mic_zero\<lparr>mic_K0 := get_le32 a b c d, mic_K1 := get_le32 e f g h\<rparr>"]
    by (simp add: rtw_secmicsetkey_def key rdn_def get_le32_uint del: secmicgetuint32.simps)
  then obtain d0 where d0: "rtw_secmicsetkey mic_zero key = Inr d0" "mic_rel ?k [] d0" by blast
  let ?d = "rtw_secmicappend (rtw_secmicappend (rtw_secmicappend (rtw_secmicappend d0 da) sa) [pri, 0, 0, 0])
    (take data_len dat)"
  have "mic_rel ?k (((([] @ da) @ sa) @ [pri, 0, 0, 0]) @ take data_len dat) ?d"
    by (intro mic_rel_append d0(2))
  then have "fst (rtw_secgetmic ?d) = michael key (da @ sa @ [pri, 0, 0, 0] @ take data_len dat)"
    by (simp add: rtw_secgetmic_rel michael_def key)
  then show ?thesis
    using assms(2,3) d0(1) by (simp add: rtw_seccalctkipmic_def rdn_ok Let_def)
qed

lemma mic_addresses_frame:
  assumes "(if to_ds h \<and> from_ds h then 30 else 22) \<le> length h"
  shows "mic_addresses h = Inr (frame_da h, frame_sa h)"
proof -
  have "h ! 1 AND 1 = 0 \<longleftrightarrow> \<not> to_ds h" and "h ! 1 AND 2 = 0 \<longleftrightarrow> \<not> from_ds h"
    using and_exp_eq_0_iff_not_bit [of "h ! 1" 0] and_exp_eq_0_iff_not_bit [of "h ! 1" 1] by (simp_all add: to_ds_def from_ds_def)
  then show ?thesis
    using assms by (auto simp: mic_addresses_def rd_def rdn_def frame_da_def frame_sa_def frame_addr_def split: if_splits)
qed

text \<open>C12: The byte-at-a-time code behind \<open>rtw_seccalctkipmic\<close> computes Michael, as the standard defines it on the words
  of the padded message, over the destination address, the source address, the priority, three zero bytes and the data.
  The addresses are those the standard names for the ToDS and FromDS bits of the header: the destination is address 3
  with ToDS and address 1 without; the source is address 2 without FromDS, address 3 with FromDS alone, and address 4
  with both.\<close>

theorem rtw_seccalctkipmic_michael:
  assumes "length key = 8" and "(if to_ds header \<and> from_ds header then 30 else 22) \<le> length header"
    and "data_len \<le> length dat"
  shows "rtw_seccalctkipmic key header dat data_len pri =
    Inr (michael key (frame_da header @ frame_sa header @ [pri, 0, 0, 0] @ take data_len dat))"
  using assms(1) mic_addresses_frame [OF assms(2)] assms(3) by (rule seccalctkipmic_value)

text \<open>A frame with four addresses.\<close>

theorem rtw_seccalctkipmic_michael_witness:
  "rtw_seccalctkipmic [1, 2, 3, 4, 5, 6, 7, 8]
     ([8, 3, 2, 3, 4, 5, 6, 7, 8, 9, 10, 11, 12, 13, 14, 15, 16, 17, 18, 19, 20, 21, 22, 23, 24, 25, 26, 27, 28, 29]) [170, 3] 2 5 =
   Inr (michael [1, 2, 3, 4, 5, 6, 7, 8] ([16, 17, 18, 19, 20, 21] @ [24, 25, 26, 27, 28, 29] @ [5, 0, 0, 0] @ [170, 3]))"
  by (subst rtw_seccalctkipmic_michael) (simp_all add: frame_da_def frame_sa_def frame_addr_def to_ds_def from_ds_def)

section \<open>Key mixing\<close>

definition RotR1 :: "u16 \<Rightarrow> u16" where
  "RotR1 v = (drop_bit 1 v AND 0x7FFF) XOR push_bit 15 (v AND 1)"

definition Mk16 :: "u8 \<Rightarrow> u8 \<Rightarrow> u16" where
  "Mk16 hi lo = ucast lo XOR push_bit 8 (ucast hi)"

definition Lo8 :: "u16 \<Rightarrow> u8" where "Lo8 v = ucast (v AND 0x00FF)"
definition Hi8 :: "u16 \<Rightarrow> u8" where "Hi8 v = ucast (drop_bit 8 v AND 0x00FF)"
definition Lo16 :: "u32 \<Rightarrow> u16" where "Lo16 v = ucast (v AND 0xFFFF)"
definition Hi16 :: "u32 \<Rightarrow> u16" where "Hi16 v = ucast (drop_bit 16 v AND 0xFFFF)"

text \<open>The temporal key has 16 bytes.\<close>

definition TK16 :: "u8 list \<Rightarrow> nat \<Rightarrow> u16" where
  "TK16 tk n = Mk16 (tk ! (2 * n + 1)) (tk ! (2 * n))"

definition Sbox1_0 :: "u16 list" where
  "Sbox1_0 =
    [0xC6A5, 0xF884, 0xEE99, 0xF68D, 0xFF0D, 0xD6BD, 0xDEB1, 0x9154, 0x6050, 0x0203, 0xCEA9, 0x567D,
     0xE719, 0xB562, 0x4DE6, 0xEC9A, 0x8F45, 0x1F9D, 0x8940, 0xFA87, 0xEF15, 0xB2EB, 0x8EC9, 0xFB0B,
     0x41EC, 0xB367, 0x5FFD, 0x45EA, 0x23BF, 0x53F7, 0xE496, 0x9B5B, 0x75C2, 0xE11C, 0x3DAE, 0x4C6A,
     0x6C5A, 0x7E41, 0xF502, 0x834F, 0x685C, 0x51F4, 0xD134, 0xF908, 0xE293, 0xAB73, 0x6253, 0x2A3F,
     0x080C, 0x9552, 0x4665, 0x9D5E, 0x3028, 0x37A1, 0x0A0F, 0x2FB5, 0x0E09, 0x2436, 0x1B9B, 0xDF3D,
     0xCD26, 0x4E69, 0x7FCD, 0xEA9F, 0x121B, 0x1D9E, 0x5874, 0x342E, 0x362D, 0xDCB2, 0xB4EE, 0x5BFB,
     0xA4F6, 0x764D, 0xB761, 0x7DCE, 0x527B, 0xDD3E, 0x5E71, 0x1397, 0xA6F5, 0xB968, 0x0000, 0xC12C,
     0x4060, 0xE31F, 0x79C8, 0xB6ED, 0xD4BE, 0x8D46, 0x67D9, 0x724B, 0x94DE, 0x98D4, 0xB0E8, 0x854A,
     0xBB6B, 0xC52A, 0x4FE5, 0xED16, 0x86C5, 0x9AD7, 0x6655, 0x1194, 0x8ACF, 0xE910, 0x0406, 0xFE81,
     0xA0F0, 0x7844, 0x25BA, 0x4BE3, 0xA2F3, 0x5DFE, 0x80C0, 0x058A, 0x3FAD, 0x21BC, 0x7048, 0xF104,
     0x63DF, 0x77C1, 0xAF75, 0x4263, 0x2030, 0xE51A, 0xFD0E, 0xBF6D, 0x814C, 0x1814, 0x2635, 0xC32F,
     0xBEE1, 0x35A2, 0x88CC, 0x2E39, 0x9357, 0x55F2, 0xFC82, 0x7A47, 0xC8AC, 0xBAE7, 0x322B, 0xE695,
     0xC0A0, 0x1998, 0x9ED1, 0xA37F, 0x4466, 0x547E, 0x3BAB, 0x0B83, 0x8CCA, 0xC729, 0x6BD3, 0x283C,
     0xA779, 0xBCE2, 0x161D, 0xAD76, 0xDB3B, 0x6456, 0x744E, 0x141E, 0x92DB, 0x0C0A, 0x486C, 0xB8E4,
     0x9F5D, 0xBD6E, 0x43EF, 0xC4A6, 0x39A8, 0x31A4, 0xD337, 0xF28B, 0xD532, 0x8B43, 0x6E59, 0xDAB7,
     0x018C, 0xB164, 0x9CD2, 0x49E0, 0xD8B4, 0xACFA, 0xF307, 0xCF25, 0xCAAF, 0xF48E, 0x47E9, 0x1018,
     0x6FD5, 0xF088, 0x4A6F, 0x5C72, 0x3824, 0x57F1, 0x73C7, 0x9751, 0xCB23, 0xA17C, 0xE89C, 0x3E21,
     0x96DD, 0x61DC, 0x0D86, 0x0F85, 0xE090, 0x7C42, 0x71C4, 0xCCAA, 0x90D8, 0x0605, 0xF701, 0x1C12,
     0xC2A3, 0x6A5F, 0xAEF9, 0x69D0, 0x1791, 0x9958, 0x3A27, 0x27B9, 0xD938, 0xEB13, 0x2BB3, 0x2233,
     0xD2BB, 0xA970, 0x0789, 0x33A7, 0x2DB6, 0x3C22, 0x1592, 0xC920, 0x8749, 0xAAFF, 0x5078, 0xA57A,
     0x038F, 0x59F8, 0x0980, 0x1A17, 0x65DA, 0xD731, 0x84C6, 0xD0B8, 0x82C3, 0x29B0, 0x5A77, 0x1E11,
     0x7BCB, 0xA8FC, 0x6DD6, 0x2C3A]"

definition Sbox1_1 :: "u16 list" where
  "Sbox1_1 =
    [0xA5C6, 0x84F8, 0x99EE, 0x8DF6, 0x0DFF, 0xBDD6, 0xB1DE, 0x5491, 0x5060, 0x0302, 0xA9CE, 0x7D56,
     0x19E7, 0x62B5, 0xE64D, 0x9AEC, 0x458F, 0x9D1F, 0x4089, 0x87FA, 0x15EF, 0xEBB2, 0xC98E, 0x0BFB,
     0xEC41, 0x67B3, 0xFD5F, 0xEA45, 0xBF23, 0xF753, 0x96E4, 0x5B9B, 0xC275, 0x1CE1, 0xAE3D, 0x6A4C,
     0x5A6C, 0x417E, 0x02F5, 0x4F83, 0x5C68, 0xF451, 0x34D1, 0x08F9, 0x93E2, 0x73AB, 0x5362, 0x3F2A,
     0x0C08, 0x5295, 0x6546, 0x5E9D, 0x2830, 0xA137, 0x0F0A, 0xB52F, 0x090E, 0x3624, 0x9B1B, 0x3DDF,
     0x26CD, 0x694E, 0xCD7F, 0x9FEA, 0x1B12, 0x9E1D, 0x7458, 0x2E34, 0x2D36, 0xB2DC, 0xEEB4, 0xFB5B,
     0xF6A4, 0x4D76, 0x61B7, 0xCE7D, 0x7B52, 0x3EDD, 0x715E, 0x9713, 0xF5A6, 0x68B9, 0x0000, 0x2CC1,
     0x6040, 0x1FE3, 0xC879, 0xEDB6, 0xBED4, 0x468D, 0xD967, 0x4B72, 0xDE94, 0xD498, 0xE8B0, 0x4A85,
     0x6BBB, 0x2AC5, 0xE54F, 0x16ED, 0xC586, 0xD79A, 0x5566, 0x9411, 0xCF8A, 0x10E9, 0x0604, 0x81FE,
     0xF0A0, 0x4478, 0xBA25, 0xE34B, 0xF3A2, 0xFE5D, 0xC080, 0x8A05, 0xAD3F, 0xBC21, 0x4870, 0x04F1,
     0xDF63, 0xC177, 0x75AF, 0x6342, 0x3020, 0x1AE5, 0x0EFD, 0x6DBF, 0x4C81, 0x1418, 0x3526, 0x2FC3,
     0xE1BE, 0xA235, 0xCC88, 0x392E, 0x5793, 0xF255, 0x82FC, 0x477A, 0xACC8, 0xE7BA, 0x2B32, 0x95E6,
     0xA0C0, 0x9819, 0xD19E, 0x7FA3, 0x6644, 0x7E54, 0xAB3B, 0x830B, 0xCA8C, 0x29C7, 0xD36B, 0x3C28,
     0x79A7, 0xE2BC, 0x1D16, 0x76AD, 0x3BDB, 0x5664, 0x4E74, 0x1E14, 0xDB92, 0x0A0C, 0x6C48, 0xE4B8,
     0x5D9F, 0x6EBD, 0xEF43, 0xA6C4, 0xA839, 0xA431, 0x37D3, 0x8BF2, 0x32D5, 0x438B, 0x596E, 0xB7DA,
     0x8C01, 0x64B1, 0xD29C, 0xE049, 0xB4D8, 0xFAAC, 0x07F3, 0x25CF, 0xAFCA, 0x8EF4, 0xE947, 0x1810,
     0xD56F, 0x88F0, 0x6F4A, 0x725C, 0x2438, 0xF157, 0xC773, 0x5197, 0x23CB, 0x7CA1, 0x9CE8, 0x213E,
     0xDD96, 0xDC61, 0x860D, 0x850F, 0x90E0, 0x427C, 0xC471, 0xAACC, 0xD890, 0x0506, 0x01F7, 0x121C,
     0xA3C2, 0x5F6A, 0xF9AE, 0xD069, 0x9117, 0x5899, 0x273A, 0xB927, 0x38D9, 0x13EB, 0xB32B, 0x3322,
     0xBBD2, 0x70A9, 0x8907, 0xA733, 0xB62D, 0x223C, 0x9215, 0x20C9, 0x4987, 0xFFAA, 0x7850, 0x7AA5,
     0x8F03, 0xF859, 0x8009, 0x171A, 0xDA65, 0x31D7, 0xC684, 0xB8D0, 0xC382, 0xB029, 0x775A, 0x111E,
     0xCB7B, 0xFCA8, 0xD66D, 0x3A2C]"

definition S16 :: "u16 \<Rightarrow> u16" where
  "S16 v = Sbox1_0 ! unat (Lo8 v) XOR Sbox1_1 ! unat (Hi8 v)"

text \<open>The arrays \<open>P1K\<close> and \<open>PPK\<close> of five and six words are tuples.\<close>

type_synonym p1k = "u16 \<times> u16 \<times> u16 \<times> u16 \<times> u16"
type_synonym ppk = "u16 \<times> u16 \<times> u16 \<times> u16 \<times> u16 \<times> u16"

definition phase1_round :: "u8 list \<Rightarrow> nat \<Rightarrow> p1k \<Rightarrow> p1k" where
  "phase1_round tk i = (\<lambda>(p0, p1, p2, p3, p4).
     let b = i mod 2;
         p0 = p0 + S16 (p4 XOR TK16 tk (b + 0));
         p1 = p1 + S16 (p0 XOR TK16 tk (b + 2));
         p2 = p2 + S16 (p1 XOR TK16 tk (b + 4));
         p3 = p3 + S16 (p2 XOR TK16 tk (b + 6));
         p4 = p4 + S16 (p3 XOR TK16 tk (b + 0));
         p4 = p4 + of_nat i
     in (p0, p1, p2, p3, p4))"

definition phase1_init :: "u8 list \<Rightarrow> u32 \<Rightarrow> p1k" where
  "phase1_init addr iv32 =
     (Lo16 iv32, Hi16 iv32, Mk16 (addr ! 1) (addr ! 0), Mk16 (addr ! 3) (addr ! 2), Mk16 (addr ! 5) (addr ! 4))"

definition phase1 :: "u8 list \<Rightarrow> u8 list \<Rightarrow> u32 \<Rightarrow> p1k" where
  "phase1 tk addr iv32 = fold (phase1_round tk) [0..<8] (phase1_init addr iv32)"

definition phase2_mix :: "u8 list \<Rightarrow> ppk \<Rightarrow> ppk" where
  "phase2_mix tk = (\<lambda>(k0, k1, k2, k3, k4, k5).
     let k0 = k0 + S16 (k5 XOR TK16 tk 0);
         k1 = k1 + S16 (k0 XOR TK16 tk 1);
         k2 = k2 + S16 (k1 XOR TK16 tk 2);
         k3 = k3 + S16 (k2 XOR TK16 tk 3);
         k4 = k4 + S16 (k3 XOR TK16 tk 4);
         k5 = k5 + S16 (k4 XOR TK16 tk 5)
     in (k0, k1, k2, k3, k4, k5))"

definition phase2_sweep :: "u8 list \<Rightarrow> ppk \<Rightarrow> ppk" where
  "phase2_sweep tk = (\<lambda>(k0, k1, k2, k3, k4, k5).
     let k0 = k0 + RotR1 (k5 XOR TK16 tk 6);
         k1 = k1 + RotR1 (k0 XOR TK16 tk 7);
         k2 = k2 + RotR1 k1;
         k3 = k3 + RotR1 k2;
         k4 = k4 + RotR1 k3;
         k5 = k5 + RotR1 k4
     in (k0, k1, k2, k3, k4, k5))"

definition phase2 :: "u8 list \<Rightarrow> p1k \<Rightarrow> u16 \<Rightarrow> u8 list" where
  "phase2 tk = (\<lambda>(p0, p1, p2, p3, p4) iv16.
     let (k0, k1, k2, k3, k4, k5) = phase2_sweep tk (phase2_mix tk (p0, p1, p2, p3, p4, p4 + iv16))
     in [Hi8 iv16, (Hi8 iv16 OR 0x20) AND 0x7F, Lo8 iv16, Lo8 (drop_bit 1 (k5 XOR TK16 tk 0)),
         Lo8 k0, Hi8 k0, Lo8 k1, Hi8 k1, Lo8 k2, Hi8 k2, Lo8 k3, Hi8 k3, Lo8 k4, Hi8 k4, Lo8 k5, Hi8 k5])"

subsection \<open>Every packet has its own key\<close>

lemma Lo8_Hi8_inj: "Lo8 a = Lo8 b \<Longrightarrow> Hi8 a = Hi8 b \<Longrightarrow> a = b"
proof (rule bit_word_eqI)
  fix n
  assume l: "Lo8 a = Lo8 b" and h: "Hi8 a = Hi8 b" and "n < LENGTH(16)"
  then consider "n < 8" | m where "n = 8 + m" "m < 8" by (cases "n < 8") (auto simp: not_less le_iff_add)
  then show "bit a n = bit b n"
  proof cases
    case 1
    with arg_cong [OF l, of "\<lambda>x. bit x n"] show ?thesis by (simp add: Lo8_def ff_mask bit_simps)
  next
    case 2
    with arg_cong [OF h, of "\<lambda>x. bit x m"] show ?thesis by (simp add: Hi8_def ff_mask bit_simps)
  qed
qed

lemma Lo16_Hi16_inj: "Lo16 a = Lo16 b \<Longrightarrow> Hi16 a = Hi16 b \<Longrightarrow> a = b"
proof (rule bit_word_eqI)
  fix n
  have m: "(0xFFFF :: u32) = mask 16" by (simp add: mask_numeral)
  assume l: "Lo16 a = Lo16 b" and h: "Hi16 a = Hi16 b" and "n < LENGTH(32)"
  then consider "n < 16" | m where "n = 16 + m" "m < 16" by (cases "n < 16") (auto simp: not_less le_iff_add)
  then show "bit a n = bit b n"
  proof cases
    case 1
    with arg_cong [OF l, of "\<lambda>x. bit x n"] show ?thesis by (simp add: Lo16_def m bit_simps)
  next
    case 2
    with arg_cong [OF h, of "\<lambda>x. bit x m"] show ?thesis by (simp add: Hi16_def m bit_simps)
  qed
qed

lemma Mk16_Lo8: "Lo8 (Mk16 hi lo) = lo" and Mk16_Hi8: "Hi8 (Mk16 hi lo) = hi"
  unfolding Lo8_def Hi8_def Mk16_def ff_mask
  by (rule bit_word_eqI; auto simp: bit_simps dest: bit_imp_le_length)+

lemma Mk16_inj: "Mk16 a b = Mk16 c d \<Longrightarrow> a = c \<and> b = d"
  by (metis Mk16_Lo8 Mk16_Hi8)

lemma phase1_round_inj: "phase1_round tk i p = phase1_round tk i q \<Longrightarrow> p = q"
  by (cases p; cases q) (auto simp: phase1_round_def Let_def)

lemma fold_inj:
  assumes "fold f xs a = fold f xs b" and step: "\<And>i p q. f i p = f i q \<Longrightarrow> p = q"
  shows "a = b"
  using assms(1)
proof (induction xs arbitrary: a b)
  case (Cons x xs)
  from Cons.prems have "fold f xs (f x a) = fold f xs (f x b)" by simp
  then have "f x a = f x b" by (rule Cons.IH)
  then show ?case by (rule step)
qed simp

lemma phase2_mix_inj: "phase2_mix tk p = phase2_mix tk q \<Longrightarrow> p = q"
  by (cases p; cases q) (auto simp: phase2_mix_def Let_def)

lemma phase2_sweep_inj: "phase2_sweep tk p = phase2_sweep tk q \<Longrightarrow> p = q"
  by (cases p; cases q) (auto simp: phase2_sweep_def Let_def)

lemma phase2_inj:
  assumes "phase2 tk p iv16 = phase2 tk p' iv16'"
  shows "p = p' \<and> iv16 = iv16'"
proof -
  obtain p0 p1 p2 p3 p4 where p: "p = (p0, p1, p2, p3, p4)" by (cases p)
  obtain q0 q1 q2 q3 q4 where q: "p' = (q0, q1, q2, q3, q4)" by (cases p')
  have iv: "iv16 = iv16'"
    using assms by (auto simp: phase2_def p q Let_def split: prod.splits intro: Lo8_Hi8_inj)
  have "phase2_sweep tk (phase2_mix tk (p0, p1, p2, p3, p4, p4 + iv16)) =
      phase2_sweep tk (phase2_mix tk (q0, q1, q2, q3, q4, q4 + iv16'))"
    using assms by (auto simp: phase2_def p q Let_def split: prod.splits intro!: Lo8_Hi8_inj)
  then have "(p0, p1, p2, p3, p4, p4 + iv16) = (q0, q1, q2, q3, q4, q4 + iv16')"
    by (metis phase2_sweep_inj phase2_mix_inj)
  with iv show ?thesis by (simp add: p q)
qed

lemma phase1_inj:
  assumes "phase1 tk addr iv32 = phase1 tk addr' iv32'" and "length addr = 6" and "length addr' = 6"
  shows "addr = addr' \<and> iv32 = iv32'"
proof -
  have "phase1_init addr iv32 = phase1_init addr' iv32'"
    using assms(1) unfolding phase1_def by (rule fold_inj) (rule phase1_round_inj)
  then have "iv32 = iv32'" "addr ! 0 = addr' ! 0" "addr ! 1 = addr' ! 1" "addr ! 2 = addr' ! 2" "addr ! 3 = addr' ! 3"
    "addr ! 4 = addr' ! 4" "addr ! 5 = addr' ! 5"
    by (auto simp: phase1_init_def dest: Mk16_inj Lo16_Hi16_inj)
  moreover have "xs = [xs ! 0, xs ! 1, xs ! 2, xs ! 3, xs ! 4, xs ! 5]" if "length xs = 6" for xs :: "u8 list"
    using that by (auto simp: length_Suc_conv numeral_eq_Suc)
  ultimately show ?thesis using assms(2,3) by metis
qed

text \<open>the comment above \<open>phase2\<close> promises that, for a given temporal key, the RC4 key is
  unique across all packets. It is: packets that differ in the transmitter address or in the
  48-bit sequence counter get different RC4 keys.\<close>

theorem tkip_rc4key_unique:
  assumes "length addr = 6" and "length addr' = 6" and "(addr, iv32, iv16) \<noteq> (addr', iv32', iv16')"
  shows "phase2 tk (phase1 tk addr iv32) iv16 \<noteq> phase2 tk (phase1 tk addr' iv32') iv16'"
  using phase2_inj [of tk "phase1 tk addr iv32" iv16 "phase1 tk addr' iv32'" iv16']
    phase1_inj [of tk addr iv32 addr' iv32'] assms by auto

theorem tkip_rc4key_unique_witness:
  "phase2 (replicate 16 3) (phase1 (replicate 16 3) [2, 0, 0, 0, 0, 1] 5) 7 \<noteq>
   phase2 (replicate 16 3) (phase1 (replicate 16 3) [2, 0, 0, 0, 0, 1] 6) 7"
  by (rule tkip_rc4key_unique) simp_all

section \<open>Frames\<close>

definition SUCCESS :: nat where "SUCCESS = 1"
definition FAIL :: nat where "FAIL = 0"

text \<open>\<open>GET_TKIP_PN\<close>: the low 16 and the high 32 bits of the sequence counter, from the eight
  bytes of the extended IV.\<close>

definition GET_TKIP_PN :: "u8 list \<Rightarrow> u16 \<times> u32" where
  "GET_TKIP_PN iv = (get_le16 (iv ! 2) (iv ! 0), get_le32 (iv ! 4) (iv ! 5) (iv ! 6) (iv ! 7))"

definition tkip_rc4key :: "u8 list \<Rightarrow> u8 list \<Rightarrow> u8 list \<Rightarrow> u8 list" where
  "tkip_rc4key prwskey addr iv =
     (let (pnl, pnh) = GET_TKIP_PN iv in phase2 prwskey (phase1 prwskey addr pnh) pnl)"

definition tkip_encrypt_key :: "security_priv \<Rightarrow> pkt_attrib \<Rightarrow> u8 list cres" where
  "tkip_encrypt_key sec at =
     (if IS_MCAST (ra at) then nth_chk (dot118021XGrpKey sec) (dot118021XGrpKeyid sec)
      else Inr (dot118021x_UncstKey at))"

definition tkip_encrypt_frag ::
  "security_priv \<times> pkt_attrib \<Rightarrow> nat \<Rightarrow> int \<Rightarrow> u8 list \<Rightarrow> u8 list cres" where
  "tkip_encrypt_frag = (\<lambda>(sec, at) pframe len mem.
     bindc (tkip_encrypt_key sec at) (\<lambda>prwskey.
     bindc (rdn mem (pframe + hdrlen at) 8) (\<lambda>iv.
     rc4_seal (tkip_rc4key prwskey (ta at) iv) 16 mem (pframe + iv_len at + hdrlen at) len)))"

definition rtw_tkip_encrypt ::
  "security_priv \<Rightarrow> pkt_attrib \<Rightarrow> nat \<Rightarrow> nat option \<Rightarrow> u8 list \<Rightarrow> (nat \<times> u8 list \<times> security_priv) cres" where
  "rtw_tkip_encrypt sec at frag_len buf_addr mem =
     (case buf_addr of None \<Rightarrow> Inr (FAIL, mem, sec)
      | Some base \<Rightarrow>
        (if encrypt at = TKIP then
           bindc (frag_loop (tkip_encrypt_frag (sec, at)) at frag_len base (nr_frags at) TXDESC_OFFSET mem)
             (\<lambda>mem'. Inr (SUCCESS, mem', sec\<lparr>tkip_sw_enc_cnt := sw_cnt_inc (ra at) (tkip_sw_enc_cnt sec)\<rparr>))
         else Inr (SUCCESS, mem, sec)))"

text \<open>Decrypting \<open>len\<close> bytes, the last four of which must then be the check value of the others.\<close>

definition rc4_open :: "u8 list \<Rightarrow> nat \<Rightarrow> u8 list \<Rightarrow> nat \<Rightarrow> int \<Rightarrow> (nat \<times> u8 list) cres" where
  "rc4_open key key_len mem payload len =
     bindc (arcfour_init key key_len) (\<lambda>ctx.
     bindc (arcfour_at ctx mem payload (nat (len mod 2 ^ 32))) (\<lambda>(mem', _).
     bindc (rdn mem' payload (nat (len - 4))) (\<lambda>xs.
     if int payload + len - 4 < 0 then Inl OutOfBounds
     else bindc (rdn mem' (nat (int payload + len - 4)) 4) (\<lambda>icv.
     Inr (if icv \<noteq> icv_bytes xs then FAIL else SUCCESS, mem')))))"

text \<open>\<open>stainfo\<close> is the result of \<open>rtw_get_stainfo\<close> for the transmitter: the pairwise key of the
  station, if it is known. The counters of frames without a group key only feed a log line.\<close>

definition rtw_tkip_decrypt ::
  "security_priv \<Rightarrow> rx_pkt_attrib \<Rightarrow> u8 list option \<Rightarrow> u8 list \<Rightarrow> (nat \<times> u8 list \<times> security_priv) cres" where
  "rtw_tkip_decrypt sec at stainfo mem =
     (if rx_encrypt at = TKIP then
        (case stainfo of None \<Rightarrow> Inr (FAIL, mem, sec)
         | Some uncst \<Rightarrow>
           if IS_MCAST (rx_ra at) \<and> \<not> binstallGrpkey sec then Inr (FAIL, mem, sec)
           else
             bindc (if IS_MCAST (rx_ra at) then nth_chk (dot118021XGrpKey sec) (rx_key_index at) else Inr uncst) (\<lambda>prwskey.
             let len = sint32 (usub32 (usub32 (rx_len at) (rx_hdrlen at)) (rx_iv_len at)) in
             bindc (rdn mem (rx_hdrlen at) 8) (\<lambda>iv.
             bindc (rc4_open (tkip_rc4key prwskey (rx_ta at) iv) 16 mem (rx_iv_len at + rx_hdrlen at) len) (\<lambda>(res, mem').
             Inr (res, mem', sec\<lparr>tkip_sw_dec_cnt := sw_cnt_inc (rx_ra at) (tkip_sw_dec_cnt sec)\<rparr>)))))
      else Inr (SUCCESS, mem, sec))"

subsection \<open>The contract\<close>

lemma tkip_rc4key_length [simp]: "length (tkip_rc4key k a iv) = 16"
  by (simp add: tkip_rc4key_def phase2_def GET_TKIP_PN_def Let_def split_beta)

lemma tkip_rc4key_nonempty [simp]: "tkip_rc4key k a iv \<noteq> []"
  using tkip_rc4key_length [of k a iv] by (metis list.size(3) zero_neq_numeral)

definition tkip_ok :: "security_priv \<times> pkt_attrib \<Rightarrow> bool" where
  "tkip_ok = (\<lambda>(sec, at). 8 \<le> iv_len at \<and>
     (IS_MCAST (ra at) \<longrightarrow> dot118021XGrpKeyid sec < length (dot118021XGrpKey sec)))"

definition tkip_sealed :: "security_priv \<times> pkt_attrib \<Rightarrow> u8 list \<Rightarrow> u8 list \<Rightarrow> u8 list" where
  "tkip_sealed = (\<lambda>(sec, at) h xs.
     rc4_stream (tkip_rc4key (projr (tkip_encrypt_key sec at)) (ta at) (chunk h (hdrlen at) 8)) (xs @ icv_bytes xs))"

lemma tkip_frag_written:
  assumes "tkip_ok (sec, at)" and "p + (hdrlen at + iv_len at) + n + 4 \<le> length mem" and "n < 2 ^ 31"
  shows "tkip_encrypt_frag (sec, at) p (int n) mem =
    Inr (written mem (p + (hdrlen at + iv_len at))
      (tkip_sealed (sec, at) (chunk mem p (hdrlen at + iv_len at)) (chunk mem (p + (hdrlen at + iv_len at)) n)))"
proof -
  let ?pay = "p + iv_len at + hdrlen at" and ?iv = "chunk mem (p + hdrlen at) 8"
  have iv: "8 \<le> iv_len at" using assms(1) by (simp add: tkip_ok_def)
  obtain k where k: "tkip_encrypt_key sec at = Inr k"
    using assms(1) by (cases "IS_MCAST (ra at)") (auto simp: tkip_ok_def tkip_encrypt_key_def nth_chk_def)
  let ?key = "tkip_rc4key k (ta at) ?iv"
  have "rc4_seal ?key (length ?key) mem ?pay (int n) =
      Inr (written mem ?pay (rc4_stream ?key (chunk mem ?pay n @ icv_bytes (chunk mem ?pay n))))"
    using assms(2,3) tkip_rc4key_length [of k "ta at" ?iv] by (intro rc4_seal_written) auto
  moreover have "chunk (chunk mem p (hdrlen at + iv_len at)) (hdrlen at) 8 = ?iv"
    using iv by (intro chunk_chunk) simp
  moreover have "rdn mem (p + hdrlen at) 8 = Inr ?iv" using assms(2) iv by (intro rdn_ok) simp
  moreover have "?pay = p + (hdrlen at + iv_len at)" by simp
  ultimately show ?thesis
    unfolding tkip_encrypt_frag_def tkip_sealed_def
    by (simp only: prod.case k bindc_Inr sum.sel tkip_rc4key_length)
qed

interpretation tkip: fragment_cipher tkip_ok "\<lambda>_ _. True" tkip_encrypt_frag "\<lambda>(sec, at). hdrlen at + iv_len at" "\<lambda>_. 4" tkip_sealed
proof (standard, goal_cases)
  case (1 c p n mem)
  then show ?case by (cases c) (simp only: prod.case tkip_frag_written)
next
  case (2 c h xs)
  then show ?case by (cases c) (simp add: tkip_sealed_def)
qed

lemma rc4_open_spec:
  assumes "key \<noteq> []" and "4 \<le> length cs" and "length cs < 2 ^ 31"
    and ys: "ys = rc4_stream key cs" and n: "n = length cs - 4"
  shows "rc4_open key (length key) (h @ cs) (length h) (int (length cs)) =
    Inr (if drop n ys = icv_bytes (take n ys) then SUCCESS else FAIL, h @ ys)"
proof -
  obtain ctx where ctx: "arcfour_init key (length key) = Inr ctx"
    "\<And>xs. rc4_stream key xs = fst (arcfour_encrypt ctx xs)"
    using arcfour_init_stream [OF assms(1)] by blast
  have len: "length ys = length cs" by (simp add: ys)
  obtain c' where "arcfour_encrypt ctx cs = (ys, c')"
    using ctx(2) [of cs] ys by (cases "arcfour_encrypt ctx cs") simp
  then have at: "arcfour_at ctx (h @ cs) (length h) (length cs) = Inr (h @ ys, c')"
    using len by (simp add: arcfour_at_def rdn_ok wrn_def)
  have m: "nat (int (length cs) mod 2 ^ 32) = length cs" using assms(3) by simp
  have i: "nat (int (length cs) - 4) = n" "nat (int (length h) + int (length cs) - 4) = length h + n"
    "\<not> int (length h) + int (length cs) - 4 < 0"
    using assms(2) n by simp_all
  have r: "rdn (h @ ys) (length h) n = Inr (take n ys)" "rdn (h @ ys) (length h + n) 4 = Inr (drop n ys)"
    using assms(2) n len by (simp_all add: rdn_def)
  show ?thesis
    unfolding rc4_open_def m i by (simp only: ctx(1) at bindc_Inr prod.case r i(3) if_False) simp
qed

lemma rtw_tkip_decrypt_run:
  assumes "rx_encrypt rx = TKIP" and "length h = rx_hdrlen rx + rx_iv_len rx" and "8 \<le> rx_iv_len rx"
    and "rx_len rx = length h + length cs" and "rx_len rx < 2 ^ 31" and "4 \<le> length cs"
    and k: "(if IS_MCAST (rx_ra rx) then nth_chk (dot118021XGrpKey sec) (rx_key_index rx) else Inr uncst) = Inr key"
    and ok: "\<not> (IS_MCAST (rx_ra rx) \<and> \<not> binstallGrpkey sec)"
    and ys: "ys = rc4_stream (tkip_rc4key key (rx_ta rx) (chunk h (rx_hdrlen rx) 8)) cs"
    and n: "n = length cs - 4"
  shows "rtw_tkip_decrypt sec rx (Some uncst) (h @ cs) =
    Inr (if drop n ys = icv_bytes (take n ys) then SUCCESS else FAIL, h @ ys,
      sec\<lparr>tkip_sw_dec_cnt := sw_cnt_inc (rx_ra rx) (tkip_sw_dec_cnt sec)\<rparr>)"
proof -
  let ?rc4 = "tkip_rc4key key (rx_ta rx) (chunk h (rx_hdrlen rx) 8)"
  have "length cs < 2 ^ 31" using assms(4,5) by simp
  note op = rc4_open_spec [OF tkip_rc4key_nonempty assms(6) this ys n, of h, unfolded tkip_rc4key_length]
  have l: "sint32 (usub32 (usub32 (rx_len rx) (rx_hdrlen rx)) (rx_iv_len rx)) = int (length cs)"
    using assms(2,4,5) by simp
  have p: "rx_iv_len rx + rx_hdrlen rx = length h" using assms(2) by simp
  have iv: "rdn (h @ cs) (rx_hdrlen rx) 8 = Inr (chunk h (rx_hdrlen rx) 8)"
    using assms(2,3) by (simp add: rdn_def)
  show ?thesis
    unfolding rtw_tkip_decrypt_def
    by (simp only: assms(1) simp_thms if_True option.case ok if_False k bindc_Inr Let_def iv l p op prod.case)
qed

lemma tkip_decrypt_sealed:
  assumes "rx_encrypt rx = TKIP" and "length h = rx_hdrlen rx + rx_iv_len rx" and "8 \<le> rx_iv_len rx"
    and "rx_len rx = length h + length xs + 4" and "rx_len rx < 2 ^ 31" and "\<not> IS_MCAST (rx_ra rx)"
    and "k = tkip_rc4key key (rx_ta rx) (chunk h (rx_hdrlen rx) 8)"
  shows "rtw_tkip_decrypt sec rx (Some key) (h @ rc4_stream k (xs @ icv_bytes xs)) =
    Inr (SUCCESS, h @ rc4_stream k (rc4_stream k (xs @ icv_bytes xs)),
      sec\<lparr>tkip_sw_dec_cnt := sw_cnt_inc (rx_ra rx) (tkip_sw_dec_cnt sec)\<rparr>)"
  using assms by (subst rtw_tkip_decrypt_run [of rx h _ sec key key, OF _ _ _ _ _ _ _ _ refl refl]) simp_all

text \<open>software TKIP decryption accepts a frame exactly when its last four decrypted bytes are
  the CRC-32 of the decrypted bytes before them; it fails without touching the frame when the
  transmitter is unknown or, for a group frame, when no group key is installed.\<close>

theorem rtw_tkip_decrypt_accepts:
  assumes "rx_encrypt rx = TKIP" and "length h = rx_hdrlen rx + rx_iv_len rx" and "8 \<le> rx_iv_len rx"
    and "rx_len rx = length h + length cs" and "rx_len rx < 2 ^ 31" and "4 \<le> length cs"
    and "rx_key_index rx < length (dot118021XGrpKey sec)"
  shows "\<exists>res mem' sec'. rtw_tkip_decrypt sec rx stainfo (h @ cs) = Inr (res, mem', sec') \<and>
    (if stainfo = None \<or> IS_MCAST (rx_ra rx) \<and> \<not> binstallGrpkey sec
     then res = FAIL \<and> mem' = h @ cs \<and> sec' = sec
     else let key = (if IS_MCAST (rx_ra rx) then dot118021XGrpKey sec ! rx_key_index rx else the stainfo);
              ys = rc4_stream (tkip_rc4key key (rx_ta rx) (chunk h (rx_hdrlen rx) 8)) cs;
              n = length cs - 4
          in mem' = h @ ys \<and>
            (res = SUCCESS \<longleftrightarrow> drop n ys = put_le32 (crc32_spec (take n ys))) \<and> (res = SUCCESS \<or> res = FAIL))"
proof (cases "stainfo = None \<or> IS_MCAST (rx_ra rx) \<and> \<not> binstallGrpkey sec")
  case True
  then show ?thesis using assms(1) by (auto simp: rtw_tkip_decrypt_def split: option.split)
next
  case False
  then obtain uncst where st: "stainfo = Some uncst" and ok: "\<not> (IS_MCAST (rx_ra rx) \<and> \<not> binstallGrpkey sec)"
    by auto
  let ?key = "if IS_MCAST (rx_ra rx) then dot118021XGrpKey sec ! rx_key_index rx else uncst"
  have "(if IS_MCAST (rx_ra rx) then nth_chk (dot118021XGrpKey sec) (rx_key_index rx) else Inr uncst) = Inr ?key"
    using assms(7) by (simp add: nth_chk_def)
  note run = rtw_tkip_decrypt_run [OF assms(1-6) this ok refl refl]
  let ?ys = "rc4_stream (tkip_rc4key ?key (rx_ta rx) (chunk h (rx_hdrlen rx) 8)) cs" and ?n = "length cs - 4"
  let ?res = "if drop ?n ?ys = icv_bytes (take ?n ?ys) then SUCCESS else FAIL"
  have "h @ ?ys = h @ ?ys" "?res = SUCCESS \<longleftrightarrow> drop ?n ?ys = put_le32 (crc32_spec (take ?n ?ys))"
    "?res = SUCCESS \<or> ?res = FAIL"
    by (simp_all add: icv_bytes_spec SUCCESS_def FAIL_def)
  note facts = run this
  show ?thesis
    unfolding if_not_P [OF False] Let_def unfolding st option.sel
    by (rule exI [of _ ?res], rule exI [of _ "h @ ?ys"],
        rule exI [of _ "sec\<lparr>tkip_sw_dec_cnt := sw_cnt_inc (rx_ra rx) (tkip_sw_dec_cnt sec)\<rparr>"],
        intro conjI) (rule facts)+
qed

definition tkip_example_rx :: rx_pkt_attrib where
  "tkip_example_rx = \<lparr> rx_hdrlen = 24, rx_encrypt = TKIP, rx_iv_len = 8, rx_ra = replicate 6 0,
     rx_ta = replicate 6 2, rx_key_index = 0, rx_len = 38 \<rparr>"

theorem rtw_tkip_decrypt_accepts_witness:
  "\<exists>res mem' sec'. rtw_tkip_decrypt wep_example_sec tkip_example_rx (Some (replicate 16 7))
      (replicate 32 1 @ [1, 2, 3, 4, 5, 6]) = Inr (res, mem', sec') \<and>
    (let ys = rc4_stream (tkip_rc4key (replicate 16 7) (replicate 6 2) (replicate 8 1)) [1, 2, 3, 4, 5, 6]
     in mem' = replicate 32 1 @ ys \<and>
       (res = SUCCESS \<longleftrightarrow> drop (length [1, 2, 3, 4, 5, 6 :: u8] - 4) ys = put_le32 (crc32_spec (take (length [1, 2, 3, 4, 5, 6 :: u8] - 4) ys))) \<and> (res = SUCCESS \<or> res = FAIL))"
  using rtw_tkip_decrypt_accepts [of tkip_example_rx "replicate 32 1" "[1, 2, 3, 4, 5, 6]" wep_example_sec
      "Some (replicate 16 7)"]
  by (simp add: tkip_example_rx_def wep_example_sec_def IS_MCAST_def)

text \<open>C13: TKIP round trip. \<open>rtw_tkip_encrypt\<close> seals every fragment of a frame in place, and
  \<open>rtw_tkip_decrypt\<close>, given any of the fragments, the transmitter's address and the same
  temporal key, accepts it and returns the header and the plaintext payload of that fragment.\<close>

theorem rtw_tkip_roundtrip:
  assumes "encrypt at = TKIP" and "\<not> IS_MCAST (ra at)" and "8 \<le> iv_len at" and "icv_len at = 4"
    and "frag_sizes_ok at fl" and "fs = frags at fl base (nr_frags at) TXDESC_OFFSET"
    and "\<forall>(q, n) \<in> set fs. q + (hdrlen at + iv_len at) + n + 4 \<le> length mem"
  shows "\<exists>mem' sec'. rtw_tkip_encrypt sec at fl (Some base) mem = Inr (SUCCESS, mem', sec') \<and>
    (\<forall>(q, n) \<in> set fs. \<forall>rx. rx_encrypt rx = TKIP \<and> rx_ra rx = ra at \<and> rx_ta rx = ta at \<and>
       rx_hdrlen rx = hdrlen at \<and> rx_iv_len rx = iv_len at \<and> rx_len rx = hdrlen at + iv_len at + n + 4 \<longrightarrow>
       (\<exists>sec''. rtw_tkip_decrypt sec' rx (Some (dot118021x_UncstKey at)) (chunk mem' q (rx_len rx)) =
          Inr (SUCCESS, chunk mem q (hdrlen at + iv_len at + n) @
            icv_bytes (chunk mem (q + (hdrlen at + iv_len at)) n), sec'')))"
proof -
  let ?hl = "hdrlen at + iv_len at"
  let ?sec' = "sec\<lparr>tkip_sw_enc_cnt := sw_cnt_inc (ra at) (tkip_sw_enc_cnt sec)\<rparr>"
  have key: "tkip_encrypt_key sec at = Inr (dot118021x_UncstKey at)" using assms(2) by (simp add: tkip_encrypt_key_def)
  have "tkip_ok (sec, at)" using assms(2,3) by (simp add: tkip_ok_def)
  from tkip.frag_loop_seals [OF this assms(5) _ _, of base "nr_frags at" TXDESC_OFFSET mem] assms(4,7)
  obtain mem' where mem': "frag_loop (tkip_encrypt_frag (sec, at)) at fl base (nr_frags at) TXDESC_OFFSET mem = Inr mem'"
    "\<forall>(q, n) \<in> set fs. chunk mem' q (?hl + n + 4) =
       chunk mem q ?hl @ tkip_sealed (sec, at) (chunk mem q ?hl) (chunk mem (q + ?hl) n)"
    unfolding assms(6) by auto
  have "\<exists>sec''. rtw_tkip_decrypt ?sec' rx (Some (dot118021x_UncstKey at)) (chunk mem' q (rx_len rx)) =
      Inr (SUCCESS, chunk mem q (?hl + n) @ icv_bytes (chunk mem (q + ?hl) n), sec'')"
    if m: "(q, n) \<in> set fs" and rx: "rx_encrypt rx = TKIP" "rx_ra rx = ra at" "rx_ta rx = ta at"
      "rx_hdrlen rx = hdrlen at" "rx_iv_len rx = iv_len at" "rx_len rx = ?hl + n + 4" for q n rx
  proof -
    let ?h = "chunk mem q ?hl" and ?xs = "chunk mem (q + ?hl) n"
    let ?k = "tkip_rc4key (dot118021x_UncstKey at) (ta at) (chunk ?h (hdrlen at) 8)"
    let ?cs = "rc4_stream ?k (?xs @ icv_bytes ?xs)"
    have fit: "q + ?hl + n + 4 \<le> length mem" using assms(7) m by auto
    have n: "?hl + n + 4 < 2 ^ 31" using frag_total [OF assms(5) m [unfolded assms(6)]] assms(4) by simp
    have len: "length ?h = ?hl" "length ?xs = n" using fit by simp_all
    have "rtw_tkip_decrypt ?sec' rx (Some (dot118021x_UncstKey at)) (?h @ ?cs) =
        Inr (SUCCESS, ?h @ rc4_stream ?k ?cs,
          ?sec'\<lparr>tkip_sw_dec_cnt := sw_cnt_inc (rx_ra rx) (tkip_sw_dec_cnt ?sec')\<rparr>)"
      using n len assms(2,3) rx by (intro tkip_decrypt_sealed) simp_all
    moreover have "chunk mem' q (rx_len rx) = ?h @ ?cs"
      using bspec [OF mem'(2) m] by (simp add: rx(6) tkip_sealed_def key)
    ultimately show ?thesis using chunk_add [of ?hl n q mem] by simp
  qed
  moreover have "rtw_tkip_encrypt sec at fl (Some base) mem = Inr (SUCCESS, mem', ?sec')"
    using assms(1) mem'(1) by (simp add: rtw_tkip_encrypt_def)
  ultimately show ?thesis by fastforce
qed

definition tkip_example_attrib :: pkt_attrib where
  "tkip_example_attrib = \<lparr> hdrlen = 24, last_txcmdsz = 40, nr_frags = 2, encrypt = TKIP, iv_len = 8, icv_len = 4,
     ra = replicate 6 0, ta = replicate 6 2, dot118021x_UncstKey = replicate 16 5 \<rparr>"

theorem rtw_tkip_roundtrip_witness:
  "\<exists>mem' sec'. rtw_tkip_encrypt wep_example_sec tkip_example_attrib 46 (Some 4096) (replicate 140 3) =
      Inr (SUCCESS, mem', sec') \<and>
    (\<forall>(q, n) \<in> set [(48, 10), (96, 4)]. \<forall>rx. rx_encrypt rx = TKIP \<and> rx_ra rx = ra tkip_example_attrib \<and>
       rx_ta rx = ta tkip_example_attrib \<and>
       rx_hdrlen rx = hdrlen tkip_example_attrib \<and> rx_iv_len rx = iv_len tkip_example_attrib \<and>
       rx_len rx = hdrlen tkip_example_attrib + iv_len tkip_example_attrib + n + 4 \<longrightarrow>
       (\<exists>sec''. rtw_tkip_decrypt sec' rx (Some (dot118021x_UncstKey tkip_example_attrib)) (chunk mem' q (rx_len rx)) =
          Inr (SUCCESS, chunk (replicate 140 3) q (hdrlen tkip_example_attrib + iv_len tkip_example_attrib + n) @
            icv_bytes (chunk (replicate 140 3) (q + (hdrlen tkip_example_attrib + iv_len tkip_example_attrib)) n), sec'')))"
  by (rule rtw_tkip_roundtrip)
    (simp_all add: tkip_example_attrib_def IS_MCAST_def frag_sizes_ok_def TXDESC_OFFSET_def RND4_def frags_numeral)

end
