(* ===== verification/Aes.thy ===== *)
theory Aes
  imports Prelude
begin

text \<open>
  AES-128, which core/rtw_security.c has twice: the byte-oriented \<open>aes128k128d\<close> behind CCMP, and
  the table-driven \<open>rijndaelEncrypt\<close> behind CMAC. A block is a list of 16 bytes, a column one of
  four. Both are modelled as written and proved equal, and the cipher is proved a permutation.
\<close>

section \<open>The byte-oriented cipher\<close>

definition sbox_table :: "u8 list" where
  "sbox_table =
    [0x63, 0x7c, 0x77, 0x7b, 0xf2, 0x6b, 0x6f, 0xc5, 0x30, 0x01, 0x67, 0x2b, 0xfe, 0xd7, 0xab, 0x76,
     0xca, 0x82, 0xc9, 0x7d, 0xfa, 0x59, 0x47, 0xf0, 0xad, 0xd4, 0xa2, 0xaf, 0x9c, 0xa4, 0x72, 0xc0,
     0xb7, 0xfd, 0x93, 0x26, 0x36, 0x3f, 0xf7, 0xcc, 0x34, 0xa5, 0xe5, 0xf1, 0x71, 0xd8, 0x31, 0x15,
     0x04, 0xc7, 0x23, 0xc3, 0x18, 0x96, 0x05, 0x9a, 0x07, 0x12, 0x80, 0xe2, 0xeb, 0x27, 0xb2, 0x75,
     0x09, 0x83, 0x2c, 0x1a, 0x1b, 0x6e, 0x5a, 0xa0, 0x52, 0x3b, 0xd6, 0xb3, 0x29, 0xe3, 0x2f, 0x84,
     0x53, 0xd1, 0x00, 0xed, 0x20, 0xfc, 0xb1, 0x5b, 0x6a, 0xcb, 0xbe, 0x39, 0x4a, 0x4c, 0x58, 0xcf,
     0xd0, 0xef, 0xaa, 0xfb, 0x43, 0x4d, 0x33, 0x85, 0x45, 0xf9, 0x02, 0x7f, 0x50, 0x3c, 0x9f, 0xa8,
     0x51, 0xa3, 0x40, 0x8f, 0x92, 0x9d, 0x38, 0xf5, 0xbc, 0xb6, 0xda, 0x21, 0x10, 0xff, 0xf3, 0xd2,
     0xcd, 0x0c, 0x13, 0xec, 0x5f, 0x97, 0x44, 0x17, 0xc4, 0xa7, 0x7e, 0x3d, 0x64, 0x5d, 0x19, 0x73,
     0x60, 0x81, 0x4f, 0xdc, 0x22, 0x2a, 0x90, 0x88, 0x46, 0xee, 0xb8, 0x14, 0xde, 0x5e, 0x0b, 0xdb,
     0xe0, 0x32, 0x3a, 0x0a, 0x49, 0x06, 0x24, 0x5c, 0xc2, 0xd3, 0xac, 0x62, 0x91, 0x95, 0xe4, 0x79,
     0xe7, 0xc8, 0x37, 0x6d, 0x8d, 0xd5, 0x4e, 0xa9, 0x6c, 0x56, 0xf4, 0xea, 0x65, 0x7a, 0xae, 0x08,
     0xba, 0x78, 0x25, 0x2e, 0x1c, 0xa6, 0xb4, 0xc6, 0xe8, 0xdd, 0x74, 0x1f, 0x4b, 0xbd, 0x8b, 0x8a,
     0x70, 0x3e, 0xb5, 0x66, 0x48, 0x03, 0xf6, 0x0e, 0x61, 0x35, 0x57, 0xb9, 0x86, 0xc1, 0x1d, 0x9e,
     0xe1, 0xf8, 0x98, 0x11, 0x69, 0xd9, 0x8e, 0x94, 0x9b, 0x1e, 0x87, 0xe9, 0xce, 0x55, 0x28, 0xdf,
     0x8c, 0xa1, 0x89, 0x0d, 0xbf, 0xe6, 0x42, 0x68, 0x41, 0x99, 0x2d, 0x0f, 0xb0, 0x54, 0xbb, 0x16]"

definition sbox :: "u8 \<Rightarrow> u8" where
  "sbox a = sbox_table ! unat a"

definition xor_128 :: "u8 list \<Rightarrow> u8 list \<Rightarrow> u8 list" where
  "xor_128 a b = map (\<lambda>i. a ! i XOR b ! i) [0, 1, 2, 3, 4, 5, 6, 7, 8, 9, 10, 11, 12, 13, 14, 15]"

definition xor_32 :: "u8 list \<Rightarrow> u8 list \<Rightarrow> u8 list" where
  "xor_32 a b = map (\<lambda>i. a ! i XOR b ! i) [0, 1, 2, 3]"

definition rcon_table :: "u8 list" where
  "rcon_table = [0x01, 0x02, 0x04, 0x08, 0x10, 0x20, 0x40, 0x80, 0x1b, 0x36, 0x36, 0x36]"

text \<open>The round key is replaced in place, column by column.\<close>

definition next_key :: "u8 list \<Rightarrow> nat \<Rightarrow> u8 list" where
  "next_key key round =
     (let sbox_key = [sbox (key ! 13), sbox (key ! 14), sbox (key ! 15), sbox (key ! 12)];
          k0 = xor_32 (take 4 key) sbox_key;
          k0 = k0[0 := k0 ! 0 XOR rcon_table ! round];
          k1 = xor_32 (take 4 (drop 4 key)) k0;
          k2 = xor_32 (take 4 (drop 8 key)) k1;
          k3 = xor_32 (take 4 (drop 12 key)) k2
      in k0 @ k1 @ k2 @ k3)"

definition byte_sub :: "u8 list \<Rightarrow> u8 list" where
  "byte_sub xs = map (\<lambda>i. sbox (xs ! i)) [0, 1, 2, 3, 4, 5, 6, 7, 8, 9, 10, 11, 12, 13, 14, 15]"

definition shift_row :: "u8 list \<Rightarrow> u8 list" where
  "shift_row xs = [xs ! 0, xs ! 5, xs ! 10, xs ! 15, xs ! 4, xs ! 9, xs ! 14, xs ! 3,
     xs ! 8, xs ! 13, xs ! 2, xs ! 7, xs ! 12, xs ! 1, xs ! 6, xs ! 11]"

text \<open>One turn of the shift loop, for the byte \<open>b\<close> behind the byte \<open>a\<close>.\<close>

definition shl_carry :: "u8 \<Rightarrow> u8 \<Rightarrow> u8" where
  "shl_carry a b = (let c = push_bit 1 b in if a AND 0x80 = 0x80 then c OR 0x01 else c)"

definition mix_column :: "u8 list \<Rightarrow> u8 list" where
  "mix_column xs =
     (let add1b = map (\<lambda>i. if xs ! i AND 0x80 = 0x80 then 0x1b else 0x00) [0, 1, 2, 3];
          swap_halfs = [xs ! 2, xs ! 3, xs ! 0, xs ! 1];
          rotl = [xs ! 3, xs ! 0, xs ! 1, xs ! 2];
          andf7 = [xs ! 0 AND 0x7f, xs ! 1 AND 0x7f, xs ! 2 AND 0x7f, xs ! 3 AND 0x7f];
          andf7 = andf7[3 := shl_carry (andf7 ! 2) (andf7 ! 3)];
          andf7 = andf7[2 := shl_carry (andf7 ! 1) (andf7 ! 2)];
          andf7 = andf7[1 := shl_carry (andf7 ! 0) (andf7 ! 1)];
          andf7 = andf7[0 := push_bit 1 (andf7 ! 0) AND 0xfe];
          add1bf7 = xor_32 add1b andf7;
          rotr = xor_32 xs add1bf7;
          rotr = [rotr ! 1, rotr ! 2, rotr ! 3, rotr ! 0];
          temp = xor_32 add1bf7 rotr;
          tempb = xor_32 swap_halfs rotl
      in xor_32 temp tempb)"

text \<open>One turn of the loop over the rounds, on the round key and the ciphertext.\<close>

definition aes_round :: "u8 list \<Rightarrow> nat \<Rightarrow> u8 list \<times> u8 list \<Rightarrow> u8 list \<times> u8 list" where
  "aes_round dat round = (\<lambda>(round_key, ciphertext).
     if round = 0 then (next_key round_key round, xor_128 round_key dat)
     else if round = 10 then
       let intermediateb = shift_row (byte_sub ciphertext) in (round_key, xor_128 intermediateb round_key)
     else
       let b = shift_row (byte_sub ciphertext);
           a = mix_column (take 4 b) @ mix_column (take 4 (drop 4 b)) @
               mix_column (take 4 (drop 8 b)) @ mix_column (take 4 (drop 12 b))
       in (next_key round_key round, xor_128 a round_key))"

definition aes128k128d :: "u8 list \<Rightarrow> u8 list \<Rightarrow> u8 list" where
  "aes128k128d key dat = snd (fold (aes_round dat) [0..<11] (key, []))"

section \<open>The table-driven cipher\<close>

definition Te0 :: "u32 list" where
  "Te0 =
    [0xc66363a5, 0xf87c7c84, 0xee777799, 0xf67b7b8d, 0xfff2f20d, 0xd66b6bbd, 0xde6f6fb1, 0x91c5c554,
     0x60303050, 0x02010103, 0xce6767a9, 0x562b2b7d, 0xe7fefe19, 0xb5d7d762, 0x4dababe6, 0xec76769a,
     0x8fcaca45, 0x1f82829d, 0x89c9c940, 0xfa7d7d87, 0xeffafa15, 0xb25959eb, 0x8e4747c9, 0xfbf0f00b,
     0x41adadec, 0xb3d4d467, 0x5fa2a2fd, 0x45afafea, 0x239c9cbf, 0x53a4a4f7, 0xe4727296, 0x9bc0c05b,
     0x75b7b7c2, 0xe1fdfd1c, 0x3d9393ae, 0x4c26266a, 0x6c36365a, 0x7e3f3f41, 0xf5f7f702, 0x83cccc4f,
     0x6834345c, 0x51a5a5f4, 0xd1e5e534, 0xf9f1f108, 0xe2717193, 0xabd8d873, 0x62313153, 0x2a15153f,
     0x0804040c, 0x95c7c752, 0x46232365, 0x9dc3c35e, 0x30181828, 0x379696a1, 0x0a05050f, 0x2f9a9ab5,
     0x0e070709, 0x24121236, 0x1b80809b, 0xdfe2e23d, 0xcdebeb26, 0x4e272769, 0x7fb2b2cd, 0xea75759f,
     0x1209091b, 0x1d83839e, 0x582c2c74, 0x341a1a2e, 0x361b1b2d, 0xdc6e6eb2, 0xb45a5aee, 0x5ba0a0fb,
     0xa45252f6, 0x763b3b4d, 0xb7d6d661, 0x7db3b3ce, 0x5229297b, 0xdde3e33e, 0x5e2f2f71, 0x13848497,
     0xa65353f5, 0xb9d1d168, 0x00000000, 0xc1eded2c, 0x40202060, 0xe3fcfc1f, 0x79b1b1c8, 0xb65b5bed,
     0xd46a6abe, 0x8dcbcb46, 0x67bebed9, 0x7239394b, 0x944a4ade, 0x984c4cd4, 0xb05858e8, 0x85cfcf4a,
     0xbbd0d06b, 0xc5efef2a, 0x4faaaae5, 0xedfbfb16, 0x864343c5, 0x9a4d4dd7, 0x66333355, 0x11858594,
     0x8a4545cf, 0xe9f9f910, 0x04020206, 0xfe7f7f81, 0xa05050f0, 0x783c3c44, 0x259f9fba, 0x4ba8a8e3,
     0xa25151f3, 0x5da3a3fe, 0x804040c0, 0x058f8f8a, 0x3f9292ad, 0x219d9dbc, 0x70383848, 0xf1f5f504,
     0x63bcbcdf, 0x77b6b6c1, 0xafdada75, 0x42212163, 0x20101030, 0xe5ffff1a, 0xfdf3f30e, 0xbfd2d26d,
     0x81cdcd4c, 0x180c0c14, 0x26131335, 0xc3ecec2f, 0xbe5f5fe1, 0x359797a2, 0x884444cc, 0x2e171739,
     0x93c4c457, 0x55a7a7f2, 0xfc7e7e82, 0x7a3d3d47, 0xc86464ac, 0xba5d5de7, 0x3219192b, 0xe6737395,
     0xc06060a0, 0x19818198, 0x9e4f4fd1, 0xa3dcdc7f, 0x44222266, 0x542a2a7e, 0x3b9090ab, 0x0b888883,
     0x8c4646ca, 0xc7eeee29, 0x6bb8b8d3, 0x2814143c, 0xa7dede79, 0xbc5e5ee2, 0x160b0b1d, 0xaddbdb76,
     0xdbe0e03b, 0x64323256, 0x743a3a4e, 0x140a0a1e, 0x924949db, 0x0c06060a, 0x4824246c, 0xb85c5ce4,
     0x9fc2c25d, 0xbdd3d36e, 0x43acacef, 0xc46262a6, 0x399191a8, 0x319595a4, 0xd3e4e437, 0xf279798b,
     0xd5e7e732, 0x8bc8c843, 0x6e373759, 0xda6d6db7, 0x018d8d8c, 0xb1d5d564, 0x9c4e4ed2, 0x49a9a9e0,
     0xd86c6cb4, 0xac5656fa, 0xf3f4f407, 0xcfeaea25, 0xca6565af, 0xf47a7a8e, 0x47aeaee9, 0x10080818,
     0x6fbabad5, 0xf0787888, 0x4a25256f, 0x5c2e2e72, 0x381c1c24, 0x57a6a6f1, 0x73b4b4c7, 0x97c6c651,
     0xcbe8e823, 0xa1dddd7c, 0xe874749c, 0x3e1f1f21, 0x964b4bdd, 0x61bdbddc, 0x0d8b8b86, 0x0f8a8a85,
     0xe0707090, 0x7c3e3e42, 0x71b5b5c4, 0xcc6666aa, 0x904848d8, 0x06030305, 0xf7f6f601, 0x1c0e0e12,
     0xc26161a3, 0x6a35355f, 0xae5757f9, 0x69b9b9d0, 0x17868691, 0x99c1c158, 0x3a1d1d27, 0x279e9eb9,
     0xd9e1e138, 0xebf8f813, 0x2b9898b3, 0x22111133, 0xd26969bb, 0xa9d9d970, 0x078e8e89, 0x339494a7,
     0x2d9b9bb6, 0x3c1e1e22, 0x15878792, 0xc9e9e920, 0x87cece49, 0xaa5555ff, 0x50282878, 0xa5dfdf7a,
     0x038c8c8f, 0x59a1a1f8, 0x09898980, 0x1a0d0d17, 0x65bfbfda, 0xd7e6e631, 0x844242c6, 0xd06868b8,
     0x824141c3, 0x299999b0, 0x5a2d2d77, 0x1e0f0f11, 0x7bb0b0cb, 0xa85454fc, 0x6dbbbbd6, 0x2c16163a]"

definition rcons :: "u8 list" where
  "rcons = [0x01, 0x02, 0x04, 0x08, 0x10, 0x20, 0x40, 0x80, 0x1B, 0x36]"

definition rotr32 :: "u32 \<Rightarrow> nat \<Rightarrow> u32" where
  "rotr32 val bits = drop_bit bits val OR push_bit (32 - bits) val"

definition te0 :: "u32 \<Rightarrow> u32" where
  "te0 i = Te0 ! unat (i AND 0xff)"

definition TE0 :: "u32 \<Rightarrow> u32" where "TE0 i = te0 (drop_bit 24 i)"
definition TE1 :: "u32 \<Rightarrow> u32" where "TE1 i = rotr32 (te0 (drop_bit 16 i)) 8"
definition TE2 :: "u32 \<Rightarrow> u32" where "TE2 i = rotr32 (te0 (drop_bit 8 i)) 16"
definition TE3 :: "u32 \<Rightarrow> u32" where "TE3 i = rotr32 (te0 i) 24"
definition TE41 :: "u32 \<Rightarrow> u32" where "TE41 i = push_bit 8 (te0 (drop_bit 24 i)) AND 0xff000000"
definition TE42 :: "u32 \<Rightarrow> u32" where "TE42 i = te0 (drop_bit 16 i) AND 0x00ff0000"
definition TE43 :: "u32 \<Rightarrow> u32" where "TE43 i = te0 (drop_bit 8 i) AND 0x0000ff00"
definition TE44 :: "u32 \<Rightarrow> u32" where "TE44 i = drop_bit 8 (te0 i) AND 0x000000ff"
definition TE421 :: "u32 \<Rightarrow> u32" where "TE421 i = push_bit 8 (te0 (drop_bit 16 i)) AND 0xff000000"
definition TE432 :: "u32 \<Rightarrow> u32" where "TE432 i = te0 (drop_bit 8 i) AND 0x00ff0000"
definition TE443 :: "u32 \<Rightarrow> u32" where "TE443 i = te0 i AND 0x0000ff00"
definition TE414 :: "u32 \<Rightarrow> u32" where "TE414 i = drop_bit 8 (te0 (drop_bit 24 i)) AND 0x000000ff"

definition RCON :: "nat \<Rightarrow> u32" where "RCON i = push_bit 24 (ucast (rcons ! i))"

definition GETU32 :: "u8 list \<Rightarrow> u32" where
  "GETU32 pt = push_bit 24 (ucast (pt ! 0)) XOR push_bit 16 (ucast (pt ! 1)) XOR
     push_bit 8 (ucast (pt ! 2)) XOR ucast (pt ! 3)"

definition PUTU32 :: "u32 \<Rightarrow> u8 list" where
  "PUTU32 st = [ucast (drop_bit 24 st), ucast (drop_bit 16 st), ucast (drop_bit 8 st), ucast st]"

text \<open>The schedule of 44 words is filled from the front; \<open>rk\<close> is the part that is filled.\<close>

definition key_setup_step :: "nat \<Rightarrow> u32 list \<Rightarrow> u32 list" where
  "key_setup_step i rk =
     (let b = 4 * i; temp = rk ! (b + 3);
          r4 = rk ! b XOR TE421 temp XOR TE432 temp XOR TE443 temp XOR TE414 temp XOR RCON i;
          r5 = rk ! (b + 1) XOR r4;
          r6 = rk ! (b + 2) XOR r5;
          r7 = rk ! (b + 3) XOR r6
      in rk @ [r4, r5, r6, r7])"

definition rijndaelKeySetupEnc :: "u8 list \<Rightarrow> u32 list" where
  "rijndaelKeySetupEnc cipherKey =
     fold key_setup_step [0..<10]
       [GETU32 cipherKey, GETU32 (drop 4 cipherKey), GETU32 (drop 8 cipherKey), GETU32 (drop 12 cipherKey)]"

type_synonym aes_state = "u32 \<times> u32 \<times> u32 \<times> u32"

definition ROUND :: "u32 list \<Rightarrow> nat \<Rightarrow> aes_state \<Rightarrow> aes_state" where
  "ROUND rk i = (\<lambda>(s0, s1, s2, s3).
     (TE0 s0 XOR TE1 s1 XOR TE2 s2 XOR TE3 s3 XOR rk ! (4 * i),
      TE0 s1 XOR TE1 s2 XOR TE2 s3 XOR TE3 s0 XOR rk ! (4 * i + 1),
      TE0 s2 XOR TE1 s3 XOR TE2 s0 XOR TE3 s1 XOR rk ! (4 * i + 2),
      TE0 s3 XOR TE1 s0 XOR TE2 s1 XOR TE3 s2 XOR rk ! (4 * i + 3)))"

text \<open>The loop that is not unrolled does two rounds per turn, the odd one first, and leaves in the
  middle of its fifth turn; \<open>off\<close> is how far \<open>rk\<close> has moved.\<close>

fun enc_loop :: "u32 list \<Rightarrow> nat \<Rightarrow> nat \<Rightarrow> aes_state \<Rightarrow> nat \<times> aes_state" where
  "enc_loop rk off 0 s = (off, s)"
| "enc_loop rk off (Suc r) s =
     (let t = ROUND (drop off rk) 1 s; off' = off + 8 in
      if r = 0 then (off', t) else enc_loop rk off' r (ROUND (drop off' rk) 0 t))"

definition rijndaelEncrypt :: "u32 list \<Rightarrow> u8 list \<Rightarrow> u8 list" where
  "rijndaelEncrypt rk pt =
     (let s0 = GETU32 pt XOR rk ! 0; s1 = GETU32 (drop 4 pt) XOR rk ! 1;
          s2 = GETU32 (drop 8 pt) XOR rk ! 2; s3 = GETU32 (drop 12 pt) XOR rk ! 3;
          (off, t0, t1, t2, t3) = enc_loop rk 0 5 (s0, s1, s2, s3);
          c0 = TE41 t0 XOR TE42 t1 XOR TE43 t2 XOR TE44 t3 XOR rk ! off;
          c1 = TE41 t1 XOR TE42 t2 XOR TE43 t3 XOR TE44 t0 XOR rk ! (off + 1);
          c2 = TE41 t2 XOR TE42 t3 XOR TE43 t0 XOR TE44 t1 XOR rk ! (off + 2);
          c3 = TE41 t3 XOR TE42 t0 XOR TE43 t1 XOR TE44 t2 XOR rk ! (off + 3)
      in PUTU32 c0 @ PUTU32 c1 @ PUTU32 c2 @ PUTU32 c3)"

section \<open>Columns and words\<close>

definition xtime :: "u8 \<Rightarrow> u8" where
  "xtime a = push_bit 1 a XOR (if bit a 7 then 0x1b else 0)"

abbreviation be32 :: "u8 \<Rightarrow> u8 \<Rightarrow> u8 \<Rightarrow> u8 \<Rightarrow> u32" where
  "be32 a b c d \<equiv> GETU32 [a, b, c, d]"

lemma bit_be32:
  "bit (be32 a b c d) n \<longleftrightarrow>
     (if n < 8 then bit d n else if n < 16 then bit c (n - 8) else if n < 24 then bit b (n - 16)
      else bit a (n - 24))"
  unfolding GETU32_def by (auto simp: bit_simps dest: bit_imp_le_length)

lemma be32_eq_iff: "be32 a b c d = be32 e f g h \<longleftrightarrow> a = e \<and> b = f \<and> c = g \<and> d = h"
proof
  assume eq: "be32 a b c d = be32 e f g h"
  have byte: "bit x n = bit y n"
    if "\<And>n. n < 8 \<Longrightarrow> bit x n = bit (be32 a b c d) (k + n)" "\<And>n. n < 8 \<Longrightarrow> bit y n = bit (be32 e f g h) (k + n)"
    for x y :: u8 and k n
    using that eq bit_imp_le_length [of x n] bit_imp_le_length [of y n] by (cases "n < 8") auto
  have "a = e" by (rule bit_word_eqI, rule byte [of _ 24]) (simp_all add: bit_be32)
  moreover have "b = f" by (rule bit_word_eqI, rule byte [of _ 16]) (simp_all add: bit_be32)
  moreover have "c = g" by (rule bit_word_eqI, rule byte [of _ 8]) (simp_all add: bit_be32)
  moreover have "d = h" by (rule bit_word_eqI, rule byte [of _ 0]) (simp_all add: bit_be32)
  ultimately show "a = e \<and> b = f \<and> c = g \<and> d = h" by blast
qed simp

lemma be32_xor: "be32 a b c d XOR be32 e f g h = be32 (a XOR e) (b XOR f) (c XOR g) (d XOR h)"
  by (rule bit_word_eqI) (simp add: bit_be32 bit_xor_iff)

lemma rotr32_be32:
  "rotr32 (be32 a b c d) 8 = be32 d a b c"
  "rotr32 (be32 a b c d) 16 = be32 c d a b"
  "rotr32 (be32 a b c d) 24 = be32 b c d a"
  unfolding rotr32_def
  by (rule bit_word_eqI; auto simp: bit_or_iff bit_drop_bit_eq bit_push_bit_iff bit_be32 add.commute
      dest: bit_imp_le_length)+

lemma u32_masks:
  "(0xff000000 :: u32) = push_bit 24 (mask 8)" "(0x00ff0000 :: u32) = push_bit 16 (mask 8)"
  "(0x0000ff00 :: u32) = push_bit 8 (mask 8)" "(0x000000ff :: u32) = mask 8"
  by (simp_all add: mask_numeral push_bit_eq_mult)

lemma mask_be32:
  "push_bit 8 (be32 a b c d) AND 0xff000000 = be32 b 0 0 0"
  "be32 a b c d AND 0x00ff0000 = be32 0 b 0 0"
  "be32 a b c d AND 0x0000ff00 = be32 0 0 c 0"
  "drop_bit 8 (be32 a b c d) AND 0x000000ff = be32 0 0 0 c"
  unfolding u32_masks
  by (rule bit_word_eqI; auto simp: bit_and_iff bit_drop_bit_eq bit_push_bit_iff bit_mask_iff bit_be32
      dest: bit_imp_le_length)+

lemma unat_byte_be32:
  "unat (drop_bit 24 (be32 a b c d) AND 0xff) = unat a"
  "unat (drop_bit 16 (be32 a b c d) AND 0xff) = unat b"
  "unat (drop_bit 8 (be32 a b c d) AND 0xff) = unat c"
  "unat (be32 a b c d AND 0xff) = unat d"
proof -
  have u: "unat (ucast x :: u32) = unat x" for x :: u8
    by (simp add: unsigned_ucast_eq) (rule take_bit_nat_eq_self, rule less_trans [OF unat_u8_less], simp)
  have "drop_bit 24 (be32 a b c d) AND 0xff = ucast a" "drop_bit 16 (be32 a b c d) AND 0xff = ucast b"
    "drop_bit 8 (be32 a b c d) AND 0xff = ucast c" "be32 a b c d AND 0xff = ucast d"
    unfolding u32_masks(4)
    by (rule bit_word_eqI; auto simp: bit_and_iff bit_drop_bit_eq bit_mask_iff bit_be32 bit_unsigned_iff
        dest: bit_imp_le_length)+
  then show "unat (drop_bit 24 (be32 a b c d) AND 0xff) = unat a"
    "unat (drop_bit 16 (be32 a b c d) AND 0xff) = unat b"
    "unat (drop_bit 8 (be32 a b c d) AND 0xff) = unat c" "unat (be32 a b c d AND 0xff) = unat d"
    by (simp_all only: u)
qed

subsection \<open>The table is the S-box and the column matrix\<close>

definition te_word :: "u8 \<Rightarrow> u32" where
  "te_word s = be32 (xtime s) s s (xtime s XOR s)"

lemma Te0_sbox: "Te0 = map te_word sbox_table"
  by (simp add: Te0_def sbox_table_def te_word_def xtime_def GETU32_def)

lemma sbox_length: "length sbox_table = 256"
  by (simp add: sbox_table_def)

lemma Te0_nth: "Te0 ! unat x = te_word (sbox x)"
  using unat_u8_less [of x] by (simp add: Te0_sbox sbox_def sbox_length)

lemma te0_be32:
  "te0 (drop_bit 24 (be32 a b c d)) = te_word (sbox a)" "te0 (drop_bit 16 (be32 a b c d)) = te_word (sbox b)"
  "te0 (drop_bit 8 (be32 a b c d)) = te_word (sbox c)" "te0 (be32 a b c d) = te_word (sbox d)"
  by (simp_all only: te0_def unat_byte_be32 Te0_nth)

lemmas te_evals = TE0_def TE1_def TE2_def TE3_def TE41_def TE42_def TE43_def TE44_def
  TE421_def TE432_def TE443_def TE414_def te0_be32 te_word_def rotr32_be32 mask_be32

lemma TE_be32:
  "TE0 (be32 a b c d) = be32 (xtime (sbox a)) (sbox a) (sbox a) (xtime (sbox a) XOR sbox a)"
  "TE1 (be32 a b c d) = be32 (xtime (sbox b) XOR sbox b) (xtime (sbox b)) (sbox b) (sbox b)"
  "TE2 (be32 a b c d) = be32 (sbox c) (xtime (sbox c) XOR sbox c) (xtime (sbox c)) (sbox c)"
  "TE3 (be32 a b c d) = be32 (sbox d) (sbox d) (xtime (sbox d) XOR sbox d) (xtime (sbox d))"
  by (simp_all only: te_evals)

lemma TE4_be32:
  "TE41 (be32 a b c d) = be32 (sbox a) 0 0 0" "TE42 (be32 a b c d) = be32 0 (sbox b) 0 0"
  "TE43 (be32 a b c d) = be32 0 0 (sbox c) 0" "TE44 (be32 a b c d) = be32 0 0 0 (sbox d)"
  "TE421 (be32 a b c d) = be32 (sbox b) 0 0 0" "TE432 (be32 a b c d) = be32 0 (sbox c) 0 0"
  "TE443 (be32 a b c d) = be32 0 0 (sbox d) 0" "TE414 (be32 a b c d) = be32 0 0 0 (sbox a)"
  by (simp_all only: te_evals)

lemma push1_masked: "push_bit 1 (b AND 0x7f :: u8) = push_bit 1 b"
proof (rule bit_word_eqI)
  fix n
  assume "n < LENGTH(8)"
  moreover have "(0x7f :: u8) = mask 7" by (simp add: mask_numeral)
  ultimately show "bit (push_bit 1 (b AND 0x7f :: u8)) n = bit (push_bit 1 b) n"
    by (auto simp only: bit_push_bit_iff bit_and_iff bit_mask_iff) auto
qed

lemma shl_carry_masked: "shl_carry (a AND 0x7f) (b AND 0x7f) = push_bit 1 b"
proof -
  have "(a AND 0x7f) AND 0x80 \<noteq> 0x80" by (simp add: and.assoc)
  moreover have "push_bit 1 (b AND 0x7f) = push_bit 1 b" by (rule push1_masked)
  ultimately show ?thesis by (simp only: shl_carry_def Let_def if_False)
qed

lemma xtime_parts: "(if a AND 0x80 = 0x80 then 0x1b else 0) XOR push_bit 1 a = xtime a"
proof -
  have "a AND 0x80 = 0x80 \<longleftrightarrow> bit a 7"
  proof
    assume "a AND 0x80 = 0x80"
    from arg_cong [OF this, of "\<lambda>x. bit x 7"] show "bit a 7" by (simp add: bit_and_iff)
  next
    assume b: "bit a 7"
    have p: "(0x80 :: u8) = push_bit 7 1" by simp
    show "a AND 0x80 = 0x80"
    proof (rule bit_word_eqI)
      fix n
      assume "n < LENGTH(8)"
      then show "bit (a AND 0x80) n = bit (0x80 :: u8) n"
        unfolding p using b by (cases "n = 7"; simp only: bit_and_iff bit_push_bit_iff bit_1_iff; simp)
    qed
  qed
  then show ?thesis by (simp add: xtime_def xor.commute)
qed

lemma push1_masked_even: "push_bit 1 (b AND 0x7f :: u8) AND 0xfe = push_bit 1 b"
proof -
  have "(0xfe :: u8) = NOT 1" by simp
  moreover have "push_bit 1 b AND NOT 1 = push_bit 1 b"
    by (rule bit_word_eqI) (auto simp only: bit_push_bit_iff bit_and_iff bit_not_iff bit_1_iff)
  ultimately show ?thesis by (simp only: push1_masked)
qed

lemma xor_32_4: "xor_32 [a, b, c, d] [e, f, g, h] = [a XOR e, b XOR f, c XOR g, d XOR h]"
  by (simp add: xor_32_def)

lemma mix_column_xtime:
  "mix_column [a, b, c, d] =
     [xtime a XOR xtime b XOR b XOR c XOR d, a XOR xtime b XOR xtime c XOR c XOR d,
      a XOR b XOR xtime c XOR xtime d XOR d, xtime a XOR a XOR b XOR c XOR xtime d]"
proof -
  have m: "[a AND 0x7f, b AND 0x7f, c AND 0x7f, d AND 0x7f]
      [3 := shl_carry (c AND 0x7f) (d AND 0x7f), 2 := shl_carry (b AND 0x7f) (c AND 0x7f),
       1 := shl_carry (a AND 0x7f) (b AND 0x7f), 0 := push_bit 1 (a AND 0x7f) AND 0xfe] =
      [push_bit 1 a, push_bit 1 b, push_bit 1 c, push_bit 1 d]"
    by (simp only: shl_carry_masked push1_masked_even) simp
  have n: "[x, y, z, w] ! 0 = x" "[x, y, z, w] ! 1 = y" "[x, y, z, w] ! 2 = z" "[x, y, z, w] ! 3 = w"
    for x y z w :: u8
    by simp_all
  have u: "[x, y, z, w][3 := v] = [x, y, z, v]" "[x, y, z, w][2 := v] = [x, y, v, w]"
    "[x, y, z, w][1 := v] = [x, v, z, w]" "[x, y, z, w][0 := v] = [v, y, z, w]" for x y z w v :: u8
    by simp_all
  show ?thesis
    unfolding mix_column_def Let_def
    by (simp only: list.map n u shl_carry_masked push1_masked_even xor_32_4 xtime_parts) (simp add: ac_simps)
qed

section \<open>Both ciphers are the same\<close>

text \<open>The words of a block of 16 bytes, and of a key schedule.\<close>

definition cols :: "u8 list \<Rightarrow> u32 list" where
  "cols xs = [GETU32 xs, GETU32 (drop 4 xs), GETU32 (drop 8 xs), GETU32 (drop 12 xs)]"

lemma block_cases:
  assumes "length xs = 16"
  obtains a b c d e f g h i j k l m n p q where "xs = [a, b, c, d, e, f, g, h, i, j, k, l, m, n, p, q]"
  using assms by (auto simp: length_Suc_conv numeral_eq_Suc)

lemma GETU32_Cons: "GETU32 (a # b # c # d # e # xs) = be32 a b c d"
  by (simp add: GETU32_def)

lemma RCON_be32: "RCON i = be32 (rcons ! i) 0 0 0"
  by (simp add: RCON_def GETU32_def)

lemma rcon_table_rcons: "rcon_table = rcons @ [0x36, 0x36]"
  by (simp add: rcon_table_def rcons_def)

lemma rcons_length: "length rcons = 10"
  by (simp add: rcons_def)

lemma next_key_cols:
  assumes "length k = 16" and "length rk = 4 * i" and "i < 10"
  shows "key_setup_step i (rk @ cols k) = (rk @ cols k) @ cols (next_key k i)"
proof -
  from assms(1) obtain a b c d e f g h m n p q r s t u where
    k: "k = [a, b, c, d, e, f, g, h, m, n, p, q, r, s, t, u]" by (rule block_cases)
  have rc: "rcon_table ! i = rcons ! i"
    unfolding rcon_table_rcons using assms(3) by (simp add: nth_append rcons_length)
  have w: "(rk @ cols k) ! (4 * i) = be32 a b c d" "(rk @ cols k) ! (4 * i + 1) = be32 e f g h"
    "(rk @ cols k) ! (4 * i + 2) = be32 m n p q" "(rk @ cols k) ! (4 * i + 3) = be32 r s t u"
    using assms(2) by (simp_all add: nth_append cols_def k GETU32_Cons)
  let ?x = "[a XOR sbox s XOR rcons ! i, b XOR sbox t, c XOR sbox u, d XOR sbox r]"
  have x: "be32 a b c d XOR TE421 (be32 r s t u) XOR TE432 (be32 r s t u) XOR TE443 (be32 r s t u) XOR
      TE414 (be32 r s t u) XOR RCON i = GETU32 ?x"
    by (simp only: TE4_be32 RCON_be32 be32_xor xor.left_neutral xor.right_neutral)
  have nk: "next_key k i = ?x @ xor_32 [e, f, g, h] ?x @ xor_32 [m, n, p, q] (xor_32 [e, f, g, h] ?x) @
      xor_32 [r, s, t, u] (xor_32 [m, n, p, q] (xor_32 [e, f, g, h] ?x))"
    by (simp add: next_key_def k Let_def xor_32_4 rc xor.assoc)
  have cols4: "cols ([v0, v1, v2, v3] @ [v4, v5, v6, v7] @ [v8, v9, v10, v11] @ [v12, v13, v14, v15]) =
      [be32 v0 v1 v2 v3, be32 v4 v5 v6 v7, be32 v8 v9 v10 v11, be32 v12 v13 v14 v15]"
    for v0 v1 v2 v3 v4 v5 v6 v7 v8 v9 v10 v11 v12 v13 v14 v15
    by (simp add: cols_def GETU32_Cons)
  show ?thesis
    unfolding key_setup_step_def Let_def w x nk
    by (simp only: xor_32_4 cols4 be32_xor append_assoc)
qed

lemma next_key_length: "length (next_key k i) = 16"
  by (simp add: next_key_def Let_def xor_32_def)

fun round_keys :: "u8 list \<Rightarrow> nat \<Rightarrow> u8 list" where
  "round_keys key 0 = key"
| "round_keys key (Suc i) = next_key (round_keys key i) i"

lemma round_keys_length: "length key = 16 \<Longrightarrow> length (round_keys key i) = 16"
  by (cases i) (simp_all add: next_key_length)

definition schedule :: "u8 list \<Rightarrow> nat \<Rightarrow> u32 list" where
  "schedule key n = concat (map (\<lambda>i. cols (round_keys key i)) [0..<n])"

lemma cols_length [simp]: "length (cols xs) = 4"
  by (simp add: cols_def)

lemma schedule_length: "length (schedule key n) = 4 * n"
  by (induction n) (simp_all add: schedule_def)

lemma schedule_Suc: "schedule key (Suc n) = schedule key n @ cols (round_keys key n)"
  by (simp add: schedule_def)

lemma key_setup_schedule:
  assumes "length key = 16" and "n \<le> 10"
  shows "fold key_setup_step [0..<n] (cols key) = schedule key (Suc n)"
  using assms(2)
proof (induction n)
  case 0
  show ?case by (simp add: schedule_def)
next
  case (Suc n)
  then have "fold key_setup_step [0..<Suc n] (cols key) =
      key_setup_step n (schedule key n @ cols (round_keys key n))"
    by (simp add: schedule_Suc)
  also have "\<dots> = schedule key (Suc n) @ cols (round_keys key (Suc n))"
    using Suc.prems by (subst next_key_cols)
      (simp_all add: round_keys_length assms(1) schedule_length schedule_Suc)
  finally show ?case by (simp only: schedule_Suc)
qed

lemma schedule_nth:
  assumes "i < n" and "j < 4"
  shows "schedule key n ! (4 * i + j) = cols (round_keys key i) ! j"
  using assms(1)
proof (induction n)
  case (Suc n)
  show ?case
  proof (cases "i = n")
    case True
    then show ?thesis using assms(2) by (simp add: schedule_Suc nth_append schedule_length)
  next
    case False
    then have "4 * i + j < length (schedule key n)" using Suc.prems assms(2) by (simp add: schedule_length)
    then show ?thesis using Suc False by (simp add: schedule_Suc nth_append)
  qed
qed simp

lemma rijndaelKeySetupEnc_schedule: "length key = 16 \<Longrightarrow> rijndaelKeySetupEnc key = schedule key 11"
  using key_setup_schedule [of key 10] by (simp add: rijndaelKeySetupEnc_def cols_def)

subsection \<open>Rounds\<close>

definition mix_block :: "u8 list \<Rightarrow> u8 list" where
  "mix_block b = mix_column (take 4 b) @ mix_column (take 4 (drop 4 b)) @
     mix_column (take 4 (drop 8 b)) @ mix_column (take 4 (drop 12 b))"

definition full_round :: "u8 list \<Rightarrow> u8 list \<Rightarrow> u8 list" where
  "full_round k s = xor_128 (mix_block (shift_row (byte_sub s))) k"

definition last_round :: "u8 list \<Rightarrow> u8 list \<Rightarrow> u8 list" where
  "last_round k s = xor_128 (shift_row (byte_sub s)) k"

lemma block_lengths [simp]:
  "length (xor_128 a b) = 16" "length (byte_sub a) = 16" "length (shift_row a) = 16"
  "length (mix_column c) = 4" "length (mix_block a) = 16" "length (full_round k s) = 16"
  by (simp_all add: xor_128_def byte_sub_def shift_row_def mix_column_def mix_block_def xor_32_def
      full_round_def Let_def)

definition tup :: "u32 list \<Rightarrow> aes_state" where
  "tup w = (w ! 0, w ! 1, w ! 2, w ! 3)"

lemma cols_block:
  "cols [a, b, c, d, e, f, g, h, i, j, k, l, m, n, p, q] =
     [be32 a b c d, be32 e f g h, be32 i j k l, be32 m n p q]"
  by (simp add: cols_def GETU32_Cons)

lemma cols_xor:
  assumes "length a = 16" and "length b = 16"
  shows "cols (xor_128 a b) = map2 (XOR) (cols a) (cols b)"
proof -
  from assms(1) obtain a0 a1 a2 a3 a4 a5 a6 a7 a8 a9 a10 a11 a12 a13 a14 a15 where
    a: "a = [a0, a1, a2, a3, a4, a5, a6, a7, a8, a9, a10, a11, a12, a13, a14, a15]" by (rule block_cases)
  from assms(2) obtain b0 b1 b2 b3 b4 b5 b6 b7 b8 b9 b10 b11 b12 b13 b14 b15 where
    b: "b = [b0, b1, b2, b3, b4, b5, b6, b7, b8, b9, b10, b11, b12, b13, b14, b15]" by (rule block_cases)
  have "xor_128 a b = [a0 XOR b0, a1 XOR b1, a2 XOR b2, a3 XOR b3, a4 XOR b4, a5 XOR b5, a6 XOR b6, a7 XOR b7,
      a8 XOR b8, a9 XOR b9, a10 XOR b10, a11 XOR b11, a12 XOR b12, a13 XOR b13, a14 XOR b14, a15 XOR b15]"
    by (simp add: xor_128_def a b)
  then show ?thesis by (simp only: a b cols_block be32_xor zip_Cons_Cons zip_Nil list.map prod.case)
qed

text \<open>A round of the tables without the round key.\<close>

definition te_round :: "aes_state \<Rightarrow> u32 list" where
  "te_round = (\<lambda>(s0, s1, s2, s3).
     [TE0 s0 XOR TE1 s1 XOR TE2 s2 XOR TE3 s3, TE0 s1 XOR TE1 s2 XOR TE2 s3 XOR TE3 s0,
      TE0 s2 XOR TE1 s3 XOR TE2 s0 XOR TE3 s1, TE0 s3 XOR TE1 s0 XOR TE2 s1 XOR TE3 s2])"

definition te_last :: "aes_state \<Rightarrow> u32 list" where
  "te_last = (\<lambda>(s0, s1, s2, s3).
     [TE41 s0 XOR TE42 s1 XOR TE43 s2 XOR TE44 s3, TE41 s1 XOR TE42 s2 XOR TE43 s3 XOR TE44 s0,
      TE41 s2 XOR TE42 s3 XOR TE43 s0 XOR TE44 s1, TE41 s3 XOR TE42 s0 XOR TE43 s1 XOR TE44 s2])"

lemma te_column:
  "[TE0 (be32 a x1 x2 x3) XOR TE1 (be32 y0 b y2 y3) XOR TE2 (be32 z0 z1 c z3) XOR TE3 (be32 w0 w1 w2 d)] =
   [GETU32 (mix_column [sbox a, sbox b, sbox c, sbox d])]"
  by (simp only: TE_be32 be32_xor mix_column_xtime) (simp add: be32_eq_iff ac_simps)

lemma te_round_cols:
  assumes "length s = 16"
  shows "te_round (tup (cols s)) = cols (mix_block (shift_row (byte_sub s)))"
proof -
  from assms obtain a b c d e f g h i j k l m n p q where
    s: "s = [a, b, c, d, e, f, g, h, i, j, k, l, m, n, p, q]" by (rule block_cases)
  have sh: "shift_row (byte_sub s) = [sbox a, sbox f, sbox k, sbox q, sbox e, sbox j, sbox p, sbox d,
      sbox i, sbox n, sbox c, sbox h, sbox m, sbox b, sbox g, sbox l]"
    by (simp add: byte_sub_def shift_row_def s)
  have col: "mix_block [v0, v1, v2, v3, v4, v5, v6, v7, v8, v9, v10, v11, v12, v13, v14, v15] =
      mix_column [v0, v1, v2, v3] @ mix_column [v4, v5, v6, v7] @ mix_column [v8, v9, v10, v11] @
      mix_column [v12, v13, v14, v15]" for v0 v1 v2 v3 v4 v5 v6 v7 v8 v9 v10 v11 v12 v13 v14 v15
    by (simp add: mix_block_def)
  have get: "cols (mix_column v @ mix_column w @ mix_column x @ mix_column y) =
      [GETU32 (mix_column v), GETU32 (mix_column w), GETU32 (mix_column x), GETU32 (mix_column y)]" for v w x y
    by (simp add: cols_def GETU32_def nth_append)
  show ?thesis
    unfolding s cols_block sh [unfolded s] col get tup_def te_round_def
    using te_column by simp
qed

lemma te_last_cols:
  assumes "length s = 16"
  shows "te_last (tup (cols s)) = cols (shift_row (byte_sub s))"
proof -
  from assms obtain a b c d e f g h i j k l m n p q where
    s: "s = [a, b, c, d, e, f, g, h, i, j, k, l, m, n, p, q]" by (rule block_cases)
  have sh: "shift_row (byte_sub s) = [sbox a, sbox f, sbox k, sbox q, sbox e, sbox j, sbox p, sbox d,
      sbox i, sbox n, sbox c, sbox h, sbox m, sbox b, sbox g, sbox l]"
    by (simp add: byte_sub_def shift_row_def s)
  show ?thesis
    unfolding s sh [unfolded s] cols_block tup_def te_last_def
    by (simp add: TE4_be32 be32_xor)
qed

subsection \<open>Composition\<close>

fun rounds :: "u8 list \<Rightarrow> u8 list \<Rightarrow> nat \<Rightarrow> u8 list" where
  "rounds key dat 0 = xor_128 key dat"
| "rounds key dat (Suc i) = full_round (round_keys key (Suc i)) (rounds key dat i)"

lemma rounds_length [simp]: "length (rounds key dat i) = 16"
  by (cases i) simp_all

lemma aes_round_mid: "0 < r \<Longrightarrow> r < 10 \<Longrightarrow> aes_round dat r (k, c) = (next_key k r, full_round k c)"
  by (simp add: aes_round_def full_round_def mix_block_def Let_def)

lemma fold_aes_round:
  "n \<le> 9 \<Longrightarrow> fold (aes_round dat) [0..<Suc n] (key, []) = (round_keys key (Suc n), rounds key dat n)"
proof (induction n)
  case 0
  show ?case by (simp add: aes_round_def)
next
  case (Suc n)
  have "fold (aes_round dat) [0..<Suc (Suc n)] (key, []) =
      aes_round dat (Suc n) (fold (aes_round dat) [0..<Suc n] (key, []))"
    by (subst upt_Suc_append) (simp_all del: upt_Suc)
  also have "\<dots> = aes_round dat (Suc n) (round_keys key (Suc n), rounds key dat n)"
    using Suc by simp
  also have "\<dots> = (round_keys key (Suc (Suc n)), rounds key dat (Suc n))"
    using Suc.prems by (subst aes_round_mid) simp_all
  finally show ?case .
qed

lemma aes_rounds: "aes128k128d key dat = last_round (round_keys key 10) (rounds key dat 9)"
proof -
  have "fold (aes_round dat) [0..<11] (key, []) =
      aes_round dat 10 (fold (aes_round dat) [0..<Suc 9] (key, []))"
    using upt_Suc_append [of 0 10] by (simp del: upt_Suc)
  also have "\<dots> = (round_keys key 10, last_round (round_keys key 10) (rounds key dat 9))"
    using fold_aes_round [of 9 dat key] by (simp add: aes_round_def last_round_def Let_def)
  finally show ?thesis by (simp only: aes128k128d_def snd_conv)
qed

lemma map2_xor_4:
  "map2 (XOR) [a, b, c, d] w = [a XOR w ! 0, b XOR w ! 1, c XOR w ! 2, d XOR w ! 3]" if "length w = 4" for w :: "u32 list"
  using that by (auto simp: length_Suc_conv numeral_eq_Suc)

lemma ROUND_full:
  assumes "length key = 16" and "length s = 16" and "b + i < 11"
  shows "ROUND (drop (4 * b) (schedule key 11)) i (tup (cols s)) = tup (cols (full_round (round_keys key (b + i)) s))"
proof -
  have k: "drop (4 * b) (schedule key 11) ! (4 * i + j) = cols (round_keys key (b + i)) ! j" if "j < 4" for j
    using schedule_nth [OF assms(3) that, of key] assms(3) by (simp add: schedule_length algebra_simps)
  have "cols (full_round (round_keys key (b + i)) s) = map2 (XOR) (te_round (tup (cols s))) (cols (round_keys key (b + i)))"
    by (simp only: full_round_def cols_xor te_round_cols block_lengths round_keys_length assms)
  moreover have "ROUND (drop (4 * b) (schedule key 11)) i (tup (cols s)) =
      tup (map2 (XOR) (te_round (tup (cols s))) (cols (round_keys key (b + i))))"
    using k [of 0] k [of 1] k [of 2] k [of 3]
    by (simp add: ROUND_def te_round_def map2_xor_4 tup_def xor.assoc split: prod.split)
  ultimately show ?thesis by simp
qed

lemma enc_loop_rounds:
  assumes "length key = 16" and "b + 2 * r + 2 \<le> 10"
  shows "enc_loop (schedule key 11) (4 * b) (Suc r) (tup (cols (rounds key dat b))) =
    (4 * (b + 2 * r + 2), tup (cols (rounds key dat (b + 2 * r + 1))))"
  using assms(2)
proof (induction r arbitrary: b)
  case 0
  then show ?case using ROUND_full [OF assms(1), of "rounds key dat b" b 1] by simp
next
  case (Suc r)
  have off: "4 * b + 8 = 4 * (b + 2)" by simp
  have one: "ROUND (drop (4 * b) (schedule key 11)) 1 (tup (cols (rounds key dat b))) =
      tup (cols (rounds key dat (b + 1)))"
    using ROUND_full [OF assms(1), of "rounds key dat b" b 1] Suc.prems by simp
  have two: "ROUND (drop (4 * (b + 2)) (schedule key 11)) 0 (tup (cols (rounds key dat (b + 1)))) =
      tup (cols (rounds key dat (b + 2)))"
    using ROUND_full [OF assms(1), of "rounds key dat (b + 1)" "b + 2" 0] Suc.prems by simp
  have "enc_loop (schedule key 11) (4 * b) (Suc (Suc r)) (tup (cols (rounds key dat b))) =
      enc_loop (schedule key 11) (4 * (b + 2)) (Suc r) (tup (cols (rounds key dat (b + 2))))"
    by (subst enc_loop.simps) (simp only: Let_def one off two nat.simps if_False)
  with Suc.IH [of "b + 2"] Suc.prems show ?case by simp
qed

lemma PUTU32_be32: "PUTU32 (be32 a b c d) = [a, b, c, d]"
proof -
  have "ucast (drop_bit 24 (be32 a b c d)) = a" "ucast (drop_bit 16 (be32 a b c d)) = b"
    "ucast (drop_bit 8 (be32 a b c d)) = c" "ucast (be32 a b c d) = d"
    by (rule bit_word_eqI; simp add: bit_unsigned_iff bit_drop_bit_eq bit_be32)+
  then show ?thesis by (simp only: PUTU32_def)
qed

lemma PUTU32_cols: "length s = 16 \<Longrightarrow> concat (map PUTU32 (cols s)) = s"
  by (elim block_cases) (simp only: cols_block list.map concat.simps PUTU32_be32 append.simps)

lemma rijndael_aes:
  assumes "length key = 16" and "length dat = 16"
  shows "rijndaelEncrypt (rijndaelKeySetupEnc key) dat = aes128k128d key dat"
proof -
  let ?rk = "schedule key 11" and ?s = "rounds key dat 9"
  have comm: "xor_128 key dat = xor_128 dat key" by (simp add: xor_128_def xor.commute)
  have k0: "?rk ! j = cols key ! j" if "j < 4" for j using schedule_nth [of 0 11 j key] that by simp
  have start: "(GETU32 dat XOR ?rk ! 0, GETU32 (drop 4 dat) XOR ?rk ! 1, GETU32 (drop 8 dat) XOR ?rk ! 2,
      GETU32 (drop 12 dat) XOR ?rk ! 3) = tup (cols (rounds key dat 0))"
    by (simp add: comm cols_xor assms k0 tup_def) (simp add: cols_def map2_xor_4)
  have loop: "enc_loop ?rk 0 5 (tup (cols (rounds key dat 0))) = (40, tup (cols ?s))"
    using enc_loop_rounds [OF assms(1), of 0 4 dat] by (simp add: numeral_eq_Suc)
  have k10: "?rk ! 40 = cols (round_keys key 10) ! 0" "?rk ! 41 = cols (round_keys key 10) ! 1"
    "?rk ! 42 = cols (round_keys key 10) ! 2" "?rk ! 43 = cols (round_keys key 10) ! 3"
    using schedule_nth [of 10 11 0 key] schedule_nth [of 10 11 1 key] schedule_nth [of 10 11 2 key]
      schedule_nth [of 10 11 3 key] by simp_all
  have "rijndaelEncrypt ?rk dat =
      concat (map PUTU32 (map2 (XOR) (te_last (tup (cols ?s))) (cols (round_keys key 10))))"
    unfolding rijndaelEncrypt_def Let_def start loop
    by (simp add: te_last_def map2_xor_4 k10 xor.assoc tup_def)
  also have "\<dots> = concat (map PUTU32 (cols (last_round (round_keys key 10) ?s)))"
    by (simp only: last_round_def cols_xor te_last_cols block_lengths round_keys_length rounds_length assms)
  also have "\<dots> = aes128k128d key dat"
    by (simp only: aes_rounds last_round_def PUTU32_cols block_lengths)
  finally show ?thesis by (simp only: rijndaelKeySetupEnc_schedule assms)
qed

text \<open>C10: the table-driven cipher and the byte-oriented one are the same function: encrypting a
  block with \<open>rijndaelEncrypt\<close> under the schedule of \<open>rijndaelKeySetupEnc\<close> gives what
  \<open>aes128k128d\<close> gives, for every key and every block.\<close>

theorem rijndaelEncrypt_aes128k128d:
  assumes "length key = 16" and "length dat = 16"
  shows "rijndaelEncrypt (rijndaelKeySetupEnc key) dat = aes128k128d key dat"
  using assms by (rule rijndael_aes)

theorem rijndaelEncrypt_aes128k128d_witness:
  "rijndaelEncrypt (rijndaelKeySetupEnc (replicate 16 1)) (replicate 16 2) =
   aes128k128d (replicate 16 1) (replicate 16 2)"
  by (rule rijndaelEncrypt_aes128k128d) simp_all

end
