(* ===== verification/Ccmp.thy ===== *)
theory Ccmp
  imports Tkip Aes "HOL-Library.Signed_Division"
begin

text \<open>
  Software CCMP (core/rtw_security.c): the blocks built from the header, the message integrity
  code, the counter mode, and the encryption and decryption of frames, in place in a byte list.
  The reference is the CCM mode of RFC 3610 with an 8-byte tag and a 2-byte length field.
\<close>

section \<open>Frame headers\<close>

definition WIFI_MGT_TYPE :: u32 where "WIFI_MGT_TYPE = 0"
definition WIFI_DATA :: u32 where "WIFI_DATA = 0x08"
definition WIFI_DATA_CFACK :: u32 where "WIFI_DATA_CFACK = 0x18"
definition WIFI_DATA_CFPOLL :: u32 where "WIFI_DATA_CFPOLL = 0x28"
definition WIFI_DATA_CFACKPOLL :: u32 where "WIFI_DATA_CFACKPOLL = 0x38"

definition WLAN_HDR_A3_LEN :: nat where "WLAN_HDR_A3_LEN = 24"
definition WLAN_HDR_A3_QOS_LEN :: nat where "WLAN_HDR_A3_QOS_LEN = 26"
definition WLAN_HDR_A4_QOS_LEN :: nat where "WLAN_HDR_A4_QOS_LEN = 32"

text \<open>The two macros read the first two bytes of the frame.\<close>

definition GetFrameType :: "u8 list \<Rightarrow> u32" where
  "GetFrameType fc = ucast (get_le16 (fc ! 0) (fc ! 1) AND 0x000c)"

definition get_frame_sub_type :: "u8 list \<Rightarrow> u32" where
  "get_frame_sub_type fc = ucast (get_le16 (fc ! 0) (fc ! 1) AND 0x00fc)"

section \<open>Blocks built from the header\<close>

text \<open>The frame \<open>mpdu\<close> starts at offset \<open>p\<close> of \<open>mem\<close>.\<close>

definition construct_mic_iv ::
  "bool \<Rightarrow> bool \<Rightarrow> u8 list \<Rightarrow> nat \<Rightarrow> nat \<Rightarrow> u8 list \<Rightarrow> u32 \<Rightarrow> u8 list cres" where
  "construct_mic_iv qc_exists a4_exists mem p payload_length pn_vector frtype =
     bindc (if qc_exists then rd mem (p + (if a4_exists then 30 else 24)) else Inr 0) (\<lambda>qc.
     bindc (rdn mem (p + 10) 6) (\<lambda>a2.
     let m1 = qc AND 0x0f;
         m1 = (if frtype = WIFI_MGT_TYPE then m1 OR 0x10 else m1) in
     Inr ([0x59, m1] @ a2 @ rev pn_vector @
       [of_nat (payload_length div 256), of_nat (payload_length mod 256)])))"

definition construct_mic_header1 :: "int \<Rightarrow> u8 list \<Rightarrow> nat \<Rightarrow> u32 \<Rightarrow> u8 list cres" where
  "construct_mic_header1 header_length mem p frtype =
     bindc (rdn mem p 2) (\<lambda>fc.
     bindc (rdn mem (p + 4) 12) (\<lambda>addr.
     Inr ([of_int ((header_length - 2) sdiv 256), of_int ((header_length - 2) smod 256),
       (if frtype = WIFI_MGT_TYPE then fc ! 0 else fc ! 0 AND 0xcf), fc ! 1 AND 0xc7] @ addr)))"

definition construct_mic_header2 :: "u8 list \<Rightarrow> nat \<Rightarrow> bool \<Rightarrow> bool \<Rightarrow> u8 list cres" where
  "construct_mic_header2 mem p a4_exists qc_exists =
     bindc (rdn mem (p + 16) 6) (\<lambda>a3.
     bindc (if a4_exists then rdn mem (p + 24) 6 else Inr []) (\<lambda>a4.
     bindc (if qc_exists then rdn mem (p + (if a4_exists then 30 else 24)) 2 else Inr []) (\<lambda>qc.
     let h = a3 @ [0x00, 0x00] @ a4 @
       (if qc_exists then [qc ! 0 AND 0x0f, qc ! 1 AND 0x00] else []) in
     Inr (h @ replicate (16 - length h) 0))))"

definition construct_ctr_preload ::
  "bool \<Rightarrow> bool \<Rightarrow> u8 list \<Rightarrow> u32 \<Rightarrow> nat \<Rightarrow> u8 list \<Rightarrow> nat \<Rightarrow> u8 list cres" where
  "construct_ctr_preload a4_exists qc_exists pn_vector frtype p mem c =
     bindc (if qc_exists then rd mem (p + (if a4_exists then 30 else 24)) else Inr 0) (\<lambda>qc.
     bindc (rdn mem (p + 10) 6) (\<lambda>a2.
     let c1 = qc AND 0x0f;
         c1 = (if frtype = WIFI_MGT_TYPE then c1 OR 0x10 else c1) in
     Inr ([0x01, c1] @ a2 @ rev pn_vector @ [of_nat (c div 256), of_nat (c mod 256)])))"

definition bitwise_xor :: "u8 list \<Rightarrow> u8 list \<Rightarrow> u8 list" where
  "bitwise_xor ina inb = map (\<lambda>i. ina ! i XOR inb ! i) [0, 1, 2, 3, 4, 5, 6, 7, 8, 9, 10, 11, 12, 13, 14, 15]"

section \<open>Code and counter mode\<close>

fun mic_loop :: "u8 list \<Rightarrow> nat \<Rightarrow> u8 list \<Rightarrow> nat \<Rightarrow> u8 list \<Rightarrow> u8 list cres" where
  "mic_loop key 0 mem payload_index aes_out = Inr aes_out"
| "mic_loop key (Suc n) mem payload_index aes_out =
     bindc (rdn mem payload_index 16) (\<lambda>b.
     mic_loop key n mem (payload_index + 16) (aes128k128d key (bitwise_xor aes_out b)))"

text \<open>The final block, if there is one, is padded with zeros.\<close>

definition padded :: "u8 list \<Rightarrow> u8 list" where
  "padded xs = xs @ replicate (16 - length xs) 0x00"

definition calc_mic ::
  "u8 list \<Rightarrow> u8 list \<Rightarrow> u8 list \<Rightarrow> u8 list \<Rightarrow> u8 list \<Rightarrow> nat \<Rightarrow> nat \<Rightarrow> nat \<Rightarrow> u8 list cres" where
  "calc_mic key mic_iv mic_header1 mic_header2 mem payload_index num_blocks payload_remainder =
     (let aes_out = aes128k128d key mic_iv;
          aes_out = aes128k128d key (bitwise_xor aes_out mic_header1);
          aes_out = aes128k128d key (bitwise_xor aes_out mic_header2) in
      bindc (mic_loop key num_blocks mem payload_index aes_out) (\<lambda>aes_out.
      if payload_remainder > 0 then
        bindc (rdn mem (payload_index + 16 * num_blocks) payload_remainder) (\<lambda>xs.
        Inr (take 8 (aes128k128d key (bitwise_xor aes_out (padded xs)))))
      else Inr (take 8 aes_out)))"

text \<open>\<open>ctr\<close> is \<open>construct_ctr_preload\<close> for the frame; \<open>i\<close> blocks are done.\<close>

fun ctr_loop ::
  "u8 list \<Rightarrow> (u8 list \<Rightarrow> nat \<Rightarrow> u8 list cres) \<Rightarrow> nat \<Rightarrow> nat \<Rightarrow> nat \<Rightarrow> u8 list \<Rightarrow> u8 list cres" where
  "ctr_loop key ctr 0 i payload_index mem = Inr mem"
| "ctr_loop key ctr (Suc n) i payload_index mem =
     bindc (ctr mem (i + 1)) (\<lambda>ctr_preload.
     bindc (rdn mem payload_index 16) (\<lambda>b.
     bindc (wrn mem payload_index (bitwise_xor (aes128k128d key ctr_preload) b)) (\<lambda>mem'.
     ctr_loop key ctr n (i + 1) (payload_index + 16) mem')))"

definition ctr_crypt ::
  "u8 list \<Rightarrow> (u8 list \<Rightarrow> nat \<Rightarrow> u8 list cres) \<Rightarrow> nat \<Rightarrow> nat \<Rightarrow> nat \<Rightarrow> u8 list \<Rightarrow> u8 list cres" where
  "ctr_crypt key ctr num_blocks payload_remainder payload_index mem =
     bindc (ctr_loop key ctr num_blocks 0 payload_index mem) (\<lambda>mem'.
     if payload_remainder > 0 then
       bindc (ctr mem' (num_blocks + 1)) (\<lambda>ctr_preload.
       bindc (rdn mem' (payload_index + 16 * num_blocks) payload_remainder) (\<lambda>xs.
       wrn mem' (payload_index + 16 * num_blocks)
         (take payload_remainder (bitwise_xor (aes128k128d key ctr_preload) (padded xs)))))
     else Inr mem')"

definition crypt_mic :: "u8 list \<Rightarrow> (u8 list \<Rightarrow> nat \<Rightarrow> u8 list cres) \<Rightarrow> nat \<Rightarrow> u8 list \<Rightarrow> u8 list cres" where
  "crypt_mic key ctr q mem =
     bindc (ctr mem 0) (\<lambda>ctr_preload.
     bindc (rdn mem q 8) (\<lambda>mic.
     wrn mem q (take 8 (bitwise_xor (aes128k128d key ctr_preload) (padded mic)))))"

section \<open>The ciphers\<close>

text \<open>Whether the frame has a QoS control field, and the header length with it.\<close>

definition qc_hdrlen :: "u32 \<Rightarrow> u32 \<Rightarrow> nat \<Rightarrow> bool \<times> nat" where
  "qc_hdrlen frtype frsubtype hl =
     (let hl' = (if hl \<noteq> WLAN_HDR_A3_QOS_LEN \<and> hl \<noteq> WLAN_HDR_A4_QOS_LEN then hl + 2 else hl) in
      if frtype OR frsubtype = WIFI_DATA_CFACK \<or> frtype OR frsubtype = WIFI_DATA_CFPOLL \<or>
         frtype OR frsubtype = WIFI_DATA_CFACKPOLL then (True, hl')
      else if frtype = WIFI_DATA \<and>
         (frsubtype = 0x08 \<or> frsubtype = 0x09 \<or> frsubtype = 0x0a \<or> frsubtype = 0x0b) then (True, hl')
      else (False, hl))"

definition a4_of :: "nat \<Rightarrow> bool" where
  "a4_of hl \<longleftrightarrow> \<not> (hl = WLAN_HDR_A3_LEN \<or> hl = WLAN_HDR_A3_QOS_LEN)"

definition get_pn :: "u8 list \<Rightarrow> nat \<Rightarrow> u8 list cres" where
  "get_pn mem q = bindc (rdn mem q 8) (\<lambda>iv. Inr [iv ! 0, iv ! 1, iv ! 4, iv ! 5, iv ! 6, iv ! 7])"

text \<open>Sealing the \<open>plen\<close> bytes of payload of the frame at \<open>p\<close>, the code of \<open>aes_cipher\<close> that
  \<open>aes_decipher\<close> repeats on its copy of the frame.\<close>

definition ccm_seal_at ::
  "u8 list \<Rightarrow> nat \<Rightarrow> bool \<Rightarrow> bool \<Rightarrow> u32 \<Rightarrow> u8 list \<Rightarrow> u8 list \<Rightarrow> nat \<Rightarrow> nat \<Rightarrow> u8 list cres" where
  "ccm_seal_at key hl a4_exists qc_exists frtype pn_vector mem p plen =
     bindc (construct_mic_iv qc_exists a4_exists mem p plen pn_vector frtype) (\<lambda>mic_iv.
     bindc (construct_mic_header1 (int hl) mem p frtype) (\<lambda>mic_header1.
     bindc (construct_mic_header2 mem p a4_exists qc_exists) (\<lambda>mic_header2.
     let payload_remainder = plen mod 16; num_blocks = plen div 16; payload_index = p + hl + 8;
         ctr = construct_ctr_preload a4_exists qc_exists pn_vector frtype p in
     bindc (calc_mic key mic_iv mic_header1 mic_header2 mem payload_index num_blocks payload_remainder) (\<lambda>mic.
     bindc (wrn mem (payload_index + plen) mic) (\<lambda>mem.
     bindc (ctr_crypt key ctr num_blocks payload_remainder payload_index mem) (\<lambda>mem.
     crypt_mic key ctr (payload_index + plen) mem))))))"

definition aes_cipher :: "u8 list \<Rightarrow> nat \<Rightarrow> u8 list \<Rightarrow> nat \<Rightarrow> nat \<Rightarrow> u8 list cres" where
  "aes_cipher key hl mem pframe plen =
     bindc (rdn mem pframe 2) (\<lambda>fc.
     let frtype = GetFrameType fc;
         frsubtype = drop_bit 4 (get_frame_sub_type fc);
         a4_exists = a4_of hl;
         (qc_exists, hl) = qc_hdrlen frtype frsubtype hl in
     bindc (get_pn mem (pframe + hl)) (\<lambda>pn_vector.
     ccm_seal_at key hl a4_exists qc_exists frtype pn_vector mem pframe plen))"

definition MAX_MSG_SIZE :: nat where "MAX_MSG_SIZE = 2048"

text \<open>\<open>message\<close> is the static copy of the frame, kept from call to call.\<close>

definition aes_decipher ::
  "u8 list \<Rightarrow> nat \<Rightarrow> u8 list \<Rightarrow> nat \<Rightarrow> u8 list \<Rightarrow> (nat \<times> u8 list \<times> u8 list) cres" where
  "aes_decipher key hl mem plen message =
     bindc (rdn mem 0 2) (\<lambda>fc.
     let frtype = GetFrameType fc;
         frsubtype = drop_bit 4 (get_frame_sub_type fc);
         num_blocks = usub32 plen 8 div 16;
         payload_remainder = usub32 plen 8 mod 16 in
     bindc (get_pn mem hl) (\<lambda>pn_vector.
     let a4_exists = a4_of hl;
         (qc_exists, hl) = qc_hdrlen frtype frsubtype hl;
         ctr = construct_ctr_preload a4_exists qc_exists pn_vector frtype 0 in
     bindc (ctr_crypt key ctr num_blocks payload_remainder (hl + 8) mem) (\<lambda>mem.
     bindc (if (hl + plen + 8) mod 2 ^ 32 \<le> MAX_MSG_SIZE
            then bindc (rdn mem 0 ((hl + plen + 8) mod 2 ^ 32)) (\<lambda>xs. wrn message 0 xs)
            else Inr message) (\<lambda>message.
     bindc (get_pn mem hl) (\<lambda>pn_vector.
     bindc (ccm_seal_at key hl a4_exists qc_exists frtype pn_vector message 0 (usub32 plen 8)) (\<lambda>message.
     bindc (rdn mem (hl + plen) 8) (\<lambda>theirs.
     bindc (rdn message (hl + plen) 8) (\<lambda>ours.
     Inr (if theirs \<noteq> ours then FAIL else SUCCESS, mem, message)))))))))"

definition aes_encrypt_frag ::
  "security_priv \<times> pkt_attrib \<Rightarrow> nat \<Rightarrow> int \<Rightarrow> u8 list \<Rightarrow> u8 list cres" where
  "aes_encrypt_frag = (\<lambda>(sec, at) pframe len mem.
     bindc (tkip_encrypt_key sec at) (\<lambda>prwskey.
     aes_cipher prwskey (hdrlen at) mem pframe (nat (len mod 2 ^ 32))))"

definition rtw_aes_encrypt ::
  "security_priv \<Rightarrow> pkt_attrib \<Rightarrow> nat \<Rightarrow> nat option \<Rightarrow> u8 list \<Rightarrow> (nat \<times> u8 list \<times> security_priv) cres" where
  "rtw_aes_encrypt sec at frag_len buf_addr mem =
     (case buf_addr of None \<Rightarrow> Inr (FAIL, mem, sec)
      | Some base \<Rightarrow>
        (if encrypt at = AES then
           bindc (frag_loop (aes_encrypt_frag (sec, at)) at frag_len base (nr_frags at) TXDESC_OFFSET mem)
             (\<lambda>mem'. Inr (SUCCESS, mem', sec\<lparr>aes_sw_enc_cnt := sw_cnt_inc (ra at) (aes_sw_enc_cnt sec)\<rparr>))
         else Inr (SUCCESS, mem, sec)))"

text \<open>\<open>stainfo\<close> is the pairwise key of the transmitter, if \<open>rtw_get_stainfo\<close> knows it, and \<open>is_mesh\<close>
  is \<open>MLME_IS_MESH\<close>. The counters of frames without a group key only feed a log line.\<close>

definition rtw_aes_decrypt ::
  "security_priv \<Rightarrow> rx_pkt_attrib \<Rightarrow> bool \<Rightarrow> u8 list option \<Rightarrow> u8 list \<Rightarrow> u8 list \<Rightarrow>
   (nat \<times> u8 list \<times> u8 list \<times> security_priv) cres" where
  "rtw_aes_decrypt sec at is_mesh stainfo mem message =
     (if rx_encrypt at = AES then
        (case stainfo of None \<Rightarrow> Inr (FAIL, mem, message, sec)
         | Some uncst \<Rightarrow>
           if IS_MCAST (rx_ra at) \<and> \<not> is_mesh \<and> \<not> binstallGrpkey sec then Inr (FAIL, mem, message, sec)
           else if IS_MCAST (rx_ra at) \<and> dot118021XGrpKeyid sec \<noteq> rx_key_index at then Inr (FAIL, mem, message, sec)
           else
             bindc (if IS_MCAST (rx_ra at) then nth_chk (dot118021XGrpKey sec) (rx_key_index at) else Inr uncst) (\<lambda>prwskey.
             let len = sint32 (usub32 (usub32 (rx_len at) (rx_hdrlen at)) (rx_iv_len at)) in
             bindc (aes_decipher prwskey (rx_hdrlen at) mem (nat (len mod 2 ^ 32)) message) (\<lambda>(res, mem', message').
             Inr (res, mem', message', sec\<lparr>aes_sw_dec_cnt := sw_cnt_inc (rx_ra at) (aes_sw_dec_cnt sec)\<rparr>))))
      else Inr (SUCCESS, mem, message, sec))"

section \<open>The reference: CCM\<close>

text \<open>RFC 3610 over a block cipher \<open>E\<close>, with two length bytes and a tag of eight bytes.\<close>

definition xor_bytes :: "u8 list \<Rightarrow> u8 list \<Rightarrow> u8 list" where
  "xor_bytes xs ys = map2 (XOR) xs ys"

definition be2 :: "nat \<Rightarrow> u8 list" where
  "be2 n = [of_nat (n div 256), of_nat (n mod 256)]"

function blocks :: "u8 list \<Rightarrow> u8 list list" where
  "blocks xs = (if xs = [] then [] else padded (take 16 xs) # blocks (drop 16 xs))"
  by pat_completeness auto
termination by (relation "measure length") auto

declare blocks.simps [simp del]

definition cbc_mac :: "(u8 list \<Rightarrow> u8 list) \<Rightarrow> u8 list \<Rightarrow> u8 list list \<Rightarrow> u8 list" where
  "cbc_mac E = foldl (\<lambda>x b. E (xor_bytes x b))"

definition ccm_mic :: "(u8 list \<Rightarrow> u8 list) \<Rightarrow> u8 list \<Rightarrow> u8 list \<Rightarrow> u8 list \<Rightarrow> u8 list" where
  "ccm_mic E nonce aad m =
     take 8 (cbc_mac E (E ([0x59] @ nonce @ be2 (length m))) (blocks (be2 (length aad) @ aad) @ blocks m))"

definition ccm_stream :: "(u8 list \<Rightarrow> u8 list) \<Rightarrow> u8 list \<Rightarrow> nat \<Rightarrow> u8 list" where
  "ccm_stream E nonce i = E ([0x01] @ nonce @ be2 i)"

function ccm_ctr :: "(u8 list \<Rightarrow> u8 list) \<Rightarrow> u8 list \<Rightarrow> nat \<Rightarrow> u8 list \<Rightarrow> u8 list" where
  "ccm_ctr E nonce i m =
     (if m = [] then []
      else xor_bytes (take 16 m) (ccm_stream E nonce i) @ ccm_ctr E nonce (i + 1) (drop 16 m))"
  by pat_completeness auto
termination by (relation "measure (\<lambda>(_, _, _, m). length m)") auto

declare ccm_ctr.simps [simp del]

definition ccm_tag :: "(u8 list \<Rightarrow> u8 list) \<Rightarrow> u8 list \<Rightarrow> u8 list \<Rightarrow> u8 list \<Rightarrow> u8 list" where
  "ccm_tag E nonce aad m = xor_bytes (ccm_mic E nonce aad m) (ccm_stream E nonce 0)"

definition ccm_encrypt :: "(u8 list \<Rightarrow> u8 list) \<Rightarrow> u8 list \<Rightarrow> u8 list \<Rightarrow> u8 list \<Rightarrow> u8 list" where
  "ccm_encrypt E nonce aad m = ccm_ctr E nonce 1 m @ ccm_tag E nonce aad m"

text \<open>The nonce of IEEE 802.11 and the additional data as the driver builds it, for the header \<open>h\<close>, whose
  last eight bytes are the CCMP header.\<close>

definition qos_frame :: "u8 list \<Rightarrow> bool" where
  "qos_frame h \<longleftrightarrow> GetFrameType h = WIFI_DATA \<and> drop_bit 4 (get_frame_sub_type h) \<in> {0x08, 0x09, 0x0a, 0x0b}"

definition qos_tid :: "nat \<Rightarrow> u8 list \<Rightarrow> u8" where
  "qos_tid hl h = (if qos_frame h then h ! (if a4_of hl then 30 else 24) AND 0x0f else 0)"

definition ccmp_nonce :: "nat \<Rightarrow> u8 list \<Rightarrow> u8 list" where
  "ccmp_nonce hl h =
     (if GetFrameType h = WIFI_MGT_TYPE then qos_tid hl h OR 0x10 else qos_tid hl h) #
     chunk h 10 6 @ [h ! (hl + 7), h ! (hl + 6), h ! (hl + 5), h ! (hl + 4), h ! (hl + 1), h ! hl]"

definition ccmp_aad :: "nat \<Rightarrow> u8 list \<Rightarrow> u8 list" where
  "ccmp_aad hl h =
     [if GetFrameType h = WIFI_MGT_TYPE then h ! 0 else h ! 0 AND 0xcf, h ! 1 AND 0xc7] @
     chunk h 4 18 @ [0, 0] @ (if a4_of hl then chunk h 24 6 else []) @
     (if qos_frame h then [qos_tid hl h, 0] else [])"

text \<open>The additional data as IEEE 802.11 (12.5.3.3.3) defines it, from the bits of the header: in data frames
  the subtype bits 4 to 6 count as zero; retry, power management and more data count as zero and the protected
  bit as one; the order bit counts as zero in frames with QoS control; of the sequence control the fragment number
  is kept and the sequence number counts as zero.\<close>

definition fc_data :: "u8 list \<Rightarrow> bool" where
  "fc_data h \<longleftrightarrow> \<not> bit (h ! 0) 2 \<and> bit (h ! 0) 3"

definition fc_qos :: "u8 list \<Rightarrow> bool" where
  "fc_qos h \<longleftrightarrow> fc_data h \<and> bit (h ! 0) 7"

definition fc_a4 :: "u8 list \<Rightarrow> bool" where
  "fc_a4 h \<longleftrightarrow> bit (h ! 1) 0 \<and> bit (h ! 1) 1"

definition ieee_hdrlen :: "u8 list \<Rightarrow> nat" where
  "ieee_hdrlen h = 24 + (if fc_a4 h then 6 else 0) + (if fc_qos h then 2 else 0)"

definition frag_number :: "u8 list \<Rightarrow> u8" where
  "frag_number h = h ! 22 AND 0x0f"

definition ieee_aad :: "u8 list \<Rightarrow> u8 list" where
  "ieee_aad h =
     [if fc_data h then h ! 0 AND 0x8f else h ! 0,
      let fc1 = h ! 1 AND 0xc7 OR 0x40 in if fc_qos h then fc1 AND 0x7f else fc1] @
     take 6 (drop 4 h) @ take 6 (drop 10 h) @ take 6 (drop 16 h) @ [frag_number h, 0] @
     (if fc_a4 h then take 6 (drop 24 h) else []) @
     (if fc_qos h then [h ! (if fc_a4 h then 30 else 24) AND 0x0f, 0] else [])"

text \<open>A protected data or management frame with a payload, without the HT control field.\<close>

definition ieee_protected :: "nat \<Rightarrow> u8 list \<Rightarrow> bool" where
  "ieee_protected hl h \<longleftrightarrow> hl = ieee_hdrlen h \<and> bit (h ! 1) 6 \<and>
     (fc_data h \<longrightarrow> \<not> bit (h ! 0) 6) \<and> (fc_data h \<or> \<not> bit (h ! 0) 2 \<and> \<not> bit (h ! 0) 3) \<and>
     (fc_qos h \<longrightarrow> \<not> bit (h ! 1) 7)"

text \<open>The header length agrees with the presence of the QoS control field.\<close>

definition hdr_consistent :: "nat \<Rightarrow> u8 list \<Rightarrow> bool" where
  "hdr_consistent hl h \<longleftrightarrow> hl \<in> (if qos_frame h then {26, 32} else {24, 30})"

section \<open>The routines in terms of the reference\<close>

subsection \<open>Blocks\<close>

lemma aes_length [simp]: "length (aes128k128d key b) = 16"
  by (simp add: aes_rounds last_round_def)

lemma xor_bytes_length [simp]: "length (xor_bytes xs ys) = min (length xs) (length ys)"
  by (simp add: xor_bytes_def)

lemma padded_length [simp]: "length xs \<le> 16 \<Longrightarrow> length (padded xs) = 16"
  by (simp add: padded_def)

lemma padded_16: "16 \<le> length xs \<Longrightarrow> padded xs = xs"
  by (simp add: padded_def)

lemma bitwise_xor_bytes:
  assumes "length a = 16" and "length b = 16"
  shows "bitwise_xor a b = xor_bytes a b"
  using assms by (elim block_cases) (simp add: bitwise_xor_def xor_bytes_def)

lemma bitwise_xor_commute: "bitwise_xor a b = bitwise_xor b a"
  by (simp add: bitwise_xor_def xor.commute)

lemma bitwise_xor_length [simp]: "length (bitwise_xor a b) = 16"
  by (simp add: bitwise_xor_def)

lemma bitwise_xor_padded:
  assumes "length a = 16" and "length xs \<le> 16"
  shows "take (length xs) (bitwise_xor a (padded xs)) = xor_bytes xs a"
proof -
  have "bitwise_xor a (padded xs) = xor_bytes (padded xs) a"
    using assms by (subst bitwise_xor_commute) (simp add: bitwise_xor_bytes)
  also have "\<dots> = xor_bytes (xs @ replicate (16 - length xs) 0) (take (length xs) a @ drop (length xs) a)"
    by (simp add: padded_def)
  also have "take (length xs) \<dots> = xor_bytes xs (take (length xs) a)"
    using assms unfolding xor_bytes_def by (subst zip_append) simp_all
  also have "\<dots> = xor_bytes xs a"
    using assms unfolding xor_bytes_def by (intro nth_equalityI) simp_all
  finally show ?thesis .
qed

lemma blocks_Nil [simp]: "blocks [] = []"
  by (simp add: blocks.simps)

lemma blocks_short: "xs \<noteq> [] \<Longrightarrow> length xs \<le> 16 \<Longrightarrow> blocks xs = [padded xs]"
  by (subst blocks.simps) simp

lemma blocks_append: "length b = 16 \<Longrightarrow> blocks (b @ xs) = b # blocks xs"
  by (subst blocks.simps) (auto simp: padded_16)

lemma ccm_ctr_Nil [simp]: "ccm_ctr E nonce i [] = []"
  by (simp add: ccm_ctr.simps)

lemma ccm_ctr_short: "xs \<noteq> [] \<Longrightarrow> length xs \<le> 16 \<Longrightarrow> ccm_ctr E nonce i xs = xor_bytes xs (ccm_stream E nonce i)"
  by (subst ccm_ctr.simps) simp

lemma ccm_ctr_append:
  "length b = 16 \<Longrightarrow> ccm_ctr E nonce i (b @ xs) = xor_bytes b (ccm_stream E nonce i) @ ccm_ctr E nonce (i + 1) xs"
  by (subst ccm_ctr.simps) auto

lemma xor_bytes_twice: "length xs \<le> length k \<Longrightarrow> xor_bytes (xor_bytes xs k) k = xs"
proof (induction xs arbitrary: k)
  case (Cons x xs)
  then show ?case by (cases k) (simp_all add: xor_bytes_def xor.assoc)
qed (simp add: xor_bytes_def)

lemma ccm_ctr_length:
  assumes "\<And>b. length (E b) = 16"
  shows "length (ccm_ctr E nonce i m) = length m"
proof (induction m arbitrary: i rule: length_induct)
  case (1 m)
  then show ?case
    by (subst ccm_ctr.simps) (auto simp: ccm_stream_def assms min_def)
qed

lemma multiple_16: "length b = 16 * Suc n \<Longrightarrow> length (take 16 b) = 16 \<and> length (drop 16 b) = 16 * n"
  by simp

lemma blocks_append_multiple: "length b = 16 * n \<Longrightarrow> blocks (b @ xs) = blocks b @ blocks xs"
proof (induction n arbitrary: b)
  case (Suc n)
  note l = multiple_16 [OF Suc.prems]
  have "blocks ((take 16 b @ drop 16 b) @ xs) = take 16 b # blocks (drop 16 b) @ blocks xs"
    using blocks_append [of "take 16 b" "drop 16 b @ xs"] Suc.IH [of "drop 16 b"] l by (simp only: append_assoc)
  moreover have "blocks (take 16 b @ drop 16 b) = take 16 b # blocks (drop 16 b)"
    using l by (intro blocks_append) simp
  ultimately show ?case by simp
qed simp

lemma ccm_ctr_append_multiple:
  "length b = 16 * n \<Longrightarrow> ccm_ctr E nonce i (b @ xs) = ccm_ctr E nonce i b @ ccm_ctr E nonce (i + n) xs"
proof (induction n arbitrary: b i)
  case (Suc n)
  note l = multiple_16 [OF Suc.prems]
  have "ccm_ctr E nonce i ((take 16 b @ drop 16 b) @ xs) =
      xor_bytes (take 16 b) (ccm_stream E nonce i) @ ccm_ctr E nonce (i + 1) (drop 16 b) @ ccm_ctr E nonce (i + 1 + n) xs"
    using ccm_ctr_append [of "take 16 b" E nonce i "drop 16 b @ xs"] Suc.IH [of "drop 16 b" "i + 1"] l
    by (simp only: append_assoc)
  moreover have "ccm_ctr E nonce i (take 16 b @ drop 16 b) =
      xor_bytes (take 16 b) (ccm_stream E nonce i) @ ccm_ctr E nonce (i + 1) (drop 16 b)"
    using l by (intro ccm_ctr_append) simp
  ultimately show ?case by simp
qed simp

lemma mic_loop_cbc:
  "idx + 16 * n \<le> length mem \<Longrightarrow> length out = 16 \<Longrightarrow>
   mic_loop key n mem idx out = Inr (cbc_mac (aes128k128d key) out (blocks (chunk mem idx (16 * n))))"
proof (induction n arbitrary: idx out)
  case (Suc n)
  have "chunk mem idx (16 * Suc n) = chunk mem idx 16 @ chunk mem (idx + 16) (16 * n)"
    using chunk_add [of 16 "16 * n" idx mem] by simp
  moreover have "length (chunk mem idx 16) = 16" using Suc.prems(1) by simp
  ultimately show ?case
    using Suc.prems Suc.IH [of "idx + 16" "aes128k128d key (bitwise_xor out (chunk mem idx 16))"]
    by (simp add: rdn_ok blocks_append cbc_mac_def bitwise_xor_bytes)
qed (simp add: cbc_mac_def)

lemma mic_loop_oob: "length mem < idx + 16 * n \<Longrightarrow> 0 < n \<Longrightarrow> mic_loop key n mem idx out = Inl OutOfBounds"
proof (induction n arbitrary: idx out)
  case (Suc n)
  show ?case
  proof (cases "length mem < idx + 16")
    case True
    then show ?thesis by (simp add: rdn_def)
  next
    case False
    then have "0 < n" using Suc.prems by (cases n) auto
    then show ?thesis using False Suc.prems Suc.IH [of "idx + 16"] by (simp add: rdn_ok)
  qed
qed simp

lemma chunk_length: "p + n \<le> length mem \<Longrightarrow> length (chunk mem p n) = n"
  by simp

lemma chunk_div_mod: "chunk mem idx len = chunk mem idx (16 * (len div 16)) @ chunk mem (idx + 16 * (len div 16)) (len mod 16)"
  using chunk_add [of "16 * (len div 16)" "len mod 16" idx mem] by simp

lemma calc_mic_cbc:
  assumes "idx + len \<le> length mem" and "length h1 = 16" and "length h2 = 16"
  shows "calc_mic key iv h1 h2 mem idx (len div 16) (len mod 16) =
    Inr (take 8 (cbc_mac (aes128k128d key) (aes128k128d key iv) ([h1, h2] @ blocks (chunk mem idx len))))"
proof -
  let ?n = "16 * (len div 16)" and ?r = "len mod 16"
  have le: "?n + ?r = len" by simp
  then have fits: "idx + ?n + ?r \<le> length mem" using assms(1) by linarith
  then have "length (chunk mem idx ?n) = 16 * (len div 16)" by simp
  then have b: "blocks (chunk mem idx len) = blocks (chunk mem idx ?n) @ blocks (chunk mem (idx + ?n) ?r)"
    unfolding chunk_div_mod [of len idx mem] by (rule blocks_append_multiple)
  have loop: "mic_loop key (len div 16) mem idx out = Inr (cbc_mac (aes128k128d key) out (blocks (chunk mem idx ?n)))"
    if "length out = 16" for out
    using fits that by (intro mic_loop_cbc) simp_all
  have out: "length (cbc_mac (aes128k128d key) x ys) = 16" if "length x = 16" for x ys
    using that unfolding cbc_mac_def by (cases ys rule: rev_cases) simp_all
  have r: "rdn mem (idx + ?n) ?r = Inr (chunk mem (idx + ?n) ?r)" using fits by (intro rdn_ok)
  have x: "bitwise_xor (cbc_mac (aes128k128d key) y ys) (padded (chunk mem (idx + ?n) ?r)) =
      xor_bytes (cbc_mac (aes128k128d key) y ys) (padded (chunk mem (idx + ?n) ?r))" if "length y = 16" for y ys
    using out [OF that] fits by (intro bitwise_xor_bytes padded_length) simp_all
  have "blocks (chunk mem (idx + ?n) ?r) = [padded (chunk mem (idx + ?n) ?r)]" if "0 < ?r"
  proof (rule blocks_short)
    have len: "length (chunk mem (idx + ?n) ?r) = ?r" using fits by (rule chunk_length)
    then show "chunk mem (idx + ?n) ?r \<noteq> []" using that by (metis list.size(3) less_irrefl)
    show "length (chunk mem (idx + ?n) ?r) \<le> 16" unfolding len by simp
  qed
  then show ?thesis
    using assms(2,3) loop r
    by (cases "0 < ?r") (simp_all add: calc_mic_def Let_def b bitwise_xor_bytes x [unfolded cbc_mac_def] cbc_mac_def)
qed

text \<open>The counter blocks depend on the header only, which lies in front of the payload.\<close>

definition ctr_of :: "(u8 list \<Rightarrow> nat \<Rightarrow> u8 list cres) \<Rightarrow> nat \<Rightarrow> u8 list \<Rightarrow> u8 list \<Rightarrow> bool" where
  "ctr_of ctr q mem nonce \<longleftrightarrow>
     (\<forall>mem' c. take q mem' = take q mem \<and> length mem' = length mem \<longrightarrow> ctr mem' c = Inr ([0x01] @ nonce @ be2 c))"

lemma ctr_ofD: "ctr_of ctr q mem nonce \<Longrightarrow> ctr mem c = Inr ([0x01] @ nonce @ be2 c)"
  by (simp add: ctr_of_def)

lemma ctr_of_written:
  assumes "ctr_of ctr q mem nonce" and "q \<le> p" and "p + length xs \<le> length mem"
  shows "ctr_of ctr q (written mem p xs) nonce"
proof -
  have "take q (written mem p xs) = take q mem"
    using take_eq_mono [OF written_take [OF assms(3)] assms(2)] .
  then show ?thesis using assms by (simp add: ctr_of_def)
qed

lemma xor_stream:
  assumes "length b = 16"
  shows "bitwise_xor (aes128k128d key (0x01 # nonce @ be2 i)) b = xor_bytes b (ccm_stream (aes128k128d key) nonce i)"
  using assms by (subst bitwise_xor_commute) (simp add: bitwise_xor_bytes ccm_stream_def)

lemma ctr_loop_written:
  assumes "ctr_of ctr q mem nonce" and "q \<le> idx" and "idx + 16 * n \<le> length mem"
  shows "ctr_loop key ctr n i idx mem =
    Inr (written mem idx (ccm_ctr (aes128k128d key) nonce (i + 1) (chunk mem idx (16 * n))))"
  using assms
proof (induction n arbitrary: idx i mem)
  case 0
  then show ?case by (simp add: written_def)
next
  case (Suc n)
  let ?b = "chunk mem idx 16"
  let ?x = "xor_bytes ?b (ccm_stream (aes128k128d key) nonce (i + 1))"
  let ?mem = "written mem idx ?x"
  have b: "length ?b = 16" using Suc.prems(3) by simp
  have x: "length ?x = 16" using b by (simp add: ccm_stream_def)
  then have fit: "idx + length ?x \<le> length mem" using Suc.prems(3) by simp
  have "ctr_of ctr q ?mem nonce" using Suc.prems(1,2) fit by (rule ctr_of_written)
  moreover have "idx + 16 + 16 * n \<le> length ?mem" using Suc.prems(3) fit by simp
  ultimately have IH: "ctr_loop key ctr n (i + 1) (idx + 16) ?mem =
      Inr (written ?mem (idx + 16) (ccm_ctr (aes128k128d key) nonce (i + 2) (chunk ?mem (idx + 16) (16 * n))))"
    using Suc.IH [of ?mem "idx + 16" "i + 1"] Suc.prems(2) by simp
  have c: "chunk ?mem (idx + 16) (16 * n) = chunk mem (idx + 16) (16 * n)"
    using written_drop [OF fit, of "idx + 16"] x by simp
  have "chunk mem idx (16 * Suc n) = ?b @ chunk mem (idx + 16) (16 * n)"
    using chunk_add [of 16 "16 * n" idx mem] by simp
  then have e: "ccm_ctr (aes128k128d key) nonce (i + 1) (chunk mem idx (16 * Suc n)) =
      ?x @ ccm_ctr (aes128k128d key) nonce (i + 2) (chunk mem (idx + 16) (16 * n))"
    using b by (simp only: ccm_ctr_append) simp
  have "length (ccm_ctr (aes128k128d key) nonce (i + 2) (chunk mem (idx + 16) (16 * n))) = 16 * n"
    using Suc.prems(3) by (simp add: ccm_ctr_length)
  then have w: "written ?mem (idx + 16) (ccm_ctr (aes128k128d key) nonce (i + 2) (chunk mem (idx + 16) (16 * n))) =
      written mem idx (?x @ ccm_ctr (aes128k128d key) nonce (i + 2) (chunk mem (idx + 16) (16 * n)))"
    using Suc.prems(3) x by (intro written_append) simp_all
  have r: "rdn mem idx 16 = Inr ?b" using Suc.prems(3) by (intro rdn_ok) simp
  have "ctr_loop key ctr (Suc n) i idx mem = ctr_loop key ctr n (i + 1) (idx + 16) ?mem"
    using ctr_ofD [OF Suc.prems(1), of "i + 1"] xor_stream [OF b, of key nonce "i + 1"] wrn_written [OF fit]
    by (simp add: r)
  then show ?case using IH by (simp only: c w e)
qed

lemma ctr_loop_oob:
  assumes "\<And>mem' c e. ctr mem' c = Inl e \<Longrightarrow> e = OutOfBounds" and "length mem < idx + 16 * n" and "0 < n"
  shows "ctr_loop key ctr n i idx mem = Inl OutOfBounds"
  using assms(2,3)
proof (induction n arbitrary: i idx mem)
  case (Suc n)
  consider e where "ctr mem (Suc i) = Inl e" | "length mem < idx + 16" "\<exists>b. ctr mem (Suc i) = Inr b"
    | b where "ctr mem (Suc i) = Inr b" "idx + 16 \<le> length mem"
    by (cases "ctr mem (Suc i)"; cases "length mem < idx + 16") (auto simp: not_less)
  then show ?case
  proof cases
    case 1
    then show ?thesis using assms(1) by simp
  next
    case 2
    then show ?thesis by (auto simp: rdn_def)
  next
    case 3
    let ?mem = "written mem idx (bitwise_xor (aes128k128d key b) (chunk mem idx 16))"
    have "0 < n" using 3(2) Suc.prems(1) by (cases n) auto
    moreover have "length ?mem = length mem" using 3(2) by (intro written_length) simp
    ultimately have "ctr_loop key ctr n (i + 1) (idx + 16) ?mem = Inl OutOfBounds"
      using Suc.prems by (intro Suc.IH) auto
    then show ?thesis using 3 by (simp add: rdn_ok wrn_written)
  qed
qed simp

lemma ctr_crypt_written:
  assumes "ctr_of ctr q mem nonce" and "q \<le> idx" and "idx + len \<le> length mem"
  shows "ctr_crypt key ctr (len div 16) (len mod 16) idx mem =
    Inr (written mem idx (ccm_ctr (aes128k128d key) nonce 1 (chunk mem idx len)))"
proof -
  let ?n = "16 * (len div 16)" and ?r = "len mod 16" and ?E = "aes128k128d key"
  have le: "?n + ?r = len" by simp
  then have fits: "idx + ?n + ?r \<le> length mem" using assms(3) by linarith
  let ?xs = "ccm_ctr ?E nonce 1 (chunk mem idx ?n)" and ?ys = "chunk mem (idx + ?n) ?r"
  let ?mem = "written mem idx ?xs"
  have b: "length (chunk mem idx ?n) = ?n" using fits by simp
  then have xs: "length ?xs = ?n" by (simp add: ccm_ctr_length)
  then have fit: "idx + length ?xs \<le> length mem" using fits by linarith
  have loop: "ctr_loop key ctr (len div 16) 0 idx mem = Inr ?mem"
    using ctr_loop_written [OF assms(1,2), of "len div 16" key 0] fits by simp
  have split: "ccm_ctr ?E nonce 1 (chunk mem idx len) = ?xs @ ccm_ctr ?E nonce (1 + len div 16) ?ys"
    unfolding chunk_div_mod [of len idx mem] using b by (intro ccm_ctr_append_multiple)
  show ?thesis
  proof (cases "?r = 0")
    case True
    then show ?thesis using split by (simp add: ctr_crypt_def loop)
  next
    case False
    let ?zs = "xor_bytes ?ys (ccm_stream ?E nonce (1 + len div 16))"
    have ys: "length ?ys = ?r" using fits by (rule chunk_length)
    have short: "length ?ys \<le> 16" unfolding ys by simp
    have "?ys \<noteq> []" using ys False by (metis list.size(3))
    then have z: "ccm_ctr ?E nonce (1 + len div 16) ?ys = ?zs" using short by (rule ccm_ctr_short)
    have zl: "length ?zs = ?r" using ys short by (simp add: ccm_stream_def del: length_take length_drop)
    have "drop (idx + ?n) ?mem = drop (idx + ?n) mem" by (rule written_drop [OF fit]) (simp only: xs)
    then have "chunk ?mem (idx + ?n) ?r = ?ys" by simp
    moreover have "idx + ?n + ?r \<le> length ?mem" using fit fits by simp
    ultimately have r: "rdn ?mem (idx + ?n) ?r = Inr ?ys" by (simp only: rdn_ok)
    have c: "ctr ?mem (len div 16 + 1) = Inr ([0x01] @ nonce @ be2 (1 + len div 16))"
      using ctr_ofD [OF ctr_of_written [OF assms(1,2) fit], of "1 + len div 16"] by (simp only: add.commute)
    have x: "take ?r (bitwise_xor (?E ([0x01] @ nonce @ be2 (1 + len div 16))) (padded ?ys)) = ?zs"
      using bitwise_xor_padded [of "?E ([0x01] @ nonce @ be2 (1 + len div 16))" ?ys] short
      unfolding ys by (simp add: ccm_stream_def)
    have "wrn ?mem (idx + ?n) ?zs = Inr (written mem idx (?xs @ ?zs))"
      using fit fits xs zl by (subst wrn_written) (simp_all add: written_append)
    then show ?thesis
      unfolding ctr_crypt_def loop bindc_Inr split z using False by (simp only: r c x bindc_Inr) simp
  qed
qed

lemma crypt_mic_written:
  assumes "ctr_of ctr q mem nonce" and "q \<le> idx" and "idx + 8 \<le> length mem"
  shows "crypt_mic key ctr idx mem =
    Inr (written mem idx (xor_bytes (chunk mem idx 8) (ccm_stream (aes128k128d key) nonce 0)))"
proof -
  let ?ys = "chunk mem idx 8" and ?s = "aes128k128d key ([0x01] @ nonce @ be2 0)"
  have ys: "length ?ys = 8" using assms(3) by simp
  have x: "take 8 (bitwise_xor ?s (padded ?ys)) = xor_bytes ?ys (ccm_stream (aes128k128d key) nonce 0)"
    using bitwise_xor_padded [of ?s ?ys] unfolding ys by (simp add: ccm_stream_def)
  have l: "length (xor_bytes ?ys (ccm_stream (aes128k128d key) nonce 0)) = 8" using ys by (simp add: ccm_stream_def)
  show ?thesis
    unfolding crypt_mic_def ctr_ofD [OF assms(1)] bindc_Inr using assms(3) l by (simp only: rdn_ok bindc_Inr x wrn_written)
qed

subsection \<open>The header\<close>

lemma holds_at_rdn_sub:
  assumes "holds_at mem p h" and "i + n \<le> length h"
  shows "rdn mem (p + i) n = Inr (chunk h i n)"
proof -
  have "h = chunk mem p (length h)" using holds_at_take [OF assms(1)] by simp
  then have "chunk h i n = chunk mem (p + i) n" using chunk_chunk [OF assms(2), of p mem] by simp
  then show ?thesis using holds_at_length [OF assms(1)] assms(2) by (simp add: rdn_ok)
qed

lemma frame_type_take: "2 \<le> length h \<Longrightarrow> GetFrameType (take 2 h) = GetFrameType h"
  "2 \<le> length h \<Longrightarrow> get_frame_sub_type (take 2 h) = get_frame_sub_type h"
  by (simp_all add: GetFrameType_def get_frame_sub_type_def)

lemma frame_type_bits: "bit (get_frame_sub_type h) n \<Longrightarrow> n < 8" "bit (GetFrameType h) n \<Longrightarrow> n < 4"
proof -
  have "(0x00fc :: u16) = push_bit 2 (mask 6)" "(0x000c :: u16) = push_bit 2 (mask 2)"
    by (simp_all add: mask_eq_exp_minus_1 push_bit_eq_mult)
  then have m: "bit (0x00fc :: u16) n \<Longrightarrow> n < 8" "bit (0x000c :: u16) n \<Longrightarrow> n < 4"
    by (auto simp: bit_simps)
  then show "bit (get_frame_sub_type h) n \<Longrightarrow> n < 8" "bit (GetFrameType h) n \<Longrightarrow> n < 4"
    by (auto simp: get_frame_sub_type_def GetFrameType_def bit_simps)
qed

text \<open>The subtype is shifted before it is compared, so the first test of the two ciphers never holds.\<close>

lemma qc_hdrlen_eq:
  "qc_hdrlen (GetFrameType h) (drop_bit 4 (get_frame_sub_type h)) hl =
     (qos_frame h, if qos_frame h \<and> hl \<noteq> 26 \<and> hl \<noteq> 32 then hl + 2 else hl)"
proof -
  let ?x = "GetFrameType h OR drop_bit 4 (get_frame_sub_type h)"
  have "\<not> bit ?x 4" "\<not> bit ?x 5"
    using frame_type_bits [of h] by (fastforce simp: bit_simps)+
  moreover have "bit WIFI_DATA_CFACK 4" "bit WIFI_DATA_CFPOLL 5" "bit WIFI_DATA_CFACKPOLL 4"
    by (simp_all add: WIFI_DATA_CFACK_def WIFI_DATA_CFPOLL_def WIFI_DATA_CFACKPOLL_def)
  ultimately have "?x \<noteq> WIFI_DATA_CFACK" "?x \<noteq> WIFI_DATA_CFPOLL" "?x \<noteq> WIFI_DATA_CFACKPOLL"
    by metis+
  then show ?thesis
    by (simp add: qc_hdrlen_def qos_frame_def WLAN_HDR_A3_QOS_LEN_def WLAN_HDR_A4_QOS_LEN_def Let_def)
qed

lemma qc_hdrlen_consistent:
  "hdr_consistent hl h \<Longrightarrow> qc_hdrlen (GetFrameType h) (drop_bit 4 (get_frame_sub_type h)) hl = (qos_frame h, hl)"
  by (auto simp: qc_hdrlen_eq hdr_consistent_def)

lemma a4_of_consistent: "hdr_consistent hl h \<Longrightarrow> a4_of hl \<longleftrightarrow> 30 \<le> hl"
  by (auto simp: hdr_consistent_def a4_of_def WLAN_HDR_A3_LEN_def WLAN_HDR_A3_QOS_LEN_def split: if_splits)

lemma consistent_length: "hdr_consistent hl h \<Longrightarrow> hl = 24 + (if a4_of hl then 6 else 0) + (if qos_frame h then 2 else 0)"
  by (auto simp: hdr_consistent_def a4_of_def WLAN_HDR_A3_LEN_def WLAN_HDR_A3_QOS_LEN_def split: if_splits)

text \<open>A frame at \<open>p\<close> whose header, with the CCMP header behind it, is \<open>h\<close>.\<close>

definition frame_at :: "nat \<Rightarrow> u8 list \<Rightarrow> nat \<Rightarrow> u8 list \<Rightarrow> bool" where
  "frame_at hl mem p h \<longleftrightarrow> holds_at mem p h \<and> length h = hl + 8 \<and> hdr_consistent hl h"

definition pn_of :: "nat \<Rightarrow> u8 list \<Rightarrow> u8 list" where
  "pn_of hl h = [h ! hl, h ! (hl + 1), h ! (hl + 4), h ! (hl + 5), h ! (hl + 6), h ! (hl + 7)]"

lemma get_pn_at: "frame_at hl mem p h \<Longrightarrow> get_pn mem (p + hl) = Inr (pn_of hl h)"
  using holds_at_rdn_sub [of mem p h hl 8] by (simp add: frame_at_def get_pn_def pn_of_def)

lemma frame_at_tid:
  assumes "frame_at hl mem p h"
  shows "(if qos_frame h then rd mem (p + (if a4_of hl then 30 else 24)) else Inr 0) =
    Inr (if qos_frame h then h ! (if a4_of hl then 30 else 24) else 0)"
proof -
  have "holds_at mem p h" and "length h = hl + 8" using assms by (simp_all add: frame_at_def)
  moreover have "qos_frame h \<Longrightarrow> (if a4_of hl then 30 else 24) < hl"
    using consistent_length [of hl h] assms by (auto simp: frame_at_def split: if_splits)
  ultimately show ?thesis using holds_at_rd [of mem p h "if a4_of hl then 30 else 24"] by auto
qed

lemma frame_at_rdn: "frame_at hl mem p h \<Longrightarrow> i + n \<le> hl + 8 \<Longrightarrow> rdn mem (p + i) n = Inr (chunk h i n)"
  using holds_at_rdn_sub [of mem p h i n] by (simp add: frame_at_def)

lemma frame_at_hl: "frame_at hl mem p h \<Longrightarrow> 24 \<le> hl"
  by (auto simp: frame_at_def hdr_consistent_def split: if_splits)

lemma mic_iv_at:
  assumes "frame_at hl mem p h"
  shows "construct_mic_iv (qos_frame h) (a4_of hl) mem p n (pn_of hl h) (GetFrameType h) =
    Inr ([0x59] @ ccmp_nonce hl h @ be2 n)"
  using frame_at_tid [OF assms] frame_at_rdn [OF assms, of 10 6] frame_at_hl [OF assms]
  by (simp add: construct_mic_iv_def ccmp_nonce_def pn_of_def be2_def qos_tid_def Let_def)

lemma ctr_preload_at:
  assumes "frame_at hl mem p h"
  shows "construct_ctr_preload (a4_of hl) (qos_frame h) (pn_of hl h) (GetFrameType h) p mem n =
    Inr ([0x01] @ ccmp_nonce hl h @ be2 n)"
  using frame_at_tid [OF assms] frame_at_rdn [OF assms, of 10 6] frame_at_hl [OF assms]
  by (simp add: construct_ctr_preload_def ccmp_nonce_def pn_of_def be2_def qos_tid_def Let_def)

lemma header_length_bytes:
  assumes "hl \<in> {24, 26, 30, 32}"
  shows "[of_int ((int hl - 2) sdiv 256), of_int ((int hl - 2) smod 256)] = be2 (hl - 2)"
  using assms by (auto simp: be2_def)

lemma header_blocks_at:
  assumes "frame_at hl mem p h"
  shows "\<exists>h1 h2. construct_mic_header1 (int hl) mem p (GetFrameType h) = Inr h1 \<and>
    construct_mic_header2 mem p (a4_of hl) (qos_frame h) = Inr h2 \<and> length h1 = 16 \<and> length h2 = 16 \<and>
    blocks (be2 (length (ccmp_aad hl h)) @ ccmp_aad hl h) = [h1, h2]"
proof -
  have h: "length h = hl + 8" "hdr_consistent hl h" using assms by (simp_all add: frame_at_def)
  note hl = frame_at_hl [OF assms] consistent_length [OF h(2)]
  note r = frame_at_rdn [OF assms]
  let ?fc = "[if GetFrameType h = WIFI_MGT_TYPE then h ! 0 else h ! 0 AND 0xcf, h ! 1 AND 0xc7]"
  let ?rest = "chunk h 16 6 @ [0, 0] @ (if a4_of hl then chunk h 24 6 else []) @
    (if qos_frame h then [qos_tid hl h, 0] else [])"
  let ?h1 = "be2 (hl - 2) @ ?fc @ chunk h 4 12"
  have "chunk h 4 18 = chunk h 4 12 @ chunk h 16 6" using chunk_add [of 12 6 4 h] by simp
  then have aad: "ccmp_aad hl h = ?fc @ chunk h 4 12 @ ?rest" by (simp add: ccmp_aad_def)
  have len: "length (ccmp_aad hl h) = hl - 2"
    using h(1) hl by (cases "a4_of hl"; cases "qos_frame h") (simp_all add: ccmp_aad_def)
  have "length ?h1 = 16" using h(1) hl(1) by (simp add: be2_def)
  moreover have rest: "length ?rest \<le> 16" "?rest \<noteq> []" using h(1) hl(1) by simp_all
  then have "blocks ?rest = [padded ?rest]" by (intro blocks_short)
  ultimately have b: "blocks (be2 (length (ccmp_aad hl h)) @ ccmp_aad hl h) = [?h1, padded ?rest]"
    using blocks_append [of ?h1 ?rest] unfolding len by (simp only: aad append_assoc)
  have mem: "hl \<in> {24, 26, 30, 32}" using h(2) by (auto simp: hdr_consistent_def split: if_splits)
  have "construct_mic_header1 (int hl) mem p (GetFrameType h) = Inr ?h1"
    using r [of 0 2] r [of 4 12] h(1) hl(1) header_length_bytes [OF mem]
    by (simp add: construct_mic_header1_def nth_take)
  moreover have "construct_mic_header2 mem p (a4_of hl) (qos_frame h) = Inr (padded ?rest)"
    using r [of 16 6] r [of 24 6] r [of 24 2] r [of 30 2] h(1) hl
    by (auto simp: construct_mic_header2_def padded_def qos_tid_def Let_def)
  ultimately show ?thesis
    using b rest(1) \<open>length ?h1 = 16\<close> padded_length [OF rest(1)] by blast
qed

subsection \<open>Sealing\<close>

lemma written_over:
  assumes "q \<le> p" and "p + length xs \<le> q + length ys" and "q + length ys \<le> length mem"
  shows "written (written mem p xs) q ys = written mem q ys"
proof -
  have fit: "p + length xs \<le> length mem" using assms by simp
  have "take q (written mem p xs) = take q mem" using take_eq_mono [OF written_take [OF fit] assms(1)] .
  moreover have "drop (q + length ys) (written mem p xs) = drop (q + length ys) mem"
    using drop_eq_mono [OF written_drop [OF fit refl] assms(2)] .
  ultimately show ?thesis by (simp add: written_def [of _ q])
qed

lemma frame_at_prefix:
  assumes "frame_at hl mem p h" and "take q mem' = take q mem" and "p + hl + 8 \<le> q" and "length mem' = length mem"
    and "q \<le> length mem"
  shows "frame_at hl mem' p h"
proof -
  have "holds_at mem p h" "length h = hl + 8" using assms(1) by (simp_all add: frame_at_def)
  then have "holds_at mem' p h" using assms(2-5) by (intro holds_at_prefix [of q mem' mem]) simp_all
  then show ?thesis using assms(1) by (simp add: frame_at_def)
qed

lemma frame_at_ctr:
  assumes "frame_at hl mem p h"
  shows "ctr_of (construct_ctr_preload (a4_of hl) (qos_frame h) (pn_of hl h) (GetFrameType h) p) (p + hl + 8) mem
    (ccmp_nonce hl h)"
proof -
  have fits: "p + hl + 8 \<le> length mem"
    using assms holds_at_length [of mem p h] by (simp add: frame_at_def)
  show ?thesis
    unfolding ctr_of_def using frame_at_prefix [OF assms _ _ _ fits] ctr_preload_at by (metis order_refl)
qed

lemma cbc_mac_length: "length x = 16 \<Longrightarrow> length (cbc_mac (aes128k128d key) x bs) = 16"
  unfolding cbc_mac_def by (cases bs rule: rev_cases) simp_all

lemma ccm_mic_length: "length (ccm_mic (aes128k128d key) nonce aad m) = 8"
  by (simp add: ccm_mic_def cbc_mac_length)

lemma ccm_tag_length: "length (ccm_tag (aes128k128d key) nonce aad m) = 8"
  by (simp add: ccm_tag_def ccm_mic_length ccm_stream_def)

lemma ccm_seal_at_written:
  assumes fr: "frame_at hl mem p h" and fits: "p + hl + 8 + n + 8 \<le> length mem"
  shows "ccm_seal_at key hl (a4_of hl) (qos_frame h) (GetFrameType h) (pn_of hl h) mem p n =
    Inr (written mem (p + hl + 8)
      (ccm_encrypt (aes128k128d key) (ccmp_nonce hl h) (ccmp_aad hl h) (chunk mem (p + hl + 8) n)))"
proof -
  let ?E = "aes128k128d key" and ?N = "ccmp_nonce hl h" and ?A = "ccmp_aad hl h" and ?q = "p + hl + 8"
  let ?m = "chunk mem ?q n"
  let ?ctr = "construct_ctr_preload (a4_of hl) (qos_frame h) (pn_of hl h) (GetFrameType h) p"
  let ?mic = "ccm_mic ?E ?N ?A ?m" and ?c = "ccm_ctr ?E ?N 1 ?m" and ?tag = "ccm_tag ?E ?N ?A ?m"
  let ?mem1 = "written mem (?q + n) ?mic"
  let ?mem2 = "written ?mem1 ?q ?c"
  obtain h1 h2 where b: "construct_mic_header1 (int hl) mem p (GetFrameType h) = Inr h1"
    "construct_mic_header2 mem p (a4_of hl) (qos_frame h) = Inr h2" "length h1 = 16" "length h2 = 16"
    "blocks (be2 (length ?A) @ ?A) = [h1, h2]"
    using header_blocks_at [OF fr] by blast
  have m: "length ?m = n" using fits by simp
  have q: "?q + n \<le> length mem" using fits by simp
  have mic: "calc_mic key ([0x59] @ ?N @ be2 n) h1 h2 mem ?q (n div 16) (n mod 16) = Inr ?mic"
    using calc_mic_cbc [OF q b(3,4)] by (simp only: ccm_mic_def b(5) m)
  have fit1: "?q + n + length ?mic \<le> length mem" using fits by (simp add: ccm_mic_length)
  have c1: "ctr_of ?ctr ?q ?mem1 ?N" using ctr_of_written [OF frame_at_ctr [OF fr] _ fit1] by simp
  have "take (?q + n) ?mem1 = take (?q + n) mem" by (rule written_take [OF fit1])
  then have m1: "chunk ?mem1 ?q n = ?m" by (rule chunk_take) simp
  have l1: "length ?mem1 = length mem" using fit1 by simp
  have crypt: "ctr_crypt key ?ctr (n div 16) (n mod 16) ?q ?mem1 = Inr ?mem2"
    using ctr_crypt_written [OF c1 order_refl, of n key] q unfolding l1 m1 by simp
  have cl: "length ?c = n" using m by (simp add: ccm_ctr_length)
  have fit2: "?q + length ?c \<le> length ?mem1" using q by (simp only: cl l1)
  have l2: "length ?mem2 = length mem" using written_length [OF fit2] l1 by simp
  have c2: "ctr_of ?ctr ?q ?mem2 ?N" using ctr_of_written [OF c1 order_refl fit2] .
  have "chunk ?mem2 (?q + n) 8 = chunk ?mem1 (?q + n) 8"
    by (rule chunk_drop [OF written_drop [OF fit2]]) (simp only: cl, rule order_refl)
  also have "\<dots> = ?mic" using holds_at_take [OF written_holds [OF fit1]] by (simp add: ccm_mic_length)
  finally have m2: "chunk ?mem2 (?q + n) 8 = ?mic" .
  have e: "?q \<le> ?q + n" "?q + n + 8 \<le> length ?mem2" using fits unfolding l2 by simp_all
  have "crypt_mic key ?ctr (?q + n) ?mem2 = Inr (written ?mem2 (?q + n) ?tag)"
    using crypt_mic_written [OF c2 e] by (simp only: m2 ccm_tag_def)
  also have "written ?mem2 (?q + n) ?tag = written ?mem1 ?q (?c @ ?tag)"
    using fits cl by (intro written_append) (simp_all add: l1 ccm_tag_length)
  also have "\<dots> = written mem ?q (?c @ ?tag)"
    using fits cl by (intro written_over) (simp_all add: ccm_mic_length ccm_tag_length)
  finally have tag: "crypt_mic key ?ctr (?q + n) ?mem2 = Inr (written mem ?q (?c @ ?tag))" .
  show ?thesis
    unfolding ccm_seal_at_def mic_iv_at [OF fr] b(1,2) bindc_Inr Let_def mic wrn_written [OF fit1] crypt tag
    by (simp only: ccm_encrypt_def)
qed

text \<open>What does not fit is out of bounds, whatever the header holds.\<close>

lemma bindc_oob:
  "(\<And>e. m = Inl e \<Longrightarrow> e = OutOfBounds) \<Longrightarrow> (\<And>x. m = Inr x \<Longrightarrow> f x = Inl OutOfBounds) \<Longrightarrow>
   bindc m f = Inl OutOfBounds"
  by (cases m) simp_all

lemma rd_errors: "rd buf p = Inl e \<Longrightarrow> e = OutOfBounds" "rdn buf p n = Inl e \<Longrightarrow> e = OutOfBounds"
  "wrn buf p xs = Inl e \<Longrightarrow> e = OutOfBounds"
  by (auto simp: rd_def rdn_def wrn_def split: if_splits)

lemma construct_errors:
  "construct_mic_iv qc a4 mem p n pn ft = Inl e \<Longrightarrow> e = OutOfBounds"
  "construct_mic_header1 l mem p ft = Inl e \<Longrightarrow> e = OutOfBounds"
  "construct_mic_header2 mem p a4 qc = Inl e \<Longrightarrow> e = OutOfBounds"
  "construct_ctr_preload a4 qc pn ft p mem c = Inl e \<Longrightarrow> e = OutOfBounds"
  "get_pn mem q = Inl e \<Longrightarrow> e = OutOfBounds"
  by (auto simp: construct_mic_iv_def construct_mic_header1_def construct_mic_header2_def
      construct_ctr_preload_def get_pn_def Let_def bindc_eq_Inl dest: rd_errors split: if_splits)

lemma mic_loop_result:
  "length out = 16 \<Longrightarrow> mic_loop key n mem idx out = Inl OutOfBounds \<or>
     (\<exists>out'. mic_loop key n mem idx out = Inr out' \<and> length out' = 16)"
proof (induction n arbitrary: idx out)
  case (Suc n)
  show ?case
    using Suc.IH [of "aes128k128d key (bitwise_xor out (chunk mem idx 16))" "idx + 16"] by (simp add: rdn_def)
qed simp

lemma calc_mic_result:
  "calc_mic key iv h1 h2 mem idx n r = Inl OutOfBounds \<or> (\<exists>mic. calc_mic key iv h1 h2 mem idx n r = Inr mic \<and> length mic = 8)"
proof -
  let ?out = "aes128k128d key (bitwise_xor (aes128k128d key (bitwise_xor (aes128k128d key iv) h1)) h2)"
  show ?thesis
    using mic_loop_result [of ?out key n mem idx]
    by (cases "0 < r"; cases "idx + 16 * n + r \<le> length mem") (auto simp: calc_mic_def Let_def rdn_def)
qed

lemma ccm_seal_at_oob:
  assumes "length mem < p + hl + 8 + n + 8"
  shows "ccm_seal_at key hl a4 qc ft pn mem p n = Inl OutOfBounds"
proof -
  have c: "bindc (calc_mic key iv h1 h2 mem (p + hl + 8) (n div 16) (n mod 16)) (\<lambda>mic.
      bindc (wrn mem (p + hl + 8 + n) mic) f) = Inl OutOfBounds" for iv h1 h2 and f :: "u8 list \<Rightarrow> u8 list cres"
    using calc_mic_result [of key iv h1 h2 mem "p + hl + 8" "n div 16" "n mod 16"] assms
    by (auto simp: wrn_def)
  show ?thesis
    unfolding ccm_seal_at_def Let_def by (rule bindc_oob, erule construct_errors)+ (rule c)
qed

lemma ctr_crypt_oob:
  assumes "length mem < idx + 16 * n" and "0 < n"
  shows "ctr_crypt key (construct_ctr_preload a4 qc pn ft p) n r idx mem = Inl OutOfBounds"
  using ctr_loop_oob [OF construct_errors(4) assms] by (simp add: ctr_crypt_def)

section \<open>The ciphers\<close>

lemma frame_at_fc:
  assumes "frame_at hl mem p h"
  shows "rdn mem p 2 = Inr (take 2 h)" "2 \<le> length h"
  using frame_at_rdn [OF assms, of 0 2] assms by (simp_all add: frame_at_def)

lemma aes_cipher_at:
  assumes fr: "frame_at hl mem p h" and "p + hl + 8 + n + 8 \<le> length mem"
  shows "aes_cipher key hl mem p n =
    Inr (written mem (p + hl + 8)
      (ccm_encrypt (aes128k128d key) (ccmp_nonce hl h) (ccmp_aad hl h) (chunk mem (p + hl + 8) n)))"
proof -
  note fc = frame_at_fc [OF fr]
  have "hdr_consistent hl h" using fr by (simp add: frame_at_def)
  then show ?thesis
    using fc(1) get_pn_at [OF fr] ccm_seal_at_written [OF assms]
    by (simp add: aes_cipher_def frame_type_take [OF fc(2)] qc_hdrlen_consistent)
qed

text \<open>Deciphering a frame that consists of the header \<open>h\<close>, the bytes \<open>cs\<close> of payload and code, and
  \<open>rest\<close>.\<close>

lemma aes_decipher_run:
  assumes "length h = hl + 8" and "hdr_consistent hl h" and "length cs = n + 8"
    and "hl + 8 + n + 8 \<le> 2048" and "length message = 2048"
    and E: "E = aes128k128d key" and N: "N = ccmp_nonce hl h" and A: "A = ccmp_aad hl h"
    and m: "m = ccm_ctr E N 1 (take n cs)"
  shows "\<exists>message'. length message' = 2048 \<and> aes_decipher key hl (h @ cs @ rest) (n + 8) message =
    Inr (if drop n cs = ccm_tag E N A m then SUCCESS else FAIL, h @ m @ drop n cs @ rest, message')"
proof -
  let ?mem = "h @ cs @ rest" and ?q = "hl + 8" and ?ft = "GetFrameType h"
  let ?ctr = "construct_ctr_preload (a4_of hl) (qos_frame h) (pn_of hl h) ?ft 0"
  let ?mem1 = "h @ m @ drop n cs @ rest" and ?l = "hl + n + 16"
  have fr: "frame_at hl ?mem 0 h" using assms(1,2) holds_at_self [of "[]" h "cs @ rest"] by (simp add: frame_at_def)
  have ml: "length m = n" using assms(3) by (simp add: m E ccm_ctr_length)
  have fr1: "frame_at hl ?mem1 0 h"
    using assms(1,2) holds_at_self [of "[]" h "m @ drop n cs @ rest"] by (simp add: frame_at_def)
  have w: "written ?mem ?q m = ?mem1" using assms(1,3) ml by (simp add: written_def)
  have "ctr_of ?ctr ?q ?mem N" using frame_at_ctr [OF fr] by (simp add: N)
  from ctr_crypt_written [OF this order_refl, of n key] have crypt:
    "ctr_crypt key ?ctr (n div 16) (n mod 16) ?q ?mem = Inr ?mem1"
    using assms(1,3) w by (simp add: m E)
  let ?msg = "take ?l ?mem1 @ drop ?l message"
  have l: "?l \<le> length ?mem1" using assms(1,3) ml by simp
  have msg: "wrn message 0 (take ?l ?mem1) = Inr ?msg"
    using assms(4,5) l by (simp add: wrn_def min_absorb2 del: take_append)
  have split: "?msg = h @ m @ drop n cs @ drop ?l message" using assms(1,3) ml by simp
  have msgl: "length ?msg = 2048" unfolding split using assms(1,3,4,5) ml by simp
  have fr2: "frame_at hl ?msg 0 h"
    unfolding split using assms(1,2) holds_at_self [of "[]" h "m @ drop n cs @ drop ?l message"] by (simp add: frame_at_def)
  let ?sealed = "ccm_encrypt E N A m"
  have c: "chunk ?msg (0 + hl + 8) n = m" unfolding split using assms(1) ml by simp
  let ?out = "written ?msg (0 + hl + 8) ?sealed"
  have seal: "ccm_seal_at key hl (a4_of hl) (qos_frame h) ?ft (pn_of hl h) ?msg 0 n = Inr ?out"
    using ccm_seal_at_written [OF fr2, of n key] assms(4) unfolding msgl c by (simp only: E N A)
  have tl: "length (ccm_tag E N A m) = 8" by (simp add: E ccm_tag_length)
  have cl: "length (ccm_ctr E N 1 m) = n" by (simp add: E ccm_ctr_length ml)
  have sl: "length ?sealed = n + 8" using tl cl by (simp add: ccm_encrypt_def)
  have outl: "length ?out = 2048" using assms(4) msgl sl by (subst written_length) simp_all
  have "?out = h @ ccm_ctr E N 1 m @ ccm_tag E N A m @ drop ?l message"
    unfolding split written_def sl using assms(1,3) ml by (simp add: ccm_encrypt_def)
  then have ours: "rdn ?out (hl + (n + 8)) 8 = Inr (ccm_tag E N A m)"
    using assms(1) tl cl by (simp add: rdn_def)
  have theirs: "rdn ?mem1 (hl + (n + 8)) 8 = Inr (drop n cs)"
    using assms(1,3) ml by (simp add: rdn_def)
  have u: "usub32 (n + 8) 8 = n" using assms(4) by (subst usub32_le) simp_all
  have lim: "(hl + (n + 8) + 8) mod 2 ^ 32 = ?l" "?l \<le> MAX_MSG_SIZE"
    using assms(4) by (simp_all add: MAX_MSG_SIZE_def)
  have copy: "rdn ?mem1 0 ?l = Inr (take ?l ?mem1)" using l by (simp add: rdn_def del: take_append)
  note fc = frame_at_fc [OF fr]
  have pn: "get_pn ?mem hl = Inr (pn_of hl h)" "get_pn ?mem1 hl = Inr (pn_of hl h)"
    using get_pn_at [OF fr] get_pn_at [OF fr1] by simp_all
  have "aes_decipher key hl ?mem (n + 8) message =
      Inr (if drop n cs \<noteq> ccm_tag E N A m then FAIL else SUCCESS, ?mem1, ?out)"
    unfolding aes_decipher_def fc(1) bindc_Inr Let_def frame_type_take [OF fc(2)] pn(1)
      qc_hdrlen_consistent [OF assms(2)] prod.case u crypt lim(1)
    using lim(2) by (simp only: if_True copy bindc_Inr msg pn(2) seal theirs ours)
  then show ?thesis using outl by auto
qed

lemma aes_decipher_long:
  assumes "length h = hl + 8" and "hdr_consistent hl h" and "length cs = n + 8" and "n < 2 ^ 31"
    and "2048 < hl + 8 + n + 8" and "length message = 2048"
  shows "aes_decipher key hl (h @ cs @ rest) (n + 8) message = Inl OutOfBounds"
proof -
  let ?mem = "h @ cs @ rest" and ?q = "hl + 8" and ?ft = "GetFrameType h"
  let ?ctr = "construct_ctr_preload (a4_of hl) (qos_frame h) (pn_of hl h) ?ft 0"
  have fr: "frame_at hl ?mem 0 h" using assms(1,2) holds_at_self [of "[]" h "cs @ rest"] by (simp add: frame_at_def)
  note fc = frame_at_fc [OF fr]
  have pn: "get_pn ?mem hl = Inr (pn_of hl h)" using get_pn_at [OF fr] by simp
  have u: "usub32 (n + 8) 8 = n" using assms(4) by (subst usub32_le) simp_all
  have hl: "hl \<le> 32" using assms(2) by (auto simp: hdr_consistent_def split: if_splits)
  then have lim: "(hl + (n + 8) + 8) mod 2 ^ 32 = hl + (n + 8) + 8" using assms(4) by simp
  have over: "\<not> hl + (n + 8) + 8 \<le> MAX_MSG_SIZE" using assms(5) by (simp add: MAX_MSG_SIZE_def)
  have seal: "ccm_seal_at key hl a4 qc ft pn message 0 n = Inl OutOfBounds" for a4 qc ft pn
    using assms(5,6) by (intro ccm_seal_at_oob) simp
  have "ctr_of ?ctr ?q ?mem (ccmp_nonce hl h)" using frame_at_ctr [OF fr] by simp
  from ctr_crypt_written [OF this order_refl, of n key] obtain mem1 where
    crypt: "ctr_crypt key ?ctr (n div 16) (n mod 16) ?q ?mem = Inr mem1"
    using assms(1,3) by auto
  show ?thesis
    unfolding aes_decipher_def fc(1) bindc_Inr Let_def frame_type_take [OF fc(2)] pn
      qc_hdrlen_consistent [OF assms(2)] prod.case u crypt lim
    using over by (simp only: if_False bindc_Inr seal bindc_Inl) (intro bindc_oob, erule construct_errors, rule refl)
qed

lemma aes_decipher_short:
  assumes "length h = hl + 8" and "hdr_consistent hl h" and "plen < 8"
    and "length (h @ cs) < 2 ^ 31"
  shows "aes_decipher key hl (h @ cs) plen message = Inl OutOfBounds"
proof -
  have fr: "frame_at hl (h @ cs) 0 h" using assms(1,2) holds_at_self [of "[]" h cs] by (simp add: frame_at_def)
  note fc = frame_at_fc [OF fr]
  have pn: "get_pn (h @ cs) hl = Inr (pn_of hl h)" using get_pn_at [OF fr] by simp
  have u: "usub32 plen 8 = 2 ^ 32 + plen - 8" using assms(3) by (intro usub32_wrap) simp_all
  have "usub32 plen 8 div 16 = 2 ^ 28 - 1" unfolding u using assms(3) by (intro div_nat_eqI) simp_all
  then have crypt: "ctr_crypt key (construct_ctr_preload a4 qc pn ft 0) (usub32 plen 8 div 16) r (hl + 8) (h @ cs) = Inl OutOfBounds"
    for a4 qc pn ft r
    using assms(4) by (intro ctr_crypt_oob) simp_all
  show ?thesis
    unfolding aes_decipher_def fc(1) bindc_Inr Let_def frame_type_take [OF fc(2)] pn
      qc_hdrlen_consistent [OF assms(2)] prod.case crypt bindc_Inl ..
qed

subsection \<open>The additional data\<close>

lemma less_8: "(n :: nat) < 8 \<longleftrightarrow> n = 0 \<or> n = 1 \<or> n = 2 \<or> n = 3 \<or> n = 4 \<or> n = 5 \<or> n = 6 \<or> n = 7"
  by linarith

lemma byte_eq_iff: "(x :: u8) = y \<longleftrightarrow> (\<forall>n\<in>{0, 1, 2, 3, 4, 5, 6, 7}. bit x n = bit y n)"
proof
  assume *: "\<forall>n\<in>{0, 1, 2, 3, 4, 5, 6, 7}. bit x n = bit y n"
  show "x = y"
  proof (rule bit_word_eqI)
    fix n assume "n < LENGTH(8)"
    then have "n \<in> {0, 1, 2, 3, 4, 5, 6, 7}" by (simp add: less_8)
    then show "bit x n = bit y n" using * by blast
  qed
qed simp

lemma fc_type_bits:
  fixes x :: u8
  shows "x AND 0x0c = 0x08 \<longleftrightarrow> \<not> bit x 2 \<and> bit x 3" "x AND 0x0c = 0 \<longleftrightarrow> \<not> bit x 2 \<and> \<not> bit x 3"
  by (simp_all add: byte_eq_iff bit_and_iff)

lemma fc_masks:
  fixes x :: u8
  shows "\<not> bit x 6 \<Longrightarrow> x AND 0xcf = x AND 0x8f"
    "\<not> bit x 7 \<Longrightarrow> x AND 0xc7 AND 0x7f = x AND 0xc7"
  by (simp_all add: byte_eq_iff bit_and_iff)

lemma fc_protected:
  fixes x :: u8
  shows "bit x 6 \<Longrightarrow> x AND 0xc7 OR 0x40 = x AND 0xc7"
  by (simp add: byte_eq_iff bit_and_iff bit_or_iff)

lemma fc_subtype_bits:
  fixes x :: u8
  shows "drop_bit 4 x \<in> {8, 9, 10, 11} \<longleftrightarrow> bit x 7 \<and> \<not> bit x 6"
proof -
  have "\<not> bit x n" if "8 \<le> n" for n using that by (simp add: impossible_bit)
  then show ?thesis by (simp add: byte_eq_iff bit_drop_bit_eq) blast
qed

lemma fc_low: "(12 :: u16) = ucast (12 :: u8)" "(252 :: u16) = ucast (252 :: u8)"
  by simp_all

lemma le16_low: "get_le16 a b AND ucast m = ucast (a AND m)"
  by (rule bit_word_eqI) (auto simp: get_le16_def bit_simps impossible_bit)

lemma byte_bit: "bit (x :: u8) n \<Longrightarrow> n < 8"
  using bit_imp_le_length [of x n] by simp

lemma ucast_up: "ucast (ucast (x :: u8) :: u16) = (ucast x :: u32)"
  by (rule bit_word_eqI) (auto simp: bit_simps dest: byte_bit)

lemma ucast_u8_eq: "(ucast (x :: u8) :: u32) = ucast y \<longleftrightarrow> x = y"
proof
  assume *: "(ucast x :: u32) = ucast y"
  show "x = y"
  proof (rule bit_word_eqI)
    fix n assume "n < LENGTH(8)"
    then show "bit x n = bit y n" using arg_cong [OF *, of "\<lambda>w. bit w n"] by (simp add: bit_simps)
  qed
qed simp

lemma fc_subtype_mask: "drop_bit 4 ((x :: u8) AND 0xfc) = drop_bit 4 x"
proof -
  have "\<not> bit x n" if "8 \<le> n" for n using that by (simp add: impossible_bit)
  then show ?thesis by (simp add: byte_eq_iff bit_drop_bit_eq bit_and_iff)
qed

lemma GetFrameType_fc: "GetFrameType h = ucast (h ! 0 AND 0x0c)"
  unfolding GetFrameType_def fc_low le16_low by (rule ucast_up)

lemma drop_ucast: "drop_bit 4 (ucast (x :: u8) :: u32) = ucast (drop_bit 4 x)"
  by (rule bit_word_eqI) (auto simp: bit_simps dest: byte_bit)

lemma sub_type_fc: "drop_bit 4 (get_frame_sub_type h) = ucast (drop_bit 4 (h ! 0))"
  unfolding get_frame_sub_type_def fc_low le16_low ucast_up drop_ucast fc_subtype_mask ..

lemma frame_kinds:
  "GetFrameType h = WIFI_DATA \<longleftrightarrow> fc_data h"
  "GetFrameType h = WIFI_MGT_TYPE \<longleftrightarrow> \<not> bit (h ! 0) 2 \<and> \<not> bit (h ! 0) 3"
  "qos_frame h \<longleftrightarrow> fc_qos h \<and> \<not> bit (h ! 0) 6"
proof -
  note u = ucast_u8_eq [of _ 8] ucast_u8_eq [of _ 0] ucast_u8_eq [of _ 9] ucast_u8_eq [of _ 10] ucast_u8_eq [of _ 11]
  show d: "GetFrameType h = WIFI_DATA \<longleftrightarrow> fc_data h"
    using u(1) fc_type_bits by (simp add: GetFrameType_fc WIFI_DATA_def fc_data_def)
  show "GetFrameType h = WIFI_MGT_TYPE \<longleftrightarrow> \<not> bit (h ! 0) 2 \<and> \<not> bit (h ! 0) 3"
    using u(2) fc_type_bits by (simp add: GetFrameType_fc WIFI_MGT_TYPE_def)
  show "qos_frame h \<longleftrightarrow> fc_qos h \<and> \<not> bit (h ! 0) 6"
    using u fc_subtype_bits [of "h ! 0"] unfolding qos_frame_def d fc_qos_def sub_type_fc by simp
qed

lemma ccmp_aad_ieee:
  assumes "ieee_protected hl h" and "length h = hl + 8"
  shows "ccmp_aad hl h = ieee_aad h \<longleftrightarrow> frag_number h = 0"
proof -
  have a4: "a4_of hl \<longleftrightarrow> fc_a4 h"
    using assms(1) by (simp add: ieee_protected_def ieee_hdrlen_def a4_of_def WLAN_HDR_A3_LEN_def WLAN_HDR_A3_QOS_LEN_def)
  have k: "qos_frame h \<longleftrightarrow> fc_qos h" "GetFrameType h = WIFI_MGT_TYPE \<longleftrightarrow> \<not> fc_data h"
    using assms(1) by (auto simp: frame_kinds ieee_protected_def fc_qos_def fc_data_def)
  have f: "fc_data h \<Longrightarrow> h ! 0 AND 0xcf = h ! 0 AND 0x8f" "h ! 1 AND 0xc7 OR 0x40 = h ! 1 AND 0xc7"
    "fc_qos h \<Longrightarrow> h ! 1 AND 0xc7 AND 0x7f = h ! 1 AND 0xc7"
    using assms(1) fc_masks fc_protected by (auto simp: ieee_protected_def)
  have "chunk h 4 18 = take 6 (drop 4 h) @ take 6 (drop 10 h) @ take 6 (drop 16 h)"
    using chunk_add [of 6 12 4 h] chunk_add [of 6 6 10 h] by simp
  then show ?thesis
    using f by (auto simp: ccmp_aad_def ieee_aad_def a4 k qos_tid_def Let_def and.assoc)
qed

text \<open>C14: \<open>aes_cipher\<close> implements CCMP. For every frame whose header length agrees with its QoS
  control field and every payload length, it replaces the payload in place by its encryption in
  the CCM mode of RFC 3610 and appends the eight bytes of the tag, for the nonce of IEEE 802.11 and
  the additional data that the driver builds; nothing else changes. For a protected data or
  management frame with a payload and without the HT control field (\<open>ieee_protected\<close>) that
  additional data is the one of IEEE 802.11 exactly when the fragment number is zero: the driver masks the whole sequence control field, the standard only
  the sequence number.\<close>

theorem aes_cipher_is_ccm:
  assumes "h = chunk mem p (hl + 8)" and "hdr_consistent hl h" and "p + hl + 8 + n + 8 \<le> length mem"
  shows "aes_cipher key hl mem p n =
      Inr (written mem (p + hl + 8)
        (ccm_encrypt (aes128k128d key) (ccmp_nonce hl h) (ccmp_aad hl h) (chunk mem (p + hl + 8) n))) \<and>
    (ieee_protected hl h \<longrightarrow> (ccmp_aad hl h = ieee_aad h \<longleftrightarrow> frag_number h = 0))"
proof (intro conjI impI)
  have "length h = hl + 8" using assms(1,3) by simp
  then have "frame_at hl mem p h" using assms by (simp add: frame_at_def holds_at_def)
  then show "aes_cipher key hl mem p n = Inr (written mem (p + hl + 8)
      (ccm_encrypt (aes128k128d key) (ccmp_nonce hl h) (ccmp_aad hl h) (chunk mem (p + hl + 8) n)))"
    using assms(3) by (rule aes_cipher_at)
next
  assume "ieee_protected hl h"
  moreover have "length h = hl + 8" using assms(1,3) by simp
  ultimately show "ccmp_aad hl h = ieee_aad h \<longleftrightarrow> frag_number h = 0" by (rule ccmp_aad_ieee)
qed

theorem aes_cipher_is_ccm_witness:
  "aes_cipher (replicate 16 1) 26 (0x88 # 0x41 # replicate 59 2) 0 10 =
    Inr (written (0x88 # 0x41 # replicate 59 2) (0 + 26 + 8)
      (ccm_encrypt (aes128k128d (replicate 16 1)) (ccmp_nonce 26 (0x88 # 0x41 # replicate 32 2))
        (ccmp_aad 26 (0x88 # 0x41 # replicate 32 2)) (chunk (0x88 # 0x41 # replicate 59 2) (0 + 26 + 8) 10))) \<and>
    ccmp_aad 26 (0x88 # 0x41 # replicate 32 2) \<noteq> ieee_aad (0x88 # 0x41 # replicate 32 2)"
proof -
  let ?h = "0x88 # 0x41 # replicate 32 2 :: u8 list"
  have "?h = chunk (0x88 # 0x41 # replicate 59 2) 0 (26 + 8)" by (simp add: take_Cons')
  moreover have "hdr_consistent 26 ?h"
    by (simp add: hdr_consistent_def qos_frame_def GetFrameType_def get_frame_sub_type_def get_le16_def WIFI_DATA_def)
  moreover have "ieee_protected 26 ?h" "frag_number ?h = 2"
    by (simp_all add: ieee_protected_def ieee_hdrlen_def fc_qos_def fc_a4_def fc_data_def frag_number_def)
  ultimately show ?thesis
    using aes_cipher_is_ccm [where h = ?h and mem = "0x88 # 0x41 # replicate 59 2" and p = 0 and hl = 26 and n = 10]
    by auto
qed

text \<open>the limits of \<open>aes_decipher\<close>. It stays within the frame and its static copy of 2048 bytes
  exactly when the encrypted part has room for the code and the whole frame fits into the copy: a
  shorter part makes the unsigned length of the payload wrap around, and a longer frame is
  processed behind the end of the copy, although it was not copied.\<close>

theorem aes_decipher_in_bounds:
  assumes "length h = hl + 8" and "hdr_consistent hl h" and "length cs = plen" and "length message = 2048"
    and "length (h @ cs @ rest) < 2 ^ 31"
  shows "if 8 \<le> plen \<and> hl + plen + 8 \<le> 2048
    then \<exists>r. aes_decipher key hl (h @ cs @ rest) plen message = Inr r
    else aes_decipher key hl (h @ cs @ rest) plen message = Inl OutOfBounds"
proof (cases "8 \<le> plen")
  case True
  then obtain n where n: "plen = n + 8" by (metis le_add_diff_inverse2)
  have l: "length cs = n + 8" "n < 2 ^ 31" using assms(3,5) n by simp_all
  show ?thesis
    using aes_decipher_run [OF assms(1,2) l(1) _ assms(4) refl refl refl refl, of key rest]
      aes_decipher_long [OF assms(1,2) l _ assms(4), of key rest]
    by (cases "hl + plen + 8 \<le> 2048") (auto simp: n)
next
  case False
  then show ?thesis using aes_decipher_short [OF assms(1,2) _ assms(5), of plen key message] by simp
qed

theorem aes_decipher_in_bounds_witness:
  "aes_decipher (replicate 16 1) 24 (0x08 # replicate 31 2 @ [1, 2, 3] @ []) 3 (replicate 2048 0) = Inl OutOfBounds"
  using aes_decipher_in_bounds [of "0x08 # replicate 31 2" 24 "[1, 2, 3]" 3 "replicate 2048 0" "[]" "replicate 16 1"]
  by (simp add: hdr_consistent_def qos_frame_def GetFrameType_def get_frame_sub_type_def get_le16_def WIFI_DATA_def)

section \<open>Frames\<close>

lemma ccm_ctr_twice:
  assumes "\<And>b. length (E b) = 16"
  shows "ccm_ctr E nonce i (ccm_ctr E nonce i m) = m"
proof (induction m arbitrary: i rule: length_induct)
  case (1 m)
  let ?s = "ccm_stream E nonce i" and ?b = "take 16 m"
  have s: "length ?s = 16" by (simp add: ccm_stream_def assms)
  consider "m = []" | "m \<noteq> []" "length m \<le> 16" | "16 < length m" by linarith
  then show ?case
  proof cases
    case 2
    then have "xor_bytes m ?s \<noteq> []" "length (xor_bytes m ?s) \<le> 16"
      using s by (simp_all flip: length_greater_0_conv)
    then show ?thesis using 2 s by (simp add: ccm_ctr_short xor_bytes_twice)
  next
    case 3
    have l: "length (xor_bytes ?b ?s) = 16" "length ?b = 16" using 3 s by simp_all
    have "ccm_ctr E nonce (i + 1) (ccm_ctr E nonce (i + 1) (drop 16 m)) = drop 16 m" using 1 3 by simp
    then have "ccm_ctr E nonce i (ccm_ctr E nonce i (?b @ drop 16 m)) = ?b @ drop 16 m"
      using s by (simp only: ccm_ctr_append [OF l(1)] ccm_ctr_append [OF l(2)] xor_bytes_twice l(2) order_refl)
    then show ?thesis by simp
  qed simp
qed

lemma ccm_open:
  assumes E: "E = aes128k128d key" and "length cs = n + 8" and m: "m = ccm_ctr E N 1 (take n cs)"
  shows "drop n cs = ccm_tag E N A m \<longleftrightarrow> (\<exists>xs. cs = ccm_encrypt E N A xs)"
    and "cs = ccm_encrypt E N A xs \<Longrightarrow> m = xs"
proof -
  have l: "\<And>b. length (E b) = 16" by (simp add: E)
  have "n = length xs \<and> m = xs" if "cs = ccm_encrypt E N A xs" for xs
  proof -
    have "length cs = length xs + 8"
      using that ccm_tag_length [of key N A xs, folded E] by (simp add: ccm_encrypt_def ccm_ctr_length [OF l])
    then have "take n cs = ccm_ctr E N 1 xs"
      using that assms(2) by (simp add: ccm_encrypt_def ccm_ctr_length [OF l])
    then show ?thesis using assms(2) \<open>length cs = length xs + 8\<close> by (simp add: m ccm_ctr_twice [OF l])
  qed
  note x = this
  show "cs = ccm_encrypt E N A xs \<Longrightarrow> m = xs" using x by blast
  show "drop n cs = ccm_tag E N A m \<longleftrightarrow> (\<exists>xs. cs = ccm_encrypt E N A xs)"
  proof
    assume d: "drop n cs = ccm_tag E N A m"
    have "take n cs = ccm_ctr E N 1 m" by (simp add: m ccm_ctr_twice [OF l])
    then have "take n cs @ drop n cs = ccm_encrypt E N A m" using d by (simp only: ccm_encrypt_def)
    then show "\<exists>xs. cs = ccm_encrypt E N A xs" by auto
  next
    assume "\<exists>xs. cs = ccm_encrypt E N A xs"
    then obtain xs where cs: "cs = ccm_encrypt E N A xs" by blast
    then show "drop n cs = ccm_tag E N A m"
      using x [OF cs] by (simp add: ccm_encrypt_def ccm_ctr_length [OF l])
  qed
qed

definition aes_ok :: "security_priv \<times> pkt_attrib \<Rightarrow> bool" where
  "aes_ok = (\<lambda>(sec, at). iv_len at = 8 \<and>
     (IS_MCAST (ra at) \<longrightarrow> dot118021XGrpKeyid sec < length (dot118021XGrpKey sec)))"

definition aes_sealed :: "security_priv \<times> pkt_attrib \<Rightarrow> u8 list \<Rightarrow> u8 list \<Rightarrow> u8 list" where
  "aes_sealed = (\<lambda>(sec, at) h xs.
     ccm_encrypt (aes128k128d (projr (tkip_encrypt_key sec at))) (ccmp_nonce (hdrlen at) h) (ccmp_aad (hdrlen at) h) xs)"

interpretation ccmp: fragment_cipher aes_ok "\<lambda>(sec, at). hdr_consistent (hdrlen at)" aes_encrypt_frag
  "\<lambda>(sec, at). hdrlen at + iv_len at" "\<lambda>_. 8" aes_sealed
proof (standard, goal_cases)
  case (1 c p mem n)
  obtain sec at where c: "c = (sec, at)" by (cases c)
  have iv: "iv_len at = 8" using 1(1) by (simp add: c aes_ok_def)
  obtain k where k: "tkip_encrypt_key sec at = Inr k"
    using 1(1) by (cases "IS_MCAST (ra at)") (auto simp: c aes_ok_def tkip_encrypt_key_def nth_chk_def)
  let ?h = "chunk mem p (hdrlen at + 8)"
  have fits: "p + hdrlen at + 8 + n + 8 \<le> length mem" using 1(3) by (simp add: c iv)
  then have "frame_at (hdrlen at) mem p ?h" using 1(2) by (simp add: c iv frame_at_def holds_at_def)
  from aes_cipher_at [OF this fits, of k] show ?case
    using 1(4) by (simp add: c iv k aes_encrypt_frag_def aes_sealed_def add.assoc)
next
  case (2 c h xs)
  then show ?case
    by (cases c) (simp add: aes_sealed_def ccm_encrypt_def ccm_ctr_length ccm_tag_length)
qed

lemma rtw_aes_decrypt_run:
  assumes "rx_encrypt rx = AES" and "length h = rx_hdrlen rx + 8" and "rx_iv_len rx = 8"
    and "hdr_consistent (rx_hdrlen rx) h" and "rx_len rx = length h + length cs" and "8 \<le> length cs"
    and "rx_len rx \<le> 2048" and "length message = 2048"
    and k: "(if IS_MCAST (rx_ra rx) then nth_chk (dot118021XGrpKey sec) (rx_key_index rx) else Inr uncst) = Inr key"
    and ok: "\<not> (IS_MCAST (rx_ra rx) \<and> \<not> is_mesh \<and> \<not> binstallGrpkey sec)"
      "\<not> (IS_MCAST (rx_ra rx) \<and> dot118021XGrpKeyid sec \<noteq> rx_key_index rx)"
    and E: "E = aes128k128d key" and N: "N = ccmp_nonce (rx_hdrlen rx) h" and A: "A = ccmp_aad (rx_hdrlen rx) h"
    and n: "n = length cs - 8"
  shows "\<exists>message'. length message' = 2048 \<and> rtw_aes_decrypt sec rx is_mesh (Some uncst) (h @ cs) message =
    Inr (if \<exists>xs. cs = ccm_encrypt E N A xs then SUCCESS else FAIL, h @ ccm_ctr E N 1 (take n cs) @ drop n cs, message',
      sec\<lparr>aes_sw_dec_cnt := sw_cnt_inc (rx_ra rx) (aes_sw_dec_cnt sec)\<rparr>)"
proof -
  have l: "length cs = n + 8" using assms(6) n by simp
  have fit: "rx_hdrlen rx + 8 + n + 8 \<le> 2048" using assms(2,5,7) l by simp
  obtain message' where m: "length message' = 2048" "aes_decipher key (rx_hdrlen rx) (h @ cs) (n + 8) message =
      Inr (if \<exists>xs. cs = ccm_encrypt E N A xs then SUCCESS else FAIL, h @ ccm_ctr E N 1 (take n cs) @ drop n cs, message')"
    using aes_decipher_run [OF assms(2,4) l fit assms(8) E N A refl, of "[]"]
    unfolding ccm_open(1) [OF E l refl] by auto
  have len: "nat (sint32 (usub32 (usub32 (rx_len rx) (rx_hdrlen rx)) (rx_iv_len rx)) mod 2 ^ 32) = n + 8"
    using assms(2,3,5,7) l by simp
  show ?thesis
    using m(1) unfolding rtw_aes_decrypt_def
    by (simp only: assms(1) simp_thms if_True option.case ok if_False k bindc_Inr Let_def len m(2) prod.case) blast
qed

text \<open>C15: software CCMP decryption accepts exactly the frames that \<open>ccm_encrypt\<close> produces for their
  header under the key in use, and then returns the plaintext behind the header; it fails without
  touching the frame when the transmitter is unknown or, for a group frame, when no group key is
  installed or the frame names another key than the installed one.\<close>

theorem rtw_aes_decrypt_accepts:
  assumes "rx_encrypt rx = AES" and "length h = rx_hdrlen rx + 8" and "rx_iv_len rx = 8"
    and "hdr_consistent (rx_hdrlen rx) h" and "rx_len rx = length h + length cs" and "8 \<le> length cs"
    and "rx_len rx \<le> 2048" and "length message = 2048" and "rx_key_index rx < length (dot118021XGrpKey sec)"
  shows "\<exists>res mem' message' sec'. rtw_aes_decrypt sec rx is_mesh stainfo (h @ cs) message = Inr (res, mem', message', sec') \<and>
    length message' = 2048 \<and>
    (if stainfo = None \<or> IS_MCAST (rx_ra rx) \<and>
       (\<not> is_mesh \<and> \<not> binstallGrpkey sec \<or> dot118021XGrpKeyid sec \<noteq> rx_key_index rx)
     then res = FAIL \<and> mem' = h @ cs \<and> sec' = sec
     else let key = (if IS_MCAST (rx_ra rx) then dot118021XGrpKey sec ! rx_key_index rx else the stainfo);
              sealed = ccm_encrypt (aes128k128d key) (ccmp_nonce (rx_hdrlen rx) h) (ccmp_aad (rx_hdrlen rx) h)
          in (res = SUCCESS \<longleftrightarrow> cs \<in> range sealed) \<and> (res = SUCCESS \<or> res = FAIL) \<and> take (length h) mem' = h \<and>
            (\<forall>xs. cs = sealed xs \<longrightarrow> chunk mem' (length h) (length xs) = xs))"
proof (cases "stainfo = None \<or> IS_MCAST (rx_ra rx) \<and>
    (\<not> is_mesh \<and> \<not> binstallGrpkey sec \<or> dot118021XGrpKeyid sec \<noteq> rx_key_index rx)")
  case True
  then show ?thesis using assms(1,8) by (auto simp: rtw_aes_decrypt_def split: option.split)
next
  case False
  then obtain uncst where st: "stainfo = Some uncst"
    and ok: "\<not> (IS_MCAST (rx_ra rx) \<and> \<not> is_mesh \<and> \<not> binstallGrpkey sec)"
      "\<not> (IS_MCAST (rx_ra rx) \<and> dot118021XGrpKeyid sec \<noteq> rx_key_index rx)"
    by auto
  let ?key = "if IS_MCAST (rx_ra rx) then dot118021XGrpKey sec ! rx_key_index rx else uncst"
  let ?E = "aes128k128d ?key" and ?N = "ccmp_nonce (rx_hdrlen rx) h" and ?A = "ccmp_aad (rx_hdrlen rx) h"
  let ?m = "ccm_ctr ?E ?N 1 (take (length cs - 8) cs)"
  have k: "(if IS_MCAST (rx_ra rx) then nth_chk (dot118021XGrpKey sec) (rx_key_index rx) else Inr uncst) = Inr ?key"
    using assms(9) by (simp add: nth_chk_def)
  have l: "length cs = length cs - 8 + 8" using assms(6) by simp
  have m: "chunk (h @ ?m @ drop (length cs - 8) cs) (length h) (length xs) = xs" if "cs = ccm_encrypt ?E ?N ?A xs" for xs
    unfolding ccm_open(2) [OF refl l refl that] by simp
  let ?res = "if \<exists>xs. cs = ccm_encrypt ?E ?N ?A xs then SUCCESS else FAIL"
  let ?mem = "h @ ?m @ drop (length cs - 8) cs"
  obtain message' where r: "length message' = 2048"
    "rtw_aes_decrypt sec rx is_mesh stainfo (h @ cs) message = Inr (?res, ?mem, message',
      sec\<lparr>aes_sw_dec_cnt := sw_cnt_inc (rx_ra rx) (aes_sw_dec_cnt sec)\<rparr>)"
    using rtw_aes_decrypt_run [OF assms(1-8) k ok refl refl refl refl] unfolding st by blast
  have res: "?res = SUCCESS \<longleftrightarrow> cs \<in> range (ccm_encrypt ?E ?N ?A)" "?res = SUCCESS \<or> ?res = FAIL"
    by (auto simp: SUCCESS_def FAIL_def)
  have "take (length h) ?mem = h" by simp
  note facts = r(2) [unfolded st] r(1) res this m
  show ?thesis
    unfolding if_not_P [OF False] Let_def unfolding st option.sel
    by (rule exI [of _ ?res], rule exI [of _ ?mem], rule exI [of _ message'],
        rule exI [of _ "sec\<lparr>aes_sw_dec_cnt := sw_cnt_inc (rx_ra rx) (aes_sw_dec_cnt sec)\<rparr>"],
        intro conjI allI impI) (rule facts | (rule facts, assumption))+
qed

definition aes_example_rx :: rx_pkt_attrib where
  "aes_example_rx = \<lparr> rx_hdrlen = 24, rx_encrypt = AES, rx_iv_len = 8, rx_ra = replicate 6 0,
     rx_ta = replicate 6 2, rx_key_index = 0, rx_len = 42 \<rparr>"

theorem rtw_aes_decrypt_accepts_witness:
  "\<exists>res mem' message' sec'. rtw_aes_decrypt wep_example_sec aes_example_rx False (Some (replicate 16 7))
      (0x08 # replicate 31 1 @ replicate 10 3) (replicate 2048 0) = Inr (res, mem', message', sec') \<and>
    length message' = 2048 \<and> (res = SUCCESS \<or> res = FAIL)"
  using rtw_aes_decrypt_accepts [of aes_example_rx "0x08 # replicate 31 1" "replicate 10 3" "replicate 2048 0"
      wep_example_sec False "Some (replicate 16 7)"]
  by (auto simp: aes_example_rx_def wep_example_sec_def IS_MCAST_def hdr_consistent_def qos_frame_def GetFrameType_def
      get_frame_sub_type_def get_le16_def WIFI_DATA_def Let_def)

text \<open>A sealed frame opens to the bytes that were sealed.\<close>

lemma rtw_aes_decrypt_sealed:
  fixes h xs key rx
  defines "cs \<equiv> ccm_encrypt (aes128k128d key) (ccmp_nonce (rx_hdrlen rx) h) (ccmp_aad (rx_hdrlen rx) h) xs"
  assumes "length h = rx_hdrlen rx + 8" "hdr_consistent (rx_hdrlen rx) h" "rx_encrypt rx = AES" "\<not> IS_MCAST (rx_ra rx)"
    and "rx_iv_len rx = 8" "rx_len rx = length h + (length xs + 8)" "rx_len rx \<le> 2048" "length message = 2048"
  shows "\<exists>message' sec'. rtw_aes_decrypt sec rx False (Some key) (h @ cs) message =
    Inr (SUCCESS, h @ xs @ drop (length xs) cs, message', sec')"
proof -
  let ?E = "aes128k128d key" and ?N = "ccmp_nonce (rx_hdrlen rx) h" and ?A = "ccmp_aad (rx_hdrlen rx) h"
  let ?n = "length xs"
  have cs: "length cs = ?n + 8"
    by (simp add: cs_def ccm_encrypt_def ccm_ctr_length ccm_tag_length)
  have "\<exists>message'. length message' = 2048 \<and> rtw_aes_decrypt sec rx False (Some key) (h @ cs) message =
      Inr (if \<exists>ys. cs = ccm_encrypt ?E ?N ?A ys then SUCCESS else FAIL,
        h @ ccm_ctr ?E ?N 1 (take ?n cs) @ drop ?n cs, message',
        sec\<lparr>aes_sw_dec_cnt := sw_cnt_inc (rx_ra rx) (aes_sw_dec_cnt sec)\<rparr>)"
  proof (rule rtw_aes_decrypt_run [where E = ?E and N = ?N and A = ?A and n = ?n and key = key])
    show "rx_len rx = length h + length cs" using assms(7) cs by (simp only:)
    show "?n = length cs - 8" "8 \<le> length cs" using cs by simp_all
  qed (use assms in \<open>simp_all only: if_False simp_thms\<close>)
  moreover have "(\<exists>ys. cs = ccm_encrypt ?E ?N ?A ys) = True" unfolding cs_def by blast
  moreover have "ccm_ctr ?E ?N 1 (take ?n cs) = xs" by (rule ccm_open(2) [OF refl cs refl]) (simp only: cs_def)
  ultimately show ?thesis by auto
qed

text \<open>C16: CCMP round trip. \<open>rtw_aes_encrypt\<close> seals every fragment of a frame in place, and
  \<open>rtw_aes_decrypt\<close>, given any of the fragments that fit into its copy and the same temporal key,
  accepts it and returns the header and the plaintext payload of that fragment.\<close>

theorem rtw_aes_roundtrip:
  assumes "encrypt at = AES" and "\<not> IS_MCAST (ra at)" and "iv_len at = 8" and "icv_len at = 8"
    and "frag_sizes_ok at fl" and "fs = frags at fl base (nr_frags at) TXDESC_OFFSET"
    and "\<forall>(q, n) \<in> set fs. q + (hdrlen at + 8) + n + 8 \<le> length mem \<and> hdr_consistent (hdrlen at) (chunk mem q (hdrlen at + 8)) \<and>
      hdrlen at + n + 16 \<le> 2048"
    and "length message = 2048"
  shows "\<exists>mem' sec'. rtw_aes_encrypt sec at fl (Some base) mem = Inr (SUCCESS, mem', sec') \<and>
    (\<forall>(q, n) \<in> set fs. \<forall>rx. rx_encrypt rx = AES \<and> rx_ra rx = ra at \<and> rx_hdrlen rx = hdrlen at \<and>
       rx_iv_len rx = iv_len at \<and> rx_len rx = hdrlen at + 8 + n + 8 \<longrightarrow>
       (\<exists>plain message' sec''. rtw_aes_decrypt sec' rx False (Some (dot118021x_UncstKey at)) (chunk mem' q (rx_len rx)) message =
          Inr (SUCCESS, plain, message', sec'') \<and>
          take (hdrlen at + 8 + n) plain = chunk mem q (hdrlen at + 8 + n)))"
proof -
  let ?hl = "hdrlen at + 8" and ?key = "dot118021x_UncstKey at"
  let ?sec' = "sec\<lparr>aes_sw_enc_cnt := sw_cnt_inc (ra at) (aes_sw_enc_cnt sec)\<rparr>"
  have key: "tkip_encrypt_key sec at = Inr ?key" using assms(2) by (simp add: tkip_encrypt_key_def)
  have ok: "aes_ok (sec, at)" using assms(2,3) by (simp add: aes_ok_def)
  have fits: "\<forall>(q, n) \<in> set fs. q + ?hl + n + 8 \<le> length mem \<and> hdr_consistent (hdrlen at) (chunk mem q ?hl)"
  proof clarify
    fix q n
    assume "(q, n) \<in> set fs"
    from bspec [OF assms(7) this]
    show "q + ?hl + n + 8 \<le> length mem \<and> hdr_consistent (hdrlen at) (chunk mem q ?hl)" by (simp only: prod.case)
  qed
  obtain mem' where mem': "frag_loop (aes_encrypt_frag (sec, at)) at fl base (nr_frags at) TXDESC_OFFSET mem = Inr mem'"
    "\<forall>(q, n) \<in> set fs. chunk mem' q (?hl + n + 8) =
       chunk mem q ?hl @ aes_sealed (sec, at) (chunk mem q ?hl) (chunk mem (q + ?hl) n)"
    using ccmp.frag_loop_seals [OF ok assms(5), unfolded prod.case assms(3), OF refl assms(4) [symmetric] fits [unfolded assms(6)]]
    unfolding assms(6) by blast
  have open_frag: "\<exists>plain message' sec''. rtw_aes_decrypt ?sec' rx False (Some ?key) (chunk mem' q (rx_len rx)) message =
      Inr (SUCCESS, plain, message', sec'') \<and> take (?hl + n) plain = chunk mem q (?hl + n)"
    if m: "(q, n) \<in> set fs" and rx: "rx_encrypt rx = AES" "rx_ra rx = ra at" "rx_hdrlen rx = hdrlen at"
      "rx_iv_len rx = iv_len at" "rx_len rx = ?hl + n + 8" for q n rx
  proof -
    let ?h = "chunk mem q ?hl" and ?xs = "chunk mem (q + ?hl) n"
    let ?cs = "ccm_encrypt (aes128k128d ?key) (ccmp_nonce (hdrlen at) ?h) (ccmp_aad (hdrlen at) ?h) ?xs"
    have fit: "q + ?hl + n + 8 \<le> length mem" "hdr_consistent (hdrlen at) ?h" "?hl + n + 8 \<le> 2048"
      using bspec [OF assms(7) m] by simp_all
    have len: "length ?h = ?hl" "length ?xs = n" using fit(1) by simp_all
    obtain message' sec'' where "rtw_aes_decrypt ?sec' rx False (Some ?key) (?h @ ?cs) message =
        Inr (SUCCESS, ?h @ ?xs @ drop n ?cs, message', sec'')"
      using rtw_aes_decrypt_sealed [where rx = rx and h = ?h and xs = ?xs and message = message and sec = ?sec' and key = ?key] assms(2,3,8) rx fit(2,3) len
      by (simp only: if_False simp_thms add.assoc) blast
    moreover have "chunk mem' q (rx_len rx) = ?h @ ?cs"
      using bspec [OF mem'(2) m] by (simp add: rx(5) aes_sealed_def key)
    moreover have "take (?hl + n) (?h @ ?xs @ drop n ?cs) = chunk mem q (?hl + n)"
      using len chunk_add [of ?hl n q mem] by (simp del: length_take length_drop take_take)
    ultimately show ?thesis by metis
  qed
  show ?thesis
  proof (intro exI conjI)
    show "rtw_aes_encrypt sec at fl (Some base) mem = Inr (SUCCESS, mem', ?sec')"
      using assms(1) mem'(1) by (simp add: rtw_aes_encrypt_def)
  qed (use open_frag in blast)
qed

definition aes_example_attrib :: pkt_attrib where
  "aes_example_attrib = \<lparr> hdrlen = 24, last_txcmdsz = 44, nr_frags = 2, encrypt = AES, iv_len = 8, icv_len = 8,
     ra = replicate 6 0, ta = replicate 6 2, dot118021x_UncstKey = replicate 16 5 \<rparr>"

theorem rtw_aes_roundtrip_witness:
  "\<exists>mem' sec'. rtw_aes_encrypt wep_example_sec aes_example_attrib 48 (Some 4096) (replicate 140 8) =
      Inr (SUCCESS, mem', sec') \<and>
    (\<forall>(q, n) \<in> set [(48, 8), (96, 4)]. \<forall>rx. rx_encrypt rx = AES \<and> rx_ra rx = ra aes_example_attrib \<and>
       rx_hdrlen rx = hdrlen aes_example_attrib \<and> rx_iv_len rx = iv_len aes_example_attrib \<and>
       rx_len rx = hdrlen aes_example_attrib + 8 + n + 8 \<longrightarrow>
       (\<exists>plain message' sec''. rtw_aes_decrypt sec' rx False (Some (dot118021x_UncstKey aes_example_attrib))
           (chunk mem' q (rx_len rx)) (replicate 2048 0) = Inr (SUCCESS, plain, message', sec'') \<and>
          take (hdrlen aes_example_attrib + 8 + n) plain = chunk (replicate 140 8) q (hdrlen aes_example_attrib + 8 + n)))"
  by (rule rtw_aes_roundtrip)
    (simp_all add: aes_example_attrib_def IS_MCAST_def frag_sizes_ok_def TXDESC_OFFSET_def RND4_def frags_numeral
      hdr_consistent_def qos_frame_def GetFrameType_def get_frame_sub_type_def get_le16_def)

end
