(* ===== verification/Cmac.thy ===== *)
theory Cmac
  imports Ccmp
begin

text \<open>
  AES-CMAC (\<open>omac1_aes_128\<close>, core/rtw_security.c), which authenticates broadcast management
  frames and the frames of the mesh peering. The reference is the CMAC of NIST SP 800-38B.
\<close>

section \<open>The routines\<close>

text \<open>The carry is read before the block is shifted in place, byte by byte from the front.\<close>

definition gf_mulx :: "u8 list \<Rightarrow> u8 list" where
  "gf_mulx pad =
     (let carry = pad ! 0 AND 0x80;
          pad' = map (\<lambda>i. push_bit 1 (pad ! i) OR drop_bit 7 (pad ! (i + 1)))
                   [0, 1, 2, 3, 4, 5, 6, 7, 8, 9, 10, 11, 12, 13, 14];
          b = push_bit 1 (pad ! 15)
      in pad' @ [if carry \<noteq> 0 then b XOR 0x87 else b])"

text \<open>The data vector is \<open>addr\<close>, a list of elements with their lengths. \<open>junk\<close> stands for what the
  arrays of pointers and lengths are followed by: behind the last byte of the last element the
  code loads the next pointer and length.\<close>

type_synonym vec_pos = "nat \<times> nat"

definition vec_elem :: "u8 list list \<Rightarrow> u8 list \<Rightarrow> nat \<Rightarrow> u8 list" where
  "vec_elem addr junk e = (if e < length addr then addr ! e else junk)"

text \<open>\<open>cbc[i] ^= *pos++\<close> and the step to the next element, for \<open>n\<close> bytes from index \<open>i\<close> on.\<close>

fun omac_xor :: "u8 list list \<Rightarrow> u8 list \<Rightarrow> nat \<Rightarrow> nat \<Rightarrow> u8 list \<Rightarrow> vec_pos \<Rightarrow> (u8 list \<times> vec_pos) cres" where
  "omac_xor addr junk 0 i cbc pos = Inr (cbc, pos)"
| "omac_xor addr junk (Suc n) i cbc (e, off) =
     bindc (rd (vec_elem addr junk e) off) (\<lambda>b.
     omac_xor addr junk n (i + 1) (cbc[i := cbc ! i XOR b])
       (if off + 1 \<ge> length (vec_elem addr junk e) then (e + 1, 0) else (e, off + 1)))"

text \<open>The loop over the full blocks; the last one is not encrypted here.\<close>

function omac_loop ::
  "(u8 list \<Rightarrow> u8 list) \<Rightarrow> u8 list list \<Rightarrow> u8 list \<Rightarrow> nat \<Rightarrow> u8 list \<Rightarrow> vec_pos \<Rightarrow>
   (nat \<times> u8 list \<times> vec_pos) cres" where
  "omac_loop E addr junk left cbc pos =
     (if 16 \<le> left then
        bindc (omac_xor addr junk 16 0 cbc pos) (\<lambda>(cbc, pos).
        omac_loop E addr junk (left - 16) (if left > 16 then E cbc else cbc) pos)
      else Inr (left, cbc, pos))"
  by pat_completeness auto
termination by (relation "measure (\<lambda>(_, _, _, left, _, _). left)") auto

declare omac_loop.simps [simp del]

text \<open>\<open>ctx_ok\<close>: the key schedule could be allocated. \<open>None\<close> is the result -1.\<close>

definition omac1_aes_128_vector ::
  "u8 list \<Rightarrow> u8 list list \<Rightarrow> u8 list \<Rightarrow> bool \<Rightarrow> u8 list option cres" where
  "omac1_aes_128_vector key addr junk ctx_ok =
     (if \<not> ctx_ok then Inr None
      else
        let E = rijndaelEncrypt (rijndaelKeySetupEnc key);
            total_len = sum_list (map length addr) in
        bindc (omac_loop E addr junk total_len (replicate 16 0) (0, 0)) (\<lambda>(left, cbc, pos).
        let pad = gf_mulx (E (replicate 16 0)) in
        bindc (if left \<noteq> 0 \<or> total_len = 0 then
                 bindc (omac_xor addr junk left 0 cbc pos) (\<lambda>(cbc, _).
                 Inr (cbc[left := cbc ! left XOR 0x80], gf_mulx pad))
               else Inr (cbc, pad)) (\<lambda>(cbc, pad).
        Inr (Some (E (bitwise_xor pad cbc))))))"

definition omac1_aes_128 :: "u8 list \<Rightarrow> u8 list \<Rightarrow> u8 list \<Rightarrow> bool \<Rightarrow> u8 list option cres" where
  "omac1_aes_128 key dat junk ctx_ok = omac1_aes_128_vector key [dat] junk ctx_ok"

section \<open>The reference\<close>

text \<open>Doubling in the field of 128-bit polynomials.\<close>

definition dbl :: "128 word \<Rightarrow> 128 word" where
  "dbl w = (if bit w 127 then push_bit 1 w XOR 0x87 else push_bit 1 w)"

definition block_word :: "u8 list \<Rightarrow> 128 word" where
  "block_word b = word_rcat b"

definition word_block :: "128 word \<Rightarrow> u8 list" where
  "word_block w = map (\<lambda>i. ucast (drop_bit (8 * (15 - i)) w)) [0..<16]"

function cmac_blocks :: "(u8 list \<Rightarrow> u8 list) \<Rightarrow> u8 list \<Rightarrow> u8 list \<Rightarrow> u8 list \<Rightarrow> u8 list \<Rightarrow> u8 list" where
  "cmac_blocks E k1 k2 x m =
     (if 16 < length m then cmac_blocks E k1 k2 (E (xor_bytes x (take 16 m))) (drop 16 m)
      else if length m = 16 then E (xor_bytes (xor_bytes x m) k1)
      else E (xor_bytes (xor_bytes x (padded (m @ [0x80]))) k2))"
  by pat_completeness auto
termination by (relation "measure (\<lambda>(_, _, _, _, m). length m)") auto

declare cmac_blocks.simps [simp del]

definition cmac :: "(u8 list \<Rightarrow> u8 list) \<Rightarrow> u8 list \<Rightarrow> u8 list" where
  "cmac E m =
     (let k1 = dbl (block_word (E (replicate 16 0))) in
      cmac_blocks E (word_block k1) (word_block (dbl k1)) (replicate 16 0) m)"

section \<open>Correctness\<close>

lemma bit_block_word:
  assumes "length b = 16"
  shows "bit (block_word b) n \<longleftrightarrow> n < 128 \<and> bit (b ! (15 - n div 8)) (n mod 8)"
proof -
  have "bit (block_word b) n \<longleftrightarrow> n < 128 \<and> n div 8 < 16 \<and> bit (rev b ! (n div 8)) (n mod 8)"
    using assms bit_horner_sum_uint_exp_iff [of "rev b" n] by (simp add: block_word_def word_rcat_def bit_simps)
  moreover have "n < 128 \<Longrightarrow> n div 8 < 16" by simp
  moreover have "n div 8 < 16 \<Longrightarrow> rev b ! (n div 8) = b ! (15 - n div 8)"
    using assms by (simp add: rev_nth)
  ultimately show ?thesis by auto
qed

lemma word_block_length [simp]: "length (word_block w) = 16"
  by (simp add: word_block_def)

lemma bit_word_block: "i < 16 \<Longrightarrow> bit (word_block w ! i) n \<longleftrightarrow> n < 8 \<and> bit w (8 * (15 - i) + n)"
  by (simp only: word_block_def nth_map length_upt nth_upt) (auto simp: bit_simps)

lemma word_block_word: "length b = 16 \<Longrightarrow> word_block (block_word b) = b"
proof (rule nth_equalityI)
  fix i
  assume "length b = 16" "i < length (word_block (block_word b))"
  then show "word_block (block_word b) ! i = b ! i"
    by (intro bit_eqI) (auto simp: bit_word_block bit_block_word dest: bit_imp_le_length)
qed simp

lemma gf_mulx_length [simp]: "length (gf_mulx b) = 16"
  by (simp add: gf_mulx_def Let_def)

lemma shl1_bit: "bit (push_bit 1 w) k \<longleftrightarrow> 0 < k \<and> k < LENGTH('a) \<and> bit w (k - 1)" for w :: "'a :: len word"
  by (auto simp only: bit_push_bit_iff possible_bit_word Suc_le_eq One_nat_def)

lemma gf_mulx_front:
  assumes "i < 15"
  shows "gf_mulx b ! i = push_bit 1 (b ! i) OR drop_bit 7 (b ! (i + 1))"
proof -
  have "[0, 1, 2, 3, 4, 5, 6, 7, 8, 9, 10, 11, 12, 13, 14 :: nat] = [0..<15]" by (simp add: upt_conv_Cons)
  then have "gf_mulx b ! i = map (\<lambda>i. push_bit 1 (b ! i) OR drop_bit 7 (b ! (i + 1))) [0..<15] ! i"
    using assms unfolding gf_mulx_def Let_def by (simp only: nth_append length_map length_upt) simp
  then show ?thesis using assms by (simp only: nth_map length_upt nth_upt) simp
qed

lemma gf_mulx_last: "gf_mulx b ! 15 = (if bit (b ! 0) 7 then push_bit 1 (b ! 15) XOR 0x87 else push_bit 1 (b ! 15))"
proof -
  have "b ! 0 AND 0x80 \<noteq> 0 \<longleftrightarrow> bit (b ! 0) 7"
    using and_exp_eq_0_iff_not_bit [of "b ! 0" 7] by simp
  then show ?thesis by (simp add: gf_mulx_def Let_def nth_append)
qed

lemma gf_mulx_dbl:
  assumes "length b = 16"
  shows "gf_mulx b = word_block (dbl (block_word b))"
proof (rule nth_equalityI)
  fix i
  assume "i < length (gf_mulx b)"
  then have i: "i < 16" by simp
  show "gf_mulx b ! i = word_block (dbl (block_word b)) ! i"
  proof (rule bit_word_eqI)
    fix n
    assume "n < LENGTH(8)"
    then have n: "n < 8" by simp
    let ?k = "8 * (15 - i) + n"
    have k: "?k < 128" "bit (block_word b) 127 \<longleftrightarrow> bit (b ! 0) 7" using n i assms by (simp_all add: bit_block_word)
    have pred: "bit (block_word b) (?k - 1) \<longleftrightarrow> (if n = 0 then bit (b ! (i + 1)) 7 else bit (b ! i) (n - 1))" if "0 < ?k"
    proof (cases "n = 0")
      case True
      then have "?k - 1 = 8 * (14 - i) + 7" "i < 15" using that i by auto
      moreover have "8 * (14 - i) < 121" "15 - (14 - i) = i + 1" using \<open>i < 15\<close> by linarith+
      ultimately show ?thesis using True assms by (simp add: bit_block_word)
    next
      case False
      then have "?k - 1 = 8 * (15 - i) + (n - 1)" by simp
      moreover have "(8 * (15 - i) + (n - 1)) div 8 = 15 - i" "(8 * (15 - i) + (n - 1)) mod 8 = n - 1" using n by auto
      moreover have "8 * (15 - i) + (n - 1) < 128" using n i by linarith
      moreover have "15 - (15 - i) = i" using i by simp
      ultimately show ?thesis using assms False by (simp only: bit_block_word if_False simp_thms)
    qed
    have poly: "bit (0x87 :: 128 word) ?k \<longleftrightarrow> i = 15 \<and> bit (0x87 :: u8) n"
    proof -
      have "(0x87 :: 128 word) = ucast (0x87 :: u8)" by simp
      then have "bit (0x87 :: 128 word) ?k \<longleftrightarrow> bit (0x87 :: u8) ?k" using k(1)
        by (simp only: bit_ucast_iff) (auto dest: bit_imp_le_length)
      then show ?thesis using i by (cases "i = 15") (auto dest: bit_imp_le_length)
    qed
    have dbl: "bit (dbl (block_word b)) ?k \<longleftrightarrow>
        (0 < ?k \<and> bit (block_word b) (?k - 1)) \<noteq> (bit (b ! 0) 7 \<and> bit (0x87 :: 128 word) ?k)"
      using k(1) unfolding dbl_def k(2)
      by (cases "bit (b ! 0) 7") (simp_all only: if_True if_False bit_xor_iff shl1_bit len_num1 len_bit0 simp_thms, auto)
    show "bit (gf_mulx b ! i) n \<longleftrightarrow> bit (word_block (dbl (block_word b)) ! i) n"
    proof (cases "i = 15")
      case True
      then show ?thesis
        using n pred poly dbl
        by (cases "bit (b ! 0) 7"; cases n) (simp_all add: bit_word_block gf_mulx_last bit_xor_iff shl1_bit [simplified])
    next
      case False
      then have "0 < ?k" "i < 15" using i by auto
      then show ?thesis
        using n pred poly dbl False
        by (cases n) (auto simp: bit_word_block gf_mulx_front bit_or_iff bit_drop_bit_eq shl1_bit [simplified]
            dest: bit_imp_le_length)
    qed
  qed
qed simp

subsection \<open>Reading the vector\<close>

definition vec_ok :: "u8 list list \<Rightarrow> bool" where
  "vec_ok addr \<longleftrightarrow> (\<forall>xs \<in> set addr. xs \<noteq> [])"

definition vec_rest :: "u8 list list \<Rightarrow> vec_pos \<Rightarrow> u8 list" where
  "vec_rest addr = (\<lambda>(e, off). drop off (concat (drop e addr)))"

definition vec_at :: "u8 list list \<Rightarrow> vec_pos \<Rightarrow> bool" where
  "vec_at addr = (\<lambda>(e, off). e < length addr \<and> off < length (addr ! e) \<or> e = length addr \<and> off = 0)"

definition vec_next :: "u8 list list \<Rightarrow> vec_pos \<Rightarrow> vec_pos" where
  "vec_next addr = (\<lambda>(e, off). if off + 1 \<ge> length (addr ! e) then (e + 1, 0) else (e, off + 1))"

lemma vec_start: "vec_ok addr \<Longrightarrow> vec_at addr (0, 0)" "vec_rest addr (0, 0) = concat addr"
  by (auto simp: vec_ok_def vec_at_def vec_rest_def)

lemma vec_step:
  assumes "vec_ok addr" and "vec_at addr (e, off)" and "vec_rest addr (e, off) \<noteq> []"
  shows "e < length addr" "off < length (addr ! e)"
    and "vec_rest addr (e, off) = addr ! e ! off # vec_rest addr (vec_next addr (e, off))"
    and "vec_at addr (vec_next addr (e, off))"
proof -
  have "e \<noteq> length addr" using assms(2,3) by (auto simp: vec_rest_def)
  then show e: "e < length addr" "off < length (addr ! e)" using assms(2) by (auto simp: vec_at_def)
  have "drop e addr = addr ! e # drop (Suc e) addr" using e(1) by (simp add: Cons_nth_drop_Suc)
  then have r: "vec_rest addr (e, off) = drop off (addr ! e) @ concat (drop (Suc e) addr)"
    using e(2) by (simp add: vec_rest_def)
  have d: "drop off (addr ! e) = addr ! e ! off # drop (Suc off) (addr ! e)"
    using e(2) by (simp add: Cons_nth_drop_Suc)
  show "vec_rest addr (e, off) = addr ! e ! off # vec_rest addr (vec_next addr (e, off))"
  proof (cases "off + 1 \<ge> length (addr ! e)")
    case True
    then show ?thesis using r d by (simp add: vec_next_def vec_rest_def)
  next
    case False
    have "vec_rest addr (e, Suc off) = drop (Suc off) (addr ! e) @ concat (drop (Suc e) addr)"
      using False \<open>drop e addr = addr ! e # drop (Suc e) addr\<close> by (simp add: vec_rest_def)
    then show ?thesis using False r d by (simp add: vec_next_def)
  qed
  show "vec_at addr (vec_next addr (e, off))"
  proof (cases "off + 1 \<ge> length (addr ! e) \<and> e + 1 < length addr")
    case True
    then have "addr ! (e + 1) \<noteq> []" using assms(1) nth_mem [of "e + 1" addr] unfolding vec_ok_def by blast
    then show ?thesis using True by (auto simp: vec_next_def vec_at_def)
  next
    case False
    then show ?thesis using e by (auto simp: vec_next_def vec_at_def)
  qed
qed

lemma omac_xor_bytes:
  assumes "vec_ok addr"
  shows "vec_at addr pos \<Longrightarrow> n \<le> length (vec_rest addr pos) \<Longrightarrow> i + n \<le> length cbc \<Longrightarrow>
    \<exists>pos'. omac_xor addr junk n i cbc pos =
        Inr (take i cbc @ xor_bytes (chunk cbc i n) (take n (vec_rest addr pos)) @ drop (i + n) cbc, pos') \<and>
      vec_at addr pos' \<and> vec_rest addr pos' = drop n (vec_rest addr pos)"
proof (induction n arbitrary: i cbc pos)
  case 0
  then show ?case by (simp add: xor_bytes_def)
next
  case (Suc n)
  obtain e off where pos: "pos = (e, off)" by (cases pos)
  have ne: "vec_rest addr (e, off) \<noteq> []" using Suc.prems(2) pos by auto
  note s = vec_step [OF assms Suc.prems(1) [unfolded pos] ne]
  let ?cbc = "cbc[i := cbc ! i XOR addr ! e ! off]" and ?r = "vec_rest addr (vec_next addr (e, off))"
  have l: "n \<le> length ?r" "(i + 1) + n \<le> length ?cbc" using Suc.prems(2,3) s(3) pos by simp_all
  from Suc.IH [OF s(4) l] obtain pos' where p: "omac_xor addr junk n (i + 1) ?cbc (vec_next addr (e, off)) =
      Inr (take (i + 1) ?cbc @ xor_bytes (chunk ?cbc (i + 1) n) (take n ?r) @ drop (i + 1 + n) ?cbc, pos')"
    "vec_at addr pos'" "vec_rest addr pos' = drop n ?r"
    by blast
  have i: "i < length cbc" using Suc.prems(3) by simp
  have "chunk cbc i (Suc n) = cbc ! i # chunk cbc (Suc i) n"
    using i by (simp flip: Cons_nth_drop_Suc)
  then have e: "take (i + 1) ?cbc @ xor_bytes (chunk ?cbc (i + 1) n) (take n ?r) @ drop (i + 1 + n) ?cbc =
      take i cbc @ xor_bytes (chunk cbc i (Suc n)) (take (Suc n) (vec_rest addr (e, off))) @ drop (i + Suc n) cbc"
    using i by (simp add: s(3) xor_bytes_def take_Suc_conv_app_nth upd_conv_take_nth_drop add.commute)
  have "omac_xor addr junk (Suc n) i cbc pos = omac_xor addr junk n (i + 1) ?cbc (vec_next addr (e, off))"
    using s(1,2) by (simp add: pos vec_elem_def rd_ok vec_next_def)
  also have "\<dots> = Inr (take i cbc @ xor_bytes (chunk cbc i (Suc n)) (take (Suc n) (vec_rest addr pos)) @
      drop (i + Suc n) cbc, pos')"
    unfolding p(1) e pos ..
  finally show ?case
    using p(2,3) by (intro exI [of _ pos'] conjI) (simp_all only: pos s(3) drop_Suc_Cons)
qed

subsection \<open>The code\<close>

lemma omac_loop_cmac:
  assumes ok: "vec_ok addr" and E: "\<And>b. length (E b) = 16"
  shows "vec_at addr pos \<Longrightarrow> length cbc = 16 \<Longrightarrow> left = length (vec_rest addr pos) \<Longrightarrow>
    \<exists>cbc' pos'. omac_loop E addr junk left cbc pos = Inr (length (vec_rest addr pos'), cbc', pos') \<and>
      length cbc' = 16 \<and> length (vec_rest addr pos') < 16 \<and> vec_at addr pos' \<and>
      cmac_blocks E k1 k2 cbc (vec_rest addr pos) =
        (if vec_rest addr pos' = [] \<and> 0 < left then E (xor_bytes cbc' k1)
         else E (xor_bytes (xor_bytes cbc' (padded (vec_rest addr pos' @ [0x80]))) k2))"
proof (induction left arbitrary: cbc pos rule: less_induct)
  case (less left)
  let ?m = "vec_rest addr pos"
  show ?case
  proof (cases "16 \<le> left")
    case False
    then show ?thesis
      using less.prems by (intro exI [of _ cbc] exI [of _ pos]) (auto simp: omac_loop.simps cmac_blocks.simps)
  next
    case True
    have n: "16 \<le> length ?m" "0 + 16 \<le> length cbc" using True less.prems(2,3) by simp_all
    let ?x = "xor_bytes cbc (take 16 ?m)"
    obtain pos1 where p: "omac_xor addr junk 16 0 cbc pos = Inr (?x, pos1)" "vec_at addr pos1"
      "vec_rest addr pos1 = drop 16 ?m"
      using omac_xor_bytes [OF ok less.prems(1) n, of junk] less.prems(2) by auto
    have x: "length ?x = 16" using n(1) less.prems(2) by simp
    show ?thesis
    proof (cases "left = 16")
      case True
      then have e: "vec_rest addr pos1 = []" "length ?m = 16" using p(3) less.prems(3) by simp_all
      have "omac_loop E addr junk left cbc pos = Inr (0, ?x, pos1)"
        using True p(1) by (simp add: omac_loop.simps [of _ _ _ 16] omac_loop.simps [of _ _ _ 0])
      moreover have "cmac_blocks E k1 k2 cbc ?m = E (xor_bytes ?x k1)"
        using e(2) by (simp add: cmac_blocks.simps)
      ultimately show ?thesis
        using True e x p(2) by (intro exI [of _ ?x] exI [of _ pos1]) simp
    next
      case False
      then have l: "16 < left" "left - 16 < left" "left - 16 = length (vec_rest addr pos1)"
        using True less.prems(3) p(3) by simp_all
      have step: "omac_loop E addr junk left cbc pos = omac_loop E addr junk (left - 16) (E ?x) pos1"
        using l(1) p(1) by (subst omac_loop.simps) simp
      have "cmac_blocks E k1 k2 cbc ?m = cmac_blocks E k1 k2 (E ?x) (vec_rest addr pos1)"
        using l(1) less.prems(3) p(3) by (subst cmac_blocks.simps) simp
      then show ?thesis
        using less.IH [OF l(2) p(2) E l(3), of ?x] l(1) unfolding step by simp
    qed
  qed
qed

lemma xor_pad:
  assumes "length cbc = 16" and "length m < 16"
  shows "(xor_bytes (take (length m) cbc) m @ drop (length m) cbc)[length m := cbc ! length m XOR 0x80] =
    xor_bytes cbc (padded (m @ [0x80]))"
proof -
  let ?n = "length m"
  have "cbc = take ?n cbc @ cbc ! ?n # drop (Suc ?n) cbc" using assms by (simp add: id_take_nth_drop)
  then have "xor_bytes cbc (padded (m @ [0x80])) =
      xor_bytes (take ?n cbc @ cbc ! ?n # drop (Suc ?n) cbc) (m @ 0x80 # replicate (15 - ?n) 0)"
    using assms(2) by (simp add: padded_def)
  also have "\<dots> = xor_bytes (take ?n cbc) m @ (cbc ! ?n XOR 0x80) # xor_bytes (drop (Suc ?n) cbc) (replicate (15 - ?n) 0)"
    using assms unfolding xor_bytes_def by (subst zip_append) simp_all
  also have "xor_bytes (drop (Suc ?n) cbc) (replicate (15 - ?n) 0) = drop (Suc ?n) cbc"
    using assms unfolding xor_bytes_def by (intro nth_equalityI) simp_all
  finally show ?thesis
    using assms by (simp add: Cons_nth_drop_Suc [symmetric] list_update_append)
qed

lemma omac1_vector_cmac:
  assumes ok: "vec_ok addr" and k: "length key = 16"
  shows "omac1_aes_128_vector key addr junk ctx_ok =
    Inr (if ctx_ok then Some (cmac (aes128k128d key) (concat addr)) else None)"
proof (cases ctx_ok)
  case False
  then show ?thesis by (simp add: omac1_aes_128_vector_def)
next
  case True
  let ?R = "rijndaelEncrypt (rijndaelKeySetupEnc key)" and ?E = "aes128k128d key"
  have R: "length (?R b) = 16" for b
    by (simp add: rijndaelEncrypt_def PUTU32_def Let_def split_beta)
  have RE: "?R b = ?E b" if "length b = 16" for b using rijndael_aes [OF k that] .
  let ?L = "?E (replicate 16 0)"
  let ?k1 = "word_block (dbl (block_word ?L))" and ?k2 = "word_block (dbl (dbl (block_word ?L)))"
  have L: "?R (replicate 16 0) = ?L" by (intro RE) simp
  have block: "block_word (word_block w) = w" for w
  proof (rule bit_word_eqI)
    fix n
    assume n: "n < LENGTH(128)"
    then have "15 - (15 - n div 8) = n div 8" by simp
    then show "bit (block_word (word_block w)) n \<longleftrightarrow> bit w n"
      using n by (simp add: bit_block_word bit_word_block)
  qed
  have k1: "gf_mulx ?L = ?k1" by (intro gf_mulx_dbl) simp
  have k2: "gf_mulx ?k1 = ?k2" using gf_mulx_dbl [of ?k1] by (simp add: block)
  have total: "sum_list (map length addr) = length (concat addr)" by (simp add: length_concat)
  obtain cbc pos where loop:
    "omac_loop ?R addr junk (length (concat addr)) (replicate 16 0) (0, 0) = Inr (length (vec_rest addr pos), cbc, pos)"
    "length cbc = 16" "length (vec_rest addr pos) < 16" "vec_at addr pos"
    "cmac_blocks ?R ?k1 ?k2 (replicate 16 0) (concat addr) =
       (if vec_rest addr pos = [] \<and> 0 < length (concat addr) then ?R (xor_bytes cbc ?k1)
        else ?R (xor_bytes (xor_bytes cbc (padded (vec_rest addr pos @ [0x80]))) ?k2))"
    using omac_loop_cmac [where E = ?R and junk = junk and ?k1.0 = ?k1 and ?k2.0 = ?k2, OF ok R vec_start(1) [OF ok],
        of "replicate 16 0", OF length_replicate refl]
    unfolding vec_start(2) by blast
  have blocks: "cmac_blocks ?R k1 k2 x m = cmac_blocks ?E k1 k2 x m" if "length x = 16" "length k1 = 16" "length k2 = 16"
    for k1 k2 x m
    using that
  proof (induction "length m" arbitrary: x m rule: less_induct)
    case less
    show ?case
      using less.hyps [of "drop 16 m" "?E (xor_bytes x (take 16 m))"] less.prems
      by (subst (1 2) cmac_blocks.simps) (auto simp: RE)
  qed
  have x: "bitwise_xor p b = xor_bytes b p" if "length b = 16" "length p = 16" for b p
    using that by (subst bitwise_xor_commute) (simp add: bitwise_xor_bytes)
  show ?thesis
  proof (cases "vec_rest addr pos = [] \<and> 0 < length (concat addr)")
    case last: True
    then have c: "(length (vec_rest addr pos) \<noteq> 0 \<or> length (concat addr) = 0) = False" by auto
    have "omac1_aes_128_vector key addr junk ctx_ok = Inr (Some (?R (xor_bytes cbc ?k1)))"
      unfolding omac1_aes_128_vector_def Let_def total loop(1) bindc_Inr prod.case L k1
      using True c x [OF loop(2) word_block_length] by (simp only: if_True if_False bindc_Inr prod.case simp_thms)
    moreover have "cmac ?E (concat addr) = ?R (xor_bytes cbc ?k1)"
      using loop(5) [unfolded if_P [OF last]] blocks [of "replicate 16 0" ?k1 ?k2 "concat addr"]
      unfolding cmac_def Let_def by (simp only: length_replicate word_block_length simp_thms)
    ultimately show ?thesis using True by (simp only: if_True)
  next
    case False
    let ?m = "vec_rest addr pos"
    obtain pos' where xor: "omac_xor addr junk (length ?m) 0 cbc pos =
        Inr (xor_bytes (take (length ?m) cbc) ?m @ drop (length ?m) cbc, pos')"
      using omac_xor_bytes [OF ok loop(4), of "length ?m" 0 cbc junk] loop(2,3) by auto
    let ?y = "xor_bytes cbc (padded (?m @ [0x80]))"
    have nth: "(xor_bytes (take (length ?m) cbc) ?m @ drop (length ?m) cbc) ! length ?m = cbc ! length ?m"
      using loop(2,3) by (simp add: nth_append)
    have y: "length ?y = 16" using loop(2,3) by simp
    have c: "(length ?m \<noteq> 0 \<or> length (concat addr) = 0) = True" using False by auto
    have "omac1_aes_128_vector key addr junk ctx_ok = Inr (Some (?R (bitwise_xor ?k2 ?y)))"
      unfolding omac1_aes_128_vector_def Let_def total loop(1) bindc_Inr prod.case L k1 k2
      using True c by (simp only: if_True bindc_Inr prod.case xor nth xor_pad [OF loop(2,3)] simp_thms if_False)
    moreover have "cmac ?E (concat addr) = ?R (xor_bytes ?y ?k2)"
      using loop(5) [unfolded if_not_P [OF False]] blocks [of "replicate 16 0" ?k1 ?k2 "concat addr"]
      unfolding cmac_def Let_def by (simp only: length_replicate word_block_length simp_thms)
    ultimately show ?thesis using True x [OF y word_block_length] by (simp only: if_True)
  qed
qed

text \<open>\<open>omac1_aes_128_vector\<close> computes AES-CMAC. For every vector of non-empty elements the result
  is the CMAC of NIST SP 800-38B of their concatenation, or failure when the key schedule cannot
  be allocated. At the end of the vector the code loads a pointer and a length behind its two
  arrays; \<open>junk\<close>, what that yields, does not influence the result.\<close>

theorem omac1_aes_128_vector_cmac:
  assumes "vec_ok addr" and "length key = 16"
  shows "omac1_aes_128_vector key addr junk ctx_ok =
    Inr (if ctx_ok then Some (cmac (aes128k128d key) (concat addr)) else None)"
  using assms by (rule omac1_vector_cmac)

theorem omac1_aes_128_vector_cmac_witness:
  "omac1_aes_128_vector (replicate 16 1) [[1, 2], [3, 4, 5]] [] True =
    Inr (Some (cmac (aes128k128d (replicate 16 1)) [1, 2, 3, 4, 5]))"
  using omac1_aes_128_vector_cmac [of "[[1, 2], [3, 4, 5]]" "replicate 16 1" "[]" True] by (simp add: vec_ok_def)

end
