(* ===== verification/Mfp.thy ===== *)
theory Mfp
  imports Cmac Ie
begin

text \<open>
  Protection of management frames (IEEE 802.11w): the verification of the management MIC element
  of broadcast frames (core/rtw_security.c), the check of received management frames
  (\<open>validate_mgmt_protect\<close> with \<open>decryptor\<close>, core/rtw_recv.c) and the protection of sent ones
  (\<open>rtw_mgmt_xmitframe_coalesce\<close>, core/rtw_xmit.c).
\<close>

section \<open>Constants\<close>

definition BIP_AAD_SIZE :: nat where "BIP_AAD_SIZE = 20"
definition MME_IE :: nat where "MME_IE = 76"
definition RTW_RX_HANDLED :: nat where "RTW_RX_HANDLED = 2"
definition AES_PRIV_SIZE :: nat where "AES_PRIV_SIZE = 4 * 44"

definition WIFI_DISASSOC :: u32 where "WIFI_DISASSOC = 0xa0"
definition WIFI_DEAUTH :: u32 where "WIFI_DEAUTH = 0xc0"
definition WIFI_ACTION :: u32 where "WIFI_ACTION = 0xd0"

definition CATEGORY_IS_GROUP_PRIVACY :: "u8 \<Rightarrow> bool" where
  "CATEGORY_IS_GROUP_PRIVACY cat \<longleftrightarrow> cat = 13 \<or> cat = 14"

definition CATEGORY_IS_NON_ROBUST :: "u8 \<Rightarrow> bool" where
  "CATEGORY_IS_NON_ROBUST cat \<longleftrightarrow> cat = 4 \<or> cat = 7 \<or> cat = 11 \<or> cat = 15 \<or> cat = 21 \<or> cat = 0x7f"

definition IEEE80211W_WRONG_KEY :: nat where "IEEE80211W_WRONG_KEY = 1"
definition IEEE80211W_NO_KEY :: nat where "IEEE80211W_NO_KEY = 2"

definition get_le48 :: "u8 list \<Rightarrow> u64" where
  "get_le48 b = push_bit 40 (ucast (b ! 5)) OR push_bit 32 (ucast (b ! 4)) OR push_bit 24 (ucast (b ! 3)) OR
     push_bit 16 (ucast (b ! 2)) OR push_bit 8 (ucast (b ! 1)) OR ucast (b ! 0)"

definition put_le64 :: "u64 \<Rightarrow> u8 list" where
  "put_le64 w = [ucast w, ucast (drop_bit 8 w), ucast (drop_bit 16 w), ucast (drop_bit 24 w),
     ucast (drop_bit 32 w), ucast (drop_bit 40 w), ucast (drop_bit 48 w), ucast (drop_bit 56 w)]"

section \<open>The management MIC element\<close>

text \<open>Retry, power management and more data are cleared in the frame control field.\<close>

definition bip_fc :: "u8 list \<Rightarrow> u8 list" where
  "bip_fc fc = put_le16 (get_le16 (fc ! 0) (fc ! 1) AND NOT 0x0800 AND NOT 0x1000 AND NOT 0x2000)"

text \<open>The additional data at the front of the buffer, from the header of the frame at \<open>p\<close>.\<close>

definition bip_aad :: "u8 list \<Rightarrow> u8 list \<Rightarrow> nat \<Rightarrow> u8 list cres" where
  "bip_aad aad mem p =
     bindc (rdn mem p 2) (\<lambda>fc.
     bindc (wrn aad 0 (bip_fc fc)) (\<lambda>aad.
     bindc (rdn mem (p + 4) 18) (\<lambda>addr.
     wrn aad 2 addr)))"

text \<open>\<open>alloc n\<close>: whether an allocation of \<open>n\<close> bytes succeeds.\<close>

definition rtw_BIP_verify ::
  "(nat \<Rightarrow> bool) \<Rightarrow> u8 list \<Rightarrow> u8 list \<Rightarrow> int \<Rightarrow> u8 list \<Rightarrow> u16 \<Rightarrow> u64 \<Rightarrow> (nat \<times> u64) cres" where
  "rtw_BIP_verify alloc junk whdr flen key keyid ipn =
     (if flen < 18 then Inl OutOfBounds
      else
        let mme = nat (flen - 18) in
        bindc (rd whdr mme) (\<lambda>eid.
        if eid \<noteq> of_nat MME_IE then Inr (RTW_RX_HANDLED, ipn)
        else
          bindc (rdn whdr (mme + 2) 2) (\<lambda>k.
          if get_le16 (k ! 0) (k ! 1) \<noteq> keyid then Inr (FAIL, ipn)
          else
            bindc (rdn whdr (mme + 4) 6) (\<lambda>pn.
            let pkt_ipn = get_le48 pn in
            if pkt_ipn \<le> ipn then Inr (FAIL, ipn)
            else
              let ori_len = nat ((flen - 24 + int BIP_AAD_SIZE) mod 2 ^ 32) in
              if \<not> alloc ori_len then Inr (FAIL, ipn)
              else
                bindc (rdn whdr 24 (nat ((flen - 24) mod 2 ^ 64))) (\<lambda>body.
                bindc (wrn (replicate ori_len 0) BIP_AAD_SIZE body) (\<lambda>aad.
                bindc (wrn aad (ori_len - 18 + 10) (replicate 8 0)) (\<lambda>aad.
                bindc (bip_aad aad whdr 0) (\<lambda>aad.
                bindc (omac1_aes_128 key aad junk (alloc AES_PRIV_SIZE)) (\<lambda>r.
                case r of None \<Rightarrow> Inr (FAIL, ipn)
                | Some mic \<Rightarrow>
                  bindc (rdn whdr (nat (flen - 8)) 8) (\<lambda>theirs.
                  Inr (if take 8 mic = theirs then (SUCCESS, pkt_ipn) else (FAIL, ipn))))))))))))"

section \<open>Reception\<close>

record mgmt_rx_attrib = rx_pkt_attrib +
  rx_privacy :: bool
  rx_bdecrypted :: bool
  rx_icv_len :: nat
  rx_pkt_len :: nat

text \<open>The frame: its bytes, and how often it was given back to the queue of free frames. Giving it
  back releases the bytes, so that a later access is out of bounds.\<close>

record recv_frame =
  rf_data :: "u8 list"
  rf_freed :: nat

definition rtw_free_recvframe :: "recv_frame \<Rightarrow> recv_frame" where
  "rtw_free_recvframe rf = rf\<lparr>rf_data := [], rf_freed := rf_freed rf + 1\<rparr>"

text \<open>What the checks need to know of the transmitter: \<open>WLAN_STA_MFP\<close>, whether the pairwise key is
  installed, and that key.\<close>

record mfp_sta =
  sta_mfp :: bool
  bpairwise_key_installed :: bool
  sta_uncst :: "u8 list"
  sta_txpn :: u64

text \<open>The state that is passed through: key store, attributes, frame, the static copy of
  \<open>aes_decipher\<close>, and whether an SA query was sent.\<close>

record mgmt_rx =
  m_sec :: security_priv
  m_attr :: mgmt_rx_attrib
  m_rf :: recv_frame
  m_msg :: "u8 list"
  m_saq :: bool

definition WEP_KEYS :: nat where "WEP_KEYS = 4"

definition sw_decrypt :: "bool \<Rightarrow> mfp_sta option \<Rightarrow> mgmt_rx \<Rightarrow> (nat \<times> mgmt_rx) cres" where
  "sw_decrypt is_mesh psta s =
     (let at = rx_pkt_attrib.truncate (m_attr s); dat = rf_data (m_rf s);
          put = (\<lambda>dat sec. s\<lparr>m_sec := sec, m_rf := (m_rf s)\<lparr>rf_data := dat\<rparr>\<rparr>) in
      if rx_encrypt at = WEP40 \<or> rx_encrypt at = WEP104 then
        bindc (rtw_wep_decrypt (m_sec s) at dat) (\<lambda>(dat, sec). Inr (SUCCESS, put dat sec))
      else if rx_encrypt at = TKIP then
        bindc (rtw_tkip_decrypt (m_sec s) at (map_option sta_uncst psta) dat) (\<lambda>(res, dat, sec). Inr (res, put dat sec))
      else if rx_encrypt at = AES then
        bindc (rtw_aes_decrypt (m_sec s) at is_mesh (map_option sta_uncst psta) dat (m_msg s))
          (\<lambda>(res, dat, msg, sec). Inr (res, (put dat sec)\<lparr>m_msg := msg\<rparr>))
      else Inr (SUCCESS, s))"

text \<open>The result says whether the frame is returned; otherwise it is NULL and was given back.\<close>

definition decryptor :: "bool \<Rightarrow> mfp_sta option \<Rightarrow> mgmt_rx \<Rightarrow> (bool \<times> mgmt_rx) cres" where
  "decryptor is_mesh psta s =
     bindc (if rx_encrypt (m_attr s) > 0 then
              bindc (rd (rf_data (m_rf s)) (rx_hdrlen (m_attr s) + 3)) (\<lambda>b.
              let key_index = unat (drop_bit 6 b AND 0x3);
                  key_index = (if key_index > WEP_KEYS then
                      if rx_encrypt (m_attr s) = WEP40 \<or> rx_encrypt (m_attr s) = WEP104
                      then dot11PrivacyKeyIndex (m_sec s) else dot118021XGrpKeyid (m_sec s)
                    else key_index) in
              Inr (s\<lparr>m_attr := (m_attr s)\<lparr>rx_key_index := key_index\<rparr>\<rparr>))
            else Inr s) (\<lambda>s.
     bindc (if rx_encrypt (m_attr s) > 0 \<and> \<not> rx_bdecrypted (m_attr s) then
              bindc (rdn (rf_data (m_rf s)) 0 2) (\<lambda>fc.
              sw_decrypt is_mesh psta
                (if GetFrameType fc = WIFI_DATA then s\<lparr>m_sec := (m_sec s)\<lparr>hw_decrypted := False\<rparr>\<rparr> else s))
            else if rx_bdecrypted (m_attr s) \<and> rx_encrypt (m_attr s) > 0 \<and>
                (busetkipkey (m_sec s) \<or> rx_encrypt (m_attr s) \<noteq> TKIP) then
              Inr (SUCCESS, s\<lparr>m_sec := (m_sec s)\<lparr>hw_decrypted := True\<rparr>\<rparr>)
            else Inr (SUCCESS, s)) (\<lambda>(res, s).
     Inr (if res = FAIL then (False, s\<lparr>m_rf := rtw_free_recvframe (m_rf s), m_attr := (m_attr s)\<lparr>rx_len := 0\<rparr>\<rparr>)
          else (True, s\<lparr>m_attr := (m_attr s)\<lparr>rx_bdecrypted := True\<rparr>\<rparr>))))"

text \<open>Verification with the key of the adapter; \<open>goto exit\<close> is success and \<open>goto fail\<close> failure.\<close>

definition bip_verify :: "(nat \<Rightarrow> bool) \<Rightarrow> u8 list \<Rightarrow> mgmt_rx \<Rightarrow> (nat \<times> mgmt_rx) cres" where
  "bip_verify alloc junk s =
     bindc (nth_chk (dot11wBIPKey (m_sec s)) (dot11wBIPKeyid (m_sec s))) (\<lambda>igtk.
     bindc (rtw_BIP_verify alloc junk (rf_data (m_rf s)) (int (rx_len (m_attr s))) igtk
         (of_nat (dot11wBIPKeyid (m_sec s))) (dot11wBIPrxpn (m_sec s))) (\<lambda>(ret, ipn).
     Inr (if ret = FAIL \<or> ret = RTW_RX_HANDLED then FAIL else SUCCESS,
       s\<lparr>m_sec := (m_sec s)\<lparr>dot11wBIPrxpn := ipn\<rparr>\<rparr>)))"

definition mgmt_unprotected ::
  "(nat \<Rightarrow> bool) \<Rightarrow> u8 list \<Rightarrow> bool \<Rightarrow> mfp_sta option \<Rightarrow> u32 \<Rightarrow> bool \<Rightarrow> mgmt_rx \<Rightarrow> (nat \<times> mgmt_rx) cres" where
  "mgmt_unprotected alloc junk is_mesh psta subtype is_bmc s =
     (case psta of None \<Rightarrow> Inr (SUCCESS, s)
      | Some sta \<Rightarrow>
        if \<not> sta_mfp sta then Inr (SUCCESS, s)
        else
          bindc (if subtype = WIFI_ACTION then rd (rf_data (m_rf s)) 24 else Inr 0xff) (\<lambda>category.
          if is_bmc then
            if subtype = WIFI_ACTION \<and> CATEGORY_IS_GROUP_PRIVACY category then Inr (FAIL, s)
            else if subtype = WIFI_ACTION \<and> \<not> CATEGORY_IS_NON_ROBUST category then bip_verify alloc junk s
            else if subtype = WIFI_DEAUTH \<or> subtype = WIFI_DISASSOC then bip_verify alloc junk s
            else Inr (SUCCESS, s)
          else if subtype = WIFI_DEAUTH \<or> subtype = WIFI_DISASSOC then
            if is_mesh then Inr (FAIL, s)
            else
              bindc (rdn (rf_data (m_rf s)) WLAN_HDR_A3_LEN 2) (\<lambda>r.
              let reason = get_le16 (r ! 0) (r ! 1) in
              Inr (FAIL, if reason = 6 \<or> reason = 7 then s\<lparr>m_saq := True\<rparr> else s))
          else if subtype = WIFI_ACTION \<and> \<not> CATEGORY_IS_NON_ROBUST category \<and> bpairwise_key_installed sta
          then Inr (FAIL, s)
          else Inr (SUCCESS, s)))"

text \<open>The frame is decrypted in place and its body moved over the CCMP header. The body is copied
  out of the frame before the result of the decryption is looked at.\<close>

definition mgmt_decrypt :: "(nat \<Rightarrow> bool) \<Rightarrow> bool \<Rightarrow> mfp_sta option \<Rightarrow> mgmt_rx \<Rightarrow> (nat \<times> mgmt_rx) cres" where
  "mgmt_decrypt alloc is_mesh psta s =
     bindc (rdn (rf_data (m_rf s)) 4 6) (\<lambda>ra.
     bindc (rdn (rf_data (m_rf s)) 10 6) (\<lambda>ta.
     let at = (m_attr s)\<lparr>rx_bdecrypted := False, rx_encrypt := AES, rx_hdrlen := 24, rx_iv_len := 8, rx_icv_len := 8,
                rx_ra := ra, rx_ta := ta\<rparr>;
         data_len = usub32 (usub32 (usub32 (rx_pkt_len at) (rx_hdrlen at)) (rx_iv_len at)) (rx_icv_len at);
         s = s\<lparr>m_attr := at\<rparr> in
     if \<not> alloc data_len then Inr (FAIL, s)
     else
       bindc (decryptor is_mesh psta s) (\<lambda>(returned, s).
       bindc (rdn (rf_data (m_rf s)) (24 + 8) data_len) (\<lambda>mgmt_DATA.
       bindc (wrn (rf_data (m_rf s)) 24 mgmt_DATA) (\<lambda>dat.
       let s = s\<lparr>m_rf := (m_rf s)\<lparr>rf_data := dat\<rparr>,
                 m_attr := (m_attr s)\<lparr>rx_pkt_len := nat ((int (rx_pkt_len (m_attr s)) - 8 - 8) mod 2 ^ 16)\<rparr>\<rparr> in
       Inr (if returned then SUCCESS else FAIL, s))))))"

definition validate_mgmt_protect ::
  "(nat \<Rightarrow> bool) \<Rightarrow> u8 list \<Rightarrow> bool \<Rightarrow> mfp_sta option \<Rightarrow> mgmt_rx \<Rightarrow> (nat \<times> mgmt_rx) cres" where
  "validate_mgmt_protect alloc junk is_mesh psta s =
     (if \<not> binstallBIPkey (m_sec s) then Inr (SUCCESS, s)
      else
        bindc (rdn (rf_data (m_rf s)) 0 2) (\<lambda>fc.
        bindc (rdn (rf_data (m_rf s)) 4 6) (\<lambda>a1.
        if \<not> rx_privacy (m_attr s)
        then mgmt_unprotected alloc junk is_mesh psta (get_frame_sub_type fc) (IS_MCAST a1) s
        else mgmt_decrypt alloc is_mesh psta s)))"

section \<open>Transmission\<close>

record mgmt_tx_attrib = pkt_attrib +
  pktlen :: nat
  key_type :: nat
  bswenc :: bool
  tx_iv :: "u8 list"
  tx_icv :: "u8 list"

text \<open>The state that is passed through: key store, attributes, the buffer of the frame with its
  descriptor, and the station of the attributes or of the table.\<close>

record mgmt_tx =
  t_sec :: security_priv
  t_attr :: mgmt_tx_attrib
  t_mem :: "u8 list"
  t_sta :: "mfp_sta option"

text \<open>The CCMP header and the next packet number, which wraps at 48 bits.\<close>

definition AES_IV :: "u64 \<Rightarrow> nat \<Rightarrow> u8 list \<times> u64" where
  "AES_IV pn keyidx =
     (let pn = (if pn = 0xffffffffffff then 0 else pn + 1); tsc = put_le64 pn in
      ([tsc ! 0, tsc ! 1, 0, 0x20 OR push_bit 6 (of_nat keyidx AND 0x3), tsc ! 2, tsc ! 3, tsc ! 4, tsc ! 5], pn))"

text \<open>\<open>SetPrivacy\<close>: the protected bit of the frame control field at \<open>p\<close>.\<close>

definition SetPrivacy :: "u8 list \<Rightarrow> nat \<Rightarrow> u8 list cres" where
  "SetPrivacy mem p =
     bindc (rdn mem p 2) (\<lambda>fc. wrn mem p (put_le16 (get_le16 (fc ! 0) (fc ! 1) OR 0x4000)))"

text \<open>The ciphers return a result that the caller drops.\<close>

definition xmitframe_swencrypt :: "nat \<Rightarrow> nat option \<Rightarrow> mgmt_tx \<Rightarrow> mgmt_tx cres" where
  "xmitframe_swencrypt frag_len buf_addr s =
     (let at = pkt_attrib.truncate (t_attr s); put = (\<lambda>mem sec. s\<lparr>t_mem := mem, t_sec := sec\<rparr>) in
      if \<not> bswenc (t_attr s) then Inr s
      else if encrypt at = WEP40 \<or> encrypt at = WEP104 then
        bindc (rtw_wep_encrypt (t_sec s) at frag_len buf_addr (t_mem s)) (\<lambda>(mem, sec). Inr (put mem sec))
      else if encrypt at = TKIP then
        bindc (rtw_tkip_encrypt (t_sec s) at frag_len buf_addr (t_mem s)) (\<lambda>(res, mem, sec). Inr (put mem sec))
      else if encrypt at = AES then
        bindc (rtw_aes_encrypt (t_sec s) at frag_len buf_addr (t_mem s)) (\<lambda>(res, mem, sec). Inr (put mem sec))
      else Inr s)"

text \<open>The MIC element behind the frame at \<open>p\<close>: first with a zero MIC, over which the code is
  computed, then with its first eight bytes.\<close>

definition bip_protect :: "(nat \<Rightarrow> bool) \<Rightarrow> u8 list \<Rightarrow> nat \<Rightarrow> u8 list \<Rightarrow> mgmt_tx \<Rightarrow> (nat \<times> mgmt_tx) cres" where
  "bip_protect alloc junk p BIP_AAD s =
     (let keyid = dot11wBIPKeyid (t_sec s);
          pn = dot11wBIPtxpn (t_sec s) + 1;
          s = s\<lparr>t_sec := (t_sec s)\<lparr>dot11wBIPtxpn := pn\<rparr>\<rparr>;
          MME = [of_nat keyid, 0] @ put_le64 pn @ replicate 8 0 in
      bindc (rtw_set_ie (t_mem s) (p + pktlen (t_attr s)) MME_IE 16 MME (Some (pktlen (t_attr s)))) (\<lambda>(mem, pframe, len).
      let len = the len;
          s = s\<lparr>t_mem := mem, t_attr := (t_attr s)\<lparr>pktlen := len, last_txcmdsz := len\<rparr>\<rparr>;
          frame_body_len = usub32 len 24 in
      bindc (bip_aad BIP_AAD mem p) (\<lambda>aad.
      bindc (rdn mem (p + 24) frame_body_len) (\<lambda>body.
      bindc (wrn aad BIP_AAD_SIZE body) (\<lambda>aad.
      bindc (nth_chk (dot11wBIPKey (t_sec s)) keyid) (\<lambda>key.
      bindc (rdn aad 0 (BIP_AAD_SIZE + frame_body_len)) (\<lambda>data.
      bindc (omac1_aes_128 key data junk (alloc AES_PRIV_SIZE)) (\<lambda>r.
      case r of None \<Rightarrow> Inr (FAIL, s)
      | Some mic \<Rightarrow>
        bindc (wrn mem (pframe - 8) (take 8 mic)) (\<lambda>mem.
        Inr (SUCCESS, s\<lparr>t_mem := mem\<rparr>))))))))))"

text \<open>CCMP with packet number and key id of the station: the CCMP header is inserted behind the
  header, the frame is marked protected and encrypted.\<close>

definition ccmp_protect :: "nat \<Rightarrow> nat option \<Rightarrow> nat \<Rightarrow> mfp_sta \<Rightarrow> nat \<Rightarrow> mgmt_tx \<Rightarrow> (nat \<times> mgmt_tx) cres" where
  "ccmp_protect frag_len buf_addr p sta kid s =
     bindc (rdn (t_mem s) p (pktlen (t_attr s))) (\<lambda>tmp_buf.
     let at = (if key_type (t_attr s) \<noteq> IEEE80211W_NO_KEY
               then (t_attr s)\<lparr>encrypt := AES, bswenc := True\<rparr> else t_attr s);
         at = at\<lparr>iv_len := 8, icv_len := 8\<rparr> in
     if encrypt at \<noteq> AES then Inr (FAIL, s\<lparr>t_attr := at\<rparr>)
     else
       let (iv, pn) = AES_IV (sta_txpn sta) kid;
           at = at\<lparr>tx_iv := iv\<rparr>;
           pframe = p + hdrlen at;
           body_len = usub32 (pktlen at) (hdrlen at) in
       bindc (wrn (t_mem s) pframe iv) (\<lambda>mem.
       bindc (rdn tmp_buf (hdrlen at) body_len) (\<lambda>body.
       bindc (wrn mem (pframe + 8) body) (\<lambda>mem.
       bindc (if bswenc at then bindc (rdn (tx_icv at) 0 8) (wrn mem (pframe + 8 + body_len)) else Inr mem) (\<lambda>mem.
       let len = (pktlen at + 8 + 8) mod 2 ^ 32;
           at = at\<lparr>pktlen := len, last_txcmdsz := len\<rparr> in
       bindc (SetPrivacy mem p) (\<lambda>mem.
       bindc (xmitframe_swencrypt frag_len buf_addr
           (s\<lparr>t_attr := at, t_mem := mem, t_sta := Some (sta\<lparr>sta_txpn := pn\<rparr>)\<rparr>)) (\<lambda>s.
       Inr (SUCCESS, s))))))))"

text \<open>The frame lies behind the descriptor. Frames that need no protection pass unchanged.\<close>

definition rtw_mgmt_xmitframe_coalesce ::
  "(nat \<Rightarrow> bool) \<Rightarrow> u8 list \<Rightarrow> nat \<Rightarrow> nat option \<Rightarrow> mgmt_tx \<Rightarrow> (nat \<times> mgmt_tx) cres" where
  "rtw_mgmt_xmitframe_coalesce alloc junk frag_len buf_addr s =
     (if buf_addr = None then Inr (FAIL, s)
      else
        bindc (rdn (t_mem s) TXDESC_OFFSET 2) (\<lambda>fc.
        let subtype = get_frame_sub_type fc; bmcst = IS_MCAST (ra (t_attr s)); p = TXDESC_OFFSET in
        if subtype \<noteq> WIFI_DEAUTH \<and> subtype \<noteq> WIFI_DISASSOC \<and> subtype \<noteq> WIFI_ACTION then Inr (SUCCESS, s)
        else
          bindc (if subtype = WIFI_ACTION then rd (t_mem s) (p + 24) else Inr 0xff) (\<lambda>category.
          if subtype = WIFI_ACTION \<and> CATEGORY_IS_NON_ROBUST category then Inr (SUCCESS, s)
          else if \<not> bmcst \<and> t_sta s = None then Inr (FAIL, s)
          else if \<not> bmcst \<and> \<not> sta_mfp (the (t_sta s)) then Inr (SUCCESS, s)
          else if \<not> bmcst \<and> \<not> bpairwise_key_installed (the (t_sta s)) then Inr (FAIL, s)
          else
            let ori_len = (BIP_AAD_SIZE + pktlen (t_attr s)) mod 2 ^ 32 in
            if \<not> alloc ori_len then Inr (FAIL, s)
            else if bmcst then
              if subtype = WIFI_ACTION \<and> CATEGORY_IS_GROUP_PRIVACY category then
                case t_sta s of None \<Rightarrow> Inr (FAIL, s)
                | Some sta \<Rightarrow>
                  if \<not> binstallGrpkey (t_sec s) then Inr (FAIL, s)
                  else ccmp_protect frag_len buf_addr p sta (dot118021XGrpKeyid (t_sec s)) s
              else if \<not> binstallBIPkey (t_sec s) then Inr (SUCCESS, s)
              else bip_protect alloc junk p (replicate ori_len 0) s
            else
              let sta = the (t_sta s); key = take 16 (sta_uncst sta);
                  key = (if key_type (t_attr s) = IEEE80211W_WRONG_KEY then key[0 := 0xff] else key) in
              ccmp_protect frag_len buf_addr p sta 0 (s\<lparr>t_attr := (t_attr s)\<lparr>dot118021x_UncstKey := key\<rparr>\<rparr>))))"

section \<open>The MIC of a frame\<close>

text \<open>IEEE 802.11, 12.5.4: the first eight bytes of the CMAC over the masked frame control field, the
  three addresses and the body, where the MIC, the last eight bytes of the body, counts as zero.\<close>

definition bip_mic :: "u8 list \<Rightarrow> u8 list \<Rightarrow> u8 list" where
  "bip_mic key f =
     take 8 (cmac (aes128k128d key)
       ([f ! 0, f ! 1 AND 0xc7] @ chunk f 4 18 @ chunk f 24 (length f - 32) @ replicate 8 0))"

definition mme_keyid :: "u8 list \<Rightarrow> u16" where
  "mme_keyid f = get_le16 (f ! (length f - 16)) (f ! (length f - 15))"

definition mme_pn :: "u8 list \<Rightarrow> u64" where
  "mme_pn f = get_le48 (chunk f (length f - 14) 6)"

lemma bip_fc_length [simp]: "length (bip_fc fc) = 2"
  by (simp add: bip_fc_def)

text \<open>The driver clears the bits retry, power management and more data one by one.\<close>

lemma le16_masked: "put_le16 (get_le16 a b AND m) = [a AND ucast m, b AND ucast (drop_bit 8 m)]"
proof -
  have ff: "(0xff :: u16) = mask 8" by (simp add: mask_eq_exp_minus_1)
  have n: "\<not> bit x n" if "8 \<le> n" for x :: u8 and n using that by (simp add: impossible_bit)
  have "ucast ((get_le16 a b AND m) AND 0xff) = a AND ucast m" "ucast (drop_bit 8 (get_le16 a b AND m)) = b AND ucast (drop_bit 8 m)"
    unfolding ff by (rule bit_word_eqI; simp add: get_le16_def bit_simps n; blast?)+
  then show ?thesis unfolding put_le16_def by (simp only:)
qed

lemma bip_fc_masks: "bip_fc fc = [fc ! 0, fc ! 1 AND 0xc7]"
proof -
  have m: "NOT 0x0800 AND NOT 0x1000 AND NOT 0x2000 = (0xc7ff :: u16)" by simp
  have "bip_fc fc = put_le16 (get_le16 (fc ! 0) (fc ! 1) AND (NOT 0x0800 AND NOT 0x1000 AND NOT 0x2000))"
    by (simp only: bip_fc_def and.assoc)
  moreover have "(0xc7ff :: u8) = NOT 0" by simp
  ultimately show ?thesis unfolding m le16_masked by simp
qed

lemma bip_mic_eq:
  assumes "2 \<le> length f"
  shows "bip_mic key f = take 8 (cmac (aes128k128d key)
    (bip_fc (chunk f 0 2) @ chunk f 4 18 @ chunk f 24 (length f - 32) @ replicate 8 0))"
  using assms by (simp add: bip_mic_def bip_fc_masks nth_take)

lemma bip_aad_written:
  assumes "20 \<le> length aad" and "p + 24 \<le> length mem"
  shows "bip_aad aad mem p = Inr (bip_fc (chunk mem p 2) @ chunk mem (p + 4) 18 @ drop 20 aad)"
proof -
  have fc: "rdn mem p 2 = Inr (chunk mem p 2)" and addr: "rdn mem (p + 4) 18 = Inr (chunk mem (p + 4) 18)"
    using assms(2) by (simp_all add: rdn_ok)
  have len: "length (chunk mem (p + 4) 18) = 18" using assms(2) by simp
  have w: "wrn aad 0 (bip_fc x) = Inr (bip_fc x @ drop 2 aad)" for x
    using assms(1) by (simp add: wrn_def numeral_2_eq_2)
  have "wrn (bip_fc x @ drop 2 aad) 2 ys = Inr (bip_fc x @ ys @ drop 20 aad)" if "length ys = 18" for x ys
    using assms(1) that by (simp add: wrn_def)
  from this [OF len] show ?thesis unfolding bip_aad_def fc addr by (simp only: bindc_Inr w)
qed

lemma omac1_cmac:
  assumes "dat \<noteq> []" and "length key = 16"
  shows "omac1_aes_128 key dat junk ok = Inr (if ok then Some (cmac (aes128k128d key) dat) else None)"
  using omac1_vector_cmac [of "[dat]" key junk ok] assms by (simp add: vec_ok_def omac1_aes_128_def)

lemma cmac_blocks_length: "(\<And>b. length (E b) = 16) \<Longrightarrow> length (cmac_blocks E k1 k2 x m) = 16"
  by (induction E k1 k2 x m rule: cmac_blocks.induct) (subst cmac_blocks.simps, simp)

lemma bip_mic_length [simp]: "length (bip_mic key f) = 8"
  by (simp add: bip_mic_def cmac_def Let_def cmac_blocks_length)

lemma take_mic: "(mic :: u8 list) = take 8 c \<Longrightarrow> take 8 c = x \<longleftrightarrow> mic = x"
  by simp

lemma wrn_middle: "length c = length d \<Longrightarrow> q = length a + length b \<Longrightarrow> wrn (a @ b @ c) q d = Inr (a @ b @ d)"
  by (simp add: wrn_def)

text \<open>A frame with room for header and MIC element: the verification reads within the frame and
  decides as the standard says.\<close>

lemma rtw_BIP_verify_run:
  assumes "42 \<le> length f" and "length f < 2 ^ 31" and "length key = 16"
  shows "rtw_BIP_verify alloc junk f (int (length f)) key keyid ipn =
    Inr (if f ! (length f - 18) \<noteq> 76 then (RTW_RX_HANDLED, ipn)
         else if mme_keyid f \<noteq> keyid \<or> mme_pn f \<le> ipn \<or> \<not> alloc (length f - 4) \<or> \<not> alloc AES_PRIV_SIZE \<or>
           bip_mic key f \<noteq> drop (length f - 8) f then (FAIL, ipn)
         else (SUCCESS, mme_pn f))"
proof -
  let ?n = "length f" and ?aad = "replicate (length f - 4) 0 :: u8 list"
  let ?data = "bip_fc (chunk f 0 2) @ chunk f 4 18 @ chunk f 24 (?n - 32) @ replicate 8 0"
  have n: "nat (int ?n - 18) = ?n - 18" "nat (int ?n - 8) = ?n - 8" "(int ?n < 18) = False"
    "nat ((int ?n - 24 + int BIP_AAD_SIZE) mod 2 ^ 32) = ?n - 4" "nat ((int ?n - 24) mod 2 ^ 64) = ?n - 24"
    using assms(1,2) by (simp_all add: BIP_AAD_SIZE_def)
  have r1: "rd f (?n - 18) = Inr (f ! (?n - 18))" using assms(1) by (simp add: rd_ok)
  have i: "?n - 18 + 2 = ?n - 16" "?n - 18 + 4 = ?n - 14" using assms(1) by simp_all
  have r2: "rdn f (?n - 18 + 2) 2 = Inr (chunk f (?n - 16) 2)" "rdn f (?n - 18 + 4) 6 = Inr (chunk f (?n - 14) 6)"
    using assms(1) unfolding i by (simp_all only: rdn_ok)
  have r4: "rdn f 24 (?n - 24) = Inr (drop 24 f)" using assms(1) by (simp add: rdn_ok)
  have r5: "rdn f (?n - 8) 8 = Inr (drop (?n - 8) f)" using assms(1) by (simp add: rdn_ok)
  have k: "get_le16 (chunk f (?n - 16) 2 ! 0) (chunk f (?n - 16) 2 ! 1) = mme_keyid f"
    using assms(1) Suc_diff_Suc [of 15 ?n] by (simp add: mme_keyid_def)
  have w1: "wrn ?aad BIP_AAD_SIZE (drop 24 f) = Inr (replicate 20 0 @ drop 24 f)"
    using assms(1) by (simp add: wrn_def BIP_AAD_SIZE_def)
  have split: "drop 24 f = chunk f 24 (?n - 32) @ drop (?n - 8) f"
    using assms(1) append_take_drop_id [of "?n - 32" "drop 24 f"] by simp
  have len: "length (chunk f 24 (?n - 32)) = ?n - 32" using assms(1) by simp
  have w2: "wrn (replicate 20 0 @ drop 24 f) (?n - 4 - 18 + 10) (replicate 8 0) =
      Inr (replicate 20 0 @ chunk f 24 (?n - 32) @ replicate 8 0)"
    by (subst split, rule wrn_middle) (use assms(1) len in simp_all)
  have aad: "bip_aad (replicate 20 0 @ chunk f 24 (?n - 32) @ replicate 8 0) f 0 = Inr ?data"
    using assms(1) by (subst bip_aad_written) simp_all
  have "?data \<noteq> []" by simp
  note mac = omac1_cmac [OF this assms(3)]
  have mic: "take 8 (cmac (aes128k128d key) ?data) = bip_mic key f" using assms(1) by (simp add: bip_mic_eq)
  show ?thesis
    unfolding rtw_BIP_verify_def Let_def n if_False r1 r2 r4 r5 bindc_Inr k w1 w2 aad mac mme_pn_def [symmetric] MME_IE_def
    using mic by simp
qed

text \<open>Whatever the frame, only success raises the packet number, and to that of the frame.\<close>

lemma rtw_BIP_verify_pn:
  "res_all (\<lambda>(r, ipn'). if r = SUCCESS then ipn < ipn' \<and> ipn' = get_le48 (chunk f (nat flen - 14) 6)
       else ipn' = ipn \<and> (r = FAIL \<or> r = RTW_RX_HANDLED))
     (rtw_BIP_verify alloc junk f flen key keyid ipn)"
  unfolding rtw_BIP_verify_def Let_def
proof (intro res_intros; (simp add: SUCCESS_def FAIL_def RTW_RX_HANDLED_def; fail)?)
  fix eid k pn body aad mic theirs
  assume "\<not> flen < 18" "rdn f (nat (flen - 18) + 4) 6 = Inr pn" "\<not> get_le48 pn \<le> ipn"
  moreover from this(1) have "nat (flen - 18) + 4 = nat flen - 14" by simp
  ultimately show "case if take 8 mic = theirs then (SUCCESS, get_le48 pn) else (FAIL, ipn) of
      (r, ipn') \<Rightarrow> if r = SUCCESS then ipn < ipn' \<and> ipn' = get_le48 (chunk f (nat flen - 14) 6)
        else ipn' = ipn \<and> (r = FAIL \<or> r = RTW_RX_HANDLED)"
    by (simp add: rdn_eq_Inr SUCCESS_def FAIL_def not_le)
qed

section \<open>Replay\<close>

text \<open>Which received frames must carry a valid MIC element.\<close>

definition needs_bip :: "mfp_sta option \<Rightarrow> mgmt_rx \<Rightarrow> bool" where
  "needs_bip psta s \<longleftrightarrow> (case psta of None \<Rightarrow> False
     | Some sta \<Rightarrow> binstallBIPkey (m_sec s) \<and> \<not> rx_privacy (m_attr s) \<and> sta_mfp sta \<and>
         IS_MCAST (drop 4 (rf_data (m_rf s))) \<and>
         (let subtype = get_frame_sub_type (rf_data (m_rf s)); category = rf_data (m_rf s) ! 24 in
          subtype = WIFI_DEAUTH \<or> subtype = WIFI_DISASSOC \<or>
          subtype = WIFI_ACTION \<and> \<not> CATEGORY_IS_GROUP_PRIVACY category \<and> \<not> CATEGORY_IS_NON_ROBUST category))"

abbreviation pn_kept :: "mgmt_rx \<Rightarrow> nat \<times> mgmt_rx \<Rightarrow> bool" where
  "pn_kept s \<equiv> \<lambda>(_, s'). dot11wBIPrxpn (m_sec s') = dot11wBIPrxpn (m_sec s)"

lemma rtw_aes_decrypt_pn:
  "res_all (\<lambda>(_, _, _, sec'). dot11wBIPrxpn sec' = dot11wBIPrxpn sec) (rtw_aes_decrypt sec at is_mesh sta mem msg)"
  unfolding rtw_aes_decrypt_def Let_def by (intro res_intros; simp)

lemma rtw_tkip_decrypt_pn:
  "res_all (\<lambda>(_, _, sec'). dot11wBIPrxpn sec' = dot11wBIPrxpn sec) (rtw_tkip_decrypt sec at sta mem)"
  unfolding rtw_tkip_decrypt_def Let_def by (intro res_intros; simp)

lemma rtw_wep_decrypt_pn:
  "res_all (\<lambda>(_, sec'). dot11wBIPrxpn sec' = dot11wBIPrxpn sec) (rtw_wep_decrypt sec at mem)"
  unfolding rtw_wep_decrypt_def Let_def by (intro res_intros; simp)

lemma sw_decrypt_pn: "res_all (pn_kept s) (sw_decrypt is_mesh psta s)"
  unfolding sw_decrypt_def Let_def
  by (intro res_intros)
    (auto dest: res_allD [OF rtw_wep_decrypt_pn] res_allD [OF rtw_tkip_decrypt_pn] res_allD [OF rtw_aes_decrypt_pn])

lemma decryptor_pn: "res_all (\<lambda>(_, s'). dot11wBIPrxpn (m_sec s') = dot11wBIPrxpn (m_sec s)) (decryptor is_mesh psta s)"
  unfolding decryptor_def Let_def
  by (intro res_intros)
    (auto split: if_splits dest!: res_allD [OF sw_decrypt_pn])

lemma mgmt_decrypt_pn: "res_all (pn_kept s) (mgmt_decrypt alloc is_mesh psta s)"
  unfolding mgmt_decrypt_def Let_def
  by (intro res_intros) (auto dest!: res_allD [OF decryptor_pn])

lemma bip_verify_pn:
  "rx_len (m_attr s) = length (rf_data (m_rf s)) \<Longrightarrow>
   res_all (\<lambda>(r, s'). if r = SUCCESS
       then dot11wBIPrxpn (m_sec s) < dot11wBIPrxpn (m_sec s') \<and> dot11wBIPrxpn (m_sec s') = mme_pn (rf_data (m_rf s))
       else dot11wBIPrxpn (m_sec s') = dot11wBIPrxpn (m_sec s)) (bip_verify alloc junk s)"
  unfolding bip_verify_def
  by (intro res_intros)
    (auto simp: mme_pn_def SUCCESS_def FAIL_def RTW_RX_HANDLED_def split: if_splits dest!: res_allD [OF rtw_BIP_verify_pn])

lemma IS_MCAST_chunk: "p + 6 \<le> length mem \<Longrightarrow> IS_MCAST (chunk mem p 6) = IS_MCAST (drop p mem)"
  by (simp add: IS_MCAST_def)

lemma sub_type_take: "get_frame_sub_type (take 2 mem) = get_frame_sub_type mem"
  by (simp add: get_frame_sub_type_def)

lemma mgmt_unprotected_bip:
  assumes "needs_bip psta s" and "24 < length (rf_data (m_rf s)) \<or> get_frame_sub_type (rf_data (m_rf s)) \<noteq> WIFI_ACTION"
  shows "mgmt_unprotected alloc junk is_mesh psta (get_frame_sub_type (rf_data (m_rf s))) True s = bip_verify alloc junk s"
  using assms by (auto simp: needs_bip_def mgmt_unprotected_def Let_def rd_ok WIFI_ACTION_def WIFI_DEAUTH_def WIFI_DISASSOC_def
      split: option.splits)

lemma mgmt_unprotected_free:
  assumes "\<not> needs_bip psta s" and "binstallBIPkey (m_sec s)" and "\<not> rx_privacy (m_attr s)"
  shows "res_all (pn_kept s) (mgmt_unprotected alloc junk is_mesh psta (get_frame_sub_type (rf_data (m_rf s)))
     (IS_MCAST (drop 4 (rf_data (m_rf s)))) s)"
  unfolding mgmt_unprotected_def Let_def
  by (intro res_intros) (use assms in \<open>auto simp: needs_bip_def Let_def rd_eq_Inr\<close>)

text \<open>One received management frame.\<close>

lemma validate_mgmt_protect_pn:
  assumes "rx_len (m_attr s) = length (rf_data (m_rf s))"
  shows "res_all (\<lambda>(r, s'). if needs_bip psta s \<and> r = SUCCESS
       then dot11wBIPrxpn (m_sec s) < dot11wBIPrxpn (m_sec s') \<and> dot11wBIPrxpn (m_sec s') = mme_pn (rf_data (m_rf s))
       else dot11wBIPrxpn (m_sec s') = dot11wBIPrxpn (m_sec s)) (validate_mgmt_protect alloc junk is_mesh psta s)"
  unfolding validate_mgmt_protect_def
proof (intro res_intros)
  fix fc a1
  assume installed: "\<not> \<not> binstallBIPkey (m_sec s)"
    and fc: "rdn (rf_data (m_rf s)) 0 2 = Inr fc" and a1: "rdn (rf_data (m_rf s)) 4 6 = Inr a1"
  have sub: "get_frame_sub_type fc = get_frame_sub_type (rf_data (m_rf s))"
    and mc: "IS_MCAST a1 = IS_MCAST (drop 4 (rf_data (m_rf s)))"
    using fc a1 by (auto simp: rdn_eq_Inr sub_type_take IS_MCAST_chunk)
  let ?m = "mgmt_unprotected alloc junk is_mesh psta (get_frame_sub_type fc) (IS_MCAST a1) s"
  let ?P = "\<lambda>(r, s'). if needs_bip psta s \<and> r = SUCCESS
       then dot11wBIPrxpn (m_sec s) < dot11wBIPrxpn (m_sec s') \<and> dot11wBIPrxpn (m_sec s') = mme_pn (rf_data (m_rf s))
       else dot11wBIPrxpn (m_sec s') = dot11wBIPrxpn (m_sec s)"
  show "res_all ?P ?m" if privacy: "\<not> rx_privacy (m_attr s)"
  proof (cases "needs_bip psta s")
    case False
    then show ?thesis
      using mgmt_unprotected_free [OF False _ privacy, of alloc junk is_mesh] installed by (simp add: sub mc)
  next
    case True
    have bmc: "IS_MCAST a1" using True by (simp add: mc needs_bip_def split: option.splits)
    show ?thesis
    proof (cases "24 < length (rf_data (m_rf s)) \<or> get_frame_sub_type (rf_data (m_rf s)) \<noteq> WIFI_ACTION")
      case ok: True
      have "?m = bip_verify alloc junk s" using mgmt_unprotected_bip [OF True ok] bmc by (simp add: sub)
      then show ?thesis using bip_verify_pn [OF assms, of alloc junk] True by simp
    next
      case False
      obtain sta where "psta = Some sta" "sta_mfp sta" using True by (auto simp: needs_bip_def split: option.splits)
      then have "?m = Inl OutOfBounds" using False by (simp add: sub mgmt_unprotected_def rd_def)
      then show ?thesis by (simp add: res_intros)
    qed
  qed
  show "res_all ?P (mgmt_decrypt alloc is_mesh psta s)" if "\<not> \<not> rx_privacy (m_attr s)"
  proof -
    have "\<not> needs_bip psta s" using that by (simp add: needs_bip_def split: option.splits)
    then show ?thesis using mgmt_decrypt_pn [of s alloc is_mesh psta] by simp
  qed
qed (simp add: needs_bip_def split: option.splits)

text \<open>A receiver that starts with the keys \<open>sec\<close> and takes management frames in any order and from
  anyone; \<open>pns\<close> are the packet numbers of the accepted frames that needed a MIC, the last one first.\<close>

inductive mgmt_stream :: "security_priv \<Rightarrow> u64 list \<Rightarrow> security_priv \<Rightarrow> bool" for sec where
  start: "mgmt_stream sec [] sec"
| frame: "mgmt_stream sec pns (m_sec s) \<Longrightarrow> rx_len (m_attr s) = length (rf_data (m_rf s)) \<Longrightarrow>
    validate_mgmt_protect alloc junk is_mesh psta s = Inr (r, s') \<Longrightarrow>
    mgmt_stream sec (if needs_bip psta s \<and> r = SUCCESS then mme_pn (rf_data (m_rf s)) # pns else pns) (m_sec s')"

inductive_cases mgmt_stream_ConsE: "mgmt_stream sec (pn # pns) sec'"

lemma mgmt_stream_increasing:
  "mgmt_stream sec pns sec' \<Longrightarrow>
   sorted_wrt (>) pns \<and> (\<forall>pn \<in> set pns. dot11wBIPrxpn sec < pn \<and> pn \<le> dot11wBIPrxpn sec') \<and>
   dot11wBIPrxpn sec \<le> dot11wBIPrxpn sec'"
proof (induction rule: mgmt_stream.induct)
  case (frame pns s alloc junk is_mesh psta r s')
  note step = res_allD [OF validate_mgmt_protect_pn [OF frame.hyps(2)] frame.hyps(3), unfolded prod.case]
  show ?case
  proof (cases "needs_bip psta s \<and> r = SUCCESS")
    case True
    with step have "dot11wBIPrxpn (m_sec s) < dot11wBIPrxpn (m_sec s')" "dot11wBIPrxpn (m_sec s') = mme_pn (rf_data (m_rf s))"
      by auto
    then show ?thesis using frame.IH True by force
  next
    case False
    have "dot11wBIPrxpn (m_sec s') = dot11wBIPrxpn (m_sec s)" using step unfolding if_not_P [OF False] .
    then show ?thesis unfolding if_not_P [OF False] using frame.IH by simp
  qed
qed simp

section \<open>From the sender to the receiver\<close>

lemma take_bit_48: "w < 2 ^ 48 \<Longrightarrow> take_bit 48 w = w" for w :: u64
  by (simp add: word_less_nat_alt take_bit_nat_eq_self unsigned_take_bit_eq word_unat_eq_iff)

lemma put_le64_48:
  assumes "w < 2 ^ 48"
  shows "put_le64 w = take 6 (put_le64 w) @ [0, 0]"
proof -
  have "drop_bit 48 (take_bit 48 w) = 0" "drop_bit 56 (take_bit 48 w) = 0" by (simp_all add: drop_bit_take_bit)
  then show ?thesis by (simp add: put_le64_def take_bit_48 [OF assms])
qed

lemma byte_or: "push_bit n (ucast (ucast (drop_bit n w) :: u8)) OR take_bit n w = take_bit (n + 8) w" for w :: u64
  by (rule bit_word_eqI) (auto simp: bit_simps)

lemma get_put_le48:
  assumes "w < 2 ^ 48"
  shows "get_le48 (take 6 (put_le64 w)) = w"
proof -
  have "ucast (ucast w :: u8) = take_bit 8 w" using byte_or [of 0 w] by simp
  then have "get_le48 (take 6 (put_le64 w)) = take_bit 48 w"
    unfolding get_le48_def put_le64_def
    using byte_or [of 8 w] byte_or [of 16 w] byte_or [of 24 w] byte_or [of 32 w] byte_or [of 40 w]
    by (simp add: or.assoc)
  then show ?thesis by (simp add: take_bit_48 [OF assms])
qed

lemma wrn_append: "length d \<le> length c \<Longrightarrow> q = length a \<Longrightarrow> wrn (a @ c) q d = Inr (a @ d @ drop (length d) c)"
  by (simp add: wrn_def)

lemma rdn_prefix: "rdn (a @ x) 0 (length a) = Inr a"
  by (simp add: rdn_def)

lemma bip_protect_run:
  assumes B: "24 \<le> length B" "length B < 2 ^ 31 - 18" and room: "length room = 18"
    and mem: "t_mem s = pre @ B @ room @ post" and len: "pktlen (t_attr s) = length B"
    and aad: "length aad = length B + 20" and alloc: "alloc AES_PRIV_SIZE"
    and key: "dot11wBIPKeyid (t_sec s) < length (dot11wBIPKey (t_sec s))"
      "key = dot11wBIPKey (t_sec s) ! dot11wBIPKeyid (t_sec s)" "length key = 16"
    and pn: "pn = dot11wBIPtxpn (t_sec s) + 1" "pn < 2 ^ 48"
    and f: "f = B @ [76, 16, of_nat (dot11wBIPKeyid (t_sec s)), 0] @ take 6 (put_le64 pn)"
  shows "bip_protect alloc junk (length pre) aad s = Inr (SUCCESS,
    s\<lparr>t_sec := (t_sec s)\<lparr>dot11wBIPtxpn := pn\<rparr>,
      t_attr := (t_attr s)\<lparr>pktlen := length B + 18, last_txcmdsz := length B + 18\<rparr>,
      t_mem := pre @ f @ bip_mic key (f @ replicate 8 0) @ post\<rparr>)"
proof -
  let ?kid = "dot11wBIPKeyid (t_sec s)" and ?p = "length pre"
  let ?MME = "[of_nat ?kid, 0] @ put_le64 pn @ replicate 8 0" and ?d = "[of_nat ?kid, 0] @ take 6 (put_le64 pn) @ replicate 8 0"
  let ?mem = "pre @ f @ replicate 8 0 @ post" and ?data = "bip_fc (take 2 B) @ chunk B 4 18 @ drop 24 f @ replicate 8 0"
  have pn6: "length (take 6 (put_le64 pn)) = 6" by (simp add: put_le64_def)
  have flen: "length f = length B + 10" using pn6 by (simp add: f del: length_take)
  have d: "length ?d = 16" using pn6 by (simp del: length_take)
  have "rdn ?MME 0 16 = Inr ?d"
    by (subst put_le64_48 [OF pn(2)]) (simp add: rdn_def put_le64_def numeral_eq_Suc)
  then have "rdn ?MME 0 (length ?d) = Inr ?d" unfolding d .
  moreover have "?p + length B + length ?d + 2 \<le> length (t_mem s)" using d room by (simp add: mem)
  ultimately have "rtw_set_ie (t_mem s) (?p + length B) 76 (length ?d) ?MME (Some (length B)) =
      Inr (written (t_mem s) (?p + length B) (enc_ie (of_nat 76, ?d)), ?p + length B + length ?d + 2,
        map_option (\<lambda>f. (f + (length ?d + 2)) mod 2 ^ 32) (Some (length B)))"
    by (intro rtw_set_ie_written)
  moreover have "written (t_mem s) (?p + length B) (enc_ie (of_nat 76, ?d)) = ?mem"
    using room d by (simp add: mem f written_def)
  ultimately have ie: "rtw_set_ie (t_mem s) (?p + length B) 76 16 ?MME (Some (length B)) =
      Inr (?mem, ?p + length B + 18, Some (length B + 18))"
    using B(2) unfolding d by simp
  have body: "rdn ?mem (?p + 24) (length B - 6) = Inr (drop 24 f @ replicate 8 0)"
    using B flen by (simp add: rdn_def)
  have aadw: "bip_aad aad ?mem ?p = Inr ((bip_fc (take 2 B) @ chunk B 4 18) @ drop 20 aad)"
    using B flen aad by (subst bip_aad_written) (simp_all add: f)
  let ?head = "bip_fc (take 2 B) @ chunk B 4 18" and ?body = "drop 24 f @ replicate 8 0"
  have head: "length ?head = 20" using B by simp
  have lbody: "length ?body = length B - 6" using flen B by simp
  have put: "wrn (?head @ drop 20 aad) BIP_AAD_SIZE ?body = Inr (?head @ ?body @ drop (length ?body) (drop 20 aad))"
  proof (rule wrn_append)
    show "length ?body \<le> length (drop 20 aad)" unfolding lbody length_drop aad by simp
    show "BIP_AAD_SIZE = length ?head" unfolding head BIP_AAD_SIZE_def ..
  qed
  have get: "rdn (?head @ ?body @ x) 0 (BIP_AAD_SIZE + (length B - 6)) = Inr ?data" for x
  proof -
    have "length (?head @ ?body) = BIP_AAD_SIZE + (length B - 6)" unfolding length_append [of ?head ?body] head lbody BIP_AAD_SIZE_def ..
    from rdn_prefix [of "?head @ ?body" x, unfolded this] show ?thesis by (simp only: append_assoc)
  qed
  have "?data \<noteq> []" by simp
  note mac = omac1_cmac [OF this key(3)]
  have mic: "take 8 (cmac (aes128k128d key) ?data) = bip_mic key (f @ replicate 8 0)"
    using flen B by (simp add: bip_mic_eq f)
  have fin: "wrn ?mem (?p + length B + 18 - 8) m = Inr (pre @ f @ m @ post)" if "length m = 8" for m
    using wrn_append [of m "replicate 8 0 @ post" "?p + length B + 18 - 8" "pre @ f"] flen that by simp
  have fin: "wrn ?mem (?p + length B + 18 - 8) (bip_mic key (f @ replicate 8 0)) =
      Inr (pre @ f @ bip_mic key (f @ replicate 8 0) @ post)"
    by (rule fin) simp
  have sub: "usub32 (length B + 18) 24 = length B - 6" using B by simp
  have k: "nth_chk (dot11wBIPKey (t_sec s)) ?kid = Inr key" using key(1,2) by (simp add: nth_chk_def)
  have upd: "dot11wBIPKey (x\<lparr>dot11wBIPtxpn := y\<rparr>) = dot11wBIPKey x" "t_attr (s\<lparr>t_sec := z\<rparr>) = t_attr s"
    "t_sec (s\<lparr>t_sec := z, t_attr := a, t_mem := b\<rparr>) = z" "t_sec (s\<lparr>t_sec := z, t_mem := b, t_attr := a\<rparr>) = z"
    "t_mem (s\<lparr>t_sec := z\<rparr>) = t_mem s"
    "s\<lparr>t_sec := z, t_mem := b, t_attr := a, t_mem := c\<rparr> = s\<lparr>t_sec := z, t_attr := a, t_mem := c\<rparr>" for x y z a b c by simp_all
  show ?thesis
    unfolding bip_protect_def Let_def len MME_IE_def
    by (simp only: upd pn(1) [symmetric] mgmt_tx.simps mgmt_tx_attrib.simps pkt_attrib.simps security_priv.simps len ie bindc_Inr
        prod.case option.sel aadw sub body put k get mac alloc if_True option.case mic fin)
qed

text \<open>The MIC itself does not count.\<close>

lemma bip_mic_ignores: "length m = 8 \<Longrightarrow> length m' = 8 \<Longrightarrow> 24 \<le> length f \<Longrightarrow> bip_mic key (f @ m) = bip_mic key (f @ m')"
  by (auto simp: bip_mic_def nth_append)

lemma bip_frame_accepted:
  assumes B: "24 \<le> length B" "length B < 2 ^ 31 - 18" and kid: "kid < 256" and key: "length key = 16"
    and pn: "pn < 2 ^ 48" and alloc: "\<And>n. alloc n"
    and f: "f = B @ [76, 16, of_nat kid, 0] @ take 6 (put_le64 pn)" and F: "F = f @ bip_mic key (f @ replicate 8 0)"
  shows "rtw_BIP_verify alloc junk F (int (length F)) key (of_nat kid) ipn =
    Inr (if ipn < pn then (SUCCESS, pn) else (FAIL, ipn))"
proof -
  have pn6: "length (take 6 (put_le64 pn)) = 6" by (simp add: put_le64_def)
  have flen: "length f = length B + 10" using pn6 by (simp add: f del: length_take)
  have Flen: "length F = length B + 18" using flen by (simp add: F)
  have i: "length F - 18 = length B" "length F - 16 = length B + 2" "length F - 15 = length B + 3"
    "length F - 14 = length B + 4" "length F - 8 = length f" "length F - 32 = length B - 14"
    using Flen flen by simp_all
  have "length F < 2 ^ 31" "42 \<le> length F" using B Flen by simp_all
  note run = rtw_BIP_verify_run [OF this(2,1) key, of alloc junk "of_nat kid" ipn]
  have eid: "F ! length B = 76" by (simp add: F f)
  have "get_le16 (of_nat kid) 0 = of_nat kid"
    using kid by (simp add: get_le16_def word_unat_eq_iff unsigned_ucast_eq take_bit_nat_eq_self unat_of_nat)
  then have k: "mme_keyid F = of_nat kid" unfolding mme_keyid_def i by (simp add: F f nth_append)
  have "chunk F (length B + 4) 6 = take 6 (put_le64 pn)" using pn6 by (simp add: F f)
  then have p: "mme_pn F = pn" unfolding mme_pn_def i using get_put_le48 [OF pn] by simp
  have "bip_mic key F = bip_mic key (f @ replicate 8 0)"
    unfolding F using B flen by (intro bip_mic_ignores) simp_all
  then have m: "bip_mic key F = drop (length f) F" by (simp add: F)
  show ?thesis
    unfolding run i eid k p m by (auto simp: alloc)
qed

lemma subtypes_distinct:
  "WIFI_DEAUTH \<noteq> WIFI_ACTION" "WIFI_ACTION \<noteq> WIFI_DEAUTH" "WIFI_DISASSOC \<noteq> WIFI_ACTION" "WIFI_ACTION \<noteq> WIFI_DISASSOC"
  "WIFI_DEAUTH \<noteq> WIFI_DISASSOC" "WIFI_DISASSOC \<noteq> WIFI_DEAUTH"
  by (simp_all add: WIFI_DEAUTH_def WIFI_DISASSOC_def WIFI_ACTION_def)

text \<open>Broadcast robust frames, by subtype and category.\<close>

definition robust_broadcast :: "u8 list \<Rightarrow> bool" where
  "robust_broadcast f \<longleftrightarrow> (let subtype = get_frame_sub_type f in
     subtype = WIFI_DEAUTH \<or> subtype = WIFI_DISASSOC \<or>
     subtype = WIFI_ACTION \<and> 24 < length f \<and> \<not> CATEGORY_IS_GROUP_PRIVACY (f ! 24) \<and> \<not> CATEGORY_IS_NON_ROBUST (f ! 24))"

lemma sub_type_append: "2 \<le> length xs \<Longrightarrow> get_frame_sub_type (xs @ ys) = get_frame_sub_type xs"
  by (cases xs; cases "tl xs") (simp_all add: get_frame_sub_type_def)

lemma robust_broadcast_append: "24 \<le> length xs \<Longrightarrow> robust_broadcast xs \<Longrightarrow> robust_broadcast (xs @ ys)"
  by (auto simp: robust_broadcast_def Let_def sub_type_append nth_append)

lemma IS_MCAST_append: "n < length xs \<Longrightarrow> IS_MCAST (drop n (xs @ ys)) = IS_MCAST (drop n xs)"
  by (simp add: IS_MCAST_def nth_append)

lemma coalesce_bip:
  assumes "t_mem s = desc @ B @ rest" and "length desc = TXDESC_OFFSET" and "24 \<le> length B" and "robust_broadcast B"
    and "IS_MCAST (ra (t_attr s))" and "binstallBIPkey (t_sec s)" and "pktlen (t_attr s) = length B" and "length B < 2 ^ 31 - 18"
    and "\<And>n. alloc n"
  shows "rtw_mgmt_xmitframe_coalesce alloc junk fl (Some base) s =
    bip_protect alloc junk (length desc) (replicate (length B + 20) 0) s"
proof -
  have fc: "rdn (t_mem s) TXDESC_OFFSET 2 = Inr (take 2 B)"
    using assms(1-3) by (simp add: rdn_def)
  have cat: "get_frame_sub_type B = WIFI_ACTION \<Longrightarrow> rd (t_mem s) (TXDESC_OFFSET + 24) = Inr (B ! 24)"
    using assms(1,2,4) by (simp add: robust_broadcast_def rd_def nth_append WIFI_ACTION_def WIFI_DEAUTH_def WIFI_DISASSOC_def Let_def)
  have len: "(BIP_AAD_SIZE + length B) mod 2 ^ 32 = length B + 20" using assms(8) by (simp add: BIP_AAD_SIZE_def)
  show ?thesis
    using assms(4-6,9) cat fc unfolding rtw_mgmt_xmitframe_coalesce_def Let_def robust_broadcast_def assms(7) len
    by (cases "get_frame_sub_type B = WIFI_ACTION") (auto simp: sub_type_take assms(2) subtypes_distinct)
qed

lemma validate_bip:
  assumes "binstallBIPkey (m_sec r)" and "\<not> rx_privacy (m_attr r)" and "sta_mfp sta"
    and "rf_data (m_rf r) = F" and "24 \<le> length F" and "robust_broadcast F" and "IS_MCAST (drop 4 F)"
  shows "validate_mgmt_protect alloc junk is_mesh (Some sta) r = bip_verify alloc junk r"
proof -
  have "needs_bip (Some sta) r"
    using assms by (auto simp: needs_bip_def robust_broadcast_def Let_def)
  note bip = mgmt_unprotected_bip [OF this, of alloc junk is_mesh]
  have "rdn F 0 2 = Inr (take 2 F)" "rdn F 4 6 = Inr (chunk F 4 6)" using assms(5) by (simp_all add: rdn_def)
  moreover have "IS_MCAST (chunk F 4 6)" using assms(5,7) by (simp add: IS_MCAST_chunk)
  ultimately show ?thesis
    using bip assms unfolding validate_mgmt_protect_def
    by (auto simp: sub_type_take robust_broadcast_def WIFI_ACTION_def WIFI_DEAUTH_def WIFI_DISASSOC_def Let_def)
qed

text \<open>What the receiver does to its state.\<close>

lemma bip_verify_result:
  assumes "rf_data (m_rf r) = F" and "rx_len (m_attr r) = length F"
    and "dot11wBIPKeyid (m_sec r) < length (dot11wBIPKey (m_sec r))"
    and "rtw_BIP_verify alloc junk F (int (length F)) (dot11wBIPKey (m_sec r) ! dot11wBIPKeyid (m_sec r))
      (of_nat (dot11wBIPKeyid (m_sec r))) (dot11wBIPrxpn (m_sec r)) =
      Inr (if dot11wBIPrxpn (m_sec r) < pn then (SUCCESS, pn) else (FAIL, dot11wBIPrxpn (m_sec r)))"
  shows "bip_verify alloc junk r =
    Inr (if dot11wBIPrxpn (m_sec r) < pn then (SUCCESS, r\<lparr>m_sec := (m_sec r)\<lparr>dot11wBIPrxpn := pn\<rparr>\<rparr>) else (FAIL, r))"
  using assms by (simp add: bip_verify_def nth_chk_def SUCCESS_def FAIL_def RTW_RX_HANDLED_def)

lemma bip_roundtrip:
  assumes B: "24 \<le> length B" "length B < 2 ^ 31 - 18" "robust_broadcast B" "IS_MCAST (drop 4 B)"
    and mem: "t_mem s = desc @ B @ room @ post" "length desc = TXDESC_OFFSET" "length room = 18"
    and at: "ra (t_attr s) = chunk B 4 6" "pktlen (t_attr s) = length B"
    and sec: "binstallBIPkey (t_sec s)" "kid = dot11wBIPKeyid (t_sec s)" "kid < 256" "kid < length (dot11wBIPKey (t_sec s))"
      "length (dot11wBIPKey (t_sec s) ! kid) = 16" "pn = dot11wBIPtxpn (t_sec s) + 1" "pn < 2 ^ 48"
    and alloc: "\<And>n. alloc n"
  shows "\<exists>F s'. rtw_mgmt_xmitframe_coalesce alloc junk fl (Some base) s = Inr (SUCCESS, s') \<and>
    t_mem s' = desc @ F @ post \<and> length F = length B + 18 \<and> take (length B) F = B \<and> pktlen (t_attr s') = length F \<and>
    dot11wBIPtxpn (t_sec s') = pn \<and>
    (\<forall>r sta. binstallBIPkey (m_sec r) \<and> \<not> rx_privacy (m_attr r) \<and> sta_mfp sta \<and> rf_data (m_rf r) = F \<and>
       rx_len (m_attr r) = length F \<and> dot11wBIPKey (m_sec r) = dot11wBIPKey (t_sec s) \<and> dot11wBIPKeyid (m_sec r) = kid \<longrightarrow>
       (if dot11wBIPrxpn (m_sec r) < pn
        then validate_mgmt_protect alloc junk is_mesh (Some sta) r = Inr (SUCCESS, r\<lparr>m_sec := (m_sec r)\<lparr>dot11wBIPrxpn := pn\<rparr>\<rparr>)
        else validate_mgmt_protect alloc junk is_mesh (Some sta) r = Inr (FAIL, r)))"
proof -
  let ?key = "dot11wBIPKey (t_sec s) ! kid"
  define f where "f = B @ [76, 16, of_nat kid, 0] @ take 6 (put_le64 pn)"
  define F where "F = f @ bip_mic ?key (f @ replicate 8 0)"
  have mc: "IS_MCAST (ra (t_attr s))" using B(1,4) by (simp add: at(1) IS_MCAST_chunk)
  have "rtw_mgmt_xmitframe_coalesce alloc junk fl (Some base) s =
      bip_protect alloc junk (length desc) (replicate (length B + 20) 0) s"
    by (rule coalesce_bip) (use assms mc in \<open>simp_all only: not_False_eq_True\<close>)
  also have "\<dots> = Inr (SUCCESS,
    s\<lparr>t_sec := (t_sec s)\<lparr>dot11wBIPtxpn := pn\<rparr>,
      t_attr := (t_attr s)\<lparr>pktlen := length B + 18, last_txcmdsz := length B + 18\<rparr>,
      t_mem := desc @ f @ bip_mic ?key (f @ replicate 8 0) @ post\<rparr>)"
    by (rule bip_protect_run) (use assms in \<open>simp_all only: f_def length_replicate\<close>)
  finally obtain s' where s': "rtw_mgmt_xmitframe_coalesce alloc junk fl (Some base) s = Inr (SUCCESS, s')"
    "t_mem s' = desc @ F @ post" "pktlen (t_attr s') = length B + 18" "dot11wBIPtxpn (t_sec s') = pn"
    by (simp add: F_def)
  have len: "length F = length B + 18" by (simp add: F_def f_def put_le64_def)
  have pre: "take (length B) F = B" by (simp add: F_def f_def)
  have FB: "F = B @ drop (length B) F" using append_take_drop_id [of "length B" F] pre by simp
  have robust: "robust_broadcast F" and mcF: "IS_MCAST (drop 4 F)" and F24: "24 \<le> length F"
    using B len robust_broadcast_append [of B "drop (length B) F"] IS_MCAST_append [of 4 B "drop (length B) F"] FB by simp_all
  have receive: "validate_mgmt_protect alloc junk is_mesh (Some sta) r =
      Inr (if dot11wBIPrxpn (m_sec r) < pn then (SUCCESS, r\<lparr>m_sec := (m_sec r)\<lparr>dot11wBIPrxpn := pn\<rparr>\<rparr>) else (FAIL, r))"
    if r: "binstallBIPkey (m_sec r)" "\<not> rx_privacy (m_attr r)" "sta_mfp sta" "rf_data (m_rf r) = F"
      "rx_len (m_attr r) = length F" "dot11wBIPKey (m_sec r) = dot11wBIPKey (t_sec s)" "dot11wBIPKeyid (m_sec r) = kid" for r sta
    unfolding validate_bip [OF r(1-4) F24 robust mcF]
  proof (rule bip_verify_result [OF r(4,5)])
    show "dot11wBIPKeyid (m_sec r) < length (dot11wBIPKey (m_sec r))" using r(6,7) sec(4) by simp
    show "rtw_BIP_verify alloc junk F (int (length F)) (dot11wBIPKey (m_sec r) ! dot11wBIPKeyid (m_sec r))
        (of_nat (dot11wBIPKeyid (m_sec r))) (dot11wBIPrxpn (m_sec r)) =
        Inr (if dot11wBIPrxpn (m_sec r) < pn then (SUCCESS, pn) else (FAIL, dot11wBIPrxpn (m_sec r)))"
      unfolding r(6,7) using bip_frame_accepted [OF B(1,2) sec(3,5,7) alloc f_def F_def] .
  qed
  show ?thesis
    by (intro exI [of _ F] exI [of _ s'] conjI allI impI s' len pre) (simp_all add: s'(3) len receive)
qed

section \<open>Frames whose decryption fails\<close>

lemma decryptor_fails:
  assumes "rx_encrypt (m_attr s) = AES" and "\<not> rx_bdecrypted (m_attr s)"
    and "rx_hdrlen (m_attr s) + 3 < length (rf_data (m_rf s))"
    and "psta = None \<or> IS_MCAST (rx_ra (m_attr s)) \<and> \<not> is_mesh \<and> \<not> binstallGrpkey (m_sec s)"
  shows "\<exists>s'. decryptor is_mesh psta s = Inr (False, s') \<and> rf_data (m_rf s') = []"
proof -
  have aes: "rtw_aes_decrypt sec at is_mesh (map_option sta_uncst psta) mem msg = Inr (FAIL, mem, msg, sec)"
    if "rx_encrypt at = AES" "psta = None \<or> IS_MCAST (rx_ra at) \<and> \<not> is_mesh \<and> \<not> binstallGrpkey sec" for at mem msg sec
    using that by (auto simp: rtw_aes_decrypt_def split: option.splits)
  have sw: "\<exists>s'. sw_decrypt is_mesh psta t = Inr (FAIL, s')"
    if "rx_encrypt (m_attr t) = AES" "psta = None \<or> IS_MCAST (rx_ra (m_attr t)) \<and> \<not> is_mesh \<and> \<not> binstallGrpkey (m_sec t)" for t
    using that by (auto simp: sw_decrypt_def Let_def aes AES_def WEP40_def WEP104_def TKIP_def rx_pkt_attrib.defs)
  have "1 < length (rf_data (m_rf s))" using assms(3) by simp
  then have fc: "rdn (rf_data (m_rf s)) 0 2 = Inr (take 2 (rf_data (m_rf s)))" by (simp add: rdn_def)
  define k where "k = (let key_index = unat (drop_bit 6 (rf_data (m_rf s) ! (rx_hdrlen (m_attr s) + 3)) AND 0x3) in
    if key_index > WEP_KEYS then if rx_encrypt (m_attr s) = WEP40 \<or> rx_encrypt (m_attr s) = WEP104
      then dot11PrivacyKeyIndex (m_sec s) else dot118021XGrpKeyid (m_sec s) else key_index)"
  define t where "t = (let t = s\<lparr>m_attr := (m_attr s)\<lparr>rx_key_index := k\<rparr>\<rparr> in
    if GetFrameType (take 2 (rf_data (m_rf s))) = WIFI_DATA then t\<lparr>m_sec := (m_sec t)\<lparr>hw_decrypted := False\<rparr>\<rparr> else t)"
  have "rx_encrypt (m_attr t) = AES" "psta = None \<or> IS_MCAST (rx_ra (m_attr t)) \<and> \<not> is_mesh \<and> \<not> binstallGrpkey (m_sec t)"
    using assms(1,4) by (simp_all add: t_def Let_def)
  from sw [OF this] obtain s' where "sw_decrypt is_mesh psta t = Inr (FAIL, s')" by blast
  moreover have "AES > 0" by (simp add: AES_def)
  ultimately have "decryptor is_mesh psta s =
      Inr (False, s'\<lparr>m_rf := rtw_free_recvframe (m_rf s'), m_attr := (m_attr s')\<lparr>rx_len := 0\<rparr>\<rparr>)"
    using assms(1-3) fc unfolding decryptor_def by (simp add: rd_ok t_def k_def Let_def)
  then show ?thesis by (simp add: rtw_free_recvframe_def)
qed

lemma mgmt_decrypt_fails:
  assumes "32 \<le> length (rf_data (m_rf s))" and "40 < rx_pkt_len (m_attr s)" and "rx_pkt_len (m_attr s) < 2 ^ 32"
    and "alloc (rx_pkt_len (m_attr s) - 40)"
    and "psta = None \<or> IS_MCAST (drop 4 (rf_data (m_rf s))) \<and> \<not> is_mesh \<and> \<not> binstallGrpkey (m_sec s)"
  shows "mgmt_decrypt alloc is_mesh psta s = Inl OutOfBounds"
proof -
  let ?f = "rf_data (m_rf s)"
  have a: "rdn ?f 4 6 = Inr (chunk ?f 4 6)" "rdn ?f 10 6 = Inr (chunk ?f 10 6)" using assms(1) by (simp_all add: rdn_def)
  define t where "t = s\<lparr>m_attr := (m_attr s)\<lparr>rx_bdecrypted := False, rx_encrypt := AES, rx_hdrlen := 24, rx_iv_len := 8,
    rx_icv_len := 8, rx_ra := chunk ?f 4 6, rx_ta := chunk ?f 10 6\<rparr>\<rparr>"
  have "IS_MCAST (chunk ?f 4 6) = IS_MCAST (drop 4 ?f)" using assms(1) by (simp add: IS_MCAST_chunk)
  then have "\<exists>s'. decryptor is_mesh psta t = Inr (False, s') \<and> rf_data (m_rf s') = []"
    using assms(1,5) by (intro decryptor_fails) (simp_all add: t_def)
  then obtain s' where s': "decryptor is_mesh psta t = Inr (False, s')" "rf_data (m_rf s') = []" by blast
  have n: "usub32 (usub32 (usub32 (rx_pkt_len (m_attr s)) 24) 8) 8 = rx_pkt_len (m_attr s) - 40" using assms(2,3) by simp
  have "rdn [] 32 (rx_pkt_len (m_attr s) - 40) = Inl OutOfBounds" by (simp add: rdn_def)
  then show ?thesis
    using assms(4) s' n unfolding mgmt_decrypt_def Let_def a bindc_Inr t_def [symmetric] by simp
qed

section \<open>Properties\<close>

text \<open>C18: \<open>rtw_BIP_verify\<close> on a frame with room for header and MIC element (42 bytes) makes no access
  outside the frame. It reports a frame without MIC element as not handled, and accepts exactly the
  frames that name the current key, have a larger packet number than the last accepted frame, and
  end in the MIC of the standard, provided that its two allocations succeed. Only acceptance
  changes the packet number.\<close>

theorem rtw_BIP_verify_spec:
  assumes "42 \<le> length f" and "length f < 2 ^ 31" and "length key = 16"
  shows "rtw_BIP_verify alloc junk f (int (length f)) key keyid ipn =
    Inr (if f ! (length f - 18) \<noteq> 76 then (RTW_RX_HANDLED, ipn)
         else if mme_keyid f \<noteq> keyid \<or> mme_pn f \<le> ipn \<or> \<not> alloc (length f - 4) \<or> \<not> alloc AES_PRIV_SIZE \<or>
           bip_mic key f \<noteq> drop (length f - 8) f then (FAIL, ipn)
         else (SUCCESS, mme_pn f))"
  using assms by (rule rtw_BIP_verify_run)

theorem rtw_BIP_verify_spec_witness:
  "rtw_BIP_verify (\<lambda>_. True) [] (replicate 24 0 @ [76, 16] @ replicate 16 0) 42 (replicate 16 1) 0 0 = Inr (FAIL, 0)"
  using rtw_BIP_verify_spec [of "replicate 24 0 @ [76, 16] @ replicate 16 0" "replicate 16 1" "\<lambda>_. True" "[]" 0 0]
  by (simp add: mme_keyid_def mme_pn_def get_le16_def get_le48_def nth_append)

text \<open>A broadcast robust management frame that \<open>rtw_mgmt_xmitframe_coalesce\<close> sends under the group
  integrity key keeps its bytes and gets a MIC element of 18 bytes with the next packet number; a
  receiver with that key accepts it in \<open>validate_mgmt_protect\<close> if it has not yet accepted this
  packet number, and otherwise rejects it as a replay.\<close>

theorem mgmt_bip_roundtrip:
  assumes "24 \<le> length B" and "length B < 2 ^ 31 - 18" and "robust_broadcast B" and "IS_MCAST (drop 4 B)"
    and "t_mem s = desc @ B @ room @ post" and "length desc = TXDESC_OFFSET" and "length room = 18"
    and "ra (t_attr s) = chunk B 4 6" and "pktlen (t_attr s) = length B"
    and "binstallBIPkey (t_sec s)" and "kid = dot11wBIPKeyid (t_sec s)" and "kid < 256" and "kid < length (dot11wBIPKey (t_sec s))"
    and "length (dot11wBIPKey (t_sec s) ! kid) = 16" and "pn = dot11wBIPtxpn (t_sec s) + 1" and "pn < 2 ^ 48"
    and "\<And>n. alloc n"
  shows "\<exists>F s'. rtw_mgmt_xmitframe_coalesce alloc junk fl (Some base) s = Inr (SUCCESS, s') \<and>
    t_mem s' = desc @ F @ post \<and> length F = length B + 18 \<and> take (length B) F = B \<and> pktlen (t_attr s') = length F \<and>
    dot11wBIPtxpn (t_sec s') = pn \<and>
    (\<forall>r sta. binstallBIPkey (m_sec r) \<and> \<not> rx_privacy (m_attr r) \<and> sta_mfp sta \<and> rf_data (m_rf r) = F \<and>
       rx_len (m_attr r) = length F \<and> dot11wBIPKey (m_sec r) = dot11wBIPKey (t_sec s) \<and> dot11wBIPKeyid (m_sec r) = kid \<longrightarrow>
       (if dot11wBIPrxpn (m_sec r) < pn
        then validate_mgmt_protect alloc junk is_mesh (Some sta) r = Inr (SUCCESS, r\<lparr>m_sec := (m_sec r)\<lparr>dot11wBIPrxpn := pn\<rparr>\<rparr>)
        else validate_mgmt_protect alloc junk is_mesh (Some sta) r = Inr (FAIL, r)))"
  using assms by (rule bip_roundtrip)

text \<open>A deauthentication frame to everyone.\<close>

definition mgmt_example_frame :: "u8 list" where
  "mgmt_example_frame = [0xc0, 0, 0, 0] @ replicate 6 0xff @ replicate 16 0"

definition mgmt_example_tx :: mgmt_tx where
  "mgmt_example_tx = \<lparr> t_sec = wep_example_sec,
     t_attr = \<lparr> hdrlen = 24, last_txcmdsz = 26, nr_frags = 1, encrypt = 0, iv_len = 0, icv_len = 0, ra = replicate 6 0xff,
       ta = replicate 6 2, dot118021x_UncstKey = replicate 16 5, pktlen = 26, key_type = 0, bswenc = False,
       tx_iv = replicate 8 0, tx_icv = replicate 8 0 \<rparr>,
     t_mem = replicate TXDESC_OFFSET 0 @ mgmt_example_frame @ replicate 18 0 @ [], t_sta = None \<rparr>"

definition mgmt_example_rx :: "u8 list \<Rightarrow> mgmt_rx" where
  "mgmt_example_rx F = \<lparr> m_sec = wep_example_sec,
     m_attr = \<lparr> rx_hdrlen = 24, rx_encrypt = 0, rx_iv_len = 0, rx_ra = replicate 6 0xff, rx_ta = replicate 6 2, rx_key_index = 0,
       rx_len = length F, rx_privacy = False, rx_bdecrypted = False, rx_icv_len = 0, rx_pkt_len = length F \<rparr>,
     m_rf = \<lparr> rf_data = F, rf_freed = 0 \<rparr>, m_msg = replicate 2048 0, m_saq = False \<rparr>"

lemma mgmt_example_ok: "robust_broadcast mgmt_example_frame" "IS_MCAST (drop 4 mgmt_example_frame)" "length mgmt_example_frame = 26"
  by (simp_all add: mgmt_example_frame_def robust_broadcast_def get_frame_sub_type_def get_le16_def WIFI_DEAUTH_def IS_MCAST_def nth_append)

lemma mgmt_example_premises:
  "24 \<le> length mgmt_example_frame" "length mgmt_example_frame < 2 ^ 31 - 18" "robust_broadcast mgmt_example_frame"
  "IS_MCAST (drop 4 mgmt_example_frame)"
  "t_mem mgmt_example_tx = replicate TXDESC_OFFSET 0 @ mgmt_example_frame @ replicate 18 0 @ []"
  "length (replicate TXDESC_OFFSET (0 :: u8)) = TXDESC_OFFSET" "length (replicate 18 (0 :: u8)) = 18"
  "ra (t_attr mgmt_example_tx) = chunk mgmt_example_frame 4 6" "pktlen (t_attr mgmt_example_tx) = length mgmt_example_frame"
  "binstallBIPkey (t_sec mgmt_example_tx)" "4 = dot11wBIPKeyid (t_sec mgmt_example_tx)" "(4 :: nat) < 256"
  "4 < length (dot11wBIPKey (t_sec mgmt_example_tx))" "length (dot11wBIPKey (t_sec mgmt_example_tx) ! 4) = 16"
  "7 = dot11wBIPtxpn (t_sec mgmt_example_tx) + 1" "(7 :: u64) < 2 ^ 48"
  using mgmt_example_ok by (simp_all add: mgmt_example_tx_def wep_example_sec_def) (simp add: mgmt_example_frame_def)

theorem mgmt_bip_roundtrip_witness:
  "\<exists>F s'. rtw_mgmt_xmitframe_coalesce (\<lambda>_. True) [] 0 (Some 4096) mgmt_example_tx = Inr (SUCCESS, s') \<and> length F = 44 \<and>
    validate_mgmt_protect (\<lambda>_. True) [] False (Some \<lparr> sta_mfp = True, bpairwise_key_installed = True, sta_uncst = [], sta_txpn = 0 \<rparr>)
      (mgmt_example_rx F) = Inr (SUCCESS, (mgmt_example_rx F)\<lparr>m_sec := wep_example_sec\<lparr>dot11wBIPrxpn := 7\<rparr>\<rparr>)"
proof -
  note sent = mgmt_bip_roundtrip [OF mgmt_example_premises TrueI, of "[]" 0 4096 False]
  show ?thesis
    using sent
  proof (elim exE conjE)
    fix F s'
    assume F: "rtw_mgmt_xmitframe_coalesce (\<lambda>_. True) [] 0 (Some 4096) mgmt_example_tx = Inr (SUCCESS, s')"
        "length F = length mgmt_example_frame + 18"
      and "\<forall>r sta. binstallBIPkey (m_sec r) \<and> \<not> rx_privacy (m_attr r) \<and> sta_mfp sta \<and> rf_data (m_rf r) = F \<and>
       rx_len (m_attr r) = length F \<and> dot11wBIPKey (m_sec r) = dot11wBIPKey (t_sec mgmt_example_tx) \<and> dot11wBIPKeyid (m_sec r) = 4 \<longrightarrow>
       (if dot11wBIPrxpn (m_sec r) < 7
        then validate_mgmt_protect (\<lambda>_. True) [] False (Some sta) r = Inr (SUCCESS, r\<lparr>m_sec := (m_sec r)\<lparr>dot11wBIPrxpn := 7\<rparr>\<rparr>)
        else validate_mgmt_protect (\<lambda>_. True) [] False (Some sta) r = Inr (FAIL, r))"
    note rx = this(3) [rule_format, of "mgmt_example_rx F"]
    show ?thesis
      using F rx mgmt_example_ok
      by (intro exI [of _ F] exI [of _ s'] conjI) (simp_all add: mgmt_example_rx_def mgmt_example_tx_def wep_example_sec_def)
  qed
qed

text \<open>C17: Replay protection as an invariant of any run of received management frames: the packet numbers
  of the accepted broadcast robust frames strictly increase, so that no packet number is accepted
  twice; they lie above the number at the start and at most at the current one, which never falls.\<close>

theorem mgmt_stream_replay:
  assumes "mgmt_stream sec pns sec'"
  shows "sorted_wrt (>) pns \<and> (\<forall>pn \<in> set pns. dot11wBIPrxpn sec < pn \<and> pn \<le> dot11wBIPrxpn sec') \<and>
    dot11wBIPrxpn sec \<le> dot11wBIPrxpn sec'"
  using assms by (rule mgmt_stream_increasing)

lemma mgmt_example_stream: "\<exists>sec'. mgmt_stream wep_example_sec [7] sec'"
proof -
  let ?sta = "\<lparr> sta_mfp = True, bpairwise_key_installed = True, sta_uncst = [], sta_txpn = 0 \<rparr>"
  have "(\<forall>n :: nat. True)" by simp
  from bip_roundtrip [OF mgmt_example_premises TrueI, of "[]" 0 4096 False]
  obtain F where F: "length F = 44" "take 26 F = mgmt_example_frame"
    and rx: "\<forall>r sta. binstallBIPkey (m_sec r) \<and> \<not> rx_privacy (m_attr r) \<and> sta_mfp sta \<and> rf_data (m_rf r) = F \<and>
       rx_len (m_attr r) = length F \<and> dot11wBIPKey (m_sec r) = dot11wBIPKey (t_sec mgmt_example_tx) \<and> dot11wBIPKeyid (m_sec r) = 4 \<longrightarrow>
       (if dot11wBIPrxpn (m_sec r) < 7
        then validate_mgmt_protect (\<lambda>_. True) [] False (Some sta) r = Inr (SUCCESS, r\<lparr>m_sec := (m_sec r)\<lparr>dot11wBIPrxpn := 7\<rparr>\<rparr>)
        else validate_mgmt_protect (\<lambda>_. True) [] False (Some sta) r = Inr (FAIL, r))"
    unfolding mgmt_example_ok(3) by (elim exE conjE) simp
  let ?r = "mgmt_example_rx F" and ?r' = "(mgmt_example_rx F)\<lparr>m_sec := wep_example_sec\<lparr>dot11wBIPrxpn := 7\<rparr>\<rparr>"
  have step: "validate_mgmt_protect (\<lambda>_. True) [] False (Some ?sta) ?r = Inr (SUCCESS, ?r')"
    using rx [rule_format, of ?r] by (simp add: mgmt_example_rx_def mgmt_example_tx_def wep_example_sec_def)
  have FB: "F = mgmt_example_frame @ drop 26 F" using F(2) append_take_drop_id [of 26 F] by simp
  have need: "needs_bip (Some ?sta) ?r"
    using mgmt_example_ok robust_broadcast_append [of mgmt_example_frame "drop 26 F"] IS_MCAST_append [of 4 mgmt_example_frame "drop 26 F"]
    unfolding FB [symmetric]
    by (auto simp add: needs_bip_def mgmt_example_rx_def robust_broadcast_def Let_def wep_example_sec_def)
  have len: "rx_len (m_attr ?r) = length (rf_data (m_rf ?r))" by (simp add: mgmt_example_rx_def)
  have pn: "mme_pn (rf_data (m_rf ?r)) = 7"
    using res_allD [OF validate_mgmt_protect_pn [OF len] step] need by simp
  have "mgmt_stream wep_example_sec [] (m_sec ?r)" using mgmt_stream.start by (simp add: mgmt_example_rx_def)
  from mgmt_stream.frame [OF this len step] show ?thesis using need pn by auto
qed

theorem mgmt_stream_replay_witness: "\<exists>sec'. mgmt_stream wep_example_sec [7] sec' \<and> 5 < (7 :: u64) \<and> 7 \<le> dot11wBIPrxpn sec'"
proof -
  obtain sec' where s: "mgmt_stream wep_example_sec [7] sec'" using mgmt_example_stream by blast
  show ?thesis using mgmt_stream_replay [OF s] s by (intro exI [of _ sec']) simp
qed

text \<open>C19: A received management frame that is marked as protected, but whose decryption fails because the
  transmitter is not known or the group key is not installed, is given back by \<open>decryptor\<close>, which
  releases its bytes; \<open>validate_mgmt_protect\<close> then still copies its body out of and into them.\<close>

theorem validate_mgmt_protect_use_after_free:
  assumes "binstallBIPkey (m_sec s)" and "rx_privacy (m_attr s)"
    and "32 \<le> length (rf_data (m_rf s))" and "40 < rx_pkt_len (m_attr s)" and "rx_pkt_len (m_attr s) < 2 ^ 32"
    and "alloc (rx_pkt_len (m_attr s) - 40)"
    and "psta = None \<or> IS_MCAST (drop 4 (rf_data (m_rf s))) \<and> \<not> is_mesh \<and> \<not> binstallGrpkey (m_sec s)"
  shows "validate_mgmt_protect alloc junk is_mesh psta s = Inl OutOfBounds"
proof -
  have "rdn (rf_data (m_rf s)) 0 2 = Inr (take 2 (rf_data (m_rf s)))"
    "rdn (rf_data (m_rf s)) 4 6 = Inr (chunk (rf_data (m_rf s)) 4 6)"
    using assms(3) by (simp_all add: rdn_def)
  then show ?thesis
    using assms(1,2) mgmt_decrypt_fails [where alloc = alloc, OF assms(3-7)] by (simp add: validate_mgmt_protect_def)
qed

theorem validate_mgmt_protect_use_after_free_witness:
  "validate_mgmt_protect (\<lambda>_. True) [] False None
     ((mgmt_example_rx (replicate 50 0))\<lparr>m_attr := (m_attr (mgmt_example_rx (replicate 50 0)))\<lparr>rx_privacy := True\<rparr>\<rparr>) =
   Inl OutOfBounds"
  by (rule validate_mgmt_protect_use_after_free) (simp_all add: mgmt_example_rx_def wep_example_sec_def)

end
