(* ===== verification/AesPerm.thy ===== *)
theory AesPerm
  imports Aes
begin

text \<open>
  AES-128 (theory \<open>Aes\<close>) is a permutation of the blocks, for every key: each step of a round can
  be undone. For the column mixing this is because doing it four times gives the column back.
\<close>

section \<open>A permutation\<close>

lemma xtime_xor: "xtime (a XOR b) = xtime a XOR xtime b"
  by (cases "bit a 7"; cases "bit b 7") (simp_all add: xtime_def bit_xor_iff ac_simps)

lemma xor_cancel [simp]: "a XOR (a XOR b) = (b :: u8)"
  by (simp flip: xor.assoc)

lemma mix_column_twice:
  "mix_column (mix_column [a, b, c, d]) =
     [a XOR xtime (xtime a) XOR xtime (xtime c), b XOR xtime (xtime b) XOR xtime (xtime d),
      c XOR xtime (xtime c) XOR xtime (xtime a), d XOR xtime (xtime d) XOR xtime (xtime b)]"
  by (simp add: mix_column_xtime xtime_xor ac_simps)

lemma mix_column_four: "mix_column (mix_column (mix_column (mix_column [a, b, c, d]))) = [a, b, c, d]"
  by (simp only: mix_column_twice) (simp add: xtime_xor ac_simps)

text \<open>The entries of the S-box are told apart bit by bit.\<close>

fun split_bits :: "nat \<Rightarrow> u8 list \<Rightarrow> bool" where
  "split_bits 0 xs \<longleftrightarrow> length xs \<le> 1"
| "split_bits (Suc n) xs \<longleftrightarrow> split_bits n (filter (\<lambda>x. bit x n) xs) \<and> split_bits n (filter (\<lambda>x. \<not> bit x n) xs)"

lemma split_bits_distinct: "split_bits n xs \<Longrightarrow> distinct xs"
proof (induction n arbitrary: xs)
  case 0
  then show ?case by (cases xs) auto
next
  case (Suc n)
  then have d: "distinct (filter (\<lambda>x. bit x n) xs)" "distinct (filter (\<lambda>x. \<not> bit x n) xs)" by auto
  have "card (set xs) = card (set (filter (\<lambda>x. bit x n) xs) \<union> set (filter (\<lambda>x. \<not> bit x n) xs))"
    by (rule arg_cong [of _ _ card]) auto
  also have "\<dots> = card (set (filter (\<lambda>x. bit x n) xs)) + card (set (filter (\<lambda>x. \<not> bit x n) xs))"
    by (rule card_Un_disjoint) auto
  also have "\<dots> = length xs"
    using d sum_length_filter_compl [of "\<lambda>x. bit x n" xs] by (simp add: distinct_card del: set_filter)
  finally show ?case by (rule card_distinct)
qed

lemma sbox_table_distinct: "distinct sbox_table"
proof (rule split_bits_distinct)
  show "split_bits (Suc (Suc (Suc (Suc (Suc (Suc (Suc (Suc 0)))))))) sbox_table"
    unfolding sbox_table_def by simp
qed

lemma sbox_inj: "sbox a = sbox b \<Longrightarrow> a = b"
  using nth_eq_iff_index_eq [OF sbox_table_distinct, of "unat a" "unat b"]
  by (simp add: sbox_def sbox_length) (metis unsigned_word_eqI)

lemma mix_column_inj:
  assumes "mix_column xs = mix_column ys" and "length xs = 4" and "length ys = 4"
  shows "xs = ys"
proof -
  obtain a b c d where "xs = [a, b, c, d]" using assms(2) by (auto simp: length_Suc_conv numeral_eq_Suc)
  moreover obtain e f g h where "ys = [e, f, g, h]" using assms(3) by (auto simp: length_Suc_conv numeral_eq_Suc)
  ultimately show ?thesis using assms(1) mix_column_four by metis
qed

lemma mix_block_inj:
  assumes "mix_block a = mix_block b" and "length a = 16" and "length b = 16"
  shows "a = b"
proof -
  have c: "length (take 4 xs) = 4" "length (take 4 (drop 4 xs)) = 4" "length (take 4 (drop 8 xs)) = 4"
    "length (take 4 (drop 12 xs)) = 4" if "length xs = 16" for xs :: "u8 list"
    using that by simp_all
  have "mix_column (take 4 a) = mix_column (take 4 b)" "mix_column (take 4 (drop 4 a)) = mix_column (take 4 (drop 4 b))"
    "mix_column (take 4 (drop 8 a)) = mix_column (take 4 (drop 8 b))"
    "mix_column (take 4 (drop 12 a)) = mix_column (take 4 (drop 12 b))"
    using assms(1) by (simp_all add: mix_block_def)
  then have "take 4 a = take 4 b" "take 4 (drop 4 a) = take 4 (drop 4 b)" "take 4 (drop 8 a) = take 4 (drop 8 b)"
    "take 4 (drop 12 a) = take 4 (drop 12 b)"
    by (metis mix_column_inj c assms(2,3))+
  moreover have "xs = take 4 xs @ take 4 (drop 4 xs) @ take 4 (drop 8 xs) @ take 4 (drop 12 xs)"
    if "length xs = 16" for xs :: "u8 list"
    using that by (elim block_cases) simp
  ultimately show ?thesis using assms(2,3) by metis
qed

lemma shift_row_inj: "shift_row a = shift_row b \<Longrightarrow> length a = 16 \<Longrightarrow> length b = 16 \<Longrightarrow> a = b"
  by (elim block_cases) (simp add: shift_row_def)

lemma byte_sub_map: "length a = 16 \<Longrightarrow> byte_sub a = map sbox a"
  by (elim block_cases) (simp add: byte_sub_def)

lemma byte_sub_inj: "byte_sub a = byte_sub b \<Longrightarrow> length a = 16 \<Longrightarrow> length b = 16 \<Longrightarrow> a = b"
  using map_injective [of sbox a b] by (simp add: byte_sub_map inj_def sbox_inj)

lemma xor_128_nth:
  assumes "i < 16"
  shows "xor_128 a k ! i = a ! i XOR k ! i"
proof -
  have "[0..<16] = [0, 1, 2, 3, 4, 5, 6, 7, 8, 9, 10, 11, 12, 13, 14, 15 :: nat]"
    by (simp add: upt_conv_Cons)
  then have "xor_128 a k = map (\<lambda>i. a ! i XOR k ! i) [0..<16]" by (simp only: xor_128_def)
  then have "xor_128 a k ! i = (\<lambda>i. a ! i XOR k ! i) ([0..<16] ! i)"
    using assms by (simp only: nth_map length_upt)
  then show ?thesis using assms by (simp only: nth_upt add_0)
qed

lemma xor_128_commute: "xor_128 a b = xor_128 b a"
  by (simp add: xor_128_def xor.commute)

lemma xor_128_inj: "xor_128 a k = xor_128 b k \<Longrightarrow> length a = 16 \<Longrightarrow> length b = 16 \<Longrightarrow> a = b"
proof (rule nth_equalityI)
  fix i
  assume h: "xor_128 a k = xor_128 b k" "length a = 16" "length b = 16" "i < length a"
  from arg_cong [OF h(1), of "\<lambda>x. x ! i"] have "a ! i XOR k ! i = b ! i XOR k ! i"
    using h(2,4) by (simp only: xor_128_nth)
  then show "a ! i = b ! i" by (rule xor_right_cancel)
qed simp

lemma last_round_inj: "last_round k a = last_round k b \<Longrightarrow> length a = 16 \<Longrightarrow> length b = 16 \<Longrightarrow> a = b"
  unfolding last_round_def
  by (rule byte_sub_inj, rule shift_row_inj, rule xor_128_inj) (assumption | rule block_lengths)+

lemma full_round_inj: "full_round k a = full_round k b \<Longrightarrow> length a = 16 \<Longrightarrow> length b = 16 \<Longrightarrow> a = b"
  unfolding full_round_def
  by (rule byte_sub_inj, rule shift_row_inj, rule mix_block_inj, rule xor_128_inj) (assumption | rule block_lengths)+


lemma rounds_inj: "rounds key a n = rounds key b n \<Longrightarrow> length a = 16 \<Longrightarrow> length b = 16 \<Longrightarrow> a = b"
proof (induction n)
  case 0
  from 0(1) have "xor_128 a key = xor_128 b key"
    unfolding rounds.simps(1) by (subst (asm) (1 2) xor_128_commute)
  then show ?case using 0(2,3) by (rule xor_128_inj)
next
  case (Suc n)
  from Suc(2) have "full_round (round_keys key (Suc n)) (rounds key a n) = full_round (round_keys key (Suc n)) (rounds key b n)"
    unfolding rounds.simps(2) .
  then have "rounds key a n = rounds key b n" by (rule full_round_inj) (rule rounds_length)+
  then show ?case using Suc by blast
qed
text \<open>C11: under every key the cipher of CCMP is a permutation of the 16-byte blocks.\<close>

theorem aes128k128d_permutation:
  "bij_betw (aes128k128d key) {xs. length xs = 16} {xs. length xs = 16}"
proof -
  let ?B = "{xs :: u8 list. length xs = 16}"
  have "inj_on (aes128k128d key) ?B"
  proof (rule inj_onI)
    fix a b
    assume ab: "a \<in> ?B" "b \<in> ?B" "aes128k128d key a = aes128k128d key b"
    from ab(3) have "last_round (round_keys key 10) (rounds key a 9) = last_round (round_keys key 10) (rounds key b 9)"
      unfolding aes_rounds .
    then have "rounds key a 9 = rounds key b 9" by (rule last_round_inj) (rule rounds_length)+
    then show "a = b" using ab(1,2) by (auto dest: rounds_inj)
  qed
  moreover have "aes128k128d key ` ?B \<subseteq> ?B"
    by (auto simp: aes_rounds last_round_def)
  moreover have "finite ?B"
    using finite_lists_length_eq [of "UNIV :: u8 set" 16] by simp
  ultimately show ?thesis
    using endo_inj_surj [of ?B "aes128k128d key"] by (auto simp: bij_betw_def)
qed

end
