(* ===== verification/Cam.thy ===== *)
theory Cam
  imports Prelude "HOL-Library.Multiset"
begin

text \<open>
  The table of hardware keys (core/rtw_wlan_util.c): the bitmap of used entries, the cache of the
  entries, the search for an entry, its allocation and release, the exchange of entries, the words
  written to and read from the hardware (hal/hal_com.c), and the handlers of the key commands
  (\<open>setkey_hdl\<close> and \<open>set_stakey_hdl\<close>, core/rtw_mlme_ext.c).
\<close>

section \<open>Bitmaps of identifiers\<close>

text \<open>The limit of 32 identifiers leaves one word of the bitmap.\<close>

definition SEC_CAM_ENT_NUM_SW_LIMIT :: nat where "SEC_CAM_ENT_NUM_SW_LIMIT = 32"

definition BIT :: "nat \<Rightarrow> 'a :: len word" where "BIT n = push_bit n 1"

definition rtw_sec_camid_is_set :: "u32 \<Rightarrow> nat \<Rightarrow> bool" where
  "rtw_sec_camid_is_set m0 i = (if i < 32 then m0 AND BIT i \<noteq> 0 else False)"

definition rtw_sec_cam_map_set :: "u32 \<Rightarrow> nat \<Rightarrow> u32" where
  "rtw_sec_cam_map_set m0 i = (if i < 32 then m0 OR BIT i else m0)"

definition rtw_sec_cam_map_clr :: "u32 \<Rightarrow> nat \<Rightarrow> u32" where
  "rtw_sec_cam_map_clr m0 i = (if i < 32 then m0 AND NOT (BIT i) else m0)"

definition rtw_sec_cam_map_clr_all :: "u32 \<Rightarrow> u32" where
  "rtw_sec_cam_map_clr_all m0 = 0"

definition rtw_sec_camid_is_drv_forbid :: "nat \<Rightarrow> bool" where
  "rtw_sec_camid_is_drv_forbid i = (if i < 32 then (0x00000ff0 :: u32) AND BIT i \<noteq> 0 else True)"

section \<open>State\<close>

record sec_cam_ent =
  ent_ctrl :: u16
  ent_mac :: "u8 list"
  ent_key :: "u8 list"

definition zero_ent :: sec_cam_ent where
  "zero_ent = \<lparr> ent_ctrl = 0, ent_mac = replicate 6 0, ent_key = replicate 16 0 \<rparr>"

text \<open>\<open>cam_hw\<close> holds the words of the hardware table, eight for each entry.\<close>

record cam_ctl =
  sec_cap :: u8
  cam_flags :: u32
  cam_num :: nat
  cam_used :: u32
  cam_cache :: "sec_cam_ent list"
  cam_hw :: "u32 list"

definition SEC_CAP_CHK_BMC :: u8 where "SEC_CAP_CHK_BMC = 1"

definition rtw_camctl_chk_cap :: "cam_ctl \<Rightarrow> u8 \<Rightarrow> bool" where
  "rtw_camctl_chk_cap c cap \<longleftrightarrow> sec_cap c AND cap \<noteq> 0"

definition rtw_camctl_set_flags :: "cam_ctl \<Rightarrow> u32 \<Rightarrow> cam_ctl" where
  "rtw_camctl_set_flags c flags = c\<lparr>cam_flags := cam_flags c OR flags\<rparr>"

definition rtw_camctl_clr_flags :: "cam_ctl \<Rightarrow> u32 \<Rightarrow> cam_ctl" where
  "rtw_camctl_clr_flags c flags = c\<lparr>cam_flags := cam_flags c AND NOT flags\<rparr>"

definition rtw_camctl_chk_flags :: "cam_ctl \<Rightarrow> u32 \<Rightarrow> bool" where
  "rtw_camctl_chk_flags c flags \<longleftrightarrow> cam_flags c AND flags \<noteq> 0"

section \<open>The words of the hardware table\<close>

text \<open>The address is a byte, so that it wraps. The wait for the hardware is left out.\<close>

definition rtw_sec_write_cam :: "u32 list \<Rightarrow> nat \<Rightarrow> u32 \<Rightarrow> u32 list cres" where
  "rtw_sec_write_cam hw addr wdata = upd_chk hw (addr mod 256) wdata"

definition word_at :: "u8 list \<Rightarrow> nat \<Rightarrow> u32" where
  "word_at b n = get_le32 (b ! n) (b ! (n + 1)) (b ! (n + 2)) (b ! (n + 3))"

definition cam_word :: "u16 \<Rightarrow> u8 list \<Rightarrow> u8 list \<Rightarrow> nat \<Rightarrow> u32" where
  "cam_word ctrl mac key j =
     (if j = 0 then ucast ctrl OR push_bit 16 (ucast (mac ! 0)) OR push_bit 24 (ucast (mac ! 1))
      else if j = 1 then word_at mac 2
      else if j = 6 \<or> j = 7 then 0
      else word_at key (4 * (j - 2)))"

fun write_words :: "u32 list \<Rightarrow> nat \<Rightarrow> (nat \<Rightarrow> u32) \<Rightarrow> nat list \<Rightarrow> u32 list cres" where
  "write_words hw i w [] = Inr hw"
| "write_words hw i w (j # js) = bindc (rtw_sec_write_cam hw (i * 8 + j) (w j)) (\<lambda>hw. write_words hw i w js)"

definition rtw_sec_write_cam_ent :: "u32 list \<Rightarrow> nat \<Rightarrow> u16 \<Rightarrow> u8 list \<Rightarrow> u8 list \<Rightarrow> u32 list cres" where
  "rtw_sec_write_cam_ent hw i ctrl mac key =
     bindc (rdn mac 0 6) (\<lambda>mac. bindc (rdn key 0 16) (\<lambda>key.
     write_words hw i (cam_word ctrl mac key) [7, 6, 5, 4, 3, 2, 1, 0]))"

definition rtw_sec_clr_cam_ent :: "u32 list \<Rightarrow> nat \<Rightarrow> u32 list cres" where
  "rtw_sec_clr_cam_ent hw i = rtw_sec_write_cam hw (i * 8) 0"

text \<open>Reading a whole entry.\<close>

definition rtw_sec_read_cam_ent :: "u32 list \<Rightarrow> nat \<Rightarrow> sec_cam_ent cres" where
  "rtw_sec_read_cam_ent hw i =
     bindc (nth_chk hw (i * 8 mod 256)) (\<lambda>w0.
     bindc (nth_chk hw ((i * 8 + 1) mod 256)) (\<lambda>w1.
     bindc (nth_chk hw ((i * 8 + 2) mod 256)) (\<lambda>w2.
     bindc (nth_chk hw ((i * 8 + 3) mod 256)) (\<lambda>w3.
     bindc (nth_chk hw ((i * 8 + 4) mod 256)) (\<lambda>w4.
     bindc (nth_chk hw ((i * 8 + 5) mod 256)) (\<lambda>w5.
     Inr \<lparr> ent_ctrl = get_le16 (put_le32 w0 ! 0) (put_le32 w0 ! 1), ent_mac = drop 2 (put_le32 w0) @ put_le32 w1,
       ent_key = put_le32 w2 @ put_le32 w3 @ put_le32 w4 @ put_le32 w5 \<rparr>))))))"

section \<open>Entries\<close>

definition write_cam_cache :: "cam_ctl \<Rightarrow> nat \<Rightarrow> u16 \<Rightarrow> u8 list \<Rightarrow> u8 list \<Rightarrow> cam_ctl cres" where
  "write_cam_cache c i ctrl mac key =
     bindc (rdn mac 0 6) (\<lambda>mac.
     bindc (rdn key 0 16) (\<lambda>key.
     bindc (upd_chk (cam_cache c) i \<lparr> ent_ctrl = ctrl, ent_mac = mac, ent_key = key \<rparr>) (\<lambda>cache.
     Inr (c\<lparr>cam_cache := cache\<rparr>))))"

definition clear_cam_cache :: "cam_ctl \<Rightarrow> nat \<Rightarrow> cam_ctl cres" where
  "clear_cam_cache c i = bindc (upd_chk (cam_cache c) i zero_ent) (\<lambda>cache. Inr (c\<lparr>cam_cache := cache\<rparr>))"

definition write_cam_hw :: "cam_ctl \<Rightarrow> nat \<Rightarrow> u16 \<Rightarrow> u8 list \<Rightarrow> u8 list \<Rightarrow> cam_ctl cres" where
  "write_cam_hw c i ctrl mac key =
     bindc (rtw_sec_write_cam_ent (cam_hw c) i ctrl mac key) (\<lambda>hw. Inr (c\<lparr>cam_hw := hw\<rparr>))"

definition write_cam :: "cam_ctl \<Rightarrow> nat \<Rightarrow> u16 \<Rightarrow> u8 list \<Rightarrow> u8 list \<Rightarrow> cam_ctl cres" where
  "write_cam c i ctrl mac key =
     bindc (write_cam_hw c i ctrl mac key) (\<lambda>c. write_cam_cache c i ctrl mac key)"

definition clear_cam_entry :: "cam_ctl \<Rightarrow> nat \<Rightarrow> cam_ctl cres" where
  "clear_cam_entry c i =
     bindc (write_cam_hw c i 0 (replicate 6 0) (replicate 16 0)) (\<lambda>c. clear_cam_cache c i)"

definition write_cam_from_cache :: "cam_ctl \<Rightarrow> nat \<Rightarrow> cam_ctl cres" where
  "write_cam_from_cache c i =
     bindc (nth_chk (cam_cache c) i) (\<lambda>e. write_cam_hw c i (ent_ctrl e) (ent_mac e) (ent_key e))"

text \<open>\<open>hw\<close> is what the hardware makes of its table when it is told to invalidate every entry.\<close>

definition invalidate_cam_all :: "u32 list \<Rightarrow> cam_ctl \<Rightarrow> cam_ctl" where
  "invalidate_cam_all hw c = c\<lparr>cam_hw := hw, cam_used := rtw_sec_cam_map_clr_all (cam_used c),
     cam_cache := replicate SEC_CAM_ENT_NUM_SW_LIMIT zero_ent\<rparr>"

section \<open>Search\<close>

definition rtw_sec_camid_is_used :: "cam_ctl \<Rightarrow> nat \<Rightarrow> bool" where
  "rtw_sec_camid_is_used c i = (if i \<ge> cam_num c then False else rtw_sec_camid_is_set (cam_used c) i)"

definition rtw_get_sec_camid :: "cam_ctl \<Rightarrow> nat \<Rightarrow> nat list" where
  "rtw_get_sec_camid c max_bk_key_num =
     (let used = filter (rtw_sec_camid_is_used c) [0..<cam_num c] in
      if max_bk_key_num = 0 then used else take max_bk_key_num used)"

definition rtw_camid_is_gk :: "cam_ctl \<Rightarrow> nat \<Rightarrow> bool cres" where
  "rtw_camid_is_gk c cam_id =
     (if cam_id \<ge> cam_num c then Inr False
      else if \<not> rtw_sec_camid_is_used c cam_id then Inr False
      else bindc (nth_chk (cam_cache c) cam_id) (\<lambda>e. Inr (ent_ctrl e AND BIT 6 \<noteq> 0)))"

text \<open>A missing address, a negative key id and the type -1 match every entry.\<close>

definition cam_cache_chk :: "cam_ctl \<Rightarrow> nat \<Rightarrow> u8 list option \<Rightarrow> int \<Rightarrow> int \<Rightarrow> bool cres" where
  "cam_cache_chk c i addr kid gk =
     bindc (nth_chk (cam_cache c) i) (\<lambda>e.
     if addr \<noteq> None \<and> ent_mac e \<noteq> the addr then Inr False
     else if kid \<ge> 0 \<and> kid \<noteq> uint (ent_ctrl e AND 0x03) then Inr False
     else if gk \<noteq> -1 then bindc (rtw_camid_is_gk c i) (\<lambda>is_gk. Inr ((gk \<noteq> 0) = is_gk))
     else Inr True)"

fun find_ent :: "(nat \<Rightarrow> bool cres) \<Rightarrow> nat list \<Rightarrow> nat option cres" where
  "find_ent P [] = Inr None"
| "find_ent P (i # is) = bindc (P i) (\<lambda>b. if b then Inr (Some i) else find_ent P is)"

text \<open>\<open>None\<close> is the result -1.\<close>

definition rtw_camid_search :: "cam_ctl \<Rightarrow> u8 list option \<Rightarrow> int \<Rightarrow> int \<Rightarrow> nat option cres" where
  "rtw_camid_search c addr kid gk = find_ent (\<lambda>i. cam_cache_chk c i addr kid gk) [0..<cam_num c]"

text \<open>The first four entries are the default keys and not given away here.\<close>

definition rtw_get_camid :: "cam_ctl \<Rightarrow> u8 list option \<Rightarrow> int \<Rightarrow> int \<Rightarrow> nat option cres" where
  "rtw_get_camid c addr kid gk =
     (if addr = None then Inr None
      else
        bindc (rtw_camid_search c addr kid (if rtw_camctl_chk_cap c SEC_CAP_CHK_BMC then gk else -1)) (\<lambda>found.
        case found of Some i \<Rightarrow> Inr (Some i)
        | None \<Rightarrow> Inr (find (\<lambda>i. \<not> i < 4 \<and> \<not> rtw_sec_camid_is_used c i) [0..<cam_num c])))"

section \<open>Allocation\<close>

definition WIFI_FW_AP_STATE :: u32 where "WIFI_FW_AP_STATE = 0x03"
definition WIFI_FW_ADHOC_STATE :: u32 where "WIFI_FW_ADHOC_STATE = 0x01"
definition WIFI_FW_ASSOC_SUCCESS :: u32 where "WIFI_FW_ASSOC_SUCCESS = 0x00004000"

definition rtw_camid_alloc ::
  "cam_ctl \<Rightarrow> u32 \<Rightarrow> u8 list \<Rightarrow> u8 list option \<Rightarrow> nat \<Rightarrow> int \<Rightarrow> (nat option \<times> bool \<times> cam_ctl) cres" where
  "rtw_camid_alloc c state bssid sta kid gk =
     bindc (if (state AND 0x03 = WIFI_FW_AP_STATE \<or> state AND 0x03 = WIFI_FW_ADHOC_STATE) \<and> sta = None
            then Inr (if kid > 3 then None else Some kid)
            else if sta = None \<and> state AND WIFI_FW_ASSOC_SUCCESS = 0 then Inr None
            else rtw_get_camid c (Some (case sta of None \<Rightarrow> bssid | Some a \<Rightarrow> a)) (int kid) gk) (\<lambda>cam_id.
     Inr (case cam_id of None \<Rightarrow> (None, False, c)
          | Some i \<Rightarrow> (Some i, rtw_sec_camid_is_used c i, c\<lparr>cam_used := rtw_sec_cam_map_set (cam_used c) i\<rparr>)))"

definition rtw_camid_set :: "cam_ctl \<Rightarrow> nat \<Rightarrow> cam_ctl" where
  "rtw_camid_set c cam_id =
     (if cam_id < cam_num c then c\<lparr>cam_used := rtw_sec_cam_map_set (cam_used c) cam_id\<rparr> else c)"

definition rtw_camid_free :: "cam_ctl \<Rightarrow> nat \<Rightarrow> cam_ctl" where
  "rtw_camid_free c cam_id =
     (if cam_id < cam_num c then c\<lparr>cam_used := rtw_sec_cam_map_clr (cam_used c) cam_id\<rparr> else c)"

section \<open>Exchange of entries\<close>

definition swap_clean :: "bool \<Rightarrow> nat \<Rightarrow> cam_ctl \<Rightarrow> cam_ctl cres" where
  "swap_clean used i c = (if used then clear_cam_entry (rtw_camid_free c i) i else Inr c)"

definition swap_put :: "bool \<Rightarrow> nat \<Rightarrow> sec_cam_ent \<Rightarrow> cam_ctl \<Rightarrow> cam_ctl cres" where
  "swap_put used i e c =
     (if used then bindc (write_cam c i (ent_ctrl e) (ent_mac e) (ent_key e)) (\<lambda>c. Inr (rtw_camid_set c i)) else Inr c)"

text \<open>The copies are only made of used entries, and only those are looked at.\<close>

definition rtw_sec_cam_swap :: "cam_ctl \<Rightarrow> nat \<Rightarrow> nat \<Rightarrow> cam_ctl cres" where
  "rtw_sec_cam_swap c a b =
     (if a = b then Inr c
      else
        let a_used = rtw_sec_camid_is_used c a; b_used = rtw_sec_camid_is_used c b in
        bindc (if a_used then nth_chk (cam_cache c) a else Inr zero_ent) (\<lambda>cache_a.
        bindc (if b_used then nth_chk (cam_cache c) b else Inr zero_ent) (\<lambda>cache_b.
        bindc (swap_clean a_used a c) (\<lambda>c.
        bindc (swap_clean b_used b c) (\<lambda>c.
        bindc (swap_put a_used b cache_a c) (\<lambda>c.
        swap_put b_used a cache_b c))))))"

definition rtw_get_empty_cam_entry :: "cam_ctl \<Rightarrow> nat \<Rightarrow> nat option" where
  "rtw_get_empty_cam_entry c start_camid =
     find (\<lambda>i. \<not> rtw_sec_camid_is_used c i) [start_camid..<cam_num c]"

text \<open>The used default keys move to free entries behind them.\<close>

fun clean_dk :: "nat list \<Rightarrow> cam_ctl \<Rightarrow> cam_ctl cres" where
  "clean_dk [] c = Inr c"
| "clean_dk (i # is) c =
     bindc (if rtw_sec_camid_is_used c i then
              (case rtw_get_empty_cam_entry c 4 of None \<Rightarrow> Inr c
               | Some e \<Rightarrow> if e > 0 then rtw_sec_cam_swap c i e else Inr c)
            else Inr c) (clean_dk is)"

definition rtw_clean_dk_section :: "cam_ctl \<Rightarrow> cam_ctl cres" where
  "rtw_clean_dk_section c = clean_dk [0, 1, 2, 3] c"

definition rtw_clean_hw_dk_cam :: "cam_ctl \<Rightarrow> cam_ctl cres" where
  "rtw_clean_hw_dk_cam c =
     bindc (rtw_sec_clr_cam_ent (cam_hw c) 0) (\<lambda>hw.
     bindc (rtw_sec_clr_cam_ent hw 1) (\<lambda>hw.
     bindc (rtw_sec_clr_cam_ent hw 2) (\<lambda>hw.
     bindc (rtw_sec_clr_cam_ent hw 3) (\<lambda>hw.
     Inr (c\<lparr>cam_hw := hw\<rparr>)))))"

section \<open>Key commands\<close>

text \<open>\<open>while ((cam_id = rtw_camid_search(addr, -1, gk)) >= 0)\<close>: every entry that is found is cleared and freed.\<close>

fun clear_keys :: "nat \<Rightarrow> cam_ctl \<Rightarrow> u8 list \<Rightarrow> int \<Rightarrow> cam_ctl cres" where
  "clear_keys 0 c addr gk = Inl NoReturn"
| "clear_keys (Suc fuel) c addr gk =
     bindc (rtw_camid_search c (Some addr) (-1) gk) (\<lambda>found.
     case found of None \<Rightarrow> Inr c
     | Some i \<Rightarrow> bindc (clear_cam_entry c i) (\<lambda>c. clear_keys fuel (rtw_camid_free c i) addr gk))"

record key_parm =
  algorithm :: nat
  keyid :: nat
  kp_gk :: bool
  set_tx :: bool
  kp_key :: "u8 list"
  kp_addr :: "u8 list"

text \<open>The state of the interface: its keys, the connection state, the transmit key and the cipher.\<close>

record key_state =
  cam :: cam_ctl
  mlme_state :: u32
  key_index :: nat
  enc_algo :: nat

definition SEC_STATUS_STA_PK_GK_CONFLICT_DIS_BMC_SEARCH :: u32 where
  "SEC_STATUS_STA_PK_GK_CONFLICT_DIS_BMC_SEARCH = 1"
definition H2C_SUCCESS :: nat where "H2C_SUCCESS = 0"
definition H2C_SUCCESS_RSP :: nat where "H2C_SUCCESS_RSP = 1"
definition H2C_REJECTED :: nat where "H2C_REJECTED = 5"
definition WIFI_FW_STATION_STATE :: u32 where "WIFI_FW_STATION_STATE = 0x02"

definition key_ctrl :: "key_parm \<Rightarrow> bool \<Rightarrow> u16" where
  "key_ctrl pparm gk =
     BIT 15 OR push_bit 2 (of_nat (algorithm pparm)) OR of_nat (keyid pparm) OR (if gk then BIT 6 else 0)"

text \<open>\<open>known\<close>: whether the table of stations has the address.\<close>

definition set_stakey_hdl :: "nat \<Rightarrow> (u8 list \<Rightarrow> bool) \<Rightarrow> u8 list \<Rightarrow> key_parm \<Rightarrow> key_state \<Rightarrow> (nat \<times> key_state) cres" where
  "set_stakey_hdl fuel known bssid pparm s =
     (if algorithm pparm = 0 then
        bindc (clear_keys fuel (cam s) (kp_addr pparm) (-1)) (\<lambda>c. Inr (H2C_SUCCESS_RSP, s\<lparr>cam := c\<rparr>))
      else if \<not> known (kp_addr pparm) then Inr (H2C_REJECTED, s)
      else
        let s = s\<lparr>enc_algo := algorithm pparm\<rparr> in
        bindc (rtw_camid_alloc (cam s) (mlme_state s) bssid (Some (kp_addr pparm)) (keyid pparm) (if kp_gk pparm then 1 else 0))
          (\<lambda>(cam_id, used, c).
        case cam_id of None \<Rightarrow> Inr (H2C_SUCCESS, s\<lparr>cam := c\<rparr>)
        | Some i \<Rightarrow>
          bindc (rtw_camid_is_gk c i) (\<lambda>is_gk.
          bindc (if \<not> kp_gk pparm \<and> used \<and> is_gk
                 then clear_keys fuel (rtw_camctl_set_flags c SEC_STATUS_STA_PK_GK_CONFLICT_DIS_BMC_SEARCH) (kp_addr pparm) 1
                 else Inr c) (\<lambda>c.
          bindc (write_cam c i (key_ctrl pparm (kp_gk pparm)) (kp_addr pparm) (kp_key pparm)) (\<lambda>c.
          Inr (H2C_SUCCESS_RSP, s\<lparr>cam := c\<rparr>))))))"

text \<open>The state of the receive filter and of the default keys in the hardware is left out.\<close>

definition setkey_hdl :: "nat \<Rightarrow> (u8 list \<Rightarrow> bool) \<Rightarrow> u8 list \<Rightarrow> u8 list \<Rightarrow> key_parm \<Rightarrow> key_state \<Rightarrow> (nat \<times> key_state) cres" where
  "setkey_hdl fuel known bssid own_mac pparm s =
     (let s = (if set_tx pparm then s\<lparr>key_index := keyid pparm\<rparr> else s);
          ap = (mlme_state s AND 0x03 = WIFI_FW_AP_STATE \<or> mlme_state s AND 0x03 = WIFI_FW_ADHOC_STATE) in
      bindc (rtw_camid_alloc (cam s) (mlme_state s) bssid None (keyid pparm) 1) (\<lambda>(cam_id, used, c).
      case cam_id of None \<Rightarrow> Inr (H2C_SUCCESS, s\<lparr>cam := c\<rparr>)
      | Some i \<Rightarrow>
        let addr = (if i \<le> 3 then replicate 6 0 else if ap then own_mac else bssid) in
        bindc (rtw_camid_is_gk c i) (\<lambda>is_gk.
        if used \<and> \<not> is_gk then
          bindc (clear_keys fuel (rtw_camctl_set_flags c SEC_STATUS_STA_PK_GK_CONFLICT_DIS_BMC_SEARCH) addr 1) (\<lambda>c.
          Inr (H2C_SUCCESS, s\<lparr>cam := c\<rparr>))
        else
          bindc (write_cam c i (key_ctrl pparm True) addr (kp_key pparm)) (\<lambda>c.
          let s = s\<lparr>cam := c\<rparr> in
          if (algorithm pparm = 1 \<or> algorithm pparm = 5) \<and> mlme_state s AND 0x03 = WIFI_FW_STATION_STATE \<and>
             rtw_camctl_chk_cap c SEC_CAP_CHK_BMC
          then bindc (set_stakey_hdl fuel known bssid
              \<lparr> algorithm = algorithm pparm, keyid = keyid pparm, kp_gk = False, set_tx = False, kp_key = kp_key pparm,
                kp_addr = bssid \<rparr> s) (\<lambda>(_, s). Inr (H2C_SUCCESS, s))
          else Inr (H2C_SUCCESS, s)))))"

section \<open>Bitmaps as sets\<close>

text \<open>The contract of a bitmap of identifiers below \<open>lim\<close>.\<close>

locale id_bitmap =
  fixes is_set :: "'m \<Rightarrow> nat \<Rightarrow> bool"
    and st :: "'m \<Rightarrow> nat \<Rightarrow> 'm"
    and clr :: "'m \<Rightarrow> nat \<Rightarrow> 'm"
    and lim :: nat
  assumes is_set_st: "is_set (st m i) j \<longleftrightarrow> j = i \<and> i < lim \<or> is_set m j"
    and is_set_clr: "is_set (clr m i) j \<longleftrightarrow> is_set m j \<and> j \<noteq> i"
    and is_set_lim: "is_set m j \<Longrightarrow> j < lim"
begin

lemma ids_st: "i < lim \<Longrightarrow> {j. is_set (st m i) j} = insert i {j. is_set m j}"
  by (auto simp: is_set_st)

lemma ids_clr: "{j. is_set (clr m i) j} = {j. is_set m j} - {i}"
  by (auto simp: is_set_clr)

lemma ids_finite [simp]: "finite {j. is_set m j}"
  by (rule finite_subset [of _ "{..<lim}"]) (auto dest: is_set_lim)

text \<open>Taking the first free identifier, and giving it back.\<close>

lemma first_free_new:
  assumes "find (\<lambda>i. P i \<and> \<not> is_set m i) [a..<b] = Some i" and "b \<le> lim"
  shows "i \<notin> {j. is_set m j}" "{j. is_set (st m i) j} = insert i {j. is_set m j}"
    "card {j. is_set (st m i) j} = Suc (card {j. is_set m j})" "{j. is_set (clr (st m i) i) j} = {j. is_set m j}"
proof -
  from assms(1) obtain k where "k < length [a..<b]" "\<not> is_set m ([a..<b] ! k)" "i = [a..<b] ! k"
    by (auto simp: find_Some_iff)
  then have i: "\<not> is_set m i" "i < lim" using assms(2) by auto
  then show "i \<notin> {j. is_set m j}" "{j. is_set (st m i) j} = insert i {j. is_set m j}" by (auto simp: is_set_st)
  then show "card {j. is_set (st m i) j} = Suc (card {j. is_set m j})" by (simp add: card_insert_if)
  show "{j. is_set (clr (st m i) i) j} = {j. is_set m j}" using i by (auto simp: is_set_clr is_set_st)
qed

lemma first_free_none: "find (\<lambda>i. P i \<and> \<not> is_set m i) [a..<b] = None \<longleftrightarrow> (\<forall>i. a \<le> i \<and> i < b \<and> P i \<longrightarrow> is_set m i)"
  by (auto simp: find_None_iff)

end

lemma BIT_and: "(w AND BIT i \<noteq> 0) \<longleftrightarrow> bit w i" for w :: "'a :: len word"
  by (simp add: BIT_def and_exp_eq_0_iff_not_bit)

lemma bit_BIT: "bit (BIT i :: 'a :: len word) j \<longleftrightarrow> j = i \<and> i < LENGTH('a)"
  by (auto simp: BIT_def bit_simps)

lemma sec_cam_is_set: "rtw_sec_camid_is_set m i \<longleftrightarrow> bit m i"
  using bit_imp_le_length [of m i] BIT_and [of m i] by (auto simp: rtw_sec_camid_is_set_def)

interpretation cam_ids: id_bitmap rtw_sec_camid_is_set rtw_sec_cam_map_set rtw_sec_cam_map_clr 32
proof unfold_locales
  fix m i j
  show "rtw_sec_camid_is_set (rtw_sec_cam_map_set m i) j \<longleftrightarrow> j = i \<and> i < 32 \<or> rtw_sec_camid_is_set m j"
    by (auto simp: sec_cam_is_set rtw_sec_cam_map_set_def bit_simps bit_BIT)
  show "rtw_sec_camid_is_set (rtw_sec_cam_map_clr m i) j \<longleftrightarrow> rtw_sec_camid_is_set m j \<and> j \<noteq> i"
    using bit_imp_le_length [of m j] by (auto simp: sec_cam_is_set rtw_sec_cam_map_clr_def bit_simps bit_BIT)
  show "rtw_sec_camid_is_set m j \<Longrightarrow> j < 32"
    using bit_imp_le_length [of m j] by (simp add: sec_cam_is_set)
qed

section \<open>The hardware table and its cache\<close>

lemma bit_high: "8 \<le> n \<Longrightarrow> \<not> bit (a :: u8) n" "16 \<le> n \<Longrightarrow> \<not> bit (b :: u16) n"
  by (auto dest: bit_imp_le_length)

lemma put_get_le32: "put_le32 (get_le32 a b c d) = [a, b, c, d]"
  by (simp add: put_le32_def get_le32_def) (auto intro!: bit_word_eqI simp: bit_simps bit_high)

lemma get_le16_nth [simp]: "get_le16 ([a, b] ! 0) ([a, b] ! Suc 0) = get_le16 a b"
  by simp

definition ent_ok :: "sec_cam_ent \<Rightarrow> bool" where
  "ent_ok e \<longleftrightarrow> length (ent_mac e) = 6 \<and> length (ent_key e) = 16"

text \<open>The cache has its 32 entries, and the hardware holds the same entries.\<close>

definition cam_ok :: "cam_ctl \<Rightarrow> bool" where
  "cam_ok c \<longleftrightarrow> length (cam_cache c) = 32 \<and> length (cam_hw c) = 256 \<and> cam_num c \<le> 32 \<and>
     (\<forall>e \<in> set (cam_cache c). ent_ok e) \<and> (\<forall>i < 32. rtw_sec_read_cam_ent (cam_hw c) i = Inr (cam_cache c ! i))"

lemma cam_word_0: "put_le32 (cam_word ctrl mac key 0) = [ucast ctrl, ucast (drop_bit 8 ctrl), mac ! 0, mac ! 1]"
  unfolding cam_word_def put_le32_def by (auto intro!: bit_word_eqI simp: bit_simps bit_high)

lemma cam_ent_words:
  assumes "length mac = 6" and "length key = 16"
  shows "get_le16 (put_le32 (cam_word ctrl mac key 0) ! 0) (put_le32 (cam_word ctrl mac key 0) ! 1) = ctrl"
    "drop 2 (put_le32 (cam_word ctrl mac key 0)) @ put_le32 (cam_word ctrl mac key 1) = mac"
    "put_le32 (cam_word ctrl mac key 2) @ put_le32 (cam_word ctrl mac key 3) @ put_le32 (cam_word ctrl mac key 4) @
       put_le32 (cam_word ctrl mac key 5) = key"
proof -
  have "get_le16 (ucast ctrl) (ucast (drop_bit 8 ctrl)) = ctrl"
    by (auto intro!: bit_word_eqI simp: get_le16_def bit_simps dest: bit_imp_le_length)
  then show "get_le16 (put_le32 (cam_word ctrl mac key 0) ! 0) (put_le32 (cam_word ctrl mac key 0) ! 1) = ctrl"
    by (simp add: cam_word_0)
  obtain m0 m1 m2 m3 m4 m5 where "mac = [m0, m1, m2, m3, m4, m5]"
    using assms(1) by (auto simp: numeral_eq_Suc length_Suc_conv)
  then show "drop 2 (put_le32 (cam_word ctrl mac key 0)) @ put_le32 (cam_word ctrl mac key 1) = mac"
    unfolding cam_word_0 by (simp add: cam_word_def word_at_def put_get_le32)
  have "length (take 4 key) = 4" "length (take 4 (drop 4 key)) = 4" "length (take 4 (drop 8 key)) = 4"
    "length (drop 12 key) = 4" using assms(2) by simp_all
  have w: "put_le32 (word_at key n) = take 4 (drop n key)" if "n + 4 \<le> 16" for n
    using that assms(2) by (simp add: word_at_def put_get_le32 list_eq_iff_nth_eq less_Suc_eq numeral_eq_Suc)
  show "put_le32 (cam_word ctrl mac key 2) @ put_le32 (cam_word ctrl mac key 3) @ put_le32 (cam_word ctrl mac key 4) @
       put_le32 (cam_word ctrl mac key 5) = key"
  proof -
    have "key = take 4 key @ take 4 (drop 4 key) @ take 4 (drop 8 key) @ take 4 (drop 12 key)"
      using assms(2) by (simp add: list_eq_iff_nth_eq nth_append less_Suc_eq numeral_eq_Suc)
    moreover have "cam_word ctrl mac key j = word_at key (4 * (j - 2))" if "j \<in> {2, 3, 4, 5}" for j
      using that by (auto simp: cam_word_def)
    ultimately show ?thesis by (simp add: w)
  qed
qed

lemma write_words_at:
  assumes "i < 32" and "length hw = 256" and "\<forall>j \<in> set js. j < 8" and "distinct js"
  shows "\<exists>hw'. write_words hw i w js = Inr hw' \<and> length hw' = 256 \<and>
    (\<forall>k < 256. hw' ! k = (if k div 8 = i \<and> k mod 8 \<in> set js then w (k mod 8) else hw ! k))"
  using assms(2-)
proof (induction js arbitrary: hw)
  case (Cons j js)
  have j: "j < 8" and at: "(i * 8 + j) mod 256 = i * 8 + j" "i * 8 + j < 256" using Cons.prems(2) assms(1) by auto
  let ?hw = "hw[i * 8 + j := w j]"
  have step: "rtw_sec_write_cam hw (i * 8 + j) (w j) = Inr ?hw"
    unfolding rtw_sec_write_cam_def at(1) using at(2) Cons.prems(1) by (simp add: upd_chk_def)
  obtain hw' where hw': "write_words ?hw i w js = Inr hw'" "length hw' = 256"
    "\<forall>k < 256. hw' ! k = (if k div 8 = i \<and> k mod 8 \<in> set js then w (k mod 8) else ?hw ! k)"
    using Cons.IH [of ?hw] Cons.prems by auto
  have "(if k div 8 = i \<and> k mod 8 \<in> set js then w (k mod 8) else ?hw ! k) =
      (if k div 8 = i \<and> k mod 8 \<in> set (j # js) then w (k mod 8) else hw ! k)" if "k < 256" for k
  proof (cases "k = i * 8 + j")
    case True
    then have "k div 8 = i" "k mod 8 = j" using j by simp_all
    then show ?thesis using True that Cons.prems(1,3) by simp
  next
    case False
    then have "\<not> (k div 8 = i \<and> k mod 8 = j)" by (metis div_mult_mod_eq)
    then show ?thesis using False that by auto
  qed
  then show ?case using hw' step by (intro exI [of _ hw']) (simp del: nth_list_update)
qed simp

lemma read_ent_eq:
  assumes "i < 32" and "length hw = 256"
  shows "rtw_sec_read_cam_ent hw i = Inr \<lparr> ent_ctrl = get_le16 (put_le32 (hw ! (i * 8)) ! 0) (put_le32 (hw ! (i * 8)) ! 1),
    ent_mac = drop 2 (put_le32 (hw ! (i * 8))) @ put_le32 (hw ! (i * 8 + 1)),
    ent_key = put_le32 (hw ! (i * 8 + 2)) @ put_le32 (hw ! (i * 8 + 3)) @ put_le32 (hw ! (i * 8 + 4)) @ put_le32 (hw ! (i * 8 + 5)) \<rparr>"
proof -
  have "i * 8 mod 256 = i * 8" "(i * 8 + 1) mod 256 = i * 8 + 1" "(i * 8 + 2) mod 256 = i * 8 + 2"
    "(i * 8 + 3) mod 256 = i * 8 + 3" "(i * 8 + 4) mod 256 = i * 8 + 4" "(i * 8 + 5) mod 256 = i * 8 + 5"
    using assms(1) by auto
  then show ?thesis
    using assms unfolding rtw_sec_read_cam_ent_def by (simp only: nth_chk_ok bindc_Inr)
qed

text \<open>Writing an entry changes what is read at its place, and only there.\<close>

lemma write_ent:
  assumes "i < 32" and "length hw = 256" and "length mac = 6" and "length key = 16"
  shows "\<exists>hw'. rtw_sec_write_cam_ent hw i ctrl mac key = Inr hw' \<and> length hw' = 256 \<and>
    (\<forall>j < 32. rtw_sec_read_cam_ent hw' j =
       (if j = i then Inr \<lparr> ent_ctrl = ctrl, ent_mac = mac, ent_key = key \<rparr> else rtw_sec_read_cam_ent hw j))"
proof -
  let ?w = "cam_word ctrl mac key"
  have "\<forall>j \<in> set [7, 6, 5, 4, 3, 2, 1, 0 :: nat]. j < 8" "distinct [7, 6, 5, 4, 3, 2, 1, 0 :: nat]" by simp_all
  from write_words_at [OF assms(1,2) this, of ?w]
  obtain hw' where w: "write_words hw i ?w [7, 6, 5, 4, 3, 2, 1, 0] = Inr hw'" and len: "length hw' = 256"
    and all: "\<forall>k < 256. hw' ! k = (if k div 8 = i \<and> k mod 8 \<in> set [7, 6, 5, 4, 3, 2, 1, 0] then ?w (k mod 8) else hw ! k)"
    by blast
  have k: "hw' ! (j * 8 + n) = (if j = i then ?w n else hw ! (j * 8 + n))" if "j < 32" "n < 6" for j n
  proof -
    have "j * 8 + n < 256" "(j * 8 + n) div 8 = j" "(j * 8 + n) mod 8 = n" "n \<in> set [7, 6, 5, 4, 3, 2, 1, 0]" using that by auto
    then show ?thesis using all by simp
  qed
  note k0 = k [of _ 0, simplified]
  have "rtw_sec_read_cam_ent hw' j =
      (if j = i then Inr \<lparr> ent_ctrl = ctrl, ent_mac = mac, ent_key = key \<rparr> else rtw_sec_read_cam_ent hw j)" if "j < 32" for j
    unfolding read_ent_eq [OF that len] read_ent_eq [OF that assms(2)] using that cam_ent_words [OF assms(3,4), of ctrl]
    by (cases "j = i") (simp_all only: k k0 if_True if_False simp_thms, simp_all add: k k0)
  moreover have "rtw_sec_write_cam_ent hw i ctrl mac key = Inr hw'"
    using w assms(3,4) rdn_self [of mac] rdn_self [of key] by (simp add: rtw_sec_write_cam_ent_def)
  ultimately show ?thesis using len by blast
qed

lemma cam_okD:
  assumes "cam_ok c"
  shows "length (cam_cache c) = 32" "length (cam_hw c) = 256" "cam_num c \<le> 32"
    "i < 32 \<Longrightarrow> length (ent_mac (cam_cache c ! i)) = 6" "i < 32 \<Longrightarrow> length (ent_key (cam_cache c ! i)) = 16"
  using assms by (auto simp: cam_ok_def ent_ok_def)

lemma cam_ok_used [simp]: "cam_ok (c\<lparr>cam_used := u\<rparr>) = cam_ok c"
  by (simp add: cam_ok_def)

lemma cam_ok_flags [simp]: "cam_ok (c\<lparr>cam_flags := u\<rparr>) = cam_ok c"
  by (simp add: cam_ok_def)

lemma cam_ok_free [simp]: "cam_ok (rtw_camid_free c i) = cam_ok c"
  by (simp add: rtw_camid_free_def)

lemma cam_ok_set [simp]: "cam_ok (rtw_camid_set c i) = cam_ok c"
  by (simp add: rtw_camid_set_def)

abbreviation ent_set :: "cam_ctl \<Rightarrow> nat \<Rightarrow> sec_cam_ent \<Rightarrow> u32 list \<Rightarrow> cam_ctl" where
  "ent_set c i e hw \<equiv> c\<lparr>cam_hw := hw, cam_cache := (cam_cache c)[i := e]\<rparr>"

lemma write_cam_ok:
  assumes "cam_ok c" and "i < 32" and "length mac = 6" and "length key = 16"
  shows "\<exists>hw. write_cam c i ctrl mac key = Inr (ent_set c i \<lparr> ent_ctrl = ctrl, ent_mac = mac, ent_key = key \<rparr> hw) \<and>
    cam_ok (ent_set c i \<lparr> ent_ctrl = ctrl, ent_mac = mac, ent_key = key \<rparr> hw)"
proof -
  let ?e = "\<lparr> ent_ctrl = ctrl, ent_mac = mac, ent_key = key \<rparr>"
  obtain hw where hw: "rtw_sec_write_cam_ent (cam_hw c) i ctrl mac key = Inr hw" "length hw = 256"
    "\<forall>j < 32. rtw_sec_read_cam_ent hw j = (if j = i then Inr ?e else rtw_sec_read_cam_ent (cam_hw c) j)"
    using write_ent [OF assms(2) cam_okD(2) [OF assms(1)] assms(3,4), of ctrl] by blast
  have "write_cam c i ctrl mac key = Inr (ent_set c i ?e hw)"
    using hw(1) assms(2-4) cam_okD(1) [OF assms(1)] rdn_self [of mac] rdn_self [of key]
    by (simp add: write_cam_def write_cam_hw_def write_cam_cache_def upd_chk_def)
  moreover have "cam_ok (ent_set c i ?e hw)"
    using assms hw(2,3) unfolding cam_ok_def by (auto simp: ent_ok_def nth_list_update dest!: subsetD [OF set_update_subset_insert])
  ultimately show ?thesis by blast
qed

lemma clear_cam_entry_ok:
  assumes "cam_ok c" and "i < 32"
  shows "\<exists>hw. clear_cam_entry c i = Inr (ent_set c i zero_ent hw) \<and> cam_ok (ent_set c i zero_ent hw)"
proof -
  have "clear_cam_entry c i = write_cam c i 0 (replicate 6 0) (replicate 16 0)"
    using rdn_self [of "replicate 6 (0 :: u8)"] rdn_self [of "replicate 16 (0 :: u8)"]
    by (simp add: clear_cam_entry_def write_cam_def write_cam_cache_def clear_cam_cache_def zero_ent_def)
  with write_cam_ok [OF assms, of "replicate 6 0" "replicate 16 0" 0] show ?thesis
    by (simp add: zero_ent_def)
qed

section \<open>Exchange and compaction\<close>

text \<open>What the hardware decrypts with: the entries in use, below the number of entries.\<close>

definition cam_view :: "cam_ctl \<Rightarrow> nat \<Rightarrow> sec_cam_ent option" where
  "cam_view c i = (if rtw_sec_camid_is_used c i then Some (cam_cache c ! i) else None)"

lemma is_used_clr: "a < cam_num c \<Longrightarrow> rtw_sec_camid_is_used (rtw_camid_free c a) j \<longleftrightarrow> rtw_sec_camid_is_used c j \<and> j \<noteq> a"
  by (simp add: rtw_sec_camid_is_used_def rtw_camid_free_def cam_ids.is_set_clr)

lemma is_used_set: "a < cam_num c \<Longrightarrow> a < 32 \<Longrightarrow> rtw_sec_camid_is_used (rtw_camid_set c a) j \<longleftrightarrow> rtw_sec_camid_is_used c j \<or> j = a"
  by (auto simp: rtw_sec_camid_is_used_def rtw_camid_set_def cam_ids.is_set_st)

lemma is_used_ent_set [simp]: "rtw_sec_camid_is_used (ent_set c i e hw) = rtw_sec_camid_is_used c"
  by (simp add: rtw_sec_camid_is_used_def fun_eq_iff)

lemma is_used_num: "rtw_sec_camid_is_used c i \<Longrightarrow> i < cam_num c"
  by (auto simp: rtw_sec_camid_is_used_def split: if_splits)

lemma view_None: "cam_view c i = None \<longleftrightarrow> \<not> rtw_sec_camid_is_used c i"
  by (simp add: cam_view_def)

lemma used_view: "rtw_sec_camid_is_used c i \<longleftrightarrow> cam_view c i \<noteq> None"
  by (simp add: cam_view_def)

lemma swap_clean_ok:
  assumes "cam_ok c" and "used \<longleftrightarrow> rtw_sec_camid_is_used c i"
  shows "\<exists>c'. swap_clean used i c = Inr c' \<and> cam_ok c' \<and> cam_num c' = cam_num c \<and> cam_view c' = (cam_view c)(i := None)"
proof (cases used)
  case True
  then have i: "i < cam_num c" "i < 32" using assms is_used_num [of c i] cam_okD(3) [OF assms(1)] by auto
  obtain hw where "clear_cam_entry (rtw_camid_free c i) i = Inr (ent_set (rtw_camid_free c i) i zero_ent hw)"
      "cam_ok (ent_set (rtw_camid_free c i) i zero_ent hw)"
    using clear_cam_entry_ok [of "rtw_camid_free c i" i] i(2) assms(1) by auto
  moreover have "cam_view (ent_set (rtw_camid_free c i) i zero_ent hw) = (cam_view c)(i := None)"
    using i by (auto simp: cam_view_def fun_eq_iff rtw_sec_camid_is_used_def rtw_camid_free_def cam_ids.is_set_clr)
  ultimately show ?thesis using True by (auto simp: swap_clean_def rtw_camid_free_def)
next
  case False
  then show ?thesis using assms by (auto simp: swap_clean_def fun_eq_iff cam_view_def)
qed

lemma swap_put_ok:
  assumes "cam_ok c" and "i < cam_num c" and "used \<Longrightarrow> ent_ok e"
  shows "\<exists>c'. swap_put used i e c = Inr c' \<and> cam_ok c' \<and> cam_num c' = cam_num c \<and>
    cam_view c' = (if used then (cam_view c)(i \<mapsto> e) else cam_view c)"
proof (cases used)
  case True
  have i: "i < 32" using assms(2) cam_okD(3) [OF assms(1)] by simp
  have e: "\<lparr> ent_ctrl = ent_ctrl e, ent_mac = ent_mac e, ent_key = ent_key e \<rparr> = e" by (cases e) simp
  obtain hw where hw: "write_cam c i (ent_ctrl e) (ent_mac e) (ent_key e) = Inr (ent_set c i e hw)" "cam_ok (ent_set c i e hw)"
    using write_cam_ok [OF assms(1) i, of "ent_mac e" "ent_key e" "ent_ctrl e"] assms(3) [OF True] unfolding e
    by (auto simp: ent_ok_def)
  let ?c = "rtw_camid_set (ent_set c i e hw) i"
  have n: "cam_num (ent_set c i e hw) = cam_num c" by simp
  have "cam_view ?c = (cam_view c)(i \<mapsto> e)"
    using i assms(2) cam_okD(1) [OF assms(1)]
    by (auto simp: cam_view_def fun_eq_iff rtw_sec_camid_is_used_def rtw_camid_set_def cam_ids.is_set_st)
  moreover have "cam_num ?c = cam_num c" by (simp add: rtw_camid_set_def)
  ultimately show ?thesis using True hw by (auto simp: swap_put_def)
next
  case False
  then show ?thesis using assms by (simp add: swap_put_def)
qed

lemma swap_ok:
  assumes "cam_ok c" and "a < cam_num c" and "b < cam_num c"
  shows "\<exists>c'. rtw_sec_cam_swap c a b = Inr c' \<and> cam_ok c' \<and> cam_num c' = cam_num c \<and>
    cam_view c' = (cam_view c)(a := cam_view c b, b := cam_view c a)"
proof (cases "a = b")
  case True
  then show ?thesis using assms by (auto simp: rtw_sec_cam_swap_def)
next
  case False
  let ?ua = "rtw_sec_camid_is_used c a" and ?ub = "rtw_sec_camid_is_used c b"
  let ?ea = "if ?ua then cam_cache c ! a else zero_ent" and ?eb = "if ?ub then cam_cache c ! b else zero_ent"
  have lt: "a < 32" "b < 32" using assms(2,3) cam_okD(3) [OF assms(1)] by simp_all
  have get: "(if ?ua then nth_chk (cam_cache c) a else Inr zero_ent) = Inr ?ea"
    "(if ?ub then nth_chk (cam_cache c) b else Inr zero_ent) = Inr ?eb"
    using lt cam_okD(1) [OF assms(1)] by (simp_all add: nth_chk_ok)
  have ok: "?ua \<Longrightarrow> ent_ok ?ea" "?ub \<Longrightarrow> ent_ok ?eb" using lt cam_okD(4,5) [OF assms(1)] by (simp_all add: ent_ok_def)
  obtain c1 where c1: "swap_clean ?ua a c = Inr c1" "cam_ok c1" "cam_num c1 = cam_num c" "cam_view c1 = (cam_view c)(a := None)"
    using swap_clean_ok [OF assms(1) refl] by blast
  have "?ub = rtw_sec_camid_is_used c1 b"
    using fun_cong [OF c1(4), of b] view_None [of c1 b] view_None [of c b] False by auto
  then obtain c2 where c2: "swap_clean ?ub b c1 = Inr c2" "cam_ok c2" "cam_num c2 = cam_num c" "cam_view c2 = (cam_view c1)(b := None)"
    using swap_clean_ok [OF c1(2)] c1(3) by metis
  obtain c3 where c3: "swap_put ?ua b ?ea c2 = Inr c3" "cam_ok c3" "cam_num c3 = cam_num c"
    "cam_view c3 = (if ?ua then (cam_view c2)(b \<mapsto> ?ea) else cam_view c2)"
    using swap_put_ok [OF c2(2), of b ?ua ?ea] ok(1) assms(3) c2(3) by auto
  obtain c4 where c4: "swap_put ?ub a ?eb c3 = Inr c4" "cam_ok c4" "cam_num c4 = cam_num c"
    "cam_view c4 = (if ?ub then (cam_view c3)(a \<mapsto> ?eb) else cam_view c3)"
    using swap_put_ok [OF c3(2), of a ?ub ?eb] ok(2) assms(2) c3(3) by auto
  have "cam_view c4 = (cam_view c)(a := cam_view c b, b := cam_view c a)"
    using False unfolding c4(4) c3(4) c2(4) c1(4) by (auto simp: fun_eq_iff cam_view_def)
  moreover have "rtw_sec_cam_swap c a b = Inr c4"
    using False unfolding rtw_sec_cam_swap_def Let_def get bindc_Inr c1(1) c2(1) c3(1) c4(1) by simp
  ultimately show ?thesis using c4(2,3) by blast
qed

text \<open>The entries in use with their number, wherever they lie.\<close>

definition cam_entries :: "cam_ctl \<Rightarrow> sec_cam_ent option multiset" where
  "cam_entries c = mset (map (cam_view c) [0..<cam_num c])"

lemma entries_swap:
  assumes "a < cam_num c" and "b < cam_num c" and "cam_num c' = cam_num c"
    and "cam_view c' = (cam_view c)(a := cam_view c b, b := cam_view c a)"
  shows "cam_entries c' = cam_entries c"
proof -
  let ?xs = "map (cam_view c) [0..<cam_num c]"
  have "map (cam_view c') [0..<cam_num c'] = ?xs[a := ?xs ! b, b := ?xs ! a]"
    using assms by (intro nth_equalityI) (auto simp: nth_list_update)
  then show ?thesis
    using assms(1,2) mset_swap [of b ?xs a] by (simp add: cam_entries_def)
qed

lemma empty_entry:
  "rtw_get_empty_cam_entry c s = Some e \<Longrightarrow> s \<le> e \<and> e < cam_num c \<and> \<not> rtw_sec_camid_is_used c e"
  "rtw_get_empty_cam_entry c s = None \<longleftrightarrow> {i. s \<le> i \<and> i < cam_num c \<and> \<not> rtw_sec_camid_is_used c i} = {}"
  by (auto simp: rtw_get_empty_cam_entry_def find_Some_iff find_None_iff)

lemma clean_dk_ok:
  assumes "cam_ok c" and "4 \<le> cam_num c" and "set is \<subseteq> {..<4}" and "distinct is"
  shows "\<exists>c'. clean_dk is c = Inr c' \<and> cam_ok c' \<and> cam_num c' = cam_num c \<and> cam_entries c' = cam_entries c \<and>
    (\<forall>j < 4. j \<notin> set is \<longrightarrow> cam_view c' j = cam_view c j) \<and>
    (card {i \<in> set is. rtw_sec_camid_is_used c i} \<le> card {i. 4 \<le> i \<and> i < cam_num c \<and> \<not> rtw_sec_camid_is_used c i} \<longrightarrow>
      (\<forall>i \<in> set is. \<not> rtw_sec_camid_is_used c' i))"
  using assms
proof (induction "is" arbitrary: c)
  case (Cons i "is")
  let ?F = "\<lambda>c. {i. 4 \<le> i \<and> i < cam_num c \<and> \<not> rtw_sec_camid_is_used c i}" and ?U = "\<lambda>is c. {i \<in> set is. rtw_sec_camid_is_used c i}"
  define step where "step = (if rtw_sec_camid_is_used c i then
              (case rtw_get_empty_cam_entry c 4 of None \<Rightarrow> Inr c
               | Some e \<Rightarrow> if e > 0 then rtw_sec_cam_swap c i e else Inr c) else Inr c)"
  have i: "i < 4" "i < cam_num c" "i \<notin> set is" using Cons.prems by auto
  obtain d where d: "step = Inr d" "cam_ok d" "cam_num d = cam_num c" "cam_entries d = cam_entries c"
    "\<forall>j < 4. j \<noteq> i \<longrightarrow> cam_view d j = cam_view c j"
    "card (?U (i # is) c) \<le> card (?F c) \<longrightarrow> \<not> rtw_sec_camid_is_used d i \<and> card (?U is d) \<le> card (?F d)"
  proof (cases "rtw_sec_camid_is_used c i")
    case False
    then have "?U (i # is) c = ?U is c" by auto
    then show ?thesis using that [of c] False Cons.prems(1) by (simp add: step_def)
  next
    case used: True
    have U: "?U (i # is) c = insert i (?U is c)" using used by auto
    show ?thesis
    proof (cases "rtw_get_empty_cam_entry c 4")
      case None
      then have "?F c = {}" by (simp add: empty_entry(2))
      then have "card (?F c) = 0" by (simp only: card.empty)
      moreover have "card (?U (i # is) c) \<noteq> 0" unfolding U by simp
      ultimately have "\<not> card (?U (i # is) c) \<le> card (?F c)" by (simp only: le_zero_eq simp_thms)
      moreover have "step = Inr c" using None used by (simp add: step_def)
      ultimately show ?thesis using that [of c] Cons.prems(1) by blast
    next
      case (Some e)
      note e = conjunct1 [OF empty_entry(1) [OF Some]] conjunct2 [OF empty_entry(1) [OF Some]]
      have en: "e < cam_num c" "\<not> rtw_sec_camid_is_used c e" "e > 0" "e \<noteq> i" using e i(1) by auto
      obtain d where d: "rtw_sec_cam_swap c i e = Inr d" "cam_ok d" "cam_num d = cam_num c"
        "cam_view d = (cam_view c)(i := cam_view c e, e := cam_view c i)"
        using swap_ok [OF Cons.prems(1) i(2) en(1)] by blast
      have u: "rtw_sec_camid_is_used d j \<longleftrightarrow> j \<noteq> i \<and> (j = e \<or> rtw_sec_camid_is_used c j)" for j
        using used en(2,4) unfolding used_view d(4) by simp
      have "?F c = insert e (?F d)"
      proof (rule set_eqI)
        fix j
        show "j \<in> ?F c \<longleftrightarrow> j \<in> insert e (?F d)" using e(1) en i(1) d(3) u [of j] by auto
      qed
      moreover have "e \<notin> ?F d" using u en(4) by auto
      ultimately have cF: "card (?F c) = Suc (card (?F d))" by (simp only: card_insert_disjoint finite_Collect_conjI finite_Collect_less_nat simp_thms)
      have Ud: "?U is d = ?U is c"
      proof (rule Collect_cong)
        fix j
        show "j \<in> set is \<and> rtw_sec_camid_is_used d j \<longleftrightarrow> j \<in> set is \<and> rtw_sec_camid_is_used c j"
          using e(1) i(3) Cons.prems(3) u [of j] by auto
      qed
      have cU: "card (?U (i # is) c) = Suc (card (?U is c))" unfolding U using i(3) by simp
      have "\<not> rtw_sec_camid_is_used d i" using u by simp
      then have "card (?U (i # is) c) \<le> card (?F c) \<longrightarrow> \<not> rtw_sec_camid_is_used d i \<and> card (?U is d) \<le> card (?F d)"
        unfolding cF cU Ud by (simp only: Suc_le_mono simp_thms)
      moreover have "step = Inr d" using used Some en(3) d(1) by (simp add: step_def)
      moreover have "\<forall>j < 4. j \<noteq> i \<longrightarrow> cam_view d j = cam_view c j" using e(1) by (simp add: d(4))
      ultimately show ?thesis using that d entries_swap [OF i(2) en(1) d(3,4)] by blast
    qed
  qed
  obtain c' where c': "clean_dk is d = Inr c'" "cam_ok c'" "cam_num c' = cam_num d" "cam_entries c' = cam_entries d"
    "\<forall>j < 4. j \<notin> set is \<longrightarrow> cam_view c' j = cam_view d j"
    "card (?U is d) \<le> card (?F d) \<longrightarrow> (\<forall>i \<in> set is. \<not> rtw_sec_camid_is_used c' i)"
    using Cons.IH [OF d(2)] Cons.prems(2-4) d(3) by auto
  have "rtw_sec_camid_is_used c' i = rtw_sec_camid_is_used d i"
    using c'(5) i view_None [of c' i] view_None [of d i] by auto
  then show ?case
    using c' d i unfolding step_def by (intro exI [of _ c']) auto
qed auto

section \<open>Clearing the keys of an address\<close>

lemma find_ent_Some:
  "find_ent P is = Inr (Some i) \<Longrightarrow> i \<in> set is \<and> P i = Inr True"
  by (induction "is") (auto split: if_splits)

lemma find_ent_None: "find_ent P is = Inr None \<Longrightarrow> i \<in> set is \<Longrightarrow> P i = Inr False"
  by (induction "is") (auto split: if_splits)

lemma find_ent_total: "(\<And>i. i \<in> set is \<Longrightarrow> P i = Inr (Q i)) \<Longrightarrow> find_ent P is = Inr (find Q is)"
  by (induction "is") auto

text \<open>What an entry is compared with.\<close>

definition ent_gk :: "cam_ctl \<Rightarrow> nat \<Rightarrow> bool" where
  "ent_gk c i \<longleftrightarrow> rtw_sec_camid_is_used c i \<and> bit (ent_ctrl (cam_cache c ! i)) 6"

definition ent_kid :: "cam_ctl \<Rightarrow> nat \<Rightarrow> int" where
  "ent_kid c i = uint (ent_ctrl (cam_cache c ! i) AND 0x03)"

definition ent_matches :: "cam_ctl \<Rightarrow> u8 list \<Rightarrow> int \<Rightarrow> int \<Rightarrow> nat \<Rightarrow> bool" where
  "ent_matches c addr kid gk i \<longleftrightarrow> ent_mac (cam_cache c ! i) = addr \<and> (kid < 0 \<or> kid = ent_kid c i) \<and>
     (gk = -1 \<or> (gk \<noteq> 0 \<longleftrightarrow> ent_gk c i))"

lemma is_gk_total: "cam_ok c \<Longrightarrow> rtw_camid_is_gk c i = Inr (ent_gk c i)"
  using is_used_num [of c i] cam_okD(1,3) [of c] by (auto simp: rtw_camid_is_gk_def ent_gk_def nth_chk_def BIT_and)

lemma cam_cache_chk_total:
  assumes "cam_ok c" and "i < cam_num c"
  shows "cam_cache_chk c i (Some addr) kid gk = Inr (ent_matches c addr kid gk i)"
proof -
  have "nth_chk (cam_cache c) i = Inr (cam_cache c ! i)" using assms cam_okD(1,3) [OF assms(1)] by (simp add: nth_chk_def)
  then show ?thesis
    using is_gk_total [OF assms(1), of i] by (auto simp: cam_cache_chk_def ent_matches_def ent_kid_def)
qed

lemma search_total: "cam_ok c \<Longrightarrow> rtw_camid_search c (Some addr) kid gk = Inr (find (ent_matches c addr kid gk) [0..<cam_num c])"
  unfolding rtw_camid_search_def by (rule find_ent_total) (simp add: cam_cache_chk_total)

lemma find_upt_Some: "find P [0..<n] = Some i \<Longrightarrow> i < n \<and> P i"
  by (auto simp: find_Some_iff)

lemma find_upt_None: "find P [0..<n] = None \<longleftrightarrow> (\<forall>i < n. \<not> P i)"
  by (auto simp: find_None_iff)

text \<open>The entries of an address, with type \<open>gk\<close>: every round of the loop removes one of them.\<close>

abbreviation matching :: "cam_ctl \<Rightarrow> u8 list \<Rightarrow> int \<Rightarrow> nat set" where
  "matching c addr gk \<equiv> {i. i < cam_num c \<and> ent_matches c addr (-1) gk i}"

lemma clear_step:
  assumes "cam_ok c" and "i < cam_num c"
  shows "\<exists>hw. clear_cam_entry c i = Inr (ent_set c i zero_ent hw) \<and> cam_ok (rtw_camid_free (ent_set c i zero_ent hw) i) \<and>
    (addr \<noteq> replicate 6 0 \<or> gk = 1 \<longrightarrow>
      matching (rtw_camid_free (ent_set c i zero_ent hw) i) addr gk = matching c addr gk - {i})"
proof -
  have i: "i < 32" using assms(2) cam_okD(3) [OF assms(1)] by simp
  obtain hw where hw: "clear_cam_entry c i = Inr (ent_set c i zero_ent hw)" "cam_ok (ent_set c i zero_ent hw)"
    using clear_cam_entry_ok [OF assms(1) i] by blast
  let ?c = "rtw_camid_free (ent_set c i zero_ent hw) i"
  have used: "rtw_sec_camid_is_used ?c j \<longleftrightarrow> rtw_sec_camid_is_used c j \<and> j \<noteq> i" for j
    using assms(2) by (simp add: rtw_sec_camid_is_used_def rtw_camid_free_def cam_ids.is_set_clr)
  have cache: "cam_cache ?c ! j = (if j = i then zero_ent else cam_cache c ! j)" for j
    using i cam_okD(1) [OF assms(1)] by (simp add: rtw_camid_free_def nth_list_update)
  have "cam_num ?c = cam_num c" by (simp add: rtw_camid_free_def)
  then have "matching ?c addr gk = matching c addr gk - {i}" if "addr \<noteq> replicate 6 0 \<or> gk = 1"
    using that used cache by (auto simp: ent_matches_def ent_gk_def ent_kid_def zero_ent_def)
  then show ?thesis using hw by auto
qed

text \<open>What clearing leaves alone, and what it does.\<close>

definition cleared :: "cam_ctl \<Rightarrow> nat set \<Rightarrow> cam_ctl \<Rightarrow> bool" where
  "cleared c M c' \<longleftrightarrow> cam_ok c' \<and> cam_num c' = cam_num c \<and> cam_flags c' = cam_flags c \<and> sec_cap c' = sec_cap c \<and>
     (\<forall>j. rtw_sec_camid_is_used c' j \<longleftrightarrow> rtw_sec_camid_is_used c j \<and> j \<notin> M) \<and>
     (\<forall>j < 32. cam_cache c' ! j = (if j \<in> M then zero_ent else cam_cache c ! j))"

lemma clear_one:
  assumes "cam_ok c" and "i < cam_num c"
  shows "\<exists>c1. bindc (clear_cam_entry c i) (\<lambda>c. Inr (rtw_camid_free c i)) = Inr c1 \<and> cleared c {i} c1 \<and>
    (addr \<noteq> replicate 6 0 \<or> gk = 1 \<longrightarrow> matching c1 addr gk = matching c addr gk - {i})"
proof -
  obtain hw where hw: "clear_cam_entry c i = Inr (ent_set c i zero_ent hw)" "cam_ok (rtw_camid_free (ent_set c i zero_ent hw) i)"
    "addr \<noteq> replicate 6 0 \<or> gk = 1 \<longrightarrow> matching (rtw_camid_free (ent_set c i zero_ent hw) i) addr gk = matching c addr gk - {i}"
    using clear_step [OF assms, of addr gk] by blast
  moreover have "cleared c {i} (rtw_camid_free (ent_set c i zero_ent hw) i)"
    using hw(2) assms(2) cam_okD(1,3) [OF assms(1)]
    by (auto simp: cleared_def rtw_sec_camid_is_used_def rtw_camid_free_def cam_ids.is_set_clr nth_list_update)
  ultimately show ?thesis by auto
qed

lemma cleared_trans: "cleared c M c' \<Longrightarrow> cleared c' M' c'' \<Longrightarrow> cleared c (M \<union> M') c''"
  by (auto simp: cleared_def)

lemma cleared_refl: "cam_ok c \<Longrightarrow> cleared c {} c"
  by (simp add: cleared_def)

lemma clear_keys_ok:
  assumes "cam_ok c" and "addr \<noteq> replicate 6 0 \<or> gk = 1" and "card (matching c addr gk) < fuel"
  shows "\<exists>c'. clear_keys fuel c addr gk = Inr c' \<and> cleared c (matching c addr gk) c' \<and> matching c' addr gk = {}"
  using assms(1,3)
proof (induction fuel arbitrary: c)
  case (Suc fuel)
  show ?case
  proof (cases "find (ent_matches c addr (-1) gk) [0..<cam_num c]")
    case None
    then have m: "matching c addr gk = {}" by (auto simp: find_upt_None)
    have "clear_keys (Suc fuel) c addr gk = Inr c" using None Suc.prems(1) by (simp add: search_total)
    then show ?thesis using cleared_refl [OF Suc.prems(1)] by (intro exI [of _ c]) (simp only: m simp_thms)
  next
    case (Some i)
    note i = find_upt_Some [OF Some]
    from clear_one [OF Suc.prems(1) conjunct1 [OF i], of addr gk, unfolded assms(2) [THEN eqTrueI] simp_thms]
    obtain c1 where c1: "bindc (clear_cam_entry c i) (\<lambda>c. Inr (rtw_camid_free c i)) = Inr c1" "cleared c {i} c1"
      "matching c1 addr gk = matching c addr gk - {i}" by (elim exE conjE)
    have m: "i \<in> matching c addr gk" using i by simp
    have "card (matching c1 addr gk) < fuel"
      using Suc.prems(2) card_Diff1_less [OF _ m] unfolding c1(3) by simp
    then obtain c' where c': "clear_keys fuel c1 addr gk = Inr c'" "cleared c1 (matching c1 addr gk) c'" "matching c' addr gk = {}"
      using Suc.IH [of c1] c1(2) by (auto simp: cleared_def)
    have "{i} \<union> matching c1 addr gk = matching c addr gk" using m c1(3) by blast
    then have "cleared c (matching c addr gk) c'" using cleared_trans [OF c1(2) c'(2)] by simp
    moreover have "clear_keys (Suc fuel) c addr gk = Inr c'"
      using c1(1) c'(1) Some Suc.prems(1) by (auto simp: search_total)
    ultimately show ?thesis using c'(3) by blast
  qed
qed simp

lemma clear_keys_hangs:
  assumes "cam_ok c" and "matching c (replicate 6 0) (-1) \<noteq> {}"
  shows "clear_keys fuel c (replicate 6 0) (-1) = Inl NoReturn"
  using assms
proof (induction fuel arbitrary: c)
  case (Suc fuel)
  obtain i where some: "find (ent_matches c (replicate 6 0) (-1) (-1)) [0..<cam_num c] = Some i"
    using Suc.prems(2) by (cases "find (ent_matches c (replicate 6 0) (-1) (-1)) [0..<cam_num c]") (auto simp: find_upt_None)
  note i = find_upt_Some [OF some]
  obtain c1 where c1: "bindc (clear_cam_entry c i) (\<lambda>c. Inr (rtw_camid_free c i)) = Inr c1" "cleared c {i} c1"
    using clear_one [OF Suc.prems(1) conjunct1 [OF i]] by blast
  have "i < cam_num c1" "ent_matches c1 (replicate 6 0) (-1) (-1) i"
    using c1(2) i cam_okD(3) [OF Suc.prems(1)] by (auto simp: cleared_def ent_matches_def zero_ent_def)
  then have "clear_keys fuel c1 (replicate 6 0) (-1) = Inl NoReturn"
    using Suc.IH [of c1] c1(2) by (auto simp: cleared_def)
  then show ?case using c1(1) some Suc.prems(1) by (auto simp: search_total)
qed simp

section \<open>Keys of stations\<close>

text \<open>With \<open>SEC_CAP_CHK_BMC\<close>, which the RTL8821C sets: a free entry has no address, and no two entries
  have the same address, key id and type.\<close>

definition cam_inv :: "cam_ctl \<Rightarrow> bool" where
  "cam_inv c \<longleftrightarrow> cam_ok c \<and> rtw_camctl_chk_cap c SEC_CAP_CHK_BMC \<and>
     (\<forall>i < cam_num c. \<not> rtw_sec_camid_is_used c i \<longrightarrow> ent_mac (cam_cache c ! i) = replicate 6 0) \<and>
     (\<forall>i < cam_num c. \<forall>j < cam_num c. i \<noteq> j \<and> ent_mac (cam_cache c ! i) = ent_mac (cam_cache c ! j) \<and>
        ent_kid c i = ent_kid c j \<and> ent_gk c i = ent_gk c j \<longrightarrow> ent_mac (cam_cache c ! i) = replicate 6 0)"

definition cam_mark :: "cam_ctl \<Rightarrow> nat \<Rightarrow> cam_ctl" where
  "cam_mark c i = c\<lparr>cam_used := rtw_sec_cam_map_set (cam_used c) i\<rparr>"

lemma alloc_sta:
  assumes "cam_inv c" and "addr \<noteq> replicate 6 0" and "gk \<noteq> -1"
  obtains "rtw_camid_alloc c st bssid (Some addr) kid gk = Inr (None, False, c)"
      "\<forall>i < cam_num c. \<not> ent_matches c addr (int kid) gk i" "\<forall>i < cam_num c. 4 \<le> i \<longrightarrow> rtw_sec_camid_is_used c i"
    | i where "rtw_camid_alloc c st bssid (Some addr) kid gk = Inr (Some i, True, cam_mark c i)"
      "i < cam_num c" "rtw_sec_camid_is_used c i" "ent_matches c addr (int kid) gk i"
    | i where "rtw_camid_alloc c st bssid (Some addr) kid gk = Inr (Some i, False, cam_mark c i)"
      "i < cam_num c" "\<not> rtw_sec_camid_is_used c i" "\<forall>i < cam_num c. \<not> ent_matches c addr (int kid) gk i"
proof -
  have ok: "cam_ok c" and chk: "rtw_camctl_chk_cap c SEC_CAP_CHK_BMC" using assms(1) by (simp_all add: cam_inv_def)
  have alloc: "rtw_camid_alloc c st bssid (Some addr) kid gk =
      bindc (rtw_get_camid c (Some addr) (int kid) gk) (\<lambda>cam_id.
      Inr (case cam_id of None \<Rightarrow> (None, False, c) | Some i \<Rightarrow> (Some i, rtw_sec_camid_is_used c i, cam_mark c i)))"
    by (simp add: rtw_camid_alloc_def cam_mark_def cong: option.case_cong)
  show ?thesis
  proof (cases "find (ent_matches c addr (int kid) gk) [0..<cam_num c]")
    case (Some i)
    note i = find_upt_Some [OF Some]
    have "rtw_sec_camid_is_used c i" using assms(1,2) i by (auto simp: cam_inv_def ent_matches_def)
    then show ?thesis using that(2) [of i] i Some ok chk unfolding alloc by (simp add: rtw_get_camid_def search_total)
  next
    case None
    then have none: "\<forall>i < cam_num c. \<not> ent_matches c addr (int kid) gk i" by (simp add: find_upt_None)
    let ?find = "find (\<lambda>i. \<not> i < 4 \<and> \<not> rtw_sec_camid_is_used c i) [0..<cam_num c]"
    show ?thesis
    proof (cases ?find)
      case None
      then have "\<forall>i < cam_num c. 4 \<le> i \<longrightarrow> rtw_sec_camid_is_used c i" by (auto simp: find_upt_None)
      then show ?thesis using that(1) none None \<open>find (ent_matches c addr (int kid) gk) [0..<cam_num c] = None\<close> ok chk
        unfolding alloc by (simp add: rtw_get_camid_def search_total)
    next
      case (Some i)
      note i = find_upt_Some [OF Some]
      show ?thesis using that(3) [of i] i none Some \<open>find (ent_matches c addr (int kid) gk) [0..<cam_num c] = None\<close> ok chk
        unfolding alloc by (simp add: rtw_get_camid_def search_total)
    qed
  qed
qed

lemma key_ctrl_bits:
  assumes "keyid p < 4" and "algorithm p < 8"
  shows "uint (key_ctrl p gk AND 0x03) = int (keyid p)" "bit (key_ctrl p gk) 6 = gk"
proof -
  have "keyid p \<in> {0, 1, 2, 3}" "algorithm p \<in> {0, 1, 2, 3, 4, 5, 6, 7}" using assms by auto
  then show "uint (key_ctrl p gk AND 0x03) = int (keyid p)" "bit (key_ctrl p gk) 6 = gk"
    by (auto simp: key_ctrl_def BIT_def)
qed

lemma cam_invD:
  assumes "cam_inv c"
  shows "cam_ok c" "rtw_camctl_chk_cap c SEC_CAP_CHK_BMC"
    "i < cam_num c \<Longrightarrow> \<not> rtw_sec_camid_is_used c i \<Longrightarrow> ent_mac (cam_cache c ! i) = replicate 6 0"
    "i < cam_num c \<Longrightarrow> j < cam_num c \<Longrightarrow> i \<noteq> j \<Longrightarrow> ent_mac (cam_cache c ! i) = ent_mac (cam_cache c ! j) \<Longrightarrow>
       ent_kid c i = ent_kid c j \<Longrightarrow> ent_gk c i = ent_gk c j \<Longrightarrow> ent_mac (cam_cache c ! i) = replicate 6 0"
  using assms unfolding cam_inv_def by blast+

lemma install_key:
  assumes inv: "cam_inv c" and i: "i < cam_num c" and e: "length addr = 6" "length key = 16" "addr \<noteq> replicate 6 0"
    and bits: "uint (ctrl AND 0x03) = int kid" "bit ctrl 6 = gk"
    and place: "rtw_sec_camid_is_used c i \<and> ent_matches c addr (int kid) (of_bool gk) i \<or>
      \<not> rtw_sec_camid_is_used c i \<and> (\<forall>i < cam_num c. \<not> ent_matches c addr (int kid) (of_bool gk) i)"
  shows "\<exists>c'. write_cam (cam_mark c i) i ctrl addr key = Inr c' \<and> cam_inv c' \<and> cam_num c' = cam_num c \<and>
    cam_view c' = (cam_view c)(i \<mapsto> \<lparr> ent_ctrl = ctrl, ent_mac = addr, ent_key = key \<rparr>)"
proof -
  let ?e = "\<lparr> ent_ctrl = ctrl, ent_mac = addr, ent_key = key \<rparr>"
  note ok = cam_invD(1) [OF inv]
  have i32: "i < 32" using i cam_okD(3) [OF ok] by simp
  obtain hw where hw: "write_cam (cam_mark c i) i ctrl addr key = Inr (ent_set (cam_mark c i) i ?e hw)"
    "cam_ok (ent_set (cam_mark c i) i ?e hw)"
    using write_cam_ok [of "cam_mark c i" i addr key ctrl] ok i32 e by (auto simp: cam_mark_def)
  let ?c = "ent_set (cam_mark c i) i ?e hw"
  have num: "cam_num ?c = cam_num c" by (simp add: cam_mark_def)
  have used: "rtw_sec_camid_is_used ?c j \<longleftrightarrow> rtw_sec_camid_is_used c j \<or> j = i" for j
    using i i32 by (auto simp: rtw_sec_camid_is_used_def cam_mark_def cam_ids.is_set_st)
  have cache: "cam_cache ?c ! j = (if j = i then ?e else cam_cache c ! j)" for j
    using i32 cam_okD(1) [OF ok] by (simp add: cam_mark_def nth_list_update)
  have kid: "ent_kid ?c j = (if j = i then int kid else ent_kid c j)" for j
    using bits(1) unfolding ent_kid_def cache by simp
  have gk: "ent_gk ?c j = (if j = i then gk else ent_gk c j)" for j
    using bits(2) unfolding ent_gk_def used cache by auto
  have other: "\<not> (ent_mac (cam_cache c ! j) = addr \<and> ent_kid c j = int kid \<and> ent_gk c j = gk)" if "j < cam_num c" "j \<noteq> i" for j
  proof
    assume j: "ent_mac (cam_cache c ! j) = addr \<and> ent_kid c j = int kid \<and> ent_gk c j = gk"
    then have "ent_matches c addr (int kid) (of_bool gk) j" by (auto simp: ent_matches_def)
    with place that(1) have "ent_matches c addr (int kid) (of_bool gk) i" by blast
    then have "ent_mac (cam_cache c ! i) = addr" "ent_kid c i = int kid" "ent_gk c i = gk" by (cases gk; auto simp: ent_matches_def)+
    with cam_invD(4) [OF inv that(1) i that(2)] j e(3) show False by simp
  qed
  have "cam_inv ?c"
    unfolding cam_inv_def num
  proof (intro conjI allI impI)
    show "cam_ok ?c" by (fact hw(2))
    show "rtw_camctl_chk_cap ?c SEC_CAP_CHK_BMC" using cam_invD(2) [OF inv] by (simp add: rtw_camctl_chk_cap_def cam_mark_def)
    show "ent_mac (cam_cache ?c ! j) = replicate 6 0" if "j < cam_num c" "\<not> rtw_sec_camid_is_used ?c j" for j
      using cam_invD(3) [OF inv that(1)] that(2) unfolding used cache by simp
    fix j k
    assume jk: "j < cam_num c" "k < cam_num c" "j \<noteq> k \<and> ent_mac (cam_cache ?c ! j) = ent_mac (cam_cache ?c ! k) \<and>
      ent_kid ?c j = ent_kid ?c k \<and> ent_gk ?c j = ent_gk ?c k"
    show "ent_mac (cam_cache ?c ! j) = replicate 6 0"
    proof (cases "j = i \<or> k = i")
      case True
      then show ?thesis using jk other [of j] other [of k] unfolding cache kid gk by (auto split: if_splits)
    next
      case False
      then show ?thesis using jk cam_invD(4) [OF inv jk(1,2)] unfolding cache kid gk by simp
    qed
  qed
  moreover have "cam_view ?c = (cam_view c)(i \<mapsto> ?e)"
    unfolding cam_view_def fun_eq_iff used cache by auto
  ultimately show ?thesis using hw(1) num by blast
qed

text \<open>The key with its address, as it goes into the table.\<close>

definition key_ent :: "key_parm \<Rightarrow> sec_cam_ent" where
  "key_ent p = \<lparr> ent_ctrl = key_ctrl p (kp_gk p), ent_mac = kp_addr p, ent_key = kp_key p \<rparr>"

definition parm_ok :: "key_parm \<Rightarrow> bool" where
  "parm_ok p \<longleftrightarrow> keyid p < 4 \<and> 0 < algorithm p \<and> algorithm p < 8 \<and> length (kp_addr p) = 6 \<and> length (kp_key p) = 16 \<and>
     kp_addr p \<noteq> replicate 6 0"

lemma mark_gk: "i < cam_num c \<Longrightarrow> cam_ok c \<Longrightarrow> rtw_camid_is_gk (cam_mark c i) i = Inr (bit (ent_ctrl (cam_cache c ! i)) 6)"
proof -
  assume i: "i < cam_num c" and ok: "cam_ok c"
  then have "i < 32" using cam_okD(3) [OF ok] by simp
  then have "rtw_sec_camid_is_used (cam_mark c i) i"
    using i by (simp add: rtw_sec_camid_is_used_def cam_mark_def cam_ids.is_set_st)
  then show ?thesis
    using is_gk_total [of "cam_mark c i" i] ok by (simp add: ent_gk_def cam_mark_def)
qed

lemma set_stakey_install:
  assumes inv: "cam_inv (cam s)" and p: "parm_ok p" and known: "known (kp_addr p)"
  shows "(set_stakey_hdl fuel known bssid p s = Inr (H2C_SUCCESS, s\<lparr>enc_algo := algorithm p\<rparr>) \<and>
      (\<forall>i < cam_num (cam s). 4 \<le> i \<longrightarrow> cam_view (cam s) i \<noteq> None)) \<or>
    (\<exists>i c'. set_stakey_hdl fuel known bssid p s = Inr (H2C_SUCCESS_RSP, s\<lparr>enc_algo := algorithm p, cam := c'\<rparr>) \<and>
      i < cam_num (cam s) \<and> cam_inv c' \<and> cam_num c' = cam_num (cam s) \<and> cam_view c' = (cam_view (cam s))(i \<mapsto> key_ent p) \<and>
      (\<forall>e. cam_view (cam s) i = Some e \<longrightarrow> ent_mac e = kp_addr p))"
proof -
  let ?c = "cam s" and ?gk = "of_bool (kp_gk p) :: int"
  note ok = cam_invD(1) [OF inv]
  have addr: "kp_addr p \<noteq> replicate 6 0" and lens: "length (kp_addr p) = 6" "length (kp_key p) = 16"
    and small: "keyid p < 4" "algorithm p < 8" "algorithm p \<noteq> 0" using p by (auto simp: parm_ok_def)
  have gk1: "(if kp_gk p then 1 else 0) = ?gk" by simp
  have hdl: "set_stakey_hdl fuel known bssid p s =
      bindc (rtw_camid_alloc ?c (mlme_state s) bssid (Some (kp_addr p)) (keyid p) ?gk) (\<lambda>(cam_id, used, c).
        case cam_id of None \<Rightarrow> Inr (H2C_SUCCESS, s\<lparr>enc_algo := algorithm p, cam := c\<rparr>)
        | Some i \<Rightarrow>
          bindc (rtw_camid_is_gk c i) (\<lambda>is_gk.
          bindc (if \<not> kp_gk p \<and> used \<and> is_gk
                 then clear_keys fuel (rtw_camctl_set_flags c SEC_STATUS_STA_PK_GK_CONFLICT_DIS_BMC_SEARCH) (kp_addr p) 1
                 else Inr c) (\<lambda>c.
          bindc (write_cam c i (key_ctrl p (kp_gk p)) (kp_addr p) (kp_key p)) (\<lambda>c.
          Inr (H2C_SUCCESS_RSP, s\<lparr>enc_algo := algorithm p, cam := c\<rparr>)))))"
    using known small(3) unfolding set_stakey_hdl_def Let_def gk1 by simp
  have finish: ?thesis
    if alloc: "rtw_camid_alloc ?c (mlme_state s) bssid (Some (kp_addr p)) (keyid p) ?gk = Inr (Some i, used, cam_mark ?c i)"
      and i: "i < cam_num ?c"
      and place: "rtw_sec_camid_is_used ?c i \<and> ent_matches ?c (kp_addr p) (int (keyid p)) ?gk i \<or>
        \<not> rtw_sec_camid_is_used ?c i \<and> (\<forall>i < cam_num ?c. \<not> ent_matches ?c (kp_addr p) (int (keyid p)) ?gk i)"
      and used: "used \<longleftrightarrow> rtw_sec_camid_is_used ?c i" for i used
  proof -
    have no: "\<not> (\<not> kp_gk p \<and> used \<and> bit (ent_ctrl (cam_cache ?c ! i)) 6)"
      using place used by (auto simp: ent_matches_def ent_gk_def)
    obtain c' where c': "write_cam (cam_mark ?c i) i (key_ctrl p (kp_gk p)) (kp_addr p) (kp_key p) = Inr c'" "cam_inv c'"
      "cam_num c' = cam_num ?c" "cam_view c' = (cam_view ?c)(i \<mapsto> key_ent p)"
      using install_key [OF inv i lens addr key_ctrl_bits [OF small(1,2), of "kp_gk p"] place] unfolding key_ent_def by blast
    have "set_stakey_hdl fuel known bssid p s = Inr (H2C_SUCCESS_RSP, s\<lparr>enc_algo := algorithm p, cam := c'\<rparr>)"
      unfolding hdl alloc by (simp add: mark_gk [OF i ok] no c'(1) if_not_P [OF no])
    moreover have "\<forall>e. cam_view ?c i = Some e \<longrightarrow> ent_mac e = kp_addr p"
      using place by (auto simp: cam_view_def ent_matches_def)
    ultimately show ?thesis using c' i by blast
  qed
  have "?gk \<noteq> -1" by (cases "kp_gk p") simp_all
  from alloc_sta [OF inv addr this, of "mlme_state s" bssid "keyid p"] show ?thesis
  proof cases
    case 1
    then have "set_stakey_hdl fuel known bssid p s = Inr (H2C_SUCCESS, s\<lparr>enc_algo := algorithm p\<rparr>)"
      unfolding hdl by simp
    then show ?thesis using 1(3) by (auto simp: used_view)
  next
    case (2 i)
    then show ?thesis using finish [OF 2(1,2)] by blast
  next
    case (3 i)
    then show ?thesis using finish [OF 3(1,2)] by blast
  qed
qed

lemma cleared_inv:
  assumes "cam_inv c" and "cleared c M c'" and "\<And>i. i \<in> M \<Longrightarrow> i < cam_num c"
  shows "cam_inv c'"
proof -
  note d = assms(2) [unfolded cleared_def]
  have n: "i < cam_num c \<Longrightarrow> i < 32" for i using cam_okD(3) [OF cam_invD(1) [OF assms(1)]] by simp
  have m: "ent_mac (cam_cache c' ! i) = replicate 6 0" if "i < cam_num c" "ent_mac (cam_cache c ! i) = replicate 6 0 \<or> i \<in> M" for i
    using d n [OF that(1)] that(2) by (auto simp: zero_ent_def)
  have same: "cam_cache c' ! i = cam_cache c ! i" "ent_kid c' i = ent_kid c i" "ent_gk c' i = ent_gk c i"
    if "i < cam_num c" "i \<notin> M" for i
    using d n [OF that(1)] that(2) by (simp_all add: ent_kid_def ent_gk_def)
  show ?thesis
    unfolding cam_inv_def
  proof (intro conjI allI impI)
    show "cam_ok c'" using d by blast
    show "rtw_camctl_chk_cap c' SEC_CAP_CHK_BMC" using d cam_invD(2) [OF assms(1)] by (simp add: rtw_camctl_chk_cap_def)
    show "ent_mac (cam_cache c' ! i) = replicate 6 0" if "i < cam_num c'" "\<not> rtw_sec_camid_is_used c' i" for i
      using that d m [of i] cam_invD(3) [OF assms(1), of i] by auto
    fix i j
    assume ij: "i < cam_num c'" "j < cam_num c'" "i \<noteq> j \<and> ent_mac (cam_cache c' ! i) = ent_mac (cam_cache c' ! j) \<and>
      ent_kid c' i = ent_kid c' j \<and> ent_gk c' i = ent_gk c' j"
    show "ent_mac (cam_cache c' ! i) = replicate 6 0"
    proof (cases "i \<in> M \<or> j \<in> M")
      case True
      then show ?thesis using ij d m [of i] m [of j] by auto
    next
      case False
      then show ?thesis using ij d cam_invD(4) [OF assms(1), of i j] same [of i] same [of j] by auto
    qed
  qed
qed

lemma matching_any: "matching c addr (-1) = {i. i < cam_num c \<and> ent_mac (cam_cache c ! i) = addr}"
  by (simp add: ent_matches_def)

lemma card_matching: "card (matching c addr gk) < Suc (cam_num c)"
proof -
  have "matching c addr gk \<subseteq> {..<cam_num c}" by auto
  then have "card (matching c addr gk) \<le> card {..<cam_num c}" by (intro card_mono) simp_all
  then show ?thesis by simp
qed

lemma set_stakey_remove:
  assumes inv: "cam_inv (cam s)" and "algorithm p = 0" and "kp_addr p \<noteq> replicate 6 0" and "cam_num (cam s) < fuel"
  shows "\<exists>c'. set_stakey_hdl fuel known bssid p s = Inr (H2C_SUCCESS_RSP, s\<lparr>cam := c'\<rparr>) \<and> cam_inv c' \<and>
    cam_num c' = cam_num (cam s) \<and>
    cam_view c' = (\<lambda>i. case cam_view (cam s) i of None \<Rightarrow> None | Some e \<Rightarrow> if ent_mac e = kp_addr p then None else Some e)"
proof -
  let ?c = "cam s" and ?M = "matching (cam s) (kp_addr p) (-1)"
  note ok = cam_invD(1) [OF inv]
  have "card ?M < fuel" using card_matching [of ?c "kp_addr p" "-1"] assms(4) by simp
  from clear_keys_ok [OF ok _ this] assms(3)
  obtain c' where c': "clear_keys fuel ?c (kp_addr p) (-1) = Inr c'" "cleared ?c ?M c'" by blast
  have "cam_inv c'" by (rule cleared_inv [OF inv c'(2)]) simp
  note d = c'(2) [unfolded cleared_def matching_any]
  have view: "cam_view c' i = (case cam_view ?c i of None \<Rightarrow> None | Some e \<Rightarrow> if ent_mac e = kp_addr p then None else Some e)" for i
  proof (cases "rtw_sec_camid_is_used ?c i")
    case True
    then have "i < cam_num ?c" "i < 32" using is_used_num cam_okD(3) [OF ok] by fastforce+
    then show ?thesis using d True by (auto simp: cam_view_def)
  next
    case False
    then show ?thesis using d by (simp add: cam_view_def)
  qed
  have "cam_num c' = cam_num ?c" using d by simp
  then show ?thesis
    using c'(1) assms(2) \<open>cam_inv c'\<close> view by (intro exI [of _ c']) (simp add: set_stakey_hdl_def fun_eq_iff)
qed

section \<open>A pairwise key over a group key\<close>

text \<open>Without \<open>SEC_CAP_CHK_BMC\<close> the entry of a group key is taken for a pairwise key with the same key id. The
  loop that clears the group keys also clears and frees this entry; the key is then written into it
  without marking it used again.\<close>

lemma set_stakey_conflict:
  assumes ok: "cam_ok (cam s)" and p: "parm_ok p" and known: "known (kp_addr p)" and "\<not> kp_gk p"
    and chk: "\<not> rtw_camctl_chk_cap (cam s) SEC_CAP_CHK_BMC"
    and found: "find (ent_matches (cam s) (kp_addr p) (int (keyid p)) (-1)) [0..<cam_num (cam s)] = Some i" "ent_gk (cam s) i"
    and fuel: "cam_num (cam s) < fuel"
  shows "\<exists>c'. set_stakey_hdl fuel known bssid p s = Inr (H2C_SUCCESS_RSP, s\<lparr>enc_algo := algorithm p, cam := c'\<rparr>) \<and>
    cam_view c' i = None \<and> cam_cache c' ! i = key_ent p \<and> rtw_sec_read_cam_ent (cam_hw c') i = Inr (key_ent p)"
proof -
  let ?c = "cam s" and ?d = "rtw_camctl_set_flags (cam_mark (cam s) i) SEC_STATUS_STA_PK_GK_CONFLICT_DIS_BMC_SEARCH"
  note i = find_upt_Some [OF found(1)]
  have i32: "i < 32" using i cam_okD(3) [OF ok] by simp
  have lens: "length (kp_addr p) = 6" "length (kp_key p) = 16" and alg: "algorithm p \<noteq> 0"
    using p by (auto simp: parm_ok_def)
  have used: "rtw_sec_camid_is_used ?c i" and bit6: "bit (ent_ctrl (cam_cache ?c ! i)) 6" using found(2) by (simp_all add: ent_gk_def)
  have d: "cam_ok ?d" "cam_num ?d = cam_num ?c" using ok by (simp_all add: rtw_camctl_set_flags_def cam_mark_def)
  have alloc: "rtw_camid_alloc ?c (mlme_state s) bssid (Some (kp_addr p)) (keyid p) 0 = Inr (Some i, True, cam_mark ?c i)"
    using found(1) ok chk used by (simp add: rtw_camid_alloc_def rtw_get_camid_def search_total cam_mark_def)
  have "card (matching ?d (kp_addr p) 1) < fuel" using card_matching [of ?d "kp_addr p" 1] fuel d(2) by simp
  from clear_keys_ok [OF d(1) _ this]
  obtain c1 where c1: "clear_keys fuel ?d (kp_addr p) 1 = Inr c1" "cleared ?d (matching ?d (kp_addr p) 1) c1" by blast
  have "i \<in> matching ?d (kp_addr p) 1"
    using i used bit6 i32 by (auto simp: ent_matches_def ent_gk_def rtw_camctl_set_flags_def cam_mark_def
        rtw_sec_camid_is_used_def cam_ids.is_set_st)
  with c1(2) have c1': "\<not> rtw_sec_camid_is_used c1 i" "cam_ok c1" by (auto simp: cleared_def)
  obtain hw where hw: "write_cam c1 i (key_ctrl p False) (kp_addr p) (kp_key p) = Inr (ent_set c1 i (key_ent p) hw)"
      "cam_ok (ent_set c1 i (key_ent p) hw)"
    using write_cam_ok [OF c1'(2) i32 lens, of "key_ctrl p False"] assms(4) by (auto simp: key_ent_def)
  have "set_stakey_hdl fuel known bssid p s =
      Inr (H2C_SUCCESS_RSP, s\<lparr>enc_algo := algorithm p, cam := ent_set c1 i (key_ent p) hw\<rparr>)"
    using known alg assms(4) hw(1) c1(1) bit6 i ok by (simp add: set_stakey_hdl_def alloc mark_gk)
  moreover have "cam_view (ent_set c1 i (key_ent p) hw) i = None" using c1'(1) by (simp add: cam_view_def)
  moreover have "cam_cache (ent_set c1 i (key_ent p) hw) ! i = key_ent p" using cam_okD(1) [OF c1'(2)] i32 by simp
  moreover have "rtw_sec_read_cam_ent (cam_hw (ent_set c1 i (key_ent p) hw)) i =
      Inr (cam_cache (ent_set c1 i (key_ent p) hw) ! i)"
    using hw(2) i32 unfolding cam_ok_def by blast
  ultimately show ?thesis by (intro exI [of _ "ent_set c1 i (key_ent p) hw"]) (simp del: select_convs update_convs)
qed

section \<open>Properties\<close>

text \<open>Whatever entry is written, the eight words that \<open>rtw_sec_write_cam_ent\<close> puts into the hardware table
  are read back by \<open>rtw_sec_read_cam_ent\<close> as the same control word, address and key, and every other
  entry reads as before.\<close>

theorem rtw_sec_write_cam_ent_roundtrip:
  assumes "i < 32" and "length hw = 256" and "length mac = 6" and "length key = 16"
  shows "\<exists>hw'. rtw_sec_write_cam_ent hw i ctrl mac key = Inr hw' \<and> length hw' = 256 \<and>
    (\<forall>j < 32. rtw_sec_read_cam_ent hw' j =
       (if j = i then Inr \<lparr> ent_ctrl = ctrl, ent_mac = mac, ent_key = key \<rparr> else rtw_sec_read_cam_ent hw j))"
  using assms by (rule write_ent)

theorem rtw_sec_write_cam_ent_roundtrip_witness:
  "\<exists>hw'. rtw_sec_write_cam_ent (replicate 256 0) 4 0x8013 [1, 2, 3, 4, 5, 6] (replicate 16 7) = Inr hw' \<and>
    rtw_sec_read_cam_ent hw' 4 = Inr \<lparr> ent_ctrl = 0x8013, ent_mac = [1, 2, 3, 4, 5, 6], ent_key = replicate 16 7 \<rparr>"
proof -
  have "4 < (32 :: nat)" "length (replicate 256 (0 :: u32)) = 256" "length [1, 2, 3, 4, 5, 6 :: u8] = 6"
    "length (replicate 16 (7 :: u8)) = 16" by (simp_all only: length_replicate) simp_all
  from rtw_sec_write_cam_ent_roundtrip [OF this, of "0x8013"] show ?thesis by auto
qed

text \<open>\<open>rtw_clean_dk_section\<close> keeps the entries in use as they are and only moves them: afterwards the
  same keys are in use the same number of times, the hardware still agrees with the cache, and the
  four default entries are free, provided that there are as many free entries behind them.\<close>

theorem rtw_clean_dk_section_moves:
  assumes "cam_ok c" and "4 \<le> cam_num c"
  shows "\<exists>c'. rtw_clean_dk_section c = Inr c' \<and> cam_ok c' \<and> cam_entries c' = cam_entries c \<and>
    (card {i. i < 4 \<and> rtw_sec_camid_is_used c i} \<le> card {i. 4 \<le> i \<and> i < cam_num c \<and> \<not> rtw_sec_camid_is_used c i} \<longrightarrow>
      (\<forall>i < 4. \<not> rtw_sec_camid_is_used c' i))"
proof -
  have four: "i \<in> set [0, 1, 2, 3] \<longleftrightarrow> i < 4" for i :: nat by auto
  have "set [0, 1, 2, 3] \<subseteq> {..<4 :: nat}" "distinct [0, 1, 2, 3 :: nat]" by auto
  from clean_dk_ok [OF assms this]
  obtain c' where c': "clean_dk [0, 1, 2, 3] c = Inr c'" "cam_ok c'" "cam_entries c' = cam_entries c"
    "card {i \<in> set [0, 1, 2, 3]. rtw_sec_camid_is_used c i} \<le> card {i. 4 \<le> i \<and> i < cam_num c \<and> \<not> rtw_sec_camid_is_used c i} \<longrightarrow>
      (\<forall>i \<in> set [0, 1, 2, 3]. \<not> rtw_sec_camid_is_used c' i)" by (elim exE conjE)
  show ?thesis
    unfolding rtw_clean_dk_section_def
    by (intro exI [of _ c'] conjI c'(1-3)) (use c'(4) in \<open>simp only: four Ball_def\<close>)
qed

definition cam_example :: "u8 \<Rightarrow> cam_ctl" where
  "cam_example cap = \<lparr> sec_cap = cap, cam_flags = 0, cam_num = 32, cam_used = 0, cam_cache = replicate 32 zero_ent,
     cam_hw = replicate 256 0 \<rparr>"

lemma zero_bytes:
  "replicate 6 (0 :: u8) = [0, 0, 0, 0, 0, 0]" "replicate 16 (0 :: u8) = [0, 0, 0, 0, 0, 0, 0, 0, 0, 0, 0, 0, 0, 0, 0, 0]"
  by (simp_all add: numeral_eq_Suc)

lemma cam_example_ok: "cam_ok (cam_example cap)"
proof -
  have "rtw_sec_read_cam_ent (replicate 256 0) i = Inr zero_ent" if "i < 32" for i
    using that zero_bytes by (simp add: read_ent_eq zero_ent_def put_le32_def get_le16_def)
  then show ?thesis by (simp add: cam_ok_def cam_example_def ent_ok_def zero_ent_def)
qed

lemma cam_example_view: "cam_view (cam_example cap) i = None"
  by (simp add: cam_view_def rtw_sec_camid_is_used_def cam_example_def sec_cam_is_set)

lemma cam_example_inv: "cam_inv (cam_example 1)"
proof -
  have "ent_mac (cam_cache (cam_example 1) ! i) = replicate 6 0" if "i < 32" for i
    using that by (simp add: cam_example_def zero_ent_def)
  moreover have "cam_num (cam_example 1) = 32" by (simp add: cam_example_def)
  moreover have "rtw_camctl_chk_cap (cam_example 1) SEC_CAP_CHK_BMC"
    by (simp add: rtw_camctl_chk_cap_def cam_example_def SEC_CAP_CHK_BMC_def)
  ultimately show ?thesis using cam_example_ok unfolding cam_inv_def by simp
qed

theorem rtw_clean_dk_section_moves_witness:
  "\<exists>c'. rtw_clean_dk_section (cam_example 1) = Inr c' \<and> cam_entries c' = cam_entries (cam_example 1)"
proof -
  have "4 \<le> cam_num (cam_example 1)" by (simp add: cam_example_def)
  from rtw_clean_dk_section_moves [OF cam_example_ok this] show ?thesis by blast
qed

text \<open>C21: \<open>set_stakey_hdl\<close> under the invariant of the RTL8821C (free entries have no address, entries in use
  are unique by address, key id and type): installing a key either finds no free entry, which
  leaves the table alone, or puts the key into one entry, which was free or had a key of the same
  station; every other entry in use stays, and the invariant holds again.\<close>

theorem set_stakey_hdl_installs:
  assumes "cam_inv (cam s)" and "parm_ok p" and "known (kp_addr p)"
  shows "(set_stakey_hdl fuel known bssid p s = Inr (H2C_SUCCESS, s\<lparr>enc_algo := algorithm p\<rparr>) \<and>
      (\<forall>i < cam_num (cam s). 4 \<le> i \<longrightarrow> cam_view (cam s) i \<noteq> None)) \<or>
    (\<exists>i c'. set_stakey_hdl fuel known bssid p s = Inr (H2C_SUCCESS_RSP, s\<lparr>enc_algo := algorithm p, cam := c'\<rparr>) \<and>
      i < cam_num (cam s) \<and> cam_inv c' \<and> cam_num c' = cam_num (cam s) \<and> cam_view c' = (cam_view (cam s))(i \<mapsto> key_ent p) \<and>
      (\<forall>e. cam_view (cam s) i = Some e \<longrightarrow> ent_mac e = kp_addr p))"
  using assms by (rule set_stakey_install)

definition key_example_parm :: key_parm where
  "key_example_parm = \<lparr> algorithm = 4, keyid = 0, kp_gk = False, set_tx = False, kp_key = replicate 16 7, kp_addr = [2, 2, 3, 4, 5, 6] \<rparr>"

definition key_example_state :: "cam_ctl \<Rightarrow> key_state" where
  "key_example_state c = \<lparr> cam = c, mlme_state = 0x4002, key_index = 0, enc_algo = 0 \<rparr>"

lemma key_example_ok: "parm_ok key_example_parm"
  by (simp add: parm_ok_def key_example_parm_def zero_bytes)

theorem set_stakey_hdl_installs_witness:
  "\<exists>i c'. set_stakey_hdl 33 (\<lambda>_. True) [] key_example_parm (key_example_state (cam_example 1)) =
      Inr (H2C_SUCCESS_RSP, (key_example_state (cam_example 1))\<lparr>enc_algo := 4, cam := c'\<rparr>) \<and>
    cam_view c' i = Some (key_ent key_example_parm)"
proof -
  have "cam_view (cam_example 1) 5 = None" by (rule cam_example_view)
  moreover have "5 < cam_num (cam_example 1)" by (simp add: cam_example_def)
  ultimately have "\<not> (\<forall>i < cam_num (cam_example 1). 4 \<le> i \<longrightarrow> cam_view (cam_example 1) i \<noteq> None)"
    by (auto intro!: exI [of _ 5])
  then show ?thesis
    using set_stakey_hdl_installs [of "key_example_state (cam_example 1)" key_example_parm "\<lambda>_. True" 33 "[]"]
      cam_example_inv key_example_ok
    by (auto simp: key_example_state_def) (auto simp: key_example_parm_def)
qed

text \<open>Removing the keys of a station: the loop of \<open>set_stakey_hdl\<close> returns within one round more than
  there are entries, and takes exactly the entries of that address out of use, the invariant kept.\<close>

theorem set_stakey_hdl_removes:
  assumes "cam_inv (cam s)" and "algorithm p = 0" and "kp_addr p \<noteq> replicate 6 0" and "cam_num (cam s) < fuel"
  shows "\<exists>c'. set_stakey_hdl fuel known bssid p s = Inr (H2C_SUCCESS_RSP, s\<lparr>cam := c'\<rparr>) \<and> cam_inv c' \<and>
    cam_num c' = cam_num (cam s) \<and>
    cam_view c' = (\<lambda>i. case cam_view (cam s) i of None \<Rightarrow> None | Some e \<Rightarrow> if ent_mac e = kp_addr p then None else Some e)"
  using assms by (rule set_stakey_remove)

theorem set_stakey_hdl_removes_witness:
  "\<exists>c'. set_stakey_hdl 33 (\<lambda>_. True) [] (key_example_parm\<lparr>algorithm := 0\<rparr>) (key_example_state (cam_example 1)) =
      Inr (H2C_SUCCESS_RSP, (key_example_state (cam_example 1))\<lparr>cam := c'\<rparr>) \<and> cam_inv c'"
proof -
  let ?p = "key_example_parm\<lparr>algorithm := 0\<rparr>" and ?s = "key_example_state (cam_example 1)"
  have "cam_inv (cam ?s)" using cam_example_inv by (simp add: key_example_state_def)
  moreover have "algorithm ?p = 0" by simp
  moreover have "kp_addr ?p \<noteq> replicate 6 0" by (simp add: key_example_parm_def zero_bytes)
  moreover have "cam_num (cam ?s) < 33" by (simp add: key_example_state_def cam_example_def)
  ultimately show ?thesis using set_stakey_hdl_removes [of ?s ?p 33 "\<lambda>_. True" "[]"] by blast
qed

text \<open>The same loop for the address of six zero bytes never returns when any entry has that address,
  as every free entry does: clearing an entry gives it the address that is searched for.\<close>

theorem set_stakey_hdl_hangs:
  assumes "cam_ok (cam s)" and "algorithm p = 0" and "kp_addr p = replicate 6 0"
    and "i < cam_num (cam s)" and "ent_mac (cam_cache (cam s) ! i) = replicate 6 0"
  shows "set_stakey_hdl fuel known bssid p s = Inl NoReturn"
proof -
  have "i \<in> matching (cam s) (replicate 6 0) (-1)" using assms(4,5) by (simp add: ent_matches_def)
  then have "matching (cam s) (replicate 6 0) (-1) \<noteq> {}" by blast
  from clear_keys_hangs [OF assms(1) this] show ?thesis using assms(2,3) by (simp add: set_stakey_hdl_def)
qed

theorem set_stakey_hdl_hangs_witness:
  "set_stakey_hdl 1000 (\<lambda>_. True) [] (key_example_parm\<lparr>algorithm := 0, kp_addr := replicate 6 0\<rparr>)
     (key_example_state (cam_example 1)) = Inl NoReturn"
proof (rule set_stakey_hdl_hangs [where i = 5])
  show "cam_ok (cam (key_example_state (cam_example 1)))" using cam_example_ok by (simp add: key_example_state_def)
qed (simp_all add: key_example_state_def cam_example_def zero_ent_def)

text \<open>On a chip without \<open>SEC_CAP_CHK_BMC\<close>, installing a pairwise key of a station whose group key has the
  same key id leaves the hardware with the new key in an entry that counts as free, so that the key
  of another station may overwrite it.\<close>

theorem set_stakey_hdl_conflict:
  assumes "cam_ok (cam s)" and "parm_ok p" and "known (kp_addr p)" and "\<not> kp_gk p"
    and "\<not> rtw_camctl_chk_cap (cam s) SEC_CAP_CHK_BMC"
    and "find (ent_matches (cam s) (kp_addr p) (int (keyid p)) (-1)) [0..<cam_num (cam s)] = Some i" and "ent_gk (cam s) i"
    and "cam_num (cam s) < fuel"
  shows "\<exists>c'. set_stakey_hdl fuel known bssid p s = Inr (H2C_SUCCESS_RSP, s\<lparr>enc_algo := algorithm p, cam := c'\<rparr>) \<and>
    cam_view c' i = None \<and> cam_cache c' ! i = key_ent p \<and> rtw_sec_read_cam_ent (cam_hw c') i = Inr (key_ent p)"
  using assms by (rule set_stakey_conflict)

text \<open>A table whose entry 4 is the group key of the station.\<close>

lemma cam_example_group:
  "\<exists>c. cam_ok c \<and> cam_num c = 32 \<and> \<not> rtw_camctl_chk_cap c SEC_CAP_CHK_BMC \<and>
    find (ent_matches c (kp_addr key_example_parm) (int (keyid key_example_parm)) (-1)) [0..<cam_num c] = Some 4 \<and> ent_gk c 4"
proof -
  let ?c = "cam_example 0" and ?e = "\<lparr> ent_ctrl = 0x40, ent_mac = [2, 2, 3, 4, 5, 6], ent_key = replicate 16 9 \<rparr> :: sec_cam_ent"
  obtain hw where ok: "cam_ok (ent_set (rtw_camid_set ?c 4) 4 ?e hw)"
    using write_cam_ok [of "rtw_camid_set ?c 4" 4 "[2, 2, 3, 4, 5, 6]" "replicate 16 9" "0x40"] cam_example_ok by auto
  let ?d = "ent_set (rtw_camid_set ?c 4) 4 ?e hw"
  have cache: "cam_cache ?d ! i = (if i = 4 then ?e else zero_ent)" if "i < 32" for i
    using that by (simp add: cam_example_def rtw_camid_set_def nth_list_update)
  have num: "cam_num ?d = 32" by (simp add: cam_example_def rtw_camid_set_def)
  have "ent_matches ?d (kp_addr key_example_parm) (int (keyid key_example_parm)) (-1) i \<longleftrightarrow> i = 4" if "i < 32" for i
    unfolding ent_matches_def ent_kid_def cache [OF that] by (simp add: key_example_parm_def zero_ent_def zero_bytes)
  then have "find (ent_matches ?d (kp_addr key_example_parm) (int (keyid key_example_parm)) (-1)) [0..<32] = Some 4"
    by (auto simp: find_Some_iff intro!: exI [of _ 4])
  moreover have "rtw_sec_camid_is_used ?d 4"
    by (simp add: rtw_sec_camid_is_used_def cam_example_def rtw_camid_set_def cam_ids.is_set_st)
  moreover have "\<not> rtw_camctl_chk_cap ?d SEC_CAP_CHK_BMC" by (simp add: rtw_camctl_chk_cap_def cam_example_def rtw_camid_set_def)
  ultimately show ?thesis using ok num cache [of 4] by (intro exI [of _ ?d]) (simp add: ent_gk_def)
qed

theorem set_stakey_hdl_conflict_witness:
  "\<exists>c r c'. set_stakey_hdl 33 (\<lambda>_. True) [] key_example_parm (key_example_state c) = Inr (r, (key_example_state c)\<lparr>enc_algo := 4, cam := c'\<rparr>) \<and>
     cam_view c' 4 = None \<and> cam_cache c' ! 4 = key_ent key_example_parm"
proof -
  obtain c where c: "cam_ok c" "cam_num c = 32" "\<not> rtw_camctl_chk_cap c SEC_CAP_CHK_BMC"
    "find (ent_matches c (kp_addr key_example_parm) (int (keyid key_example_parm)) (-1)) [0..<cam_num c] = Some 4" "ent_gk c 4"
    using cam_example_group by blast
  have s: "cam (key_example_state c) = c" by (simp add: key_example_state_def)
  have "\<not> kp_gk key_example_parm" "algorithm key_example_parm = 4" "cam_num c < 33" using c(2) by (simp_all add: key_example_parm_def)
  then show ?thesis
    using set_stakey_hdl_conflict [where s = "key_example_state c" and p = key_example_parm and known = "\<lambda>_. True" and i = 4
        and fuel = 33 and bssid = "[]"] s c key_example_ok by auto
qed

section \<open>Well-formedness\<close>

lemma get_camid_ok:
  assumes "cam_ok c"
  shows "\<exists>x. rtw_get_camid c (Some addr) kid gk = Inr x \<and> (\<forall>i. x = Some i \<longrightarrow> i < 32)"
proof -
  have lt: "find P [0..<cam_num c] = Some i \<Longrightarrow> i < 32" for P i
    using find_upt_Some [of P "cam_num c" i] cam_okD(3) [OF assms] by simp
  show ?thesis
    using lt by (auto simp: rtw_get_camid_def search_total [OF assms] split: option.splits)
qed

lemma alloc_ok:
  assumes "cam_ok c"
  shows "\<exists>x u d. rtw_camid_alloc c st bssid sta kid gk = Inr (x, u, d) \<and> cam_ok d \<and> cam_num d = cam_num c \<and>
    (\<forall>i. x = Some i \<longrightarrow> i < 32)"
proof -
  let ?m = "if (st AND 0x03 = WIFI_FW_AP_STATE \<or> st AND 0x03 = WIFI_FW_ADHOC_STATE) \<and> sta = None
            then Inr (if kid > 3 then None else Some kid)
            else if sta = None \<and> st AND WIFI_FW_ASSOC_SUCCESS = 0 then Inr None
            else rtw_get_camid c (Some (case sta of None \<Rightarrow> bssid | Some a \<Rightarrow> a)) (int kid) gk"
  obtain z where z: "rtw_get_camid c (Some (case sta of None \<Rightarrow> bssid | Some a \<Rightarrow> a)) (int kid) gk = Inr z" "\<forall>i. z = Some i \<longrightarrow> i < 32"
    using get_camid_ok [OF assms] by blast
  have "\<exists>y. ?m = Inr y \<and> (\<forall>i. y = Some i \<longrightarrow> i < 32)" using z(2) by (auto simp: z(1))
  then obtain y where y: "?m = Inr y" "\<forall>i. y = Some i \<longrightarrow> i < 32" by blast
  have m: "rtw_camid_alloc c st bssid sta kid gk = bindc ?m (\<lambda>cam_id.
     Inr (case cam_id of None \<Rightarrow> (None, False, c)
          | Some i \<Rightarrow> (Some i, rtw_sec_camid_is_used c i, c\<lparr>cam_used := rtw_sec_cam_map_set (cam_used c) i\<rparr>)))"
    by (simp add: rtw_camid_alloc_def)
  show ?thesis unfolding m y(1) using y(2) assms by (cases y) auto
qed

lemma clear_group_ok:
  assumes "cam_ok c" and "cam_num c < fuel"
  shows "\<exists>d. clear_keys fuel (rtw_camctl_set_flags c fl) addr 1 = Inr d \<and> cam_ok d \<and> cam_num d = cam_num c"
proof -
  let ?c = "rtw_camctl_set_flags c fl"
  have "cam_ok ?c" "card (matching ?c addr 1) < fuel"
    using assms card_matching [of ?c addr 1] by (simp_all add: rtw_camctl_set_flags_def)
  from clear_keys_ok [OF this(1) _ this(2)] show ?thesis
    by (auto simp: cleared_def rtw_camctl_set_flags_def)
qed

lemma set_stakey_ok:
  assumes "cam_ok (cam s)" and "cam_num (cam s) < fuel" and "length (kp_addr p) = 6" and "length (kp_key p) = 16"
    and "algorithm p \<noteq> 0 \<or> kp_addr p \<noteq> replicate 6 0"
  shows "\<exists>r s'. set_stakey_hdl fuel known bssid p s = Inr (r, s') \<and> cam_ok (cam s')"
proof (cases "algorithm p = 0")
  case True
  have "card (matching (cam s) (kp_addr p) (-1)) < fuel" using card_matching [of "cam s" "kp_addr p" "-1"] assms(2) by simp
  then show ?thesis
    using clear_keys_ok [OF assms(1), of "kp_addr p" "-1" fuel] assms(5) True by (auto simp: set_stakey_hdl_def cleared_def)
next
  case alg: False
  obtain x u d where d: "rtw_camid_alloc (cam s) (mlme_state s) bssid (Some (kp_addr p)) (keyid p) (if kp_gk p then 1 else 0) = Inr (x, u, d)"
    "cam_ok d" "cam_num d = cam_num (cam s)" "\<forall>i. x = Some i \<longrightarrow> i < 32"
    using alloc_ok [OF assms(1)] by blast
  show ?thesis
  proof (cases "\<not> known (kp_addr p) \<or> x = None")
    case True
    then show ?thesis using alg d(1,2) assms(1) by (auto simp: set_stakey_hdl_def)
  next
    case False
    then obtain i where i: "x = Some i" "i < 32" "known (kp_addr p)" using d(4) by auto
    obtain e where e: "(if \<not> kp_gk p \<and> u \<and> ent_gk d i
         then clear_keys fuel (rtw_camctl_set_flags d SEC_STATUS_STA_PK_GK_CONFLICT_DIS_BMC_SEARCH) (kp_addr p) 1 else Inr d) = Inr e"
      "cam_ok e"
      using clear_group_ok [OF d(2), of fuel] d(2,3) assms(2) by (metis (full_types))
    obtain hw where "write_cam e i (key_ctrl p (kp_gk p)) (kp_addr p) (kp_key p) =
        Inr (ent_set e i \<lparr> ent_ctrl = key_ctrl p (kp_gk p), ent_mac = kp_addr p, ent_key = kp_key p \<rparr> hw)"
      "cam_ok (ent_set e i \<lparr> ent_ctrl = key_ctrl p (kp_gk p), ent_mac = kp_addr p, ent_key = kp_key p \<rparr> hw)"
      using write_cam_ok [OF e(2) i(2) assms(3,4)] by blast
    then show ?thesis
      using alg i d(1) e(1) is_gk_total [OF d(2), of i] unfolding set_stakey_hdl_def Let_def by simp
  qed
qed

lemma cam_state_upd: "mlme_state (x\<lparr>cam := y\<rparr>) = mlme_state x"
  by simp

text \<open>What \<open>setkey_hdl\<close> does once an entry is allocated.\<close>

lemma setkey_write_ok:
  fixes p s own_mac bssid
  defines "s1 \<equiv> (if set_tx p then s\<lparr>key_index := keyid p\<rparr> else s)"
  assumes d: "rtw_camid_alloc (cam s1) (mlme_state s1) bssid None (keyid p) 1 = Inr (Some i, u, d)"
    "cam_ok d" "cam_num d < fuel" "i < 32"
    and "length (kp_key p) = 16" "length bssid = 6" "length own_mac = 6"
  shows "\<exists>r s'. setkey_hdl fuel known bssid own_mac p s = Inr (r, s') \<and> cam_ok (cam s')"
proof -
  let ?s = "if set_tx p then s\<lparr>key_index := keyid p\<rparr> else s"
  note d' = d(1) [unfolded s1_def]
  let ?ap = "mlme_state ?s AND 0x03 = WIFI_FW_AP_STATE \<or> mlme_state ?s AND 0x03 = WIFI_FW_ADHOC_STATE"
  let ?addr = "if i \<le> 3 then replicate 6 0 else if ?ap then own_mac else bssid"
  have i: "i < 32" and addr: "length ?addr = 6" using d(4) assms(7,8) by auto
  show ?thesis
  proof (cases "u \<and> \<not> ent_gk d i")
    case True
    then show ?thesis
      using clear_group_ok [OF d(2), of fuel SEC_STATUS_STA_PK_GK_CONFLICT_DIS_BMC_SEARCH ?addr] d(2-4) d'
      unfolding setkey_hdl_def Let_def by (auto simp: is_gk_total)
  next
    case False
    obtain hw where hw: "write_cam d i (key_ctrl p True) ?addr (kp_key p) =
        Inr (ent_set d i \<lparr> ent_ctrl = key_ctrl p True, ent_mac = ?addr, ent_key = kp_key p \<rparr> hw)"
      "cam_ok (ent_set d i \<lparr> ent_ctrl = key_ctrl p True, ent_mac = ?addr, ent_key = kp_key p \<rparr> hw)"
      using write_cam_ok [OF d(2) i addr assms(6)] by blast
    let ?c = "ent_set d i \<lparr> ent_ctrl = key_ctrl p True, ent_mac = ?addr, ent_key = kp_key p \<rparr> hw"
    let ?p = "\<lparr> algorithm = algorithm p, keyid = keyid p, kp_gk = False, set_tx = False, kp_key = kp_key p, kp_addr = bssid \<rparr>"
    have wep: "\<exists>r s'. set_stakey_hdl fuel known bssid ?p (?s\<lparr>cam := ?c\<rparr>) = Inr (r, s') \<and> cam_ok (cam s')"
      if "algorithm p = 1 \<or> algorithm p = 5"
      using that hw(2) d(3) assms(6,7) by (intro set_stakey_ok) auto
    have "setkey_hdl fuel known bssid own_mac p s =
        (if (algorithm p = 1 \<or> algorithm p = 5) \<and> mlme_state ?s AND 0x03 = WIFI_FW_STATION_STATE \<and> rtw_camctl_chk_cap ?c SEC_CAP_CHK_BMC
         then bindc (set_stakey_hdl fuel known bssid ?p (?s\<lparr>cam := ?c\<rparr>)) (\<lambda>(_, s). Inr (H2C_SUCCESS, s))
         else Inr (H2C_SUCCESS, ?s\<lparr>cam := ?c\<rparr>))"
      unfolding setkey_hdl_def Let_def d' bindc_Inr prod.case option.case is_gk_total [OF d(2)] if_not_P [OF False] hw(1)
      by (simp only: cam_state_upd)
    then show ?thesis using wep hw(2) by (auto simp del: set_stakey_hdl_def)
  qed
qed

text \<open>C20: The handlers of the key commands keep the table well formed: on a table of 32 entries that agrees
  with the hardware both return, make no access outside the table, and leave such a table, whatever
  the state of the connection and the entries are; only a removal for the zero address is excluded.\<close>

theorem key_handlers_type:
  assumes "cam_ok (cam s)" and "cam_num (cam s) < fuel" and "length (kp_addr p) = 6" and "length (kp_key p) = 16"
    and "length bssid = 6" and "length own_mac = 6"
  shows "(\<exists>r s'. setkey_hdl fuel known bssid own_mac p s = Inr (r, s') \<and> cam_ok (cam s')) \<and>
    (algorithm p \<noteq> 0 \<or> kp_addr p \<noteq> replicate 6 0 \<longrightarrow>
      (\<exists>r s'. set_stakey_hdl fuel known bssid p s = Inr (r, s') \<and> cam_ok (cam s')))"
proof (intro conjI impI)
  assume "algorithm p \<noteq> 0 \<or> kp_addr p \<noteq> replicate 6 0"
  from set_stakey_ok [OF assms(1-4) this] show "\<exists>r s'. set_stakey_hdl fuel known bssid p s = Inr (r, s') \<and> cam_ok (cam s')" .
next
  let ?s = "if set_tx p then s\<lparr>key_index := keyid p\<rparr> else s"
  obtain x u d where d: "rtw_camid_alloc (cam ?s) (mlme_state ?s) bssid None (keyid p) 1 = Inr (x, u, d)"
    "cam_ok d" "cam_num d = cam_num (cam s)" "\<forall>i. x = Some i \<longrightarrow> i < 32"
  proof -
    have "cam ?s = cam s" by simp
    from alloc_ok [OF assms(1), of "mlme_state ?s" bssid None "keyid p" 1, folded this] that show ?thesis
      unfolding \<open>cam ?s = cam s\<close> by blast
  qed
  show "\<exists>r s'. setkey_hdl fuel known bssid own_mac p s = Inr (r, s') \<and> cam_ok (cam s')"
  proof (cases x)
    case None
    then show ?thesis using d unfolding setkey_hdl_def Let_def by simp
  next
    case (Some i)
    with d assms(2,4-6) show ?thesis by (intro setkey_write_ok [of p s bssid i u d]) simp_all
  qed
qed

theorem key_handlers_type_witness:
  "\<exists>r s'. setkey_hdl 33 (\<lambda>_. True) (replicate 6 1) (replicate 6 2) key_example_parm (key_example_state (cam_example 1)) = Inr (r, s') \<and>
    cam_ok (cam s')"
proof -
  let ?s = "key_example_state (cam_example 1)"
  have "cam_ok (cam ?s)" using cam_example_ok by (simp add: key_example_state_def)
  moreover have "cam_num (cam ?s) < 33" by (simp add: key_example_state_def cam_example_def)
  moreover have "length (kp_addr key_example_parm) = 6" "length (kp_key key_example_parm) = 16" by (simp_all add: key_example_parm_def)
  ultimately show ?thesis
    using key_handlers_type [of ?s 33 key_example_parm "replicate 6 1" "replicate 6 2" "\<lambda>_. True"] by simp
qed

end
