(* ===== verification/Macid.thy ===== *)
theory Macid
  imports Cam
begin

text \<open>
  The identifiers of the stations in the hardware (core/rtw_wlan_util.c): the bitmaps of used,
  broadcast and per-interface identifiers, their allocation and release, and the traffic indication
  map, a bitmap of association identifiers.
\<close>

section \<open>Bitmaps\<close>

definition rtw_macid_is_set :: "u32 \<Rightarrow> nat \<Rightarrow> bool" where
  "rtw_macid_is_set m0 i = (if i < 32 then m0 AND BIT i \<noteq> 0 else False)"

definition rtw_macid_map_set :: "u32 \<Rightarrow> nat \<Rightarrow> u32" where
  "rtw_macid_map_set m0 i = (if i < 32 then m0 OR BIT i else m0)"

definition rtw_macid_map_clr :: "u32 \<Rightarrow> nat \<Rightarrow> u32" where
  "rtw_macid_map_clr m0 i = (if i < 32 then m0 AND NOT (BIT i) else m0)"

lemma macid_is_set: "rtw_macid_is_set m i \<longleftrightarrow> bit m i"
  using bit_imp_le_length [of m i] BIT_and [of m i] by (auto simp: rtw_macid_is_set_def)

interpretation macids: id_bitmap rtw_macid_is_set rtw_macid_map_set rtw_macid_map_clr 32
proof unfold_locales
  fix m i j
  show "rtw_macid_is_set (rtw_macid_map_set m i) j \<longleftrightarrow> j = i \<and> i < 32 \<or> rtw_macid_is_set m j"
    by (auto simp: macid_is_set rtw_macid_map_set_def bit_simps bit_BIT)
  show "rtw_macid_is_set (rtw_macid_map_clr m i) j \<longleftrightarrow> rtw_macid_is_set m j \<and> j \<noteq> i"
    using bit_imp_le_length [of m j] by (auto simp: macid_is_set rtw_macid_map_clr_def bit_simps bit_BIT)
  show "rtw_macid_is_set m j \<Longrightarrow> j < 32"
    using bit_imp_le_length [of m j] by (simp add: macid_is_set)
qed

section \<open>State\<close>

definition RTW_DEFAULT_MGMT_MACID :: nat where "RTW_DEFAULT_MGMT_MACID = 1"
definition INVALID_SEC_MAC_CAM_ID :: nat where "INVALID_SEC_MAC_CAM_ID = 0xFF"

text \<open>\<open>id_sta\<close> holds references to stations, as offsets into their pool.\<close>

record macid_ctl =
  id_num :: nat
  id_used :: u32
  id_bmc :: u32
  if_g :: "u32 list"
  ch_g :: "u32 list"
  iface_bmc :: "nat list"
  id_sta :: "nat option list"
  h2c_msr :: "u8 list"
  id_bw :: "u8 list"
  vht_en :: "u8 list"
  rate_bmp0 :: "u32 list"
  rate_bmp1 :: "u32 list"

definition rtw_macid_is_used :: "macid_ctl \<Rightarrow> nat \<Rightarrow> bool" where
  "rtw_macid_is_used m i = rtw_macid_is_set (id_used m) i"

definition rtw_macid_is_bmc :: "macid_ctl \<Rightarrow> nat \<Rightarrow> bool" where
  "rtw_macid_is_bmc m i = rtw_macid_is_set (id_bmc m) i"

text \<open>The interfaces that use an identifier, as a bitmap.\<close>

definition rtw_macid_get_iface_bmp :: "macid_ctl \<Rightarrow> nat \<Rightarrow> u8" where
  "rtw_macid_get_iface_bmp m i =
     foldl (\<lambda>bmp n. if rtw_macid_is_set (if_g m ! n) i then bmp OR BIT n else bmp) 0 [0..<length (if_g m)]"

definition rtw_macid_is_iface_shared :: "macid_ctl \<Rightarrow> nat \<Rightarrow> bool" where
  "rtw_macid_is_iface_shared m i \<longleftrightarrow> length (filter (\<lambda>g. rtw_macid_is_set g i) (if_g m)) > 1"

definition rtw_macid_is_iface_specific :: "macid_ctl \<Rightarrow> nat \<Rightarrow> nat \<Rightarrow> bool" where
  "rtw_macid_is_iface_specific m i iface \<longleftrightarrow>
     filter (\<lambda>n. rtw_macid_is_set (if_g m ! n) i) [0..<length (if_g m)] = [iface]"

definition rtw_macid_get_ch_g :: "macid_ctl \<Rightarrow> nat \<Rightarrow> int" where
  "rtw_macid_get_ch_g m i =
     (case find (\<lambda>n. rtw_macid_is_set (ch_g m ! n) i) [0, 1] of None \<Rightarrow> -1 | Some n \<Rightarrow> int n)"

definition rtw_iface_bcmc_id_set :: "macid_ctl \<Rightarrow> nat \<Rightarrow> nat \<Rightarrow> macid_ctl" where
  "rtw_iface_bcmc_id_set m iface i = m\<lparr>iface_bmc := (iface_bmc m)[iface := i]\<rparr>"

definition rtw_iface_bcmc_id_get :: "macid_ctl \<Rightarrow> nat \<Rightarrow> nat" where
  "rtw_iface_bcmc_id_get m iface = iface_bmc m ! iface"

definition rtw_macid_ctl_init :: "macid_ctl \<Rightarrow> macid_ctl" where
  "rtw_macid_ctl_init m =
     m\<lparr>id_used := rtw_macid_map_set (id_used m) RTW_DEFAULT_MGMT_MACID,
       id_bmc := rtw_macid_map_set (id_bmc m) RTW_DEFAULT_MGMT_MACID,
       if_g := map (\<lambda>g. rtw_macid_map_set g RTW_DEFAULT_MGMT_MACID) (if_g m),
       id_sta := (id_sta m)[RTW_DEFAULT_MGMT_MACID := None]\<rparr>"

section \<open>Allocation and release\<close>

text \<open>\<open>addr\<close> is the address of the station \<open>psta\<close>, \<open>own\<close> that of the interface. The result is the
  identifier; the number of identifiers stands for none. Without concurrent interfaces every
  broadcast station shares the identifier of the management frames.\<close>

definition rtw_alloc_macid :: "macid_ctl \<Rightarrow> nat \<Rightarrow> u8 list \<Rightarrow> nat \<Rightarrow> u8 list \<Rightarrow> nat \<times> macid_ctl" where
  "rtw_alloc_macid m iface own psta addr =
     (if addr = own then (id_num m, m)
      else if addr = replicate 6 0xff then
        (RTW_DEFAULT_MGMT_MACID, rtw_iface_bcmc_id_set m iface INVALID_SEC_MAC_CAM_ID)
      else
        case find (\<lambda>i. \<not> rtw_macid_is_used m i) [0..<id_num m] of
          None \<Rightarrow> (id_num m, m)
        | Some i \<Rightarrow> (i, m\<lparr>id_used := rtw_macid_map_set (id_used m) i,
            if_g := (if_g m)[iface := rtw_macid_map_set (if_g m ! iface) i],
            id_sta := (id_sta m)[i := Some psta]\<rparr>))"

text \<open>The identifier of the station is \<open>macid\<close>; afterwards it has none. The key table entry recorded
  for the broadcast station of the interface is freed with it.\<close>

definition rtw_release_macid ::
  "macid_ctl \<Rightarrow> cam_ctl \<Rightarrow> nat \<Rightarrow> u8 list \<Rightarrow> nat \<Rightarrow> u8 list \<Rightarrow> nat \<times> macid_ctl \<times> cam_ctl" where
  "rtw_release_macid m c iface own macid addr =
     (id_num m,
      if addr = own then (m, c)
      else if macid \<ge> id_num m then (m, c)
      else if macid = RTW_DEFAULT_MGMT_MACID then (m, c)
      else if \<not> rtw_macid_is_used m macid then (m, c)
      else
        let ifbmp = rtw_macid_get_iface_bmp m macid in
        if ifbmp AND BIT iface = 0 then (m, c)
        else
          let is_bc = (addr = replicate 6 0xff);
              bc_id = rtw_iface_bcmc_id_get m iface;
              c = (if is_bc \<and> bc_id \<noteq> INVALID_SEC_MAC_CAM_ID \<and> bc_id < cam_num c
                   then c\<lparr>cam_used := rtw_sec_cam_map_clr (cam_used c) bc_id\<rparr> else c);
              m = (if is_bc then rtw_iface_bcmc_id_set m iface INVALID_SEC_MAC_CAM_ID else m);
              m = m\<lparr>if_g := (if_g m)[iface := rtw_macid_map_clr (if_g m ! iface) macid]\<rparr> in
          if ifbmp AND NOT (BIT iface) \<noteq> 0 then (m, c)
          else (m\<lparr>id_used := rtw_macid_map_clr (id_used m) macid, id_bmc := rtw_macid_map_clr (id_bmc m) macid,
                  ch_g := map (\<lambda>g. rtw_macid_map_clr g macid) (ch_g m), id_sta := (id_sta m)[macid := None]\<rparr>, c))"

definition rtw_search_max_mac_id :: "macid_ctl \<Rightarrow> nat" where
  "rtw_search_max_mac_id m =
     (case find (rtw_macid_is_used m) (rev [1..<id_num m]) of None \<Rightarrow> 0 | Some i \<Rightarrow> i)"

definition macid_put :: "macid_ctl \<Rightarrow> nat \<Rightarrow> 'a list \<Rightarrow> 'a \<Rightarrow> 'a list" where
  "macid_put m i xs x = (if i \<ge> id_num m then xs else xs[i := x])"

definition rtw_macid_ctl_set_h2c_msr :: "macid_ctl \<Rightarrow> nat \<Rightarrow> u8 \<Rightarrow> macid_ctl" where
  "rtw_macid_ctl_set_h2c_msr m i x = m\<lparr>h2c_msr := macid_put m i (h2c_msr m) x\<rparr>"

definition rtw_macid_ctl_set_bw :: "macid_ctl \<Rightarrow> nat \<Rightarrow> u8 \<Rightarrow> macid_ctl" where
  "rtw_macid_ctl_set_bw m i x = m\<lparr>id_bw := macid_put m i (id_bw m) x\<rparr>"

definition rtw_macid_ctl_set_vht_en :: "macid_ctl \<Rightarrow> nat \<Rightarrow> u8 \<Rightarrow> macid_ctl" where
  "rtw_macid_ctl_set_vht_en m i x = m\<lparr>vht_en := macid_put m i (vht_en m) x\<rparr>"

definition rtw_macid_ctl_set_rate_bmp0 :: "macid_ctl \<Rightarrow> nat \<Rightarrow> u32 \<Rightarrow> macid_ctl" where
  "rtw_macid_ctl_set_rate_bmp0 m i x = m\<lparr>rate_bmp0 := macid_put m i (rate_bmp0 m) x\<rparr>"

definition rtw_macid_ctl_set_rate_bmp1 :: "macid_ctl \<Rightarrow> nat \<Rightarrow> u32 \<Rightarrow> macid_ctl" where
  "rtw_macid_ctl_set_rate_bmp1 m i x = m\<lparr>rate_bmp1 := macid_put m i (rate_bmp1 m) x\<rparr>"

section \<open>The traffic indication map\<close>

text \<open>The C functions take the identifier as \<open>u8\<close>; a number here stands for one below 256, which the identifiers the
  driver gives out are.\<close>

definition rtw_bmp_is_set :: "u8 list \<Rightarrow> nat \<Rightarrow> nat \<Rightarrow> bool" where
  "rtw_bmp_is_set bmp bmp_len i = (if i div 8 \<ge> bmp_len then False else bmp ! (i div 8) AND BIT (i mod 8) \<noteq> 0)"

definition rtw_bmp_set :: "u8 list \<Rightarrow> nat \<Rightarrow> nat \<Rightarrow> u8 list" where
  "rtw_bmp_set bmp bmp_len i =
     (if i div 8 < bmp_len then bmp[i div 8 := bmp ! (i div 8) OR BIT (i mod 8)] else bmp)"

definition rtw_bmp_clear :: "u8 list \<Rightarrow> nat \<Rightarrow> nat \<Rightarrow> u8 list" where
  "rtw_bmp_clear bmp bmp_len i =
     (if i div 8 < bmp_len then bmp[i div 8 := bmp ! (i div 8) AND NOT (BIT (i mod 8))] else bmp)"

definition rtw_bmp_not_empty :: "u8 list \<Rightarrow> nat \<Rightarrow> bool" where
  "rtw_bmp_not_empty bmp bmp_len \<longleftrightarrow> list_ex (\<lambda>i. bmp ! i \<noteq> 0) [0..<bmp_len]"

definition rtw_bmp_not_empty_exclude_bit0 :: "u8 list \<Rightarrow> nat \<Rightarrow> bool" where
  "rtw_bmp_not_empty_exclude_bit0 bmp bmp_len \<longleftrightarrow>
     list_ex (\<lambda>i. if i = 0 then bmp ! i AND 0xFE \<noteq> 0 else bmp ! i \<noteq> 0) [0..<bmp_len]"

section \<open>Who holds an identifier\<close>

lemma div_mod_8_eq: "i div 8 = j div 8 \<Longrightarrow> i mod 8 = j mod 8 \<Longrightarrow> i = (j :: nat)"
  by (metis div_mult_mod_eq)

lemma same_bit: "j div 8 = i div 8 \<Longrightarrow> j mod 8 = i mod 8 \<longleftrightarrow> j = (i :: nat)"
  using div_mod_8_eq [of j i] by blast

lemma rtw_bmp_set_is_set:
  "bmp_len \<le> length bmp \<Longrightarrow> rtw_bmp_is_set (rtw_bmp_set bmp bmp_len i) bmp_len j \<longleftrightarrow>
     j = i \<and> i div 8 < bmp_len \<or> rtw_bmp_is_set bmp bmp_len j"
  by (cases "j div 8 = i div 8"; cases "i div 8 < bmp_len")
    (auto simp: rtw_bmp_is_set_def rtw_bmp_set_def BIT_and bit_or_iff bit_BIT same_bit)

lemma rtw_bmp_clear_is_set:
  "bmp_len \<le> length bmp \<Longrightarrow> rtw_bmp_is_set (rtw_bmp_clear bmp bmp_len i) bmp_len j \<longleftrightarrow>
     rtw_bmp_is_set bmp bmp_len j \<and> j \<noteq> i"
  by (cases "j div 8 = i div 8"; cases "i div 8 < bmp_len")
    (auto simp: rtw_bmp_is_set_def rtw_bmp_clear_def BIT_and bit_and_iff bit_not_iff bit_BIT same_bit)

text \<open>The interfaces of an identifier, for a bit of the bitmap at a time.\<close>

lemma iface_bmp_fold:
  "bit (foldl (\<lambda>bmp n. if P n then bmp OR BIT n else bmp) (b :: u8) ns) k \<longleftrightarrow> bit b k \<or> (k \<in> set ns \<and> P k \<and> k < 8)"
  by (induction ns arbitrary: b) (auto simp: bit_simps bit_BIT)

lemma bit_iface_bmp:
  "bit (rtw_macid_get_iface_bmp m i) k \<longleftrightarrow> k < length (if_g m) \<and> rtw_macid_is_set (if_g m ! k) i \<and> k < 8"
  unfolding rtw_macid_get_iface_bmp_def iface_bmp_fold by auto

lemma iface_bmp_self: "rtw_macid_get_iface_bmp m i AND BIT f = 0 \<longleftrightarrow> \<not> bit (rtw_macid_get_iface_bmp m i) f"
  using BIT_and [of "rtw_macid_get_iface_bmp m i" f] by blast

lemma word_only_bit: "w AND NOT (BIT f) = 0 \<longleftrightarrow> (\<forall>k. bit w k \<longrightarrow> k = f)" for w :: "'a :: len word"
proof
  assume "w AND NOT (BIT f) = 0"
  then have "\<not> bit (w AND NOT (BIT f)) k" for k by simp
  then show "\<forall>k. bit w k \<longrightarrow> k = f"
    using bit_imp_le_length [of w] by (auto simp: bit_simps bit_BIT)
next
  assume "\<forall>k. bit w k \<longrightarrow> k = f"
  then show "w AND NOT (BIT f) = 0"
    by (intro bit_word_eqI) (auto simp: bit_simps bit_BIT)
qed

text \<open>\<open>A p = Some (f, addr, i)\<close>: the station \<open>p\<close> of interface \<open>f\<close> has the address and the identifier.\<close>

type_synonym holders = "nat \<Rightarrow> (nat \<times> u8 list \<times> nat) option"

definition macid_ok :: "macid_ctl \<Rightarrow> holders \<Rightarrow> bool" where
  "macid_ok m A \<longleftrightarrow>
     id_num m \<le> 32 \<and> length (id_sta m) = id_num m \<and> length (if_g m) \<le> 8 \<and>
     rtw_macid_is_used m RTW_DEFAULT_MGMT_MACID \<and>
     (\<forall>p f addr i. A p = Some (f, addr, i) \<longrightarrow>
        i < id_num m \<and> i \<noteq> RTW_DEFAULT_MGMT_MACID \<and> addr \<noteq> replicate 6 0xff \<and> id_sta m ! i = Some p \<and>
        rtw_macid_is_used m i \<and> f < length (if_g m)) \<and>
     (\<forall>i < id_num m. i \<noteq> RTW_DEFAULT_MGMT_MACID \<and> rtw_macid_is_used m i \<longrightarrow> (\<exists>p f addr. A p = Some (f, addr, i))) \<and>
     (\<forall>i < id_num m. \<forall>k < length (if_g m). i \<noteq> RTW_DEFAULT_MGMT_MACID \<longrightarrow>
        rtw_macid_is_set (if_g m ! k) i = (\<exists>p addr. A p = Some (k, addr, i)))"

lemma macid_okD:
  assumes "macid_ok m A"
  shows "id_num m \<le> 32" "length (id_sta m) = id_num m" "length (if_g m) \<le> 8"
    "rtw_macid_is_used m RTW_DEFAULT_MGMT_MACID"
    "A p = Some (f, addr, i) \<Longrightarrow> i < id_num m \<and> i \<noteq> RTW_DEFAULT_MGMT_MACID \<and> addr \<noteq> replicate 6 0xff \<and>
       id_sta m ! i = Some p \<and> rtw_macid_is_used m i \<and> f < length (if_g m)"
    "i < id_num m \<Longrightarrow> i \<noteq> RTW_DEFAULT_MGMT_MACID \<Longrightarrow> rtw_macid_is_used m i \<Longrightarrow> \<exists>p f addr. A p = Some (f, addr, i)"
    "i < id_num m \<Longrightarrow> k < length (if_g m) \<Longrightarrow> i \<noteq> RTW_DEFAULT_MGMT_MACID \<Longrightarrow>
       rtw_macid_is_set (if_g m ! k) i = (\<exists>p addr. A p = Some (k, addr, i))"
  using assms unfolding macid_ok_def by blast+

lemma macid_same_holder:
  assumes "macid_ok m A" "A p = Some (f, addr, i)" "A q = Some (g, addr', i)"
  shows "p = q \<and> f = g \<and> addr = addr'"
  using macid_okD(5) [OF assms(1) assms(2)] macid_okD(5) [OF assms(1) assms(3)] assms(2,3) by simp

lemma holders_take:
  assumes "A p = None"
  shows "(\<exists>q a. (A(p \<mapsto> (f, addr, i))) q = Some (k, a, j)) \<longleftrightarrow> (k = f \<and> j = i) \<or> (\<exists>q a. A q = Some (k, a, j))"
    (is "?l \<longleftrightarrow> ?r")
proof
  assume ?l
  then show ?r by (auto split: if_splits)
next
  assume ?r
  then show ?l
  proof
    assume "k = f \<and> j = i"
    then show ?l by (intro exI [of _ p] exI [of _ addr]) simp
  next
    assume "\<exists>q a. A q = Some (k, a, j)"
    then obtain q a where "A q = Some (k, a, j)" by blast
    then show ?l using assms by (intro exI [of _ q] exI [of _ a]) auto
  qed
qed

lemma holders_give:
  assumes "A p = Some (f, addr, i)" "\<And>q g a. A q = Some (g, a, i) \<Longrightarrow> q = p"
  shows "(\<exists>q a. (A(p := None)) q = Some (k, a, j)) \<longleftrightarrow> (\<exists>q a. A q = Some (k, a, j)) \<and> \<not> (k = f \<and> j = i)"
    (is "?l \<longleftrightarrow> ?r")
proof
  assume ?l
  then obtain q a where "A q = Some (k, a, j)" "q \<noteq> p" by (auto split: if_splits)
  then show ?r using assms by blast
next
  assume ?r
  then obtain q a where q: "A q = Some (k, a, j)" "\<not> (k = f \<and> j = i)" by blast
  then have "q \<noteq> p" using assms(1) by auto
  then show ?l using q by (intro exI [of _ q] exI [of _ a]) simp
qed

lemma macid_ok_bcmc: "macid_ok (rtw_iface_bcmc_id_set m f i) A = macid_ok m A"
  by (simp add: macid_ok_def rtw_iface_bcmc_id_set_def rtw_macid_is_used_def)

lemma macid_take:
  assumes "macid_ok m A" "A p = None" "f < length (if_g m)" "addr \<noteq> replicate 6 0xff"
    "i < id_num m" "\<not> rtw_macid_is_used m i"
  shows "macid_ok (m\<lparr>id_used := rtw_macid_map_set (id_used m) i,
            if_g := (if_g m)[f := rtw_macid_map_set (if_g m ! f) i],
            id_sta := (id_sta m)[i := Some p]\<rparr>) (A(p \<mapsto> (f, addr, i)))"
    (is "macid_ok ?m ?A")
proof -
  note ok = macid_okD [OF assms(1)]
  have i1: "i \<noteq> RTW_DEFAULT_MGMT_MACID" using assms(6) ok(4) by auto
  have i32: "i < 32" using assms(5) ok(1) by simp
  have used: "rtw_macid_is_used ?m j \<longleftrightarrow> j = i \<or> rtw_macid_is_used m j" for j
    using i32 by (simp add: rtw_macid_is_used_def macids.is_set_st)
  have ifg: "rtw_macid_is_set (if_g ?m ! k) j \<longleftrightarrow> (k = f \<and> j = i) \<or> rtw_macid_is_set (if_g m ! k) j"
    if "k < length (if_g m)" for k j
    using i32 that assms(3) by (cases "k = f") (simp_all add: macids.is_set_st)
  have free: "j \<noteq> i" if "A q = Some (g, a, j)" for q g a j using ok(5) [OF that] assms(6) by auto
  have sta: "id_sta ?m ! j = (if j = i then Some p else id_sta m ! j)" for j
    using assms(5) ok(2) by (simp add: nth_list_update)
  show ?thesis unfolding macid_ok_def
  proof (intro conjI allI impI)
    show "id_num ?m \<le> 32" "length (id_sta ?m) = id_num ?m" "length (if_g ?m) \<le> 8" using ok(1-3) by simp_all
    show "rtw_macid_is_used ?m RTW_DEFAULT_MGMT_MACID" unfolding used using ok(4) by (rule disjI2)
  next
    fix q g a j assume q: "?A q = Some (g, a, j)"
    have "j < id_num m \<and> j \<noteq> RTW_DEFAULT_MGMT_MACID \<and> a \<noteq> replicate 6 0xff \<and> id_sta ?m ! j = Some q \<and>
      rtw_macid_is_used ?m j \<and> g < length (if_g m)"
    proof (cases "q = p")
      case True
      then show ?thesis using q i1 assms(3-5) used sta by simp
    next
      case False
      then have q': "A q = Some (g, a, j)" using q by simp
      show ?thesis using ok(5) [OF q'] free [OF q'] used sta by simp
    qed
    then show "j < id_num ?m" "j \<noteq> RTW_DEFAULT_MGMT_MACID" "a \<noteq> replicate 6 0xff" "id_sta ?m ! j = Some q"
      "rtw_macid_is_used ?m j" "g < length (if_g ?m)" by simp_all
  next
    fix j assume j: "j < id_num ?m" "j \<noteq> RTW_DEFAULT_MGMT_MACID \<and> rtw_macid_is_used ?m j"
    show "\<exists>q g a. ?A q = Some (g, a, j)"
    proof (cases "j = i")
      case True
      then show ?thesis by (intro exI [of _ p] exI [of _ f] exI [of _ addr]) simp
    next
      case False
      then obtain q g a where "A q = Some (g, a, j)" using ok(6) [of j] j used by auto
      then show ?thesis using assms(2) by (intro exI [of _ q] exI [of _ g] exI [of _ a]) auto
    qed
  next
    fix j k assume j: "j < id_num ?m" "k < length (if_g ?m)" "j \<noteq> RTW_DEFAULT_MGMT_MACID"
    then have old: "rtw_macid_is_set (if_g m ! k) j = (\<exists>q a. A q = Some (k, a, j))" and k: "k < length (if_g m)"
      using ok(7) by simp_all
    have "(\<exists>q a. ?A q = Some (k, a, j)) \<longleftrightarrow> (k = f \<and> j = i) \<or> (\<exists>q a. A q = Some (k, a, j))"
      by (rule holders_take [where A = A, OF assms(2)])
    then show "rtw_macid_is_set (if_g ?m ! k) j = (\<exists>q a. ?A q = Some (k, a, j))"
      by (simp only: ifg [OF k] old)
  qed
qed

lemma rtw_alloc_macid_ok:
  assumes "macid_ok m A" "A p = None" "f < length (if_g m)" "rtw_alloc_macid m f own p addr = (i, m')"
  shows "macid_ok m' (if i < id_num m \<and> i \<noteq> RTW_DEFAULT_MGMT_MACID then A(p \<mapsto> (f, addr, i)) else A)"
proof -
  consider "addr = own" | "addr \<noteq> own" "addr = replicate 6 0xff" | "addr \<noteq> own" "addr \<noteq> replicate 6 0xff" by blast
  then show ?thesis
  proof cases
    case 1
    then show ?thesis using assms by (auto simp: rtw_alloc_macid_def)
  next
    case 2
    then have "i = RTW_DEFAULT_MGMT_MACID" "m' = rtw_iface_bcmc_id_set m f INVALID_SEC_MAC_CAM_ID"
      using assms(4) by (simp_all add: rtw_alloc_macid_def)
    then show ?thesis using assms(1) by (simp add: macid_ok_bcmc)
  next
    case 3
    show ?thesis
    proof (cases "find (\<lambda>i. \<not> rtw_macid_is_used m i) [0..<id_num m]")
      case None
      then show ?thesis using 3 assms by (auto simp: rtw_alloc_macid_def)
    next
      case (Some j)
      then have j: "j < id_num m" "\<not> rtw_macid_is_used m j" by (auto simp: find_Some_iff)
      then have j1: "j \<noteq> RTW_DEFAULT_MGMT_MACID" using macid_okD(4) [OF assms(1)] by auto
      show ?thesis using macid_take [OF assms(1-3) 3(2) j] 3 assms(4) Some j j1
        by (auto simp: rtw_alloc_macid_def)
    qed
  qed
qed

lemma rtw_release_macid_ok:
  assumes "macid_ok m A" "A p = Some (f, addr, i)" "addr \<noteq> own"
  shows "macid_ok (fst (snd (rtw_release_macid m c f own i addr))) (A(p := None))"
proof -
  note ok = macid_okD [OF assms(1)]
  note pi = ok(5) [OF assms(2)]
  let ?m = "m\<lparr>if_g := (if_g m)[f := rtw_macid_map_clr (if_g m ! f) i],
    id_used := rtw_macid_map_clr (id_used m) i, id_bmc := rtw_macid_map_clr (id_bmc m) i,
    ch_g := map (\<lambda>g. rtw_macid_map_clr g i) (ch_g m), id_sta := (id_sta m)[i := None]\<rparr>"
  let ?A = "A(p := None)"
  have only: "rtw_macid_is_set (if_g m ! k) i \<longleftrightarrow> k = f" if "k < length (if_g m)" for k
    using ok(7) [of i k] pi that assms(2) macid_same_holder [OF assms(1) assms(2)] by blast
  have ifbmp: "bit (rtw_macid_get_iface_bmp m i) k \<longleftrightarrow> k = f" for k
    using only [of k] pi ok(3) by (auto simp: bit_iface_bmp)
  have "rtw_macid_get_iface_bmp m i AND BIT f \<noteq> 0" "rtw_macid_get_iface_bmp m i AND NOT (BIT f) = 0"
    unfolding iface_bmp_self word_only_bit by (simp_all add: ifbmp)
  then have res: "fst (snd (rtw_release_macid m c f own i addr)) = ?m"
    using pi assms(3) by (simp add: rtw_release_macid_def Let_def)
  have used: "rtw_macid_is_used ?m j \<longleftrightarrow> rtw_macid_is_used m j \<and> j \<noteq> i" for j
    by (simp add: rtw_macid_is_used_def macids.is_set_clr)
  have ifg: "rtw_macid_is_set (if_g ?m ! k) j \<longleftrightarrow> rtw_macid_is_set (if_g m ! k) j \<and> \<not> (k = f \<and> j = i)"
    if "k < length (if_g m)" for k j
    using that pi by (cases "k = f") (simp_all add: macids.is_set_clr)
  have other: "j \<noteq> i" if "A q = Some (g, a, j)" "q \<noteq> p" for q g a j
    using macid_same_holder [OF assms(1) assms(2), of q g a] that by auto
  have sta: "id_sta ?m ! j = (if j = i then None else id_sta m ! j)" for j
    using pi ok(2) by (simp add: nth_list_update)
  have "macid_ok ?m ?A" unfolding macid_ok_def
  proof (intro conjI allI impI)
    show "id_num ?m \<le> 32" "length (id_sta ?m) = id_num ?m" "length (if_g ?m) \<le> 8" using ok(1-3) by simp_all
    show "rtw_macid_is_used ?m RTW_DEFAULT_MGMT_MACID" unfolding used using ok(4) not_sym [OF conjunct1 [OF conjunct2 [OF pi]]] by (rule conjI)
  next
    fix q g a j assume q: "?A q = Some (g, a, j)"
    then have q': "A q = Some (g, a, j)" "q \<noteq> p" by (auto split: if_splits)
    have "j < id_num m \<and> j \<noteq> RTW_DEFAULT_MGMT_MACID \<and> a \<noteq> replicate 6 0xff \<and> id_sta ?m ! j = Some q \<and>
      rtw_macid_is_used ?m j \<and> g < length (if_g m)"
      using ok(5) [OF q'(1)] other [OF q'] unfolding used sta by simp
    then show "j < id_num ?m" "j \<noteq> RTW_DEFAULT_MGMT_MACID" "a \<noteq> replicate 6 0xff" "id_sta ?m ! j = Some q"
      "rtw_macid_is_used ?m j" "g < length (if_g ?m)" by simp_all
  next
    fix j assume j: "j < id_num ?m" "j \<noteq> RTW_DEFAULT_MGMT_MACID \<and> rtw_macid_is_used ?m j"
    then have uj: "rtw_macid_is_used m j" "j \<noteq> i" unfolding used by blast+
    then obtain q g a where q: "A q = Some (g, a, j)" using ok(6) [of j] j by auto
    moreover have "q \<noteq> p"
    proof
      assume "q = p"
      then show False using q uj(2) assms(2) by simp
    qed
    ultimately show "\<exists>q g a. ?A q = Some (g, a, j)" by (intro exI [of _ q] exI [of _ g] exI [of _ a]) simp
  next
    fix j k assume j: "j < id_num ?m" "k < length (if_g ?m)" "j \<noteq> RTW_DEFAULT_MGMT_MACID"
    then have old: "rtw_macid_is_set (if_g m ! k) j = (\<exists>q a. A q = Some (k, a, j))" and k: "k < length (if_g m)"
      using ok(7) by simp_all
    have "(\<exists>q a. ?A q = Some (k, a, j)) \<longleftrightarrow> (\<exists>q a. A q = Some (k, a, j)) \<and> \<not> (k = f \<and> j = i)"
      by (rule holders_give [where A = A, OF assms(2)]) (use other in blast)
    then show "rtw_macid_is_set (if_g ?m ! k) j = (\<exists>q a. ?A q = Some (k, a, j))"
      by (simp only: ifg [OF k] old)
  qed
  then show ?thesis by (simp only: res)
qed

section \<open>Runs\<close>

text \<open>Stations come and go, on any of the interfaces; \<open>own\<close> gives the addresses of the
  interfaces. A station that was given no identifier, or the shared one, holds none.\<close>

inductive macid_run :: "(nat \<Rightarrow> u8 list) \<Rightarrow> macid_ctl \<Rightarrow> cam_ctl \<Rightarrow> holders \<Rightarrow> bool" for own where
  macid_start: "RTW_DEFAULT_MGMT_MACID < n \<Longrightarrow> n \<le> 32 \<Longrightarrow> ifaces \<le> 8 \<Longrightarrow>
    id_num m = n \<Longrightarrow> id_used m = 0 \<Longrightarrow> id_bmc m = 0 \<Longrightarrow> if_g m = replicate ifaces 0 \<Longrightarrow> id_sta m = replicate n None \<Longrightarrow>
    macid_run own (rtw_macid_ctl_init m) c (\<lambda>_. None)"
| macid_alloc: "macid_run own m c A \<Longrightarrow> A p = None \<Longrightarrow> f < length (if_g m) \<Longrightarrow>
    rtw_alloc_macid m f (own f) p addr = (i, m') \<Longrightarrow>
    macid_run own m' c (if i < id_num m \<and> i \<noteq> RTW_DEFAULT_MGMT_MACID then A(p \<mapsto> (f, addr, i)) else A)"
| macid_release: "macid_run own m c A \<Longrightarrow> A p = Some (f, addr, i) \<Longrightarrow>
    rtw_release_macid m c f (own f) i addr = (j, m', c') \<Longrightarrow> macid_run own m' c' (A(p := None))"

inductive_cases macid_runE: "macid_run own m c A"

lemma macid_own: "macid_run own m c A \<Longrightarrow> A p = Some (f, addr, i) \<Longrightarrow> addr \<noteq> own f"
proof (induction arbitrary: p f addr i rule: macid_run.induct)
  case (macid_start n ifaces m c)
  then show ?case by simp
next
  case (macid_alloc m c A q g a j m')
  then show ?case by (auto simp: rtw_alloc_macid_def split: if_splits)
next
  case (macid_release m c A q g a j k m' c')
  then show ?case by (auto split: if_splits)
qed

lemma macid_init_ok:
  assumes "RTW_DEFAULT_MGMT_MACID < n" "n \<le> 32" "ifaces \<le> 8"
    "id_num m = n" "id_used m = 0" "if_g m = replicate ifaces 0" "id_sta m = replicate n None"
  shows "macid_ok (rtw_macid_ctl_init m) (\<lambda>_. None)"
proof -
  have z: "\<not> rtw_macid_is_set 0 i" for i by (simp add: macid_is_set)
  show ?thesis using assms
    by (simp add: macid_ok_def rtw_macid_ctl_init_def rtw_macid_is_used_def macids.is_set_st z)
qed

lemma macid_run_ok: "macid_run own m c A \<Longrightarrow> macid_ok m A"
proof (induction rule: macid_run.induct)
  case (macid_start n ifaces m c)
  then show ?case by (intro macid_init_ok) simp_all
next
  case (macid_alloc m c A p f addr i m')
  then show ?case by (intro rtw_alloc_macid_ok) simp_all
next
  case (macid_release m c A p f addr i j m' c')
  have "addr \<noteq> own f" using macid_own macid_release by blast
  then have "macid_ok (fst (snd (rtw_release_macid m c f (own f) i addr))) (A(p := None))"
    using rtw_release_macid_ok [of m A p f addr i "own f" c] macid_release by blast
  then show ?case unfolding macid_release.hyps(3) by (simp only: fst_conv snd_conv)
qed

text \<open>A unicast station gets no identifier exactly if all are held.\<close>

lemma rtw_alloc_macid_full:
  assumes "macid_ok m A" "rtw_alloc_macid m f own p addr = (i, m')" "addr \<noteq> own" "addr \<noteq> replicate 6 0xff"
  shows "i = id_num m \<longleftrightarrow> (\<forall>j < id_num m. j \<noteq> RTW_DEFAULT_MGMT_MACID \<longrightarrow> (\<exists>q g a. A q = Some (g, a, j)))"
proof -
  have "i = id_num m \<longleftrightarrow> find (\<lambda>i. \<not> rtw_macid_is_used m i) [0..<id_num m] = None"
    using assms(2-4) find_Some_iff [of "\<lambda>i. \<not> rtw_macid_is_used m i" "[0..<id_num m]"]
    by (cases "find (\<lambda>i. \<not> rtw_macid_is_used m i) [0..<id_num m]") (auto simp: rtw_alloc_macid_def)
  also have "\<dots> \<longleftrightarrow> (\<forall>j < id_num m. rtw_macid_is_used m j)" by (auto simp: find_None_iff)
  also have "\<dots> \<longleftrightarrow> (\<forall>j < id_num m. j \<noteq> RTW_DEFAULT_MGMT_MACID \<longrightarrow> (\<exists>q g a. A q = Some (g, a, j)))"
    using macid_okD(4-6) [OF assms(1)] by metis
  finally show ?thesis .
qed

section \<open>Properties\<close>

text \<open>C22: However stations come and go on the interfaces, two of them never hold the same identifier in the
  hardware, none holds the one of the management frames, the table of stations leads from each identifier
  back to the station that holds it, and a station with a unicast address is refused an identifier only
  when every other one is held.\<close>

theorem macid_run_unique:
  assumes "macid_run own m c A" "A p = Some (f, a, i)" "A q = Some (g, b, j)"
    and "rtw_alloc_macid m h (own h) r addr = (k, m')" "addr \<noteq> own h" "addr \<noteq> replicate 6 0xff"
  shows "i < id_num m \<and> i \<noteq> RTW_DEFAULT_MGMT_MACID \<and> id_sta m ! i = Some p \<and> (p \<noteq> q \<longrightarrow> i \<noteq> j) \<and>
    (k = id_num m \<longleftrightarrow> (\<forall>l < id_num m. l \<noteq> RTW_DEFAULT_MGMT_MACID \<longrightarrow> (\<exists>s e d. A s = Some (e, d, l)))) \<and>
    (k \<noteq> id_num m \<longrightarrow> k \<noteq> i \<and> k \<noteq> j)"
proof -
  have ok: "macid_ok m A" using macid_run_ok assms(1) .
  note pi = macid_okD(5) [OF ok assms(2)] and qj = macid_okD(5) [OF ok assms(3)]
  have "k \<noteq> id_num m \<Longrightarrow> \<not> rtw_macid_is_used m k"
    using assms(4-6) by (auto simp: rtw_alloc_macid_def find_Some_iff split: option.splits)
  then have "k \<noteq> id_num m \<longrightarrow> k \<noteq> i \<and> k \<noteq> j" using pi qj by blast
  moreover have "p \<noteq> q \<longrightarrow> i \<noteq> j" using pi qj by auto
  ultimately show ?thesis using pi rtw_alloc_macid_full [OF ok assms(4-6)] by blast
qed

lemma macid_run_unique_witness:
  "\<exists>m A m' k. macid_run (\<lambda>_. replicate 6 0) m \<lparr> sec_cap = 0, cam_flags = 0, cam_num = 0, cam_used = 0, cam_cache = [], cam_hw = [] \<rparr> A \<and>
     A 7 = Some (0, [0, 1, 2, 3, 4, 5], 0) \<and> A 9 = Some (0, [0, 1, 2, 3, 4, 6], 2) \<and>
     rtw_alloc_macid m 0 (replicate 6 0) 4 [0, 1, 2, 3, 4, 7] = (k, m') \<and> k = id_num m"
proof -
  define c where "c = \<lparr> sec_cap = 0, cam_flags = 0, cam_num = 0, cam_used = 0, cam_cache = [], cam_hw = [] \<rparr>"
  define own where "own = (\<lambda>_ :: nat. replicate 6 (0 :: u8))"
  define m0 where "m0 = \<lparr> id_num = 3, id_used = 0, id_bmc = 0, if_g = [0], ch_g = [0, 0], iface_bmc = [0],
    id_sta = replicate 3 None, h2c_msr = replicate 3 0, id_bw = replicate 3 0, vht_en = replicate 3 0,
    rate_bmp0 = replicate 3 0, rate_bmp1 = replicate 3 0 \<rparr>"
  define m1 where "m1 = rtw_macid_ctl_init m0"
  define m2 where "m2 = snd (rtw_alloc_macid m1 0 (own 0) 7 [0, 1, 2, 3, 4, 5])"
  define m3 where "m3 = snd (rtw_alloc_macid m2 0 (own 0) 9 [0, 1, 2, 3, 4, 6])"
  define A :: holders where "A = (\<lambda>_. None)(7 \<mapsto> (0, [0, 1, 2, 3, 4, 5], 0), 9 \<mapsto> (0, [0, 1, 2, 3, 4, 6], 2))"
  have "macid_run own m1 c (\<lambda>_. None)"
    unfolding m1_def by (rule macid_start [of 3 1]) (simp_all add: m0_def RTW_DEFAULT_MGMT_MACID_def)
  moreover have a1: "rtw_alloc_macid m1 0 (own 0) 7 [0, 1, 2, 3, 4, 5] = (0, m2)" "id_num m1 = 3"
    unfolding m2_def m1_def m0_def own_def by code_simp+
  ultimately have "macid_run own m2 c ((\<lambda>_. None)(7 \<mapsto> (0, [0, 1, 2, 3, 4, 5], 0)))"
    using macid_alloc [of own m1 c "\<lambda>_. None" 7 0 "[0, 1, 2, 3, 4, 5]" 0 m2]
    by (simp add: RTW_DEFAULT_MGMT_MACID_def m1_def m0_def rtw_macid_ctl_init_def)
  moreover have a2: "rtw_alloc_macid m2 0 (own 0) 9 [0, 1, 2, 3, 4, 6] = (2, m3)" "id_num m2 = 3" "length (if_g m2) = 1"
    unfolding m3_def m2_def m1_def m0_def own_def by code_simp+
  ultimately have r: "macid_run own m3 c A"
    using macid_alloc [of own m2 c "(\<lambda>_. None)(7 \<mapsto> (0, [0, 1, 2, 3, 4, 5], 0))" 9 0 "[0, 1, 2, 3, 4, 6]" 2 m3]
    by (simp add: RTW_DEFAULT_MGMT_MACID_def A_def)
  have h: "A 7 = Some (0, [0, 1, 2, 3, 4, 5], 0)" "A 9 = Some (0, [0, 1, 2, 3, 4, 6], 2)" by (simp_all add: A_def)
  obtain k m4 where k: "rtw_alloc_macid m3 0 (own 0) 4 [0, 1, 2, 3, 4, 7] = (k, m4)" by fastforce
  have n: "id_num m3 = 3" unfolding m3_def m2_def m1_def m0_def own_def by code_simp
  have u: "[0, 1, 2, 3, 4, 7] \<noteq> own 0" "[0, 1, 2, 3, 4, 7] \<noteq> replicate 6 (0xff :: u8)"
    by (auto simp: own_def dest: arg_cong [of _ _ "\<lambda>xs. xs ! 5"])
  have "\<forall>l < id_num m3. l \<noteq> RTW_DEFAULT_MGMT_MACID \<longrightarrow> (\<exists>s e d. A s = Some (e, d, l))"
  proof (intro allI impI)
    fix l assume "l < id_num m3" "l \<noteq> RTW_DEFAULT_MGMT_MACID"
    then have "l = 0 \<or> l = 2" unfolding n RTW_DEFAULT_MGMT_MACID_def by linarith
    then show "\<exists>s e d. A s = Some (e, d, l)" using h by blast
  qed
  then have "k = id_num m3" using macid_run_unique [OF r h k u] by blast
  then show ?thesis using r h k unfolding c_def own_def by blast
qed

end
