(* ===== verification/Acl.thy ===== *)
theory Acl
  imports SwSec
begin

text \<open>
  The lists of station addresses that are admitted or refused (core/rtw_ap.c and
  core/rtw_sta_mgt.c): a pool of 16 nodes for each of two periods, with the queue of the nodes in
  use. A queue is the list of the indices of its nodes.
\<close>

section \<open>State\<close>

definition NUM_ACL :: nat where "NUM_ACL = 16"
definition RTW_ACL_PERIOD_NUM :: nat where "RTW_ACL_PERIOD_NUM = 2"
definition RTW_ACL_MODE_DISABLED :: int where "RTW_ACL_MODE_DISABLED = 0"
definition RTW_ACL_MODE_ACCEPT_UNLESS_LISTED :: int where "RTW_ACL_MODE_ACCEPT_UNLESS_LISTED = 1"
definition RTW_ACL_MODE_DENY_UNLESS_LISTED :: int where "RTW_ACL_MODE_DENY_UNLESS_LISTED = 2"

record acl_node =
  node_addr :: "u8 list"
  node_valid :: bool

record acl_pool =
  acl_mode :: int
  acl_num :: int
  aclnode :: "acl_node list"
  acl_q :: "nat list"

section \<open>Operations\<close>

definition rtw_macaddr_acl_init :: "acl_pool \<Rightarrow> acl_pool" where
  "rtw_macaddr_acl_init a = a\<lparr>acl_q := [], acl_num := 0, acl_mode := RTW_ACL_MODE_DISABLED,
     aclnode := map (\<lambda>n. n\<lparr>node_valid := False\<rparr>) (aclnode a)\<rparr>"

text \<open>The walk over the queue that invalidates and unlinks the valid nodes that satisfy \<open>P\<close>; it says
  whether there was one.\<close>

fun acl_walk :: "(acl_node \<Rightarrow> bool) \<Rightarrow> nat list \<Rightarrow> acl_pool \<Rightarrow> bool \<Rightarrow> bool \<times> acl_pool" where
  "acl_walk P [] a match = (match, a)"
| "acl_walk P (i # q) a match =
     (let n = aclnode a ! i in
      if P n \<and> node_valid n then
        acl_walk P q (a\<lparr>aclnode := (aclnode a)[i := n\<lparr>node_valid := False\<rparr>], acl_q := remove1 i (acl_q a), acl_num := acl_num a - 1\<rparr>) True
      else acl_walk P q a match)"

definition rtw_macaddr_acl_deinit :: "acl_pool \<Rightarrow> acl_pool" where
  "rtw_macaddr_acl_deinit a = (snd (acl_walk (\<lambda>_. True) (acl_q a) a False))\<lparr>acl_mode := RTW_ACL_MODE_DISABLED\<rparr>"

definition rtw_set_macaddr_acl :: "acl_pool \<Rightarrow> int \<Rightarrow> acl_pool" where
  "rtw_set_macaddr_acl a mode = a\<lparr>acl_mode := mode\<rparr>"

text \<open>Whether a valid node with the address is in the queue.\<close>

definition acl_search :: "acl_pool \<Rightarrow> u8 list \<Rightarrow> bool" where
  "acl_search a addr \<longleftrightarrow> list_ex (\<lambda>i. node_addr (aclnode a ! i) = addr \<and> node_valid (aclnode a ! i)) (acl_q a)"

definition rtw_acl_add_sta :: "acl_pool \<Rightarrow> u8 list \<Rightarrow> int \<times> acl_pool" where
  "rtw_acl_add_sta a addr =
     (if acl_search a addr then (0, a)
      else if acl_num a \<ge> int NUM_ACL then (-1, a)
      else
        case find (\<lambda>i. \<not> node_valid (aclnode a ! i)) [0..<NUM_ACL] of
          None \<Rightarrow> (-1, a)
        | Some i \<Rightarrow> (0, a\<lparr>aclnode := (aclnode a)[i := \<lparr> node_addr = addr, node_valid = True \<rparr>],
            acl_q := acl_q a @ [i], acl_num := acl_num a + 1\<rparr>))"

definition rtw_acl_remove_sta :: "acl_pool \<Rightarrow> u8 list \<Rightarrow> int \<times> acl_pool" where
  "rtw_acl_remove_sta a addr =
     (0, snd (acl_walk (\<lambda>n. is_broadcast_mac_addr addr \<or> node_addr n = addr) (acl_q a) a False))"

text \<open>One period, and both of them.\<close>

definition access_ctrl :: "acl_pool \<Rightarrow> u8 list \<Rightarrow> bool" where
  "access_ctrl a mac_addr =
     (if acl_mode a \<noteq> RTW_ACL_MODE_ACCEPT_UNLESS_LISTED \<and> acl_mode a \<noteq> RTW_ACL_MODE_DENY_UNLESS_LISTED then True
      else if acl_mode a = RTW_ACL_MODE_ACCEPT_UNLESS_LISTED then \<not> acl_search a mac_addr
      else acl_search a mac_addr)"

definition rtw_access_ctrl :: "acl_pool list \<Rightarrow> u8 list \<Rightarrow> bool" where
  "rtw_access_ctrl acls mac_addr \<longleftrightarrow> list_all (\<lambda>i. access_ctrl (acls ! i) mac_addr) [0..<RTW_ACL_PERIOD_NUM]"

section \<open>The abstract list\<close>

text \<open>A list of addresses is a finite set.\<close>

definition acl_set :: "acl_pool \<Rightarrow> u8 list set" where
  "acl_set a = (\<lambda>i. node_addr (aclnode a ! i)) ` set (acl_q a)"

text \<open>The queue holds exactly the valid nodes, each once, with different addresses.\<close>

definition acl_ok :: "acl_pool \<Rightarrow> bool" where
  "acl_ok a \<longleftrightarrow> length (aclnode a) = NUM_ACL \<and> distinct (acl_q a) \<and> acl_num a = int (length (acl_q a)) \<and>
     set (acl_q a) = {i. i < NUM_ACL \<and> node_valid (aclnode a ! i)} \<and>
     inj_on (\<lambda>i. node_addr (aclnode a ! i)) (set (acl_q a))"

lemma acl_okD:
  assumes "acl_ok a"
  shows "length (aclnode a) = NUM_ACL" "distinct (acl_q a)" "acl_num a = int (length (acl_q a))"
    "set (acl_q a) = {i. i < NUM_ACL \<and> node_valid (aclnode a ! i)}"
    "inj_on (\<lambda>i. node_addr (aclnode a ! i)) (set (acl_q a))"
  using assms unfolding acl_ok_def by blast+

lemma acl_q_iff: "acl_ok a \<Longrightarrow> i \<in> set (acl_q a) \<longleftrightarrow> i < NUM_ACL \<and> node_valid (aclnode a ! i)"
  by (simp add: acl_okD(4))

lemma acl_search_set: "acl_ok a \<Longrightarrow> acl_search a addr \<longleftrightarrow> addr \<in> acl_set a"
  unfolding acl_search_def acl_set_def list_ex_iff image_iff using acl_q_iff [of a] by blast

lemma acl_card: "acl_ok a \<Longrightarrow> int (card (acl_set a)) = acl_num a"
  using acl_okD(2,3,5) [of a] by (simp add: acl_set_def card_image distinct_card)

lemma acl_num_le: "acl_ok a \<Longrightarrow> acl_num a \<le> int NUM_ACL"
proof -
  assume a: "acl_ok a"
  then have "set (acl_q a) \<subseteq> {..<NUM_ACL}" using acl_okD(4) [OF a] by auto
  then have "card (set (acl_q a)) \<le> NUM_ACL" using card_mono [of "{..<NUM_ACL}"] by fastforce
  then show ?thesis using acl_okD(2,3) [OF a] by (simp add: distinct_card)
qed

text \<open>Below the limit a node is free.\<close>

lemma acl_free: "acl_ok a \<Longrightarrow> acl_num a < int NUM_ACL \<Longrightarrow> find (\<lambda>i. \<not> node_valid (aclnode a ! i)) [0..<NUM_ACL] \<noteq> None"
proof
  assume a: "acl_ok a" and n: "acl_num a < int NUM_ACL" and "find (\<lambda>i. \<not> node_valid (aclnode a ! i)) [0..<NUM_ACL] = None"
  then have "set (acl_q a) = {..<NUM_ACL}" using acl_okD(4) [OF a] by (auto simp: find_None_iff)
  then have "length (acl_q a) = NUM_ACL" using distinct_card [OF acl_okD(2) [OF a]] by simp
  with n acl_okD(3) [OF a] show False by simp
qed

text \<open>Filling a free node and appending it to the queue; emptying a used one and unlinking it.\<close>

lemma acl_fill:
  assumes "acl_ok a" "i < NUM_ACL" "\<not> node_valid (aclnode a ! i)" "addr \<notin> acl_set a"
  defines "a' \<equiv> a\<lparr>aclnode := (aclnode a)[i := \<lparr> node_addr = addr, node_valid = True \<rparr>],
    acl_q := acl_q a @ [i], acl_num := acl_num a + 1\<rparr>"
  shows "acl_ok a' \<and> acl_set a' = insert addr (acl_set a)"
proof -
  note ok = acl_okD [OF assms(1)]
  have iq: "i \<notin> set (acl_q a)" using ok(4) assms(3) by simp
  have ne: "j \<noteq> i" if "j \<in> set (acl_q a)" for j using that iq by blast
  have node: "aclnode a' ! j = (if j = i then \<lparr> node_addr = addr, node_valid = True \<rparr> else aclnode a ! j)" for j
    using assms(2) ok(1) by (simp add: a'_def nth_list_update)
  have q: "acl_q a' = acl_q a @ [i]" by (simp add: a'_def)
  have old: "(\<lambda>j. node_addr (aclnode a' ! j)) ` set (acl_q a) = acl_set a"
    unfolding acl_set_def by (rule image_cong) (simp_all add: node ne)
  have inj: "inj_on (\<lambda>j. node_addr (aclnode a' ! j)) (set (acl_q a))"
    using ok(5) by (rule inj_on_cong [THEN iffD1, rotated]) (simp add: node ne)
  have "addr \<notin> (\<lambda>j. node_addr (aclnode a' ! j)) ` (set (acl_q a) - {i})"
    using assms(4) old by blast
  then have "inj_on (\<lambda>j. node_addr (aclnode a' ! j)) (set (acl_q a'))"
    using inj by (simp add: q node)
  moreover have "set (acl_q a') = {j. j < NUM_ACL \<and> node_valid (aclnode a' ! j)}"
    unfolding node q using ok(4) assms(2,3) by auto
  moreover have "length (aclnode a') = NUM_ACL" "distinct (acl_q a')" "acl_num a' = int (length (acl_q a'))"
    using ok(1-3) iq by (simp_all add: a'_def)
  ultimately have "acl_ok a'" unfolding acl_ok_def by blast
  moreover have "acl_set a' = insert addr (acl_set a)"
    using old by (simp add: acl_set_def [of a'] q node)
  ultimately show ?thesis ..
qed

lemma acl_clear:
  assumes "acl_ok a" "i \<in> set (acl_q a)"
  defines "a' \<equiv> a\<lparr>aclnode := (aclnode a)[i := (aclnode a ! i)\<lparr>node_valid := False\<rparr>],
    acl_q := remove1 i (acl_q a), acl_num := acl_num a - 1\<rparr>"
  shows "acl_ok a' \<and> acl_set a' = acl_set a - {node_addr (aclnode a ! i)}"
proof -
  note ok = acl_okD [OF assms(1)]
  have q: "set (acl_q a') = set (acl_q a) - {i}" using ok(2) by (simp add: a'_def set_remove1_eq)
  have i: "i < NUM_ACL" using assms(2) ok(4) by simp
  have node: "aclnode a' ! j = (if j = i then (aclnode a ! i)\<lparr>node_valid := False\<rparr> else aclnode a ! j)" for j
    using i ok(1) by (simp add: a'_def nth_list_update)
  have addr: "node_addr (aclnode a' ! j) = node_addr (aclnode a ! j)" for j by (simp add: node)
  have "inj_on (\<lambda>j. node_addr (aclnode a' ! j)) (set (acl_q a'))"
    using ok(5) unfolding addr q by (rule inj_on_subset) blast
  moreover have "set (acl_q a') = {j. j < NUM_ACL \<and> node_valid (aclnode a' ! j)}"
    unfolding node q using ok(4) by auto
  moreover have "length (aclnode a') = NUM_ACL" "distinct (acl_q a')" "acl_num a' = int (length (acl_q a'))"
    using ok(1-3) length_pos_if_in_set [OF assms(2)] assms(2)
    by (simp_all add: a'_def length_remove1 of_nat_diff Suc_le_eq)
  ultimately have "acl_ok a'" unfolding acl_ok_def by blast
  moreover have "acl_set a' = acl_set a - {node_addr (aclnode a ! i)}"
    unfolding acl_set_def addr q using ok(5) assms(2)
    by (subst inj_on_image_set_diff [OF ok(5)]) auto
  ultimately show ?thesis ..
qed

text \<open>The walk: the queue it works on is fixed before it starts, which is right because it unlinks
  only the node it stands on.\<close>

lemma acl_walk_ok:
  assumes "acl_ok a" "distinct q" "set q \<subseteq> set (acl_q a)"
  shows "acl_ok (snd (acl_walk P q a m)) \<and> acl_mode (snd (acl_walk P q a m)) = acl_mode a \<and>
    acl_set (snd (acl_walk P q a m)) =
      acl_set a - {node_addr (aclnode a ! i) |i. i \<in> set q \<and> P (aclnode a ! i)}"
  using assms
proof (induction q arbitrary: a m)
  case Nil
  then show ?case by simp
next
  case (Cons i q)
  have iq: "i \<in> set (acl_q a)" "i \<notin> set q" "distinct q" "set q \<subseteq> set (acl_q a)" using Cons.prems by auto
  have v: "node_valid (aclnode a ! i)" using iq(1) acl_q_iff [OF Cons.prems(1)] by blast
  show ?case
  proof (cases "P (aclnode a ! i)")
    case False
    then have s: "{node_addr (aclnode a ! j) |j. j \<in> set (i # q) \<and> P (aclnode a ! j)} =
      {node_addr (aclnode a ! j) |j. j \<in> set q \<and> P (aclnode a ! j)}" by auto
    show ?thesis unfolding s using Cons.IH [OF Cons.prems(1) iq(3,4)] False by simp
  next
    case True
    let ?a = "a\<lparr>aclnode := (aclnode a)[i := (aclnode a ! i)\<lparr>node_valid := False\<rparr>],
      acl_q := remove1 i (acl_q a), acl_num := acl_num a - 1\<rparr>"
    have ok: "acl_ok ?a" "acl_set ?a = acl_set a - {node_addr (aclnode a ! i)}"
      using acl_clear [OF Cons.prems(1) iq(1)] by blast+
    have sub: "set q \<subseteq> set (acl_q ?a)"
      using iq acl_okD(2) [OF Cons.prems(1)] by (auto simp: set_remove1_eq)
    have same: "aclnode ?a ! j = aclnode a ! j" if "j \<in> set q" for j
      using that iq(2) by (cases "j = i") simp_all
    have s: "{node_addr (aclnode a ! j) |j. j \<in> set (i # q) \<and> P (aclnode a ! j)} =
      insert (node_addr (aclnode a ! i)) {node_addr (aclnode ?a ! j) |j. j \<in> set q \<and> P (aclnode ?a ! j)}"
      using True same by (auto simp del: acl_pool.simps) metis+
    have st: "acl_walk P (i # q) a m = acl_walk P q ?a True" using True v by (simp add: Let_def)
    show ?thesis unfolding st s using Cons.IH [OF ok(1) iq(3) sub, of True]
      by (simp only: ok(2)) auto
  qed
qed

lemma acl_init_ok:
  "length (aclnode a) = NUM_ACL \<Longrightarrow> acl_ok (rtw_macaddr_acl_init a) \<and> acl_set (rtw_macaddr_acl_init a) = {}"
  by (simp add: acl_ok_def acl_set_def rtw_macaddr_acl_init_def)

lemma acl_add:
  assumes "acl_ok a"
  shows "let (r, a') = rtw_acl_add_sta a addr in acl_ok a' \<and> acl_mode a' = acl_mode a \<and>
    (if addr \<in> acl_set a then r = 0 \<and> a' = a
     else if card (acl_set a) = NUM_ACL then r = -1 \<and> a' = a
     else r = 0 \<and> acl_set a' = insert addr (acl_set a))"
proof (cases "addr \<in> acl_set a \<or> acl_num a \<ge> int NUM_ACL")
  case True
  then show ?thesis
    using assms acl_search_set [OF assms, of addr] acl_card [OF assms] acl_num_le [OF assms]
    by (auto simp: rtw_acl_add_sta_def)
next
  case False
  then obtain i where i: "find (\<lambda>i. \<not> node_valid (aclnode a ! i)) [0..<NUM_ACL] = Some i"
    using acl_free [OF assms] by auto
  then have i': "i < NUM_ACL" "\<not> node_valid (aclnode a ! i)" by (auto simp: find_Some_iff)
  have n: "card (acl_set a) \<noteq> NUM_ACL" "\<not> acl_search a addr"
    using False acl_card [OF assms] acl_search_set [OF assms] by auto
  show ?thesis using False n acl_fill [OF assms i', of addr] i
    unfolding rtw_acl_add_sta_def by simp
qed

lemma acl_remove:
  assumes "acl_ok a"
  shows "let (r, a') = rtw_acl_remove_sta a addr in r = 0 \<and> acl_ok a' \<and> acl_mode a' = acl_mode a \<and>
    acl_set a' = (if is_broadcast_mac_addr addr then {} else acl_set a - {addr})"
proof -
  have "{node_addr (aclnode a ! i) |i. i \<in> set (acl_q a) \<and> (is_broadcast_mac_addr addr \<or> node_addr (aclnode a ! i) = addr)} =
    (if is_broadcast_mac_addr addr then acl_set a else acl_set a \<inter> {addr})"
    unfolding acl_set_def by auto
  then show ?thesis
    using acl_walk_ok [OF assms acl_okD(2) [OF assms] subset_refl,
        of "\<lambda>n. is_broadcast_mac_addr addr \<or> node_addr n = addr" False]
    by (auto simp: rtw_acl_remove_sta_def)
qed

section \<open>Runs\<close>

text \<open>The requests a list receives, what they do to it, and what they do to a mode and a set.\<close>

datatype acl_op = AclAdd "u8 list" | AclRemove "u8 list" | AclClear | AclMode int

fun acl_exec :: "acl_op \<Rightarrow> acl_pool \<Rightarrow> acl_pool" where
  "acl_exec (AclAdd addr) a = snd (rtw_acl_add_sta a addr)"
| "acl_exec (AclRemove addr) a = snd (rtw_acl_remove_sta a addr)"
| "acl_exec AclClear a = rtw_macaddr_acl_deinit a"
| "acl_exec (AclMode mode) a = rtw_set_macaddr_acl a mode"

fun acl_spec :: "acl_op \<Rightarrow> int \<times> u8 list set \<Rightarrow> int \<times> u8 list set" where
  "acl_spec (AclAdd addr) (m, S) = (m, if card S = NUM_ACL then S else insert addr S)"
| "acl_spec (AclRemove addr) (m, S) = (m, if is_broadcast_mac_addr addr then {} else S - {addr})"
| "acl_spec AclClear (m, S) = (RTW_ACL_MODE_DISABLED, {})"
| "acl_spec (AclMode mode) (m, S) = (mode, S)"

lemma acl_ok_mode: "acl_ok (a\<lparr>acl_mode := m\<rparr>) \<longleftrightarrow> acl_ok a"
  by (simp add: acl_ok_def)

lemma acl_set_mode: "acl_set (a\<lparr>acl_mode := m\<rparr>) = acl_set a"
  by (simp add: acl_set_def)

lemma acl_deinit:
  assumes "acl_ok a"
  shows "acl_ok (rtw_macaddr_acl_deinit a) \<and> acl_set (rtw_macaddr_acl_deinit a) = {} \<and>
    acl_mode (rtw_macaddr_acl_deinit a) = RTW_ACL_MODE_DISABLED"
proof -
  have "acl_set a - {node_addr (aclnode a ! i) |i. i \<in> set (acl_q a) \<and> True} = {}"
    unfolding acl_set_def by auto
  then show ?thesis
    using acl_walk_ok [OF assms acl_okD(2) [OF assms] subset_refl, of "\<lambda>_. True" False]
    unfolding rtw_macaddr_acl_deinit_def acl_ok_mode acl_set_mode by simp
qed

lemma acl_exec_spec:
  assumes "acl_ok a"
  shows "acl_ok (acl_exec r a) \<and> (acl_mode (acl_exec r a), acl_set (acl_exec r a)) = acl_spec r (acl_mode a, acl_set a)"
proof (cases r)
  case (AclAdd addr)
  then show ?thesis using acl_add [OF assms, of addr] assms
    by (cases "addr \<in> acl_set a") (auto simp: split_beta Let_def insert_absorb split: if_splits)
next
  case (AclRemove addr)
  then show ?thesis using acl_remove [OF assms, of addr] by (simp add: split_beta Let_def)
next
  case AclClear
  then show ?thesis using acl_deinit [OF assms] by simp
next
  case (AclMode mode)
  then show ?thesis using assms by (simp add: rtw_set_macaddr_acl_def acl_ok_mode acl_set_mode)
qed

lemma acl_runs:
  assumes "acl_ok a"
  shows "acl_ok (fold acl_exec rs a) \<and>
    (acl_mode (fold acl_exec rs a), acl_set (fold acl_exec rs a)) = fold acl_spec rs (acl_mode a, acl_set a)"
  using assms
proof (induction rs arbitrary: a)
  case Nil
  then show ?case by simp
next
  case (Cons r rs)
  note step = acl_exec_spec [OF Cons.prems, of r]
  show ?case using Cons.IH [OF conjunct1 [OF step]] conjunct2 [OF step] by simp
qed

text \<open>What the two lists together admit, as sets.\<close>

definition admits :: "int \<times> u8 list set \<Rightarrow> u8 list \<Rightarrow> bool" where
  "admits s addr \<longleftrightarrow>
     (fst s = RTW_ACL_MODE_ACCEPT_UNLESS_LISTED \<longrightarrow> addr \<notin> snd s) \<and>
     (fst s = RTW_ACL_MODE_DENY_UNLESS_LISTED \<longrightarrow> addr \<in> snd s)"

lemma access_ctrl_admits: "acl_ok a \<Longrightarrow> access_ctrl a addr \<longleftrightarrow> admits (acl_mode a, acl_set a) addr"
  by (simp add: access_ctrl_def admits_def acl_search_set RTW_ACL_MODE_ACCEPT_UNLESS_LISTED_def
      RTW_ACL_MODE_DENY_UNLESS_LISTED_def)

lemma access_ctrl_run:
  assumes "length (aclnode a) = NUM_ACL"
  shows "access_ctrl (fold acl_exec rs (rtw_macaddr_acl_init a)) addr \<longleftrightarrow>
    admits (fold acl_spec rs (RTW_ACL_MODE_DISABLED, {})) addr"
  using acl_runs [of "rtw_macaddr_acl_init a" rs] acl_init_ok [OF assms] access_ctrl_admits
  by (simp add: rtw_macaddr_acl_init_def)

section \<open>Properties\<close>

text \<open>C23: The address lists behave as finite sets. After any sequences of requests on the two lists a
  station is admitted exactly if it is admitted by the two sets the same requests give: not
  in the set of a list that refuses, in the set of a list that admits. Removing the broadcast
  address empties a set, and a set of 16 addresses takes no other.\<close>

theorem rtw_access_ctrl_refines:
  assumes "length (aclnode a) = NUM_ACL" "length (aclnode b) = NUM_ACL"
  shows "rtw_access_ctrl [fold acl_exec rs (rtw_macaddr_acl_init a), fold acl_exec qs (rtw_macaddr_acl_init b)] addr \<longleftrightarrow>
    admits (fold acl_spec rs (RTW_ACL_MODE_DISABLED, {})) addr \<and>
    admits (fold acl_spec qs (RTW_ACL_MODE_DISABLED, {})) addr"
  using access_ctrl_run [OF assms(1)] access_ctrl_run [OF assms(2)]
  by (simp add: rtw_access_ctrl_def RTW_ACL_PERIOD_NUM_def upt_rec)

lemma rtw_access_ctrl_refines_witness:
  "let a = \<lparr> acl_mode = 0, acl_num = 0, aclnode = replicate 16 \<lparr> node_addr = replicate 6 0, node_valid = False \<rparr>, acl_q = [] \<rparr>;
       rs = [AclMode 2, AclAdd [0,1,2,3,4,5], AclAdd [0,1,2,3,4,6], AclRemove [0,1,2,3,4,6]] in
   rtw_access_ctrl [fold acl_exec rs (rtw_macaddr_acl_init a), fold acl_exec [] (rtw_macaddr_acl_init a)] [0,1,2,3,4,5] \<and>
   \<not> rtw_access_ctrl [fold acl_exec rs (rtw_macaddr_acl_init a), fold acl_exec [] (rtw_macaddr_acl_init a)] [0,1,2,3,4,6]"
proof -
  define a where "a = \<lparr> acl_mode = 0, acl_num = 0, aclnode = replicate 16 \<lparr> node_addr = replicate 6 (0 :: u8), node_valid = False \<rparr>, acl_q = [] \<rparr>"
  have l: "length (aclnode a) = NUM_ACL" by (simp add: a_def NUM_ACL_def)
  have b: "\<not> is_broadcast_mac_addr [0, 1, 2, 3, 4, 6]"
  proof
    assume "is_broadcast_mac_addr [0, 1, 2, 3, 4, 6]"
    then have "take 6 [0, 1, 2, 3, 4, 6 :: u8] ! 0 = replicate 6 0xff ! 0" by (simp only: is_broadcast_mac_addr_def)
    then show False by simp
  qed
  show ?thesis unfolding Let_def a_def [symmetric] rtw_access_ctrl_refines [OF l l]
    by (simp add: admits_def NUM_ACL_def RTW_ACL_MODE_DISABLED_def RTW_ACL_MODE_ACCEPT_UNLESS_LISTED_def
        RTW_ACL_MODE_DENY_UNLESS_LISTED_def b)
qed

end
