(* ===== verification/Sta.thy ===== *)
theory Sta
  imports Macid Acl Reorder
begin

text \<open>
  The table of stations (core/rtw_sta_mgt.c): a pool of 32 station records, the queue of the free ones,
  and a hash table of the ones in use, keyed by the address. The queue and the buckets are
  lists of offsets into the pool. A station carries its queues of frames to send, the receive
  reordering state of its 16 traffic identifiers, and the identifiers it was given.
\<close>

section \<open>Session tracking\<close>

definition SESSION_TRACKER_REG_ID_NUM :: nat where "SESSION_TRACKER_REG_ID_NUM = 1"

text \<open>A rule decides over the local and remote addresses and ports.\<close>

type_synonym st_match_rule = "u8 list \<Rightarrow> u8 list \<Rightarrow> u8 list \<Rightarrow> u8 list \<Rightarrow> bool"

record st_register =
  s_proto :: u8
  st_rule :: "st_match_rule option"

record session_tracker =
  local_naddr :: u32
  local_port :: u16
  remote_naddr :: u32
  remote_port :: u16
  st_status :: u8

record st_ctl =
  st_reg :: "st_register list"
  tracker_q :: "session_tracker list"

definition no_reg :: st_register where
  "no_reg = \<lparr> s_proto = 0, st_rule = None \<rparr>"

definition rtw_st_ctl_init :: st_ctl where
  "rtw_st_ctl_init = \<lparr> st_reg = replicate SESSION_TRACKER_REG_ID_NUM no_reg, tracker_q = [] \<rparr>"

definition rtw_st_ctl_clear_tracker_q :: "st_ctl \<Rightarrow> st_ctl" where
  "rtw_st_ctl_clear_tracker_q st = st\<lparr>tracker_q := []\<rparr>"

definition rtw_st_ctl_register :: "st_ctl \<Rightarrow> nat \<Rightarrow> st_register \<Rightarrow> st_ctl" where
  "rtw_st_ctl_register st i reg =
     (if i \<ge> SESSION_TRACKER_REG_ID_NUM then st else st\<lparr>st_reg := (st_reg st)[i := reg]\<rparr>)"

definition rtw_st_ctl_unregister :: "st_ctl \<Rightarrow> nat \<Rightarrow> st_ctl" where
  "rtw_st_ctl_unregister st i =
     (if i \<ge> SESSION_TRACKER_REG_ID_NUM then st
      else
        let st = st\<lparr>st_reg := (st_reg st)[i := no_reg]\<rparr> in
        if list_ex (\<lambda>r. s_proto r \<noteq> 0) (st_reg st) then st else rtw_st_ctl_clear_tracker_q st)"

definition rtw_st_ctl_chk_reg_s_proto :: "st_ctl \<Rightarrow> u8 \<Rightarrow> bool" where
  "rtw_st_ctl_chk_reg_s_proto st proto \<longleftrightarrow> list_ex (\<lambda>r. s_proto r = proto) (st_reg st)"

definition rtw_st_ctl_chk_reg_rule :: "st_ctl \<Rightarrow> u8 list \<Rightarrow> u8 list \<Rightarrow> u8 list \<Rightarrow> u8 list \<Rightarrow> bool" where
  "rtw_st_ctl_chk_reg_rule st la lp fa fp \<longleftrightarrow>
     list_ex (\<lambda>r. case st_rule r of None \<Rightarrow> False | Some rule \<Rightarrow> rule la lp fa fp) (st_reg st)"

definition test_st_match_rule :: st_match_rule where
  "test_st_match_rule la lp fa fp \<longleftrightarrow> get_be16 (lp ! 0) (lp ! 1) = 5001 \<or> get_be16 (fp ! 0) (fp ! 1) = 5001"

section \<open>State\<close>

definition NUM_STA :: nat where "NUM_STA = 32"
definition FW_LINKED :: u32 where "FW_LINKED = 1"
definition RX_AMPDU_SIZE_INVALID :: u8 where "RX_AMPDU_SIZE_INVALID = 0xFF"

text \<open>A frame to send: whether it is from the pool of extra frames, whether it was allocated alone.\<close>

record xmit_frame =
  xf_ref :: nat
  ext_tag :: bool
  alloc_alone :: bool

record tx_servq =
  sta_pending :: "xmit_frame list"
  qcnt :: int

record sta_info =
  mac_addr :: "u8 list"
  mac_id :: nat
  aid :: nat
  sta_state :: u32
  sleep_q :: "xmit_frame list"
  sleepq_len :: nat
  servqs :: "tx_servq list"
  recvreorder_ctrl :: "reorder_ctrl list"
  defrag_q :: "rx_frame list"
  tid_rxseq :: "u16 list"
  bmc_tid_rxseq :: "u16 list"
  rx_iv :: "u8 list list"
  RxMgmtFrameSeqNum :: u16
  rssi_init :: "int list"
  sta_st_ctl :: st_ctl
  sta_expire_to :: nat
  sleepq_ac_len :: nat
  qos_info :: u8
  max_sp_len :: u8
  uapsd :: "u8 list"
  has_legacy_ac :: u8
  under_exist_checking :: nat

record sta_priv =
  pool :: "sta_info list"
  free_sta_queue :: "nat list"
  sta_hash :: "nat list list"
  asoc_sta_count :: int
  auth_list :: "nat list"
  auth_list_cnt :: int
  sta_aid :: "nat option list"
  max_aid :: nat
  started_aid :: nat
  rr_aid :: bool
  max_num_sta :: nat
  aid_bmp_len :: nat
  sta_dz_bitmap :: "u8 list"
  tim_bitmap :: "u8 list"
  acl_list :: "acl_pool list"

text \<open>The four queues of the hardware, voice first: the count of frames and the stations linked.\<close>

record hw_xmit =
  accnt :: int
  hw_sta_queue :: "nat list"

record xmit_priv =
  hwxmits :: "hw_xmit list"
  free_xmit_queue :: "xmit_frame list"
  free_xmitframe_cnt :: nat
  free_xframe_ext_queue :: "xmit_frame list"
  free_xframe_ext_cnt :: nat

record adapter =
  stapriv :: sta_priv
  xmitpriv :: xmit_priv
  free_recv_queue :: "rx_frame list"
  free_recvframe_cnt :: nat
  macid :: macid_ctl
  camctl :: cam_ctl
  iface_id :: nat
  own_addr :: "u8 list"
  hw_ap_state :: bool

section \<open>Stations\<close>

definition wifi_mac_hash :: "u8 list \<Rightarrow> nat" where
  "wifi_mac_hash mac =
     (let x = foldl (\<lambda>x b. push_bit 2 x XOR ucast b) (ucast (mac ! 0) :: u32) [mac ! 1, mac ! 2, mac ! 3, mac ! 4, mac ! 5];
          x = x XOR drop_bit 8 x in
      unat (x AND (of_nat NUM_STA - 1)))"

definition IS_MCAST :: "u8 list \<Rightarrow> bool" where
  "IS_MCAST da \<longleftrightarrow> da ! 0 AND 0x01 \<noteq> 0"

definition init_txservq :: tx_servq where
  "init_txservq = \<lparr> sta_pending = [], qcnt = 0 \<rparr>"

definition reorder_zero :: reorder_ctrl where
  "reorder_zero = \<lparr> enable = False, indicate_seq = 0, wsize_b = 0, ampdu_size = 0, pending = [],
     bReorderWaiting = False, timer_set = False \<rparr>"

definition init_stainfo :: sta_info where
  "init_stainfo = \<lparr> mac_addr = replicate 6 0, mac_id = 0, aid = 0, sta_state = 0, sleep_q = [], sleepq_len = 0,
     servqs = replicate 4 init_txservq, recvreorder_ctrl = replicate 16 reorder_zero, defrag_q = [],
     tid_rxseq = replicate 16 0, bmc_tid_rxseq = replicate 16 0, rx_iv = replicate 16 (replicate 8 0),
     RxMgmtFrameSeqNum = 0, rssi_init = [0, 0, 0], sta_st_ctl = rtw_st_ctl_init, sta_expire_to = 0, sleepq_ac_len = 0,
     qos_info = 0, max_sp_len = 0, uapsd = replicate 4 0, has_legacy_ac = 0, under_exist_checking = 0 \<rparr>"

definition AID_BMP_LEN :: "nat \<Rightarrow> nat" where
  "AID_BMP_LEN n = (n + 1) div 8 + (if (n + 1) mod 8 \<noteq> 0 then 1 else 0)"

text \<open>The table as it starts; \<open>mem\<close> says whether the four allocations succeed, and \<open>acls\<close> is what the
  memory of the address lists holds.\<close>

definition init_sta_priv :: "bool list \<Rightarrow> macid_ctl \<Rightarrow> acl_pool list \<Rightarrow> sta_priv option" where
  "init_sta_priv mem m acls =
     (if list_all (\<lambda>ok. ok) mem then
        Some \<lparr> pool = replicate NUM_STA init_stainfo, free_sta_queue = [0..<NUM_STA], sta_hash = replicate NUM_STA [],
          asoc_sta_count = 0, auth_list = [], auth_list_cnt = 0, sta_aid = replicate (id_num m) None,
          max_aid = id_num m, started_aid = 1, rr_aid = False, max_num_sta = NUM_STA,
          aid_bmp_len = AID_BMP_LEN (id_num m),
          sta_dz_bitmap = replicate (AID_BMP_LEN (id_num m)) 0, tim_bitmap = replicate (AID_BMP_LEN (id_num m)) 0,
          acl_list = map rtw_macaddr_acl_init acls \<rparr>
      else None)"

definition reorder_start :: reorder_ctrl where
  "reorder_start = reorder_zero\<lparr>enable := False, indicate_seq := 0xffff, wsize_b := 64,
     ampdu_size := RX_AMPDU_SIZE_INVALID\<rparr>"

definition upd_pool :: "sta_priv \<Rightarrow> nat \<Rightarrow> (sta_info \<Rightarrow> sta_info) \<Rightarrow> sta_priv" where
  "upd_pool p i f = p\<lparr>pool := (pool p)[i := f (pool p ! i)]\<rparr>"

definition rtw_alloc_stainfo :: "adapter \<Rightarrow> u8 list \<Rightarrow> nat option \<times> adapter" where
  "rtw_alloc_stainfo ad hwaddr =
     (let p = stapriv ad in
      case free_sta_queue p of
        [] \<Rightarrow> (None, ad)
      | i # free \<Rightarrow>
          let s = init_stainfo\<lparr>mac_addr := hwaddr\<rparr>;
              p = p\<lparr>free_sta_queue := free, pool := (pool p)[i := s]\<rparr>;
              index = wifi_mac_hash hwaddr in
          if index \<ge> NUM_STA then (None, ad\<lparr>stapriv := p\<rparr>)
          else
            let s = s\<lparr>tid_rxseq := replicate 16 0xffff, bmc_tid_rxseq := replicate 16 0xffff,
                  rx_iv := replicate 16 (replicate 8 0), recvreorder_ctrl := replicate 16 reorder_start,
                  rssi_init := [-1, -1, -1], RxMgmtFrameSeqNum := 0xffff\<rparr>;
                (macid_no, m) = rtw_alloc_macid (macid ad) (iface_id ad) (own_addr ad) i hwaddr;
                s = s\<lparr>mac_id := macid_no\<rparr> in
            (Some i, ad\<lparr>stapriv := p\<lparr>sta_hash := (sta_hash p)[index := sta_hash p ! index @ [i]],
                asoc_sta_count := asoc_sta_count p + 1, pool := (pool p)[i := s]\<rparr>, macid := m\<rparr>))"

text \<open>Frames go back to the pool they are from; one that was allocated alone is released.\<close>

definition rtw_free_xmitframe :: "xmit_priv \<Rightarrow> xmit_frame \<Rightarrow> xmit_priv" where
  "rtw_free_xmitframe xp f =
     (if alloc_alone f then xp
      else if \<not> ext_tag f then
        xp\<lparr>free_xmit_queue := free_xmit_queue xp @ [f], free_xmitframe_cnt := free_xmitframe_cnt xp + 1\<rparr>
      else
        xp\<lparr>free_xframe_ext_queue := free_xframe_ext_queue xp @ [f], free_xframe_ext_cnt := free_xframe_ext_cnt xp + 1\<rparr>)"

definition rtw_free_xmitframe_queue :: "xmit_priv \<Rightarrow> xmit_frame list \<Rightarrow> xmit_priv" where
  "rtw_free_xmitframe_queue xp q = foldl rtw_free_xmitframe xp q"

text \<open>The station \<open>i\<close> loses its queue \<open>k\<close>: its frames are freed, it is unlinked from the queue of the
  hardware, and its frames are not counted there any more.\<close>

definition drain_servq :: "nat \<Rightarrow> nat \<Rightarrow> sta_info \<times> xmit_priv \<Rightarrow> sta_info \<times> xmit_priv" where
  "drain_servq i k sx =
     (let (s, xp) = sx;
          q = servqs s ! k;
          xp = rtw_free_xmitframe_queue xp (sta_pending q);
          hw = hwxmits xp ! k;
          hw = hw\<lparr>accnt := accnt hw - qcnt q, hw_sta_queue := remove1 i (hw_sta_queue hw)\<rparr> in
      (s\<lparr>servqs := (servqs s)[k := \<lparr> sta_pending = [], qcnt = 0 \<rparr>]\<rparr>, xp\<lparr>hwxmits := (hwxmits xp)[k := hw]\<rparr>))"

definition rtw_free_recvframe_hdr :: "adapter \<Rightarrow> rx_frame \<Rightarrow> adapter" where
  "rtw_free_recvframe_hdr ad f =
     ad\<lparr>free_recv_queue := free_recv_queue ad @ [f], free_recvframe_cnt := free_recvframe_cnt ad + 1\<rparr>"

definition drain_reorder :: "adapter \<Rightarrow> reorder_ctrl \<Rightarrow> adapter" where
  "drain_reorder ad c = foldl rtw_free_recvframe_hdr ad (pending c)"

definition hash_remove :: "nat \<Rightarrow> sta_priv \<Rightarrow> sta_priv" where
  "hash_remove i p = p\<lparr>sta_hash := map (remove1 i) (sta_hash p)\<rparr>"

definition rtw_tim_map_clear :: "sta_priv \<Rightarrow> u8 list \<Rightarrow> nat \<Rightarrow> u8 list" where
  "rtw_tim_map_clear p tim i = rtw_bmp_clear tim (aid_bmp_len p) i"

definition rtw_free_stainfo :: "adapter \<Rightarrow> nat option \<Rightarrow> adapter" where
  "rtw_free_stainfo ad psta =
     (case psta of
        None \<Rightarrow> ad
      | Some i \<Rightarrow>
          let p = hash_remove i (stapriv ad);
              p = p\<lparr>asoc_sta_count := asoc_sta_count p - 1\<rparr>;
              s = pool p ! i;
              s = s\<lparr>sta_state := sta_state s AND NOT FW_LINKED\<rparr>;
              xp = rtw_free_xmitframe_queue (xmitpriv ad) (sleep_q s);
              s = s\<lparr>sleep_q := [], sleepq_len := 0\<rparr>;
              (s, xp) = fold (drain_servq i) [0, 1, 2, 3] (s, xp);
              ad = foldl drain_reorder ad (recvreorder_ctrl s);
              s = s\<lparr>recvreorder_ctrl := map (\<lambda>c. c\<lparr>timer_set := False, pending := []\<rparr>) (recvreorder_ctrl s)\<rparr>;
              (macid_no, m, c) = rtw_release_macid (macid ad) (camctl ad) (iface_id ad) (own_addr ad) (mac_id s) (mac_addr s);
              s = s\<lparr>mac_id := macid_no\<rparr>;
              p = (if i \<in> set (auth_list p) then p\<lparr>auth_list := remove1 i (auth_list p), auth_list_cnt := auth_list_cnt p - 1\<rparr> else p);
              s = s\<lparr>sta_expire_to := 0, sleepq_ac_len := 0, qos_info := 0, max_sp_len := 0, uapsd := replicate 4 0,
                    has_legacy_ac := 0\<rparr>;
              p = (if hw_ap_state ad then
                     p\<lparr>sta_dz_bitmap := rtw_tim_map_clear p (sta_dz_bitmap p) (aid s),
                       tim_bitmap := rtw_tim_map_clear p (tim_bitmap p) (aid s)\<rparr>
                   else p);
              own = hw_ap_state ad \<and> aid s > 0 \<and> sta_aid p ! (aid s - 1) = Some i;
              p = (if own then p\<lparr>sta_aid := (sta_aid p)[aid s - 1 := None]\<rparr> else p);
              s = (if own then s\<lparr>aid := 0\<rparr> else s);
              s = s\<lparr>under_exist_checking := 0, sta_st_ctl := rtw_st_ctl_clear_tracker_q (sta_st_ctl s)\<rparr>;
              p = p\<lparr>pool := (pool p)[i := s], free_sta_queue := free_sta_queue p @ [i]\<rparr> in
          ad\<lparr>stapriv := p, xmitpriv := xp, macid := m, camctl := c\<rparr>)"

text \<open>No address is the NULL pointer.\<close>

definition rtw_get_stainfo :: "sta_priv \<Rightarrow> u8 list option \<Rightarrow> nat option" where
  "rtw_get_stainfo p hwaddr =
     (case hwaddr of
        None \<Rightarrow> None
      | Some hwaddr \<Rightarrow>
          let addr = (if IS_MCAST hwaddr then replicate 6 0xff else hwaddr) in
          find (\<lambda>i. mac_addr (pool p ! i) = addr) (sta_hash p ! wifi_mac_hash addr))"

definition rtw_get_bcmc_stainfo :: "sta_priv \<Rightarrow> nat option" where
  "rtw_get_bcmc_stainfo p = rtw_get_stainfo p (Some (replicate 6 0xff))"

text \<open>The result is success whether or not a record was free.\<close>

definition rtw_init_bcmc_stainfo :: "adapter \<Rightarrow> adapter" where
  "rtw_init_bcmc_stainfo ad = snd (rtw_alloc_stainfo ad (replicate 6 0xff))"

definition rtw_free_all_stainfo :: "adapter \<Rightarrow> adapter" where
  "rtw_free_all_stainfo ad =
     (let p = stapriv ad; bcmc = rtw_get_bcmc_stainfo p in
      if asoc_sta_count p = 1 then ad
      else
        let free_sta_list = filter (\<lambda>i. Some i \<noteq> bcmc) (concat (sta_hash p));
            p = fold hash_remove free_sta_list p in
        fold (\<lambda>i ad. rtw_free_stainfo ad (Some i)) free_sta_list (ad\<lparr>stapriv := p\<rparr>))"

section \<open>Association identifiers\<close>

text \<open>The search, from the \<open>k\<close>-th place on; the result is the identifier it stopped at, the place and the
  count of used ones.\<close>

function aid_search :: "sta_priv \<Rightarrow> nat \<Rightarrow> nat \<Rightarrow> nat \<Rightarrow> nat \<times> nat \<times> nat" where
  "aid_search p aid0 k used =
     (if k \<ge> max_aid p then (aid0, k, used)
      else
        let a = (k + started_aid p - 1) mod max_aid p + 1 in
        if sta_aid p ! (a - 1) = None then (a, k, used)
        else if used + 1 \<ge> max_num_sta p then (a, k, used + 1)
        else aid_search p a (k + 1) (used + 1))"
  by pat_completeness auto
termination by (relation "measure (\<lambda>(p, a, k, u). max_aid p - k)") auto

declare aid_search.simps [simp del]

definition rtw_aid_alloc :: "sta_priv \<Rightarrow> nat \<Rightarrow> nat \<times> sta_priv" where
  "rtw_aid_alloc p i =
     (let (a, k, used) = aid_search p 0 0 0;
          a = (if k \<ge> max_aid p \<or> used \<ge> max_num_sta p then 0 else a);
          p = upd_pool p i (\<lambda>s. s\<lparr>aid := a\<rparr>) in
      (a, if a \<noteq> 0 then
            p\<lparr>sta_aid := (sta_aid p)[a - 1 := Some i],
              started_aid := if rr_aid p then a mod max_aid p + 1 else started_aid p\<rparr>
          else p))"

section \<open>The hash table\<close>

lemma wifi_mac_hash_less: "wifi_mac_hash mac < NUM_STA"
proof -
  have m: "unat (x AND 31 :: u32) < 32" for x
  proof -
    have "unat (x AND 31) \<le> unat (31 :: u32)" using word_and_le1 [of x 31] by (simp only: word_le_nat_alt)
    then show ?thesis by simp
  qed
  have "(of_nat NUM_STA - 1 :: u32) = 31" by (simp add: NUM_STA_def)
  then show ?thesis unfolding wifi_mac_hash_def Let_def NUM_STA_def by (simp only: m)
qed

abbreviation hashed :: "sta_priv \<Rightarrow> nat list" where
  "hashed p \<equiv> concat (sta_hash p)"

text \<open>The records outside the free queue and the buckets are in limbo: taken out of the table and not
  yet given back.\<close>

definition sta_inv :: "sta_priv \<Rightarrow> nat list \<Rightarrow> bool" where
  "sta_inv p L \<longleftrightarrow> length (pool p) = NUM_STA \<and> length (sta_hash p) = NUM_STA \<and>
     distinct (free_sta_queue p) \<and> distinct (hashed p) \<and> distinct L \<and>
     set (free_sta_queue p) \<inter> set (hashed p) = {} \<and> set (free_sta_queue p) \<inter> set L = {} \<and> set (hashed p) \<inter> set L = {} \<and>
     set (free_sta_queue p) \<union> set (hashed p) \<union> set L = {..<NUM_STA} \<and>
     (\<forall>k < NUM_STA. \<forall>i \<in> set (sta_hash p ! k). wifi_mac_hash (mac_addr (pool p ! i)) = k) \<and>
     asoc_sta_count p = int (length (hashed p) + length L)"

lemma sta_invD:
  assumes "sta_inv p L"
  shows "length (pool p) = NUM_STA" "length (sta_hash p) = NUM_STA" "distinct (free_sta_queue p)" "distinct (hashed p)"
    "distinct L" "set (free_sta_queue p) \<inter> set (hashed p) = {}" "set (free_sta_queue p) \<inter> set L = {}"
    "set (hashed p) \<inter> set L = {}" "set (free_sta_queue p) \<union> set (hashed p) \<union> set L = {..<NUM_STA}"
    "k < NUM_STA \<Longrightarrow> i \<in> set (sta_hash p ! k) \<Longrightarrow> wifi_mac_hash (mac_addr (pool p ! i)) = k"
    "asoc_sta_count p = int (length (hashed p) + length L)"
  using assms unfolding sta_inv_def by blast+

lemma in_hashed: "length hs = n \<Longrightarrow> i \<in> set (concat hs) \<longleftrightarrow> (\<exists>k < n. i \<in> set (hs ! k))"
proof -
  assume "length hs = n"
  then have "(\<exists>b \<in> set hs. i \<in> set b) \<longleftrightarrow> (\<exists>k < n. i \<in> set (hs ! k))" unfolding Bex_def in_set_conv_nth by blast
  then show ?thesis by simp
qed

lemma sta_bucket:
  assumes "sta_inv p L" "i \<in> set (hashed p)"
  shows "i \<in> set (sta_hash p ! wifi_mac_hash (mac_addr (pool p ! i)))"
  using assms(2) sta_invD(10) [OF assms(1)] unfolding in_hashed [OF sta_invD(2) [OF assms(1)]] by blast

lemma sta_bucket_hashed:
  assumes "sta_inv p L" "k < NUM_STA" "i \<in> set (sta_hash p ! k)"
  shows "i \<in> set (hashed p)"
  unfolding in_hashed [OF sta_invD(2) [OF assms(1)]] using assms(2,3) by blast

text \<open>Taking a record out of the buckets.\<close>

lemma set_concat_remove: "distinct (concat hs) \<Longrightarrow> set (concat (map (remove1 i) hs)) = set (concat hs) - {i}"
  by (induction hs) auto

lemma set_concat_remove_subset: "set (concat (map (remove1 i) hs)) \<subseteq> set (concat hs)"
  using set_remove1_subset by fastforce

lemma distinct_concat_remove: "distinct (concat hs) \<Longrightarrow> distinct (concat (map (remove1 i) hs))"
proof (induction hs)
  case Nil
  then show ?case by simp
next
  case (Cons b hs)
  then have d: "distinct b" "distinct (concat hs)" "set b \<inter> set (concat hs) = {}" by simp_all
  then have "set (remove1 i b) \<inter> set (concat (map (remove1 i) hs)) = {}"
    using set_remove1_subset [of i b] set_concat_remove_subset [of i hs] by blast
  then show ?case using Cons.IH [OF d(2)] d(1) by (simp add: distinct_remove1)
qed

lemma mset_bucket_append:
  assumes "k < length hs"
  shows "mset (concat (hs[k := hs ! k @ [i]])) = mset (i # concat hs)"
proof -
  have "hs[k := hs ! k @ [i]] = take k hs @ (hs ! k @ [i]) # drop (Suc k) hs"
    using assms by (rule upd_conv_take_nth_drop)
  moreover have "concat hs = concat (take k hs @ hs ! k # drop (Suc k) hs)"
    using id_take_nth_drop [OF assms] by simp
  ultimately show ?thesis by simp
qed

lemma sta_inv_link:
  assumes inv: "sta_inv p L" and q: "free_sta_queue p = i # free"
    and p': "free_sta_queue p' = free" "sta_hash p' = (sta_hash p)[k := sta_hash p ! k @ [i]]"
      "asoc_sta_count p' = asoc_sta_count p + 1" "pool p' = (pool p)[i := s]" and k: "k = wifi_mac_hash (mac_addr s)"
  shows "sta_inv p' L" "set (hashed p') = insert i (set (hashed p))" "i \<notin> set (hashed p)" "i < NUM_STA"
proof -
  note D = sta_invD [OF inv]
  have i: "i < NUM_STA" "i \<notin> set (hashed p)" "i \<notin> set L" "i \<notin> set free" "distinct free" using D q by auto
  have kl: "k < length (sta_hash p)" "k < NUM_STA" using k wifi_mac_hash_less D(2) by simp_all
  have m: "mset (hashed p') = mset (i # hashed p)" unfolding p' by (rule mset_bucket_append [OF kl(1)])
  have set: "set (hashed p') = insert i (set (hashed p))" using mset_eq_setD [OF m] by simp
  have dist: "distinct (hashed p')" using mset_eq_imp_distinct_iff [OF m] i(2) D(4) by simp
  have len: "length (hashed p') = Suc (length (hashed p))" using mset_eq_length [OF m] by simp
  have part: "set free \<inter> insert i (set (hashed p)) = {}" "set free \<inter> set L = {}" "insert i (set (hashed p)) \<inter> set L = {}"
    "set free \<union> insert i (set (hashed p)) \<union> set L = {..<NUM_STA}"
    using D(6-9) i unfolding q by auto
  have bucket: "wifi_mac_hash (mac_addr (pool p' ! j)) = l" if "l < NUM_STA" "j \<in> set (sta_hash p' ! l)" for l j
  proof (cases "j = i")
    case True
    then have "l = k"
    proof -
      have "i \<notin> set (sta_hash p ! l)" using sta_bucket_hashed [OF inv that(1)] i(2) by blast
      then show ?thesis using that True D(2) unfolding p' by (cases "l = k") simp_all
    qed
    then show ?thesis using True k i(1) D(1) unfolding p' by simp
  next
    case False
    then have "j \<in> set (sta_hash p ! l)" using that D(2) unfolding p' by (cases "l = k") simp_all
    then show ?thesis using D(10) [OF that(1)] False unfolding p' by simp
  qed
  show "sta_inv p' L" unfolding sta_inv_def set
    using part bucket D(1,2,5,11) dist len i(5) p'(1,3) p'(2,4) by simp
  show "set (hashed p') = insert i (set (hashed p))" by (rule set)
  show "i \<notin> set (hashed p)" "i < NUM_STA" by (rule i)+
qed

lemma hash_remove_idem: "i \<notin> set (hashed p) \<Longrightarrow> hash_remove i p = p"
proof -
  assume "i \<notin> set (hashed p)"
  then have "map (remove1 i) (sta_hash p) = sta_hash p" by (intro map_idI) (auto intro!: remove1_idem)
  then show ?thesis by (simp add: hash_remove_def)
qed

lemma hash_remove_simps [simp]:
  "pool (hash_remove i p) = pool p" "free_sta_queue (hash_remove i p) = free_sta_queue p"
  "asoc_sta_count (hash_remove i p) = asoc_sta_count p" "sta_aid (hash_remove i p) = sta_aid p"
  "auth_list (hash_remove i p) = auth_list p"
  by (simp_all add: hash_remove_def)

lemma sta_inv_unhash:
  assumes inv: "sta_inv p L" and i: "i \<in> set (hashed p)"
  shows "sta_inv (hash_remove i p) (i # L)" "set (hashed (hash_remove i p)) = set (hashed p) - {i}"
proof -
  note D = sta_invD [OF inv]
  have hs: "hashed (hash_remove i p) = concat (map (remove1 i) (sta_hash p))" by (simp add: hash_remove_def)
  have set: "set (hashed (hash_remove i p)) = set (hashed p) - {i}" unfolding hs by (rule set_concat_remove [OF D(4)])
  have dist: "distinct (hashed (hash_remove i p))" unfolding hs by (rule distinct_concat_remove [OF D(4)])
  have len: "length (hashed p) = Suc (length (hashed (hash_remove i p)))"
    using distinct_card [OF dist] distinct_card [OF D(4)] i card_Suc_Diff1 [of "set (hashed p)" i] unfolding set by simp
  have l: "length (sta_hash (hash_remove i p)) = NUM_STA" using D(2) by (simp add: hash_remove_def)
  have bucket: "wifi_mac_hash (mac_addr (pool p ! j)) = k" if "k < NUM_STA" "j \<in> set (sta_hash (hash_remove i p) ! k)" for k j
  proof -
    have "j \<in> set (sta_hash p ! k)"
      using that D(2) set_remove1_subset [of i "sta_hash p ! k"] by (auto simp: hash_remove_def)
    then show ?thesis using D(10) [OF that(1)] by blast
  qed
  have part: "set (free_sta_queue p) \<inter> (set (hashed p) - {i}) = {}" "set (free_sta_queue p) \<inter> insert i (set L) = {}"
    "(set (hashed p) - {i}) \<inter> insert i (set L) = {}" "i \<notin> set L"
    "set (free_sta_queue p) \<union> (set (hashed p) - {i}) \<union> insert i (set L) = {..<NUM_STA}"
    using D(6-9) i by auto
  show "sta_inv (hash_remove i p) (i # L)" unfolding sta_inv_def set hash_remove_simps
    using part bucket D(1,3,5,11) dist len l by simp
  show "set (hashed (hash_remove i p)) = set (hashed p) - {i}" by (rule set)
qed

lemma sta_inv_release:
  assumes inv: "sta_inv p (i # L)"
    and p': "free_sta_queue p' = free_sta_queue p @ [i]" "sta_hash p' = sta_hash p"
      "asoc_sta_count p' = asoc_sta_count p - 1" "pool p' = (pool p)[i := s]"
  shows "sta_inv p' L"
proof -
  note D = sta_invD [OF inv]
  have i: "i \<notin> set (hashed p)" "i \<notin> set L" "i \<notin> set (free_sta_queue p)" "i < NUM_STA" using D(5-9) by auto
  have bucket: "wifi_mac_hash (mac_addr (pool p' ! j)) = k" if "k < NUM_STA" "j \<in> set (sta_hash p ! k)" for k j
    using D(10) [OF that] sta_bucket_hashed [OF inv that] i(1) unfolding p' by (cases "j = i") simp_all
  have part: "set (free_sta_queue p) \<inter> set (hashed p) = {}" "set (free_sta_queue p) \<inter> set L = {}" "set (hashed p) \<inter> set L = {}"
    "insert i (set (free_sta_queue p)) \<union> set (hashed p) \<union> set L = {..<NUM_STA}"
    using D(6-9) by auto
  have d: "distinct (free_sta_queue p @ [i])" "set (free_sta_queue p @ [i]) = insert i (set (free_sta_queue p))"
    using D(3) i(3) by simp_all
  show ?thesis unfolding sta_inv_def p'(1,2) d(2)
    using part bucket D(1,2,4,5,11) d(1) i(1,2) p'(3,4) by simp
qed

lemma sta_inv_limbo_perm: "sta_inv p L \<Longrightarrow> mset L = mset M \<Longrightarrow> sta_inv p M"
  unfolding sta_inv_def using mset_eq_setD [of L M] mset_eq_imp_distinct_iff [of L M] mset_eq_length [of L M] by simp

section \<open>Lookup\<close>

lemma option_eqI: "(\<And>j. x = Some j \<longleftrightarrow> y = Some j) \<Longrightarrow> x = y"
  by (metis option.exhaust)

text \<open>Multicast addresses stand for the broadcast station.\<close>

definition canon :: "u8 list \<Rightarrow> u8 list" where
  "canon addr = (if IS_MCAST addr then replicate 6 0xff else addr)"

lemma canon_canon [simp]: "canon (canon a) = canon a"
  by (simp add: canon_def)

definition sta_uniq :: "sta_priv \<Rightarrow> bool" where
  "sta_uniq p \<longleftrightarrow> inj_on (\<lambda>i. mac_addr (pool p ! i)) (set (hashed p))"

lemma rtw_get_stainfo_find:
  "rtw_get_stainfo p (Some a) = find (\<lambda>i. mac_addr (pool p ! i) = canon a) (sta_hash p ! wifi_mac_hash (canon a))"
  by (simp add: rtw_get_stainfo_def canon_def Let_def)

lemma get_Some:
  assumes "sta_inv p L" "rtw_get_stainfo p (Some a) = Some i"
  shows "i \<in> set (hashed p)" "mac_addr (pool p ! i) = canon a"
proof -
  have "i \<in> set (sta_hash p ! wifi_mac_hash (canon a))" and m: "mac_addr (pool p ! i) = canon a"
    using assms(2) unfolding rtw_get_stainfo_find find_Some_iff by (auto intro: nth_mem)
  then show "i \<in> set (hashed p)" using sta_bucket_hashed [OF assms(1) wifi_mac_hash_less] by blast
  show "mac_addr (pool p ! i) = canon a" by (rule m)
qed

lemma get_None:
  assumes "sta_inv p L"
  shows "rtw_get_stainfo p (Some a) = None \<longleftrightarrow> (\<forall>i \<in> set (hashed p). mac_addr (pool p ! i) \<noteq> canon a)"
  unfolding rtw_get_stainfo_find find_None_iff
  using sta_bucket [OF assms] sta_bucket_hashed [OF assms wifi_mac_hash_less] by metis

lemma get_uniq:
  assumes "sta_inv p L" "sta_uniq p"
  shows "rtw_get_stainfo p (Some a) = Some i \<longleftrightarrow> i \<in> set (hashed p) \<and> mac_addr (pool p ! i) = canon a"
proof
  assume "rtw_get_stainfo p (Some a) = Some i"
  then show "i \<in> set (hashed p) \<and> mac_addr (pool p ! i) = canon a" using get_Some [OF assms(1)] by blast
next
  assume i: "i \<in> set (hashed p) \<and> mac_addr (pool p ! i) = canon a"
  then obtain j where j: "rtw_get_stainfo p (Some a) = Some j"
    using get_None [OF assms(1), of a] by (cases "rtw_get_stainfo p (Some a)") auto
  have "j = i"
    by (rule inj_onD [OF assms(2) [unfolded sta_uniq_def]]) (use get_Some [OF assms(1) j] i in simp_all)
  then show "rtw_get_stainfo p (Some a) = Some i" using j by simp
qed

section \<open>What the operations do to the table\<close>

definition new_sta :: "u8 list \<Rightarrow> nat \<Rightarrow> sta_info" where
  "new_sta a k = init_stainfo\<lparr>mac_addr := a, tid_rxseq := replicate 16 0xffff, bmc_tid_rxseq := replicate 16 0xffff,
     rx_iv := replicate 16 (replicate 8 0), recvreorder_ctrl := replicate 16 reorder_start,
     rssi_init := [-1, -1, -1], RxMgmtFrameSeqNum := 0xffff, mac_id := k\<rparr>"

lemma new_sta_simps [simp]:
  "mac_addr (new_sta a k) = a" "mac_id (new_sta a k) = k" "aid (new_sta a k) = 0" "defrag_q (new_sta a k) = []"
  "recvreorder_ctrl (new_sta a k) = replicate 16 reorder_start" "sleep_q (new_sta a k) = []"
  by (simp_all add: new_sta_def init_stainfo_def)

lemma rtw_alloc_stainfo_none: "free_sta_queue (stapriv ad) = [] \<Longrightarrow> rtw_alloc_stainfo ad a = (None, ad)"
  by (simp add: rtw_alloc_stainfo_def)

lemma rtw_alloc_stainfo_some:
  assumes "free_sta_queue (stapriv ad) = i # free"
    and "rtw_alloc_macid (macid ad) (iface_id ad) (own_addr ad) i a = (k, m)"
  shows "rtw_alloc_stainfo ad a =
    (Some i, ad\<lparr>stapriv := (stapriv ad)\<lparr>free_sta_queue := free, pool := (pool (stapriv ad))[i := new_sta a k],
       sta_hash := (sta_hash (stapriv ad))[wifi_mac_hash a := sta_hash (stapriv ad) ! wifi_mac_hash a @ [i]],
       asoc_sta_count := asoc_sta_count (stapriv ad) + 1\<rparr>, macid := m\<rparr>)"
  using assms wifi_mac_hash_less [of a] by (simp add: rtw_alloc_stainfo_def Let_def new_sta_def)

lemma foldl_rtw_free_recvframe_hdr:
  "foldl rtw_free_recvframe_hdr ad fs = ad\<lparr>free_recv_queue := free_recv_queue ad @ fs, free_recvframe_cnt := free_recvframe_cnt ad + length fs\<rparr>"
  by (induction fs arbitrary: ad) (simp_all add: rtw_free_recvframe_hdr_def)

lemma foldl_drain_reorder:
  "foldl drain_reorder ad cs = ad\<lparr>free_recv_queue := free_recv_queue ad @ concat (map pending cs),
     free_recvframe_cnt := free_recvframe_cnt ad + length (concat (map pending cs))\<rparr>"
  by (induction cs arbitrary: ad) (simp_all add: drain_reorder_def foldl_rtw_free_recvframe_hdr)

lemma drain_servq_sta:
  "fst (drain_servq i k sx) = (fst sx)\<lparr>servqs := (servqs (fst sx))[k := \<lparr> sta_pending = [], qcnt = 0 \<rparr>]\<rparr>"
  by (cases sx) (simp add: drain_servq_def Let_def)

text \<open>The parts of the table a released station touches.\<close>

lemma rtw_free_stainfo_eff:
  fixes ad i
  defines "ad' \<equiv> rtw_free_stainfo ad (Some i)"
  defines "s \<equiv> pool (stapriv ad) ! i"
  shows "free_sta_queue (stapriv ad') = free_sta_queue (stapriv ad) @ [i]"
    and "sta_hash (stapriv ad') = sta_hash (hash_remove i (stapriv ad))"
    and "asoc_sta_count (stapriv ad') = asoc_sta_count (stapriv ad) - 1"
    and "\<exists>s'. pool (stapriv ad') = (pool (stapriv ad))[i := s'] \<and> mac_id s' = id_num (macid ad) \<and> mac_addr s' = mac_addr s \<and>
      defrag_q s' = defrag_q s \<and> map pending (recvreorder_ctrl s') = map (\<lambda>_. []) (recvreorder_ctrl s)"
    and "(macid ad', camctl ad') = snd (rtw_release_macid (macid ad) (camctl ad) (iface_id ad) (own_addr ad) (mac_id s) (mac_addr s))"
    and "free_recv_queue ad' = free_recv_queue ad @ concat (map pending (recvreorder_ctrl s))"
    and "iface_id ad' = iface_id ad" "own_addr ad' = own_addr ad" "hw_ap_state ad' = hw_ap_state ad"
proof -
  note res = ad'_def rtw_free_stainfo_def Let_def
  have k: "fst (rtw_release_macid m c f own i addr) = id_num m" for m c f own i addr
    by (simp add: rtw_release_macid_def)
  show "free_sta_queue (stapriv ad') = free_sta_queue (stapriv ad) @ [i]"
    "sta_hash (stapriv ad') = sta_hash (hash_remove i (stapriv ad))"
    "asoc_sta_count (stapriv ad') = asoc_sta_count (stapriv ad) - 1"
    unfolding res by (simp_all add: split_beta)
  show "(macid ad', camctl ad') = snd (rtw_release_macid (macid ad) (camctl ad) (iface_id ad) (own_addr ad) (mac_id s) (mac_addr s))"
    "free_recv_queue ad' = free_recv_queue ad @ concat (map pending (recvreorder_ctrl s))"
    "iface_id ad' = iface_id ad" "own_addr ad' = own_addr ad" "hw_ap_state ad' = hw_ap_state ad"
    unfolding res by (simp_all add: split_beta drain_servq_sta foldl_drain_reorder s_def)
  show "\<exists>s'. pool (stapriv ad') = (pool (stapriv ad))[i := s'] \<and> mac_id s' = id_num (macid ad) \<and> mac_addr s' = mac_addr s \<and>
      defrag_q s' = defrag_q s \<and> map pending (recvreorder_ctrl s') = map (\<lambda>_. []) (recvreorder_ctrl s)"
    unfolding res
    by (simp add: split_beta drain_servq_sta foldl_drain_reorder s_def k)
      (intro conjI impI; (intro exI conjI, rule refl, simp_all add: o_def))
qed

section \<open>The invariant of the table and of the identifiers\<close>

definition in_use :: "sta_priv \<Rightarrow> nat list \<Rightarrow> nat set" where
  "in_use p L = set (hashed p) \<union> set L"

text \<open>The stations in use and the identifiers they hold in the hardware.\<close>

definition sta_holders :: "adapter \<Rightarrow> nat list \<Rightarrow> holders" where
  "sta_holders ad L = (\<lambda>i. let s = pool (stapriv ad) ! i in
     if i \<in> in_use (stapriv ad) L \<and> mac_id s < id_num (macid ad) \<and> mac_id s \<noteq> RTW_DEFAULT_MGMT_MACID
     then Some (iface_id ad, mac_addr s, mac_id s) else None)"

definition ad_inv :: "adapter \<Rightarrow> nat list \<Rightarrow> bool" where
  "ad_inv ad L \<longleftrightarrow> sta_inv (stapriv ad) L \<and> sta_uniq (stapriv ad) \<and> macid_ok (macid ad) (sta_holders ad L) \<and>
     iface_id ad < length (if_g (macid ad)) \<and>
     (\<forall>i \<in> in_use (stapriv ad) L. mac_addr (pool (stapriv ad) ! i) = own_addr ad \<longrightarrow>
        mac_id (pool (stapriv ad) ! i) \<ge> id_num (macid ad))"

lemma ad_invD:
  assumes "ad_inv ad L"
  shows "sta_inv (stapriv ad) L" "sta_uniq (stapriv ad)" "macid_ok (macid ad) (sta_holders ad L)"
    "iface_id ad < length (if_g (macid ad))"
    "i \<in> in_use (stapriv ad) L \<Longrightarrow> mac_addr (pool (stapriv ad) ! i) = own_addr ad \<Longrightarrow>
       mac_id (pool (stapriv ad) ! i) \<ge> id_num (macid ad)"
  using assms unfolding ad_inv_def by blast+

lemma rtw_alloc_macid_same:
  assumes "rtw_alloc_macid m f own p addr = (k, m')"
  shows "id_num m' = id_num m" "length (if_g m') = length (if_g m)" "addr = own \<Longrightarrow> k = id_num m"
  using assms by (auto simp: rtw_alloc_macid_def rtw_iface_bcmc_id_set_def split: if_splits option.splits)

lemma rtw_release_macid_same:
  "id_num (fst (snd (rtw_release_macid m c f own k addr))) = id_num m"
  "length (if_g (fst (snd (rtw_release_macid m c f own k addr)))) = length (if_g m)"
  "k \<ge> id_num m \<or> k = RTW_DEFAULT_MGMT_MACID \<Longrightarrow> fst (snd (rtw_release_macid m c f own k addr)) = m"
  by (auto simp: rtw_release_macid_def rtw_iface_bcmc_id_set_def Let_def)

lemma uniq_link:
  assumes "sta_uniq p" "set (hashed p') = insert i (set (hashed p))" "i \<notin> set (hashed p)" "i < length (pool p)"
    "pool p' = (pool p)[i := s]" "\<forall>j \<in> set (hashed p). mac_addr (pool p ! j) \<noteq> mac_addr s"
  shows "sta_uniq p'"
proof -
  have n: "mac_addr (pool p' ! j) = (if j = i then mac_addr s else mac_addr (pool p ! j))" for j
    using assms(4) unfolding assms(5) by (simp add: nth_list_update)
  have inj: "inj_on (\<lambda>j. mac_addr (pool p' ! j)) (set (hashed p))"
    using assms(1) unfolding sta_uniq_def
    by (rule inj_on_cong [THEN iffD1, rotated]) (use assms(3) n in auto)
  have "mac_addr (pool p' ! i) \<notin> (\<lambda>j. mac_addr (pool p' ! j)) ` (set (hashed p) - {i})"
  proof
    assume "mac_addr (pool p' ! i) \<in> (\<lambda>j. mac_addr (pool p' ! j)) ` (set (hashed p) - {i})"
    then obtain j where "j \<in> set (hashed p)" "j \<noteq> i" "mac_addr (pool p' ! j) = mac_addr (pool p' ! i)" by force
    then show False using assms(6) unfolding n by simp
  qed
  then show ?thesis unfolding sta_uniq_def assms(2) inj_on_insert using inj by blast
qed

lemma rtw_alloc_stainfo_inv:
  assumes inv: "ad_inv ad []" and q: "free_sta_queue (stapriv ad) = i # free"
    and new: "rtw_get_stainfo (stapriv ad) (Some a) = None" "canon a = a"
  shows "ad_inv (snd (rtw_alloc_stainfo ad a)) []" "fst (rtw_alloc_stainfo ad a) = Some i"
    "rtw_get_stainfo (stapriv (snd (rtw_alloc_stainfo ad a))) (Some b) =
       (if canon b = a then Some i else rtw_get_stainfo (stapriv ad) (Some b))"
    "\<exists>k. pool (stapriv (snd (rtw_alloc_stainfo ad a))) = (pool (stapriv ad))[i := new_sta a k]"
    "set (hashed (stapriv (snd (rtw_alloc_stainfo ad a)))) = insert i (set (hashed (stapriv ad)))"
    "i \<notin> set (hashed (stapriv ad))" "i < NUM_STA"
proof -
  note D = ad_invD [OF inv]
  let ?p = "stapriv ad"
  obtain k m where al: "rtw_alloc_macid (macid ad) (iface_id ad) (own_addr ad) i a = (k, m)" by fastforce
  note res = rtw_alloc_stainfo_some [OF q al]
  let ?ad = "snd (rtw_alloc_stainfo ad a)"
  have p': "free_sta_queue (stapriv ?ad) = free"
    "sta_hash (stapriv ?ad) = (sta_hash ?p)[wifi_mac_hash a := sta_hash ?p ! wifi_mac_hash a @ [i]]"
    "asoc_sta_count (stapriv ?ad) = asoc_sta_count ?p + 1" "pool (stapriv ?ad) = (pool ?p)[i := new_sta a k]"
    and m': "macid ?ad = m" "iface_id ?ad = iface_id ad" "own_addr ?ad = own_addr ad"
    unfolding res by simp_all
  note link = sta_inv_link [OF D(1) q p', simplified]
  have old: "\<forall>j \<in> set (hashed ?p). mac_addr (pool ?p ! j) \<noteq> a"
    using get_None [OF D(1), of a] new by simp
  have il: "i < length (pool ?p)" using link(4) sta_invD(1) [OF D(1)] by simp
  have inv': "sta_inv (stapriv ?ad) []" using sta_inv_link(1) [OF D(1) q p'] by simp
  have set: "set (hashed (stapriv ?ad)) = insert i (set (hashed ?p))" using sta_inv_link(2) [OF D(1) q p'] by simp
  have i: "i \<notin> set (hashed ?p)" "i < NUM_STA" using sta_inv_link(3,4) [OF D(1) q p'] by simp_all
  have uniq: "sta_uniq (stapriv ?ad)"
    using uniq_link [OF D(2) set i(1) il p'(4)] old by simp
  have n: "pool (stapriv ?ad) ! j = (if j = i then new_sta a k else pool ?p ! j)" for j
    using il unfolding p' by (simp add: nth_list_update)
  have "sta_holders ad [] i = None" using i(1) by (simp add: sta_holders_def in_use_def)
  note mk = rtw_alloc_macid_ok [OF D(3) this D(4) al]
  have use: "in_use (stapriv ?ad) [] = insert i (in_use ?p [])" using set by (simp add: in_use_def)
  have "sta_holders ?ad [] =
    (if k < id_num (macid ad) \<and> k \<noteq> RTW_DEFAULT_MGMT_MACID then (sta_holders ad [])(i \<mapsto> (iface_id ad, a, k)) else sta_holders ad [])"
  proof
    fix j
    show "sta_holders ?ad [] j = (if k < id_num (macid ad) \<and> k \<noteq> RTW_DEFAULT_MGMT_MACID
      then (sta_holders ad [])(i \<mapsto> (iface_id ad, a, k)) else sta_holders ad []) j"
      using i(1) unfolding sta_holders_def use n m' rtw_alloc_macid_same(1) [OF al]
      by (cases "j = i") (simp_all add: in_use_def Let_def)
  qed
  then have "macid_ok (macid ?ad) (sta_holders ?ad [])" using mk by (simp add: m')
  moreover have "mac_id (pool (stapriv ?ad) ! j) \<ge> id_num m"
    if "j \<in> in_use (stapriv ?ad) []" "mac_addr (pool (stapriv ?ad) ! j) = own_addr ad" for j
    using that D(5) [of j] rtw_alloc_macid_same(1,3) [OF al] unfolding n use by (cases "j = i") simp_all
  ultimately show "ad_inv ?ad []"
    unfolding ad_inv_def using inv' uniq D(4) rtw_alloc_macid_same(2) [OF al] by (simp add: m')
  show "fst (rtw_alloc_stainfo ad a) = Some i" unfolding res by simp
  show "\<exists>k. pool (stapriv ?ad) = (pool ?p)[i := new_sta a k]" using p'(4) by blast
  show "set (hashed (stapriv ?ad)) = insert i (set (hashed ?p))" "i \<notin> set (hashed ?p)" "i < NUM_STA" by (rule set i)+
  show "rtw_get_stainfo (stapriv ?ad) (Some b) = (if canon b = a then Some i else rtw_get_stainfo ?p (Some b))"
  proof (cases "canon b = a")
    case True
    then have "rtw_get_stainfo (stapriv ?ad) (Some b) = Some i"
      unfolding get_uniq [OF inv' uniq] set n by simp
    then show ?thesis using True by simp
  next
    case False
    have "rtw_get_stainfo (stapriv ?ad) (Some b) = Some j \<longleftrightarrow> rtw_get_stainfo ?p (Some b) = Some j" for j
      unfolding get_uniq [OF inv' uniq] get_uniq [OF D(1,2)] set n using False i(1) by (cases "j = i") auto
    then have "rtw_get_stainfo (stapriv ?ad) (Some b) = rtw_get_stainfo ?p (Some b)" by (rule option_eqI)
    then show ?thesis using False by simp
  qed
qed

text \<open>A station leaves in two steps: out of its bucket, then back to the free queue.\<close>

lemma ad_inv_unhash:
  assumes inv: "ad_inv ad L" and i: "i \<in> set (hashed (stapriv ad))"
  shows "ad_inv (ad\<lparr>stapriv := hash_remove i (stapriv ad)\<rparr>) (i # L)"
proof -
  note D = ad_invD [OF inv]
  have use: "in_use (hash_remove i (stapriv ad)) (i # L) = in_use (stapriv ad) L"
    using sta_inv_unhash(2) [OF D(1) i] i unfolding in_use_def by auto
  have hold: "sta_holders (ad\<lparr>stapriv := hash_remove i (stapriv ad)\<rparr>) (i # L) = sta_holders ad L"
  proof -
    have a: "stapriv (ad\<lparr>stapriv := hash_remove i (stapriv ad)\<rparr>) = hash_remove i (stapriv ad)"
      "macid (ad\<lparr>stapriv := hash_remove i (stapriv ad)\<rparr>) = macid ad"
      "iface_id (ad\<lparr>stapriv := hash_remove i (stapriv ad)\<rparr>) = iface_id ad" by simp_all
    show ?thesis unfolding sta_holders_def a use hash_remove_simps by (rule refl)
  qed
  have "sta_uniq (hash_remove i (stapriv ad))"
    using D(2) unfolding sta_uniq_def sta_inv_unhash(2) [OF D(1) i] hash_remove_simps by (rule inj_on_subset) blast
  then show ?thesis unfolding ad_inv_def hold
    using sta_inv_unhash(1) [OF D(1) i] D(3-5) by (simp add: use)
qed

lemma ad_inv_release:
  assumes inv: "ad_inv (ad\<lparr>stapriv := hash_remove i (stapriv ad)\<rparr>) (i # L)"
  shows "ad_inv (rtw_free_stainfo ad (Some i)) L"
    "hashed (stapriv (rtw_free_stainfo ad (Some i))) = hashed (hash_remove i (stapriv ad))"
    "j \<noteq> i \<Longrightarrow> pool (stapriv (rtw_free_stainfo ad (Some i))) ! j = pool (stapriv ad) ! j"
    "free_sta_queue (stapriv (rtw_free_stainfo ad (Some i))) = free_sta_queue (stapriv ad) @ [i]"
proof -
  let ?p = "hash_remove i (stapriv ad)" and ?ad = "rtw_free_stainfo ad (Some i)"
  let ?a0 = "ad\<lparr>stapriv := ?p\<rparr>"
  have a0: "stapriv ?a0 = ?p" "macid ?a0 = macid ad" "iface_id ?a0 = iface_id ad" "own_addr ?a0 = own_addr ad" by simp_all
  note D = ad_invD [OF inv, unfolded a0]
  let ?s = "pool ?p ! i"
  note S = sta_invD [OF D(1)]
  have i: "i \<notin> set (hashed ?p)" "i \<notin> set L" "i < NUM_STA" using S(5,8,9) by auto
  note eff = rtw_free_stainfo_eff [of ad i]
  obtain s' where s': "pool (stapriv ?ad) = (pool ?p)[i := s']" using eff(4) by auto
  have hash: "sta_hash (stapriv ?ad) = sta_hash ?p" by (rule eff(2))
  show hs: "hashed (stapriv ?ad) = hashed ?p" by (simp only: hash)
  have q: "free_sta_queue (stapriv ?ad) = free_sta_queue ?p @ [i]" using eff(1) by simp
  then show "free_sta_queue (stapriv ?ad) = free_sta_queue (stapriv ad) @ [i]" by simp
  have cnt: "asoc_sta_count (stapriv ?ad) = asoc_sta_count ?p - 1" using eff(3) by simp
  have n: "pool (stapriv ?ad) ! j = (if j = i then s' else pool ?p ! j)" for j
    using S(1) i(3) unfolding s' by (simp add: nth_list_update)
  show "pool (stapriv ?ad) ! j = pool (stapriv ad) ! j" if "j \<noteq> i" using that n by simp
  have inv': "sta_inv (stapriv ?ad) L" by (rule sta_inv_release [OF D(1) q hash cnt s'])
  have ne: "j \<noteq> i" if "j \<in> set (hashed ?p)" for j using that i(1) by blast
  have uniq: "sta_uniq (stapriv ?ad)"
    using D(2) unfolding sta_uniq_def hs
    by (rule inj_on_cong [THEN iffD1, rotated]) (simp add: n ne)
  have use: "in_use (stapriv ?ad) L = in_use ?p (i # L) - {i}" using i(1,2) unfolding in_use_def hs by auto
  have iu: "i \<in> in_use ?p (i # L)" by (simp add: in_use_def)
  let ?rel = "rtw_release_macid (macid ad) (camctl ad) (iface_id ad) (own_addr ad) (mac_id ?s) (mac_addr ?s)"
  have m: "macid ?ad = fst (snd ?rel)" using eff(5) unfolding hash_remove_simps by (metis fst_conv)
  have num: "id_num (macid ?ad) = id_num (macid ad)" "length (if_g (macid ?ad)) = length (if_g (macid ad))"
    unfolding m rtw_release_macid_same by simp_all
  have hold: "sta_holders ?ad L = (sta_holders ?a0 (i # L))(i := None)"
  proof
    fix j
    show "sta_holders ?ad L j = ((sta_holders ?a0 (i # L))(i := None)) j"
      unfolding sta_holders_def a0 use n num eff(7) by (simp add: Let_def)
  qed
  have "macid_ok (macid ?ad) (sta_holders ?ad L)"
  proof (cases "mac_id ?s < id_num (macid ad) \<and> mac_id ?s \<noteq> RTW_DEFAULT_MGMT_MACID")
    case True
    then have "sta_holders ?a0 (i # L) i = Some (iface_id ad, mac_addr ?s, mac_id ?s)"
      unfolding sta_holders_def a0 using iu by (simp add: Let_def)
    moreover have "mac_addr ?s \<noteq> own_addr ad" using D(5) [OF iu] True by auto
    ultimately show ?thesis using rtw_release_macid_ok [OF D(3)] unfolding hold m by blast
  next
    case False
    then have "sta_holders ?a0 (i # L) i = None" unfolding sta_holders_def a0 by (auto simp: Let_def)
    then have "(sta_holders ?a0 (i # L))(i := None) = sta_holders ?a0 (i # L)" by (rule fun_upd_idem)
    then show ?thesis using D(3) rtw_release_macid_same(3) [of "macid ad" "mac_id ?s"] False unfolding hold m by auto
  qed
  moreover have "mac_id (pool (stapriv ?ad) ! j) \<ge> id_num (macid ad)"
    if "j \<in> in_use (stapriv ?ad) L" "mac_addr (pool (stapriv ?ad) ! j) = own_addr ad" for j
    using that D(5) [of j] unfolding use n by auto
  ultimately show "ad_inv ?ad L"
    unfolding ad_inv_def using inv' uniq D(4) num eff(7,8) by simp
qed

lemma rtw_free_stainfo_inv:
  assumes inv: "ad_inv ad []" and i: "rtw_get_stainfo (stapriv ad) (Some a) = Some i"
  shows "ad_inv (rtw_free_stainfo ad (Some i)) []"
    "rtw_get_stainfo (stapriv (rtw_free_stainfo ad (Some i))) (Some b) =
       (if canon b = canon a then None else rtw_get_stainfo (stapriv ad) (Some b))"
    "set (hashed (stapriv (rtw_free_stainfo ad (Some i)))) = set (hashed (stapriv ad)) - {i}"
    "free_sta_queue (stapriv (rtw_free_stainfo ad (Some i))) = free_sta_queue (stapriv ad) @ [i]"
    "j \<noteq> i \<Longrightarrow> pool (stapriv (rtw_free_stainfo ad (Some i))) ! j = pool (stapriv ad) ! j"
proof -
  note D = ad_invD [OF inv]
  have ih: "i \<in> set (hashed (stapriv ad))" and ia: "mac_addr (pool (stapriv ad) ! i) = canon a"
    using get_Some [OF D(1) i] by blast+
  let ?r = "rtw_free_stainfo ad (Some i)"
  note rel = ad_inv_release [OF ad_inv_unhash [OF inv ih]]
  show r: "ad_inv ?r []" by (rule rel(1))
  show hs: "set (hashed (stapriv ?r)) = set (hashed (stapriv ad)) - {i}"
    using rel(2) sta_inv_unhash(2) [OF D(1) ih] by simp
  show "free_sta_queue (stapriv ?r) = free_sta_queue (stapriv ad) @ [i]" using rel(4) by simp
  have n: "pool (stapriv ?r) ! j = pool (stapriv ad) ! j" if "j \<noteq> i" for j using rel(3) [OF that] by simp
  show "j \<noteq> i \<Longrightarrow> pool (stapriv ?r) ! j = pool (stapriv ad) ! j" by (rule n)
  have other: "mac_addr (pool (stapriv ad) ! j) \<noteq> canon a" if "j \<in> set (hashed (stapriv ad))" "j \<noteq> i" for j
    using that ih ia inj_onD [OF D(2) [unfolded sta_uniq_def], of j i] by auto
  have "rtw_get_stainfo (stapriv ?r) (Some b) = Some j \<longleftrightarrow>
    canon b \<noteq> canon a \<and> rtw_get_stainfo (stapriv ad) (Some b) = Some j" for j
    unfolding get_uniq [OF ad_invD(1,2) [OF r]] get_uniq [OF D(1,2)] hs
    using n other ih ia by (cases "j = i") (auto simp del: set_concat)
  then show "rtw_get_stainfo (stapriv ?r) (Some b) =
    (if canon b = canon a then None else rtw_get_stainfo (stapriv ad) (Some b))"
    by (intro option_eqI) simp
qed

text \<open>All the stations but one.\<close>

lemma ad_inv_perm: "ad_inv ad L \<Longrightarrow> mset L = mset M \<Longrightarrow> ad_inv ad M"
  using sta_inv_limbo_perm [of "stapriv ad" L M] mset_eq_setD [of L M]
  by (simp add: ad_inv_def sta_holders_def in_use_def)

lemma unhash_list:
  assumes "ad_inv ad L" "set F \<subseteq> set (hashed (stapriv ad))" "distinct F"
  shows "ad_inv (ad\<lparr>stapriv := fold hash_remove F (stapriv ad)\<rparr>) (rev F @ L) \<and>
    set (hashed (fold hash_remove F (stapriv ad))) = set (hashed (stapriv ad)) - set F \<and>
    pool (fold hash_remove F (stapriv ad)) = pool (stapriv ad)"
  using assms
proof (induction F arbitrary: ad L)
  case Nil
  then show ?case by simp
next
  case (Cons i F)
  let ?ad = "ad\<lparr>stapriv := hash_remove i (stapriv ad)\<rparr>"
  have i: "i \<in> set (hashed (stapriv ad))" using Cons.prems(2) by (simp del: set_concat)
  have inv: "ad_inv ?ad (i # L)" by (rule ad_inv_unhash [OF Cons.prems(1) i])
  have hs: "set (hashed (stapriv ?ad)) = set (hashed (stapriv ad)) - {i}"
    using sta_inv_unhash(2) [OF ad_invD(1) [OF Cons.prems(1)] i] by simp
  have "set F \<subseteq> set (hashed (stapriv ?ad))" unfolding hs using Cons.prems(2,3) by auto
  note IH = Cons.IH [OF inv this]
  show ?case using IH hs Cons.prems(3) by (simp del: set_concat) blast
qed

lemma release_list:
  assumes "ad_inv ad F"
  shows "ad_inv (fold (\<lambda>i ad. rtw_free_stainfo ad (Some i)) F ad) [] \<and>
    hashed (stapriv (fold (\<lambda>i ad. rtw_free_stainfo ad (Some i)) F ad)) = hashed (stapriv ad) \<and>
    free_sta_queue (stapriv (fold (\<lambda>i ad. rtw_free_stainfo ad (Some i)) F ad)) = free_sta_queue (stapriv ad) @ F \<and>
    (\<forall>j. j \<notin> set F \<longrightarrow> pool (stapriv (fold (\<lambda>i ad. rtw_free_stainfo ad (Some i)) F ad)) ! j = pool (stapriv ad) ! j)"
  using assms
proof (induction F arbitrary: ad)
  case Nil
  then show ?case by simp
next
  case (Cons i F)
  have "i \<notin> set (hashed (stapriv ad))" using sta_invD(8) [OF ad_invD(1) [OF Cons.prems]] by auto
  then have h: "hash_remove i (stapriv ad) = stapriv ad" by (rule hash_remove_idem)
  have "ad_inv (ad\<lparr>stapriv := hash_remove i (stapriv ad)\<rparr>) (i # F)" using Cons.prems by (simp add: h)
  note rel = ad_inv_release [OF this, unfolded h]
  show ?case using Cons.IH [OF rel(1)] rel(2-4) by simp
qed

lemma bcast_canon: "canon (replicate 6 0xff) = replicate 6 0xff"
  by (simp add: canon_def)

lemma rtw_free_all_stainfo_inv:
  assumes inv: "ad_inv ad []" and cnt: "asoc_sta_count (stapriv ad) \<noteq> 1"
  shows "ad_inv (rtw_free_all_stainfo ad) []"
    "set (hashed (stapriv (rtw_free_all_stainfo ad))) = {i \<in> set (hashed (stapriv ad)). Some i = rtw_get_bcmc_stainfo (stapriv ad)}"
    "Some j = rtw_get_bcmc_stainfo (stapriv ad) \<Longrightarrow> pool (stapriv (rtw_free_all_stainfo ad)) ! j = pool (stapriv ad) ! j"
proof -
  let ?p = "stapriv ad"
  define F where "F = filter (\<lambda>i. Some i \<noteq> rtw_get_bcmc_stainfo ?p) (hashed ?p)"
  define a1 where "a1 = ad\<lparr>stapriv := fold hash_remove F ?p\<rparr>"
  have res: "rtw_free_all_stainfo ad = fold (\<lambda>i ad. rtw_free_stainfo ad (Some i)) F a1"
    using cnt by (simp add: rtw_free_all_stainfo_def F_def a1_def Let_def)
  have F: "set F \<subseteq> set (hashed ?p)" "distinct F"
    using sta_invD(4) [OF ad_invD(1) [OF inv]] unfolding F_def by (auto simp del: set_concat)
  note u = unhash_list [OF inv F, folded a1_def]
  have "ad_inv a1 F" by (rule ad_inv_perm [of _ "rev F @ []"]) (use u in simp_all)
  note r = release_list [OF this, folded res]
  show "ad_inv (rtw_free_all_stainfo ad) []" using r by blast
  have "set (hashed (stapriv (rtw_free_all_stainfo ad))) = set (hashed ?p) - set F"
    using r u by (simp add: a1_def del: set_concat)
  also have "\<dots> = {i \<in> set (hashed ?p). Some i = rtw_get_bcmc_stainfo ?p}" unfolding F_def by auto
  finally show "set (hashed (stapriv (rtw_free_all_stainfo ad))) = {i \<in> set (hashed ?p). Some i = rtw_get_bcmc_stainfo ?p}" .
  show "pool (stapriv (rtw_free_all_stainfo ad)) ! j = pool ?p ! j" if "Some j = rtw_get_bcmc_stainfo ?p"
  proof -
    have "j \<notin> set F" unfolding F_def using that by simp
    then show ?thesis using r u by (simp add: a1_def)
  qed
qed

section \<open>The table is a set of addresses\<close>

definition sta_addrs :: "adapter \<Rightarrow> u8 list set" where
  "sta_addrs ad = (\<lambda>i. mac_addr (pool (stapriv ad) ! i)) ` set (hashed (stapriv ad))"

definition table_ok :: "adapter \<Rightarrow> bool" where
  "table_ok ad \<longleftrightarrow> ad_inv ad [] \<and> (\<forall>a \<in> sta_addrs ad. canon a = a)"

text \<open>The requests, as the callers make them: a station is looked up before it is
  allocated or freed.\<close>

datatype sta_op = StaAlloc "u8 list" | StaFree "u8 list" | StaFreeAll

fun sta_exec :: "sta_op \<Rightarrow> adapter \<Rightarrow> adapter" where
  "sta_exec (StaAlloc a) ad =
     (if rtw_get_stainfo (stapriv ad) (Some a) = None then snd (rtw_alloc_stainfo ad (canon a)) else ad)"
| "sta_exec (StaFree a) ad = rtw_free_stainfo ad (rtw_get_stainfo (stapriv ad) (Some a))"
| "sta_exec StaFreeAll ad = rtw_free_all_stainfo ad"

fun sta_spec :: "sta_op \<Rightarrow> u8 list set \<Rightarrow> u8 list set" where
  "sta_spec (StaAlloc a) S = (if card S = NUM_STA then S else insert (canon a) S)"
| "sta_spec (StaFree a) S = S - {canon a}"
| "sta_spec StaFreeAll S = (if card S = 1 then S else S \<inter> {replicate 6 0xff})"

lemma table_get:
  assumes "table_ok ad"
  shows "rtw_get_stainfo (stapriv ad) (Some a) \<noteq> None \<longleftrightarrow> canon a \<in> sta_addrs ad"
proof -
  have "sta_inv (stapriv ad) []" using assms ad_invD(1) unfolding table_ok_def by blast
  from get_None [OF this, of a] show ?thesis unfolding sta_addrs_def image_iff by metis
qed

lemma table_card:
  assumes "table_ok ad"
  shows "card (sta_addrs ad) = length (hashed (stapriv ad))" "asoc_sta_count (stapriv ad) = int (card (sta_addrs ad))"
    "free_sta_queue (stapriv ad) = [] \<longleftrightarrow> card (sta_addrs ad) = NUM_STA" "card (sta_addrs ad) \<le> NUM_STA"
proof -
  have inv: "ad_inv ad []" using assms by (simp add: table_ok_def)
  note S = sta_invD [OF ad_invD(1) [OF inv]]
  show c: "card (sta_addrs ad) = length (hashed (stapriv ad))"
    using ad_invD(2) [OF inv] distinct_card [OF S(4)] unfolding sta_addrs_def sta_uniq_def by (simp add: card_image del: set_concat)
  show "asoc_sta_count (stapriv ad) = int (card (sta_addrs ad))" using S(11) c by simp
  have "card (set (free_sta_queue (stapriv ad)) \<union> set (hashed (stapriv ad))) = NUM_STA" using S(9) by simp
  then have "length (free_sta_queue (stapriv ad)) + length (hashed (stapriv ad)) = NUM_STA"
    using distinct_card [OF S(3)] distinct_card [OF S(4)] S(6)
      card_Un_disjoint [of "set (free_sta_queue (stapriv ad))" "set (hashed (stapriv ad))"] by (simp del: set_concat)
  then show "free_sta_queue (stapriv ad) = [] \<longleftrightarrow> card (sta_addrs ad) = NUM_STA" "card (sta_addrs ad) \<le> NUM_STA"
    unfolding c by auto
qed

lemma table_okD:
  assumes "table_ok ad"
  shows "ad_inv ad []" "a \<in> sta_addrs ad \<Longrightarrow> canon a = a"
  using assms by (simp_all add: table_ok_def)

lemma alloc_step:
  assumes ok: "table_ok ad" and new: "rtw_get_stainfo (stapriv ad) (Some a) = None" "canon a = a"
  shows "table_ok (snd (rtw_alloc_stainfo ad a)) \<and>
    sta_addrs (snd (rtw_alloc_stainfo ad a)) = (if card (sta_addrs ad) = NUM_STA then sta_addrs ad else insert a (sta_addrs ad))"
proof (cases "free_sta_queue (stapriv ad)")
  case Nil
  then show ?thesis using ok table_card(3) [OF ok] by (simp add: rtw_alloc_stainfo_none)
next
  case (Cons i free)
  note A = rtw_alloc_stainfo_inv [OF table_okD(1) [OF ok] Cons new]
  obtain k where k: "pool (stapriv (snd (rtw_alloc_stainfo ad a))) = (pool (stapriv ad))[i := new_sta a k]" using A(4) by blast
  have il: "i < length (pool (stapriv ad))"
    using A(7) sta_invD(1) [OF ad_invD(1) [OF table_okD(1) [OF ok]]] by simp
  have "sta_addrs (snd (rtw_alloc_stainfo ad a)) = insert a (sta_addrs ad)"
  proof -
    have ne: "j \<noteq> i" if "j \<in> set (hashed (stapriv ad))" for j using that A(6) by blast
    have "(\<lambda>j. mac_addr ((pool (stapriv ad))[i := new_sta a k] ! j)) ` set (hashed (stapriv ad)) = sta_addrs ad"
      unfolding sta_addrs_def
    proof (rule image_cong [OF refl])
      fix j assume "j \<in> set (hashed (stapriv ad))"
      from ne [OF this] show "mac_addr ((pool (stapriv ad))[i := new_sta a k] ! j) = mac_addr (pool (stapriv ad) ! j)" by simp
    qed
    then show ?thesis unfolding sta_addrs_def A(5) k using il by (simp del: set_concat)
  qed
  moreover have "card (sta_addrs ad) \<noteq> NUM_STA" using table_card(3) [OF ok] Cons by simp
  ultimately show ?thesis using A(1) table_okD(2) [OF ok] new(2) by (auto simp: table_ok_def)
qed

lemma free_step:
  assumes ok: "table_ok ad"
  shows "table_ok (rtw_free_stainfo ad (rtw_get_stainfo (stapriv ad) (Some a))) \<and>
    sta_addrs (rtw_free_stainfo ad (rtw_get_stainfo (stapriv ad) (Some a))) = sta_addrs ad - {canon a}"
proof (cases "rtw_get_stainfo (stapriv ad) (Some a)")
  case None
  then show ?thesis using ok table_get [OF ok, of a] by (simp add: rtw_free_stainfo_def)
next
  case (Some i)
  note inv = table_okD(1) [OF ok]
  note R = rtw_free_stainfo_inv [OF inv Some]
  have ia: "i \<in> set (hashed (stapriv ad))" "mac_addr (pool (stapriv ad) ! i) = canon a"
    using get_Some [OF ad_invD(1) [OF inv] Some] by blast+
  have "sta_addrs (rtw_free_stainfo ad (Some i)) = (\<lambda>j. mac_addr (pool (stapriv ad) ! j)) ` (set (hashed (stapriv ad)) - {i})"
    unfolding sta_addrs_def R(3) by (rule image_cong) (use R(5) in simp_all)
  also have "\<dots> = sta_addrs ad - {canon a}"
    unfolding sta_addrs_def
    using inj_on_image_set_diff [OF ad_invD(2) [OF inv, unfolded sta_uniq_def], of "set (hashed (stapriv ad))" "{i}"] ia
    by (simp del: set_concat)
  finally show ?thesis using R(1) Some table_okD(2) [OF ok] by (simp add: table_ok_def)
qed

lemma free_all_step:
  assumes ok: "table_ok ad"
  shows "table_ok (rtw_free_all_stainfo ad) \<and> sta_addrs (rtw_free_all_stainfo ad) = sta_spec StaFreeAll (sta_addrs ad)"
proof (cases "asoc_sta_count (stapriv ad) = 1")
  case True
  then show ?thesis using ok table_card(2) [OF ok] by (simp add: rtw_free_all_stainfo_def Let_def)
next
  case False
  note inv = table_okD(1) [OF ok]
  note R = rtw_free_all_stainfo_inv [OF inv False]
  have g: "Some i = rtw_get_bcmc_stainfo (stapriv ad) \<longleftrightarrow>
    i \<in> set (hashed (stapriv ad)) \<and> mac_addr (pool (stapriv ad) ! i) = replicate 6 0xff" for i
    unfolding rtw_get_bcmc_stainfo_def eq_commute [of "Some i"] get_uniq [OF ad_invD(1,2) [OF inv]] bcast_canon ..
  have "sta_addrs (rtw_free_all_stainfo ad) = (\<lambda>j. mac_addr (pool (stapriv ad) ! j)) `
    {i \<in> set (hashed (stapriv ad)). Some i = rtw_get_bcmc_stainfo (stapriv ad)}"
    unfolding sta_addrs_def R(2) by (rule image_cong) (use R(3) in simp_all)
  also have "\<dots> = sta_addrs ad \<inter> {replicate 6 0xff}"
    unfolding sta_addrs_def g by (auto simp del: set_concat intro: rev_image_eqI)
  finally show ?thesis using R(1) False table_okD(2) [OF ok] table_card(2) [OF ok] by (auto simp: table_ok_def)
qed

lemma sta_exec_spec:
  assumes ok: "table_ok ad"
  shows "table_ok (sta_exec r ad) \<and> sta_addrs (sta_exec r ad) = sta_spec r (sta_addrs ad)"
proof (cases r)
  case (StaAlloc a)
  show ?thesis
  proof (cases "rtw_get_stainfo (stapriv ad) (Some a)")
    case None
    then have "rtw_get_stainfo (stapriv ad) (Some (canon a)) = None" by (simp add: rtw_get_stainfo_find)
    from alloc_step [OF ok this] show ?thesis using None StaAlloc by simp
  next
    case (Some i)
    then have "canon a \<in> sta_addrs ad" using table_get [OF ok, of a] by simp
    then show ?thesis using Some StaAlloc ok by (auto simp: insert_absorb)
  qed
next
  case (StaFree a)
  then show ?thesis using free_step [OF ok] by simp
next
  case StaFreeAll
  then show ?thesis using free_all_step [OF ok] by simp
qed

lemma sta_runs:
  assumes "table_ok ad"
  shows "table_ok (fold sta_exec rs ad) \<and> sta_addrs (fold sta_exec rs ad) = fold sta_spec rs (sta_addrs ad)"
  using assms
proof (induction rs arbitrary: ad)
  case Nil
  then show ?case by simp
next
  case (Cons r rs)
  note step = sta_exec_spec [OF Cons.prems, of r]
  show ?case using Cons.IH [OF conjunct1 [OF step]] conjunct2 [OF step] by simp
qed

text \<open>The start: an adapter just set up.\<close>

definition fresh_adapter :: "adapter \<Rightarrow> bool" where
  "fresh_adapter ad \<longleftrightarrow> (\<exists>m acls. init_sta_priv [True, True, True, True] m acls = Some (stapriv ad) \<and>
     macid ad = rtw_macid_ctl_init m \<and> RTW_DEFAULT_MGMT_MACID < id_num m \<and> id_num m \<le> 32 \<and> length (if_g m) \<le> 8 \<and>
     id_used m = 0 \<and> if_g m = replicate (length (if_g m)) 0 \<and> id_sta m = replicate (id_num m) None \<and>
     iface_id ad < length (if_g m))"

lemma fresh_table: "fresh_adapter ad \<Longrightarrow> table_ok ad \<and> sta_addrs ad = {}"
proof -
  assume "fresh_adapter ad"
  then obtain m acls where p: "init_sta_priv [True, True, True, True] m acls = Some (stapriv ad)"
    and m: "macid ad = rtw_macid_ctl_init m" "RTW_DEFAULT_MGMT_MACID < id_num m" "id_num m \<le> 32" "length (if_g m) \<le> 8"
      "id_used m = 0" "if_g m = replicate (length (if_g m)) 0" "id_sta m = replicate (id_num m) None" "iface_id ad < length (if_g m)"
    unfolding fresh_adapter_def by blast
  have f: "pool (stapriv ad) = replicate NUM_STA init_stainfo" "free_sta_queue (stapriv ad) = [0..<NUM_STA]"
    "sta_hash (stapriv ad) = replicate NUM_STA []" "asoc_sta_count (stapriv ad) = 0"
  proof -
    have "stapriv ad = the (init_sta_priv [True, True, True, True] m acls)" by (simp add: p)
    then show "pool (stapriv ad) = replicate NUM_STA init_stainfo" "free_sta_queue (stapriv ad) = [0..<NUM_STA]"
      "sta_hash (stapriv ad) = replicate NUM_STA []" "asoc_sta_count (stapriv ad) = 0"
      by (simp_all add: init_sta_priv_def)
  qed
  have h: "hashed (stapriv ad) = []" by (simp add: f)
  have "sta_inv (stapriv ad) []" unfolding sta_inv_def h using f by (auto simp: atLeast0LessThan)
  moreover have "sta_holders ad [] = (\<lambda>_. None)" by (simp add: sta_holders_def in_use_def h Let_def)
  moreover have "macid_ok (macid ad) (\<lambda>_. None)"
    unfolding m(1) by (rule macid_init_ok [OF m(2-4) refl m(5-7)])
  moreover have "length (if_g (macid ad)) = length (if_g m)" by (simp add: m(1) rtw_macid_ctl_init_def)
  ultimately show ?thesis using m(8)
    by (simp add: table_ok_def ad_inv_def sta_uniq_def sta_addrs_def in_use_def h del: concat_eq_Nil_conv)
qed

section \<open>Received frames\<close>

text \<open>The received frames the driver can reach: the free ones, and those that wait in the stations.\<close>

definition sta_frames :: "sta_info \<Rightarrow> rx_frame multiset" where
  "sta_frames s = mset (concat (map pending (recvreorder_ctrl s))) + mset (defrag_q s)"

definition rx_frames :: "adapter \<Rightarrow> rx_frame multiset" where
  "rx_frames ad = mset (free_recv_queue ad) + sum_list (map sta_frames (pool (stapriv ad)))"

lemma sum_list_update_mset:
  "i < length xs \<Longrightarrow> sum_list (map f (xs[i := x])) + f (xs ! i) = sum_list (map f xs) + (f x :: 'b multiset)"
proof (induction xs arbitrary: i)
  case Nil
  then show ?case by simp
next
  case (Cons y ys)
  then show ?case by (cases i) (simp_all add: ac_simps)
qed

text \<open>Freeing a station keeps every frame; taking its record again forgets those that wait to be
  reassembled.\<close>

lemma rtw_free_stainfo_frames:
  assumes "i < length (pool (stapriv ad))"
  shows "rx_frames (rtw_free_stainfo ad (Some i)) = rx_frames ad"
    "defrag_q (pool (stapriv (rtw_free_stainfo ad (Some i))) ! i) = defrag_q (pool (stapriv ad) ! i)"
    "concat (map pending (recvreorder_ctrl (pool (stapriv (rtw_free_stainfo ad (Some i))) ! i))) = []"
proof -
  let ?s = "pool (stapriv ad) ! i"
  note eff = rtw_free_stainfo_eff [of ad i]
  obtain s' where s': "pool (stapriv (rtw_free_stainfo ad (Some i))) = (pool (stapriv ad))[i := s']"
    and d: "defrag_q s' = defrag_q ?s" and r: "map pending (recvreorder_ctrl s') = map (\<lambda>_. []) (recvreorder_ctrl ?s)"
    using eff(4) by blast
  have c: "concat (map pending (recvreorder_ctrl s')) = []" unfolding r by simp
  then show "concat (map pending (recvreorder_ctrl (pool (stapriv (rtw_free_stainfo ad (Some i))) ! i))) = []"
    using assms unfolding s' by simp
  show "defrag_q (pool (stapriv (rtw_free_stainfo ad (Some i))) ! i) = defrag_q ?s" using assms d unfolding s' by simp
  have f: "sta_frames ?s = mset (concat (map pending (recvreorder_ctrl ?s))) + sta_frames s'"
    using d unfolding sta_frames_def c by simp
  have "sum_list (map sta_frames ((pool (stapriv ad))[i := s'])) + sta_frames ?s =
    sum_list (map sta_frames (pool (stapriv ad))) + sta_frames s'"
    by (rule sum_list_update_mset [OF assms])
  then have "sum_list (map sta_frames ((pool (stapriv ad))[i := s'])) + mset (concat (map pending (recvreorder_ctrl ?s))) =
    sum_list (map sta_frames (pool (stapriv ad)))"
    unfolding f by (simp add: ac_simps)
  then show "rx_frames (rtw_free_stainfo ad (Some i)) = rx_frames ad"
    unfolding rx_frames_def eff(6) s' by (simp add: ac_simps)
qed

lemma rtw_alloc_stainfo_frames:
  assumes "free_sta_queue (stapriv ad) = i # free" "i < length (pool (stapriv ad))"
  shows "rx_frames (snd (rtw_alloc_stainfo ad a)) + sta_frames (pool (stapriv ad) ! i) = rx_frames ad"
proof -
  obtain k m where al: "rtw_alloc_macid (macid ad) (iface_id ad) (own_addr ad) i a = (k, m)" by fastforce
  have "sta_frames (new_sta a k) = {#}" by (simp add: sta_frames_def reorder_start_def reorder_zero_def)
  then have "sum_list (map sta_frames ((pool (stapriv ad))[i := new_sta a k])) + sta_frames (pool (stapriv ad) ! i) =
    sum_list (map sta_frames (pool (stapriv ad)))"
    using sum_list_update_mset [OF assms(2), of sta_frames "new_sta a k"] by simp
  then show ?thesis unfolding rtw_alloc_stainfo_some [OF assms(1) al] rx_frames_def by (simp add: ac_simps)
qed

section \<open>Association identifiers\<close>

text \<open>The place the search stops: the first free one, or where it gives up.\<close>

definition aid_at :: "sta_priv \<Rightarrow> nat \<Rightarrow> nat" where
  "aid_at p k = (k + started_aid p - 1) mod max_aid p + 1"

lemma aid_search_result:
  assumes "aid_search p a0 k used = (a, k', used')" "used = k" "k < max_num_sta p"
  shows "k \<le> k' \<and> (k' < max_aid p \<longrightarrow> a = aid_at p k') \<and>
    (k' < max_aid p \<and> used' < max_num_sta p \<longrightarrow> sta_aid p ! (a - 1) = None \<and> k' < max_num_sta p) \<and>
    (\<forall>j. k \<le> j \<and> j < k' \<longrightarrow> sta_aid p ! (aid_at p j - 1) \<noteq> None) \<and>
    (\<not> (k' < max_aid p \<and> used' < max_num_sta p) \<longrightarrow>
       (\<forall>j. k \<le> j \<and> j < max_aid p \<and> j < max_num_sta p \<longrightarrow> sta_aid p ! (aid_at p j - 1) \<noteq> None))"
  using assms
proof (induction p a0 k used arbitrary: a k' used' rule: aid_search.induct)
  case (1 p aid0 k used)
  let ?a = "(k + started_aid p - 1) mod max_aid p + 1"
  consider "k \<ge> max_aid p" | "k < max_aid p" "sta_aid p ! (?a - 1) = None"
    | "k < max_aid p" "sta_aid p ! (?a - 1) \<noteq> None" "used + 1 \<ge> max_num_sta p"
    | "k < max_aid p" "sta_aid p ! (?a - 1) \<noteq> None" "used + 1 < max_num_sta p"
    by linarith
  then show ?case
  proof cases
    case 1
    then have "aid_search p aid0 k used = (aid0, k, used)" by (subst aid_search.simps) simp
    then show ?thesis using "1.prems" 1 by auto
  next
    case 2
    then have "aid_search p aid0 k used = (?a, k, used)" by (subst aid_search.simps) (simp add: Let_def)
    then show ?thesis using "1.prems" 2 by (auto simp: aid_at_def)
  next
    case 3
    then have "aid_search p aid0 k used = (?a, k, used + 1)" by (subst aid_search.simps) (simp add: Let_def)
    then have r: "a = ?a" "k' = k" "used' = used + 1" using "1.prems"(1) by simp_all
    have "sta_aid p ! (aid_at p j - 1) \<noteq> None" if "k \<le> j" "j < max_num_sta p" for j
    proof -
      have "j = k" using that 3(3) "1.prems"(2) by simp
      then show ?thesis using 3(2) by (simp add: aid_at_def)
    qed
    then show ?thesis using r 3 "1.prems"(2,3) by (auto simp: aid_at_def)
  next
    case 4
    then have "aid_search p aid0 k used = aid_search p ?a (k + 1) (used + 1)"
      by (subst aid_search.simps) (auto simp: Let_def)
    then have rec: "aid_search p ?a (k + 1) (used + 1) = (a, k', used')" using "1.prems"(1) by simp
    have IH: "k + 1 \<le> k' \<and> (k' < max_aid p \<longrightarrow> a = aid_at p k') \<and>
      (k' < max_aid p \<and> used' < max_num_sta p \<longrightarrow> sta_aid p ! (a - 1) = None \<and> k' < max_num_sta p) \<and>
      (\<forall>j. k + 1 \<le> j \<and> j < k' \<longrightarrow> sta_aid p ! (aid_at p j - 1) \<noteq> None) \<and>
      (\<not> (k' < max_aid p \<and> used' < max_num_sta p) \<longrightarrow>
         (\<forall>j. k + 1 \<le> j \<and> j < max_aid p \<and> j < max_num_sta p \<longrightarrow> sta_aid p ! (aid_at p j - 1) \<noteq> None))"
      by (rule "1.IH" [OF _ refl _ _ rec]) (use 4 "1.prems"(2) in auto)
    have "sta_aid p ! (aid_at p k - 1) \<noteq> None" using 4(2) by (simp add: aid_at_def)
    then show ?thesis using IH le_eq_less_or_eq [of k] by (auto simp: Suc_le_eq)
  qed
qed

lemma aid_at_range: "max_aid p > 0 \<Longrightarrow> 0 < aid_at p k \<and> aid_at p k - 1 < max_aid p"
  by (simp add: aid_at_def)

lemma rtw_aid_alloc_result:
  assumes "max_aid p > 0" "max_num_sta p > 0" "length (sta_aid p) = max_aid p" "i < length (pool p)"
    and r: "rtw_aid_alloc p i = (a, p')"
  shows "a = 0 \<longleftrightarrow> (\<forall>j. j < max_aid p \<and> j < max_num_sta p \<longrightarrow> sta_aid p ! (aid_at p j - 1) \<noteq> None)"
    "a \<noteq> 0 \<Longrightarrow> \<exists>k < max_num_sta p. k < max_aid p \<and> a = aid_at p k \<and> (\<forall>j < k. sta_aid p ! (aid_at p j - 1) \<noteq> None)"
    "a \<noteq> 0 \<Longrightarrow> a - 1 < max_aid p \<and> sta_aid p ! (a - 1) = None"
    "sta_aid p' = (if a = 0 then sta_aid p else (sta_aid p)[a - 1 := Some i])" "aid (pool p' ! i) = a"
    "max_aid p' = max_aid p" "max_num_sta p' = max_num_sta p" "rr_aid p' = rr_aid p"
    "started_aid p' = (if a \<noteq> 0 \<and> rr_aid p then a mod max_aid p + 1 else started_aid p)"
    "length (pool p') = length (pool p)"
proof -
  obtain b k used where s: "aid_search p 0 0 0 = (b, k, used)" by (metis prod_cases3)
  note S = aid_search_result [OF s refl assms(2)]
  define ok where "ok \<longleftrightarrow> k < max_aid p \<and> used < max_num_sta p"
  have a: "a = (if ok then b else 0)"
    and p': "p' = (if a \<noteq> 0 then (upd_pool p i (\<lambda>s. s\<lparr>aid := a\<rparr>))\<lparr>sta_aid := (sta_aid p)[a - 1 := Some i],
        started_aid := if rr_aid p then a mod max_aid p + 1 else started_aid p\<rparr> else upd_pool p i (\<lambda>s. s\<lparr>aid := a\<rparr>))"
    using r unfolding rtw_aid_alloc_def s ok_def by (auto simp: Let_def upd_pool_def split: if_splits)
  have b: "b = aid_at p k" if ok using that S by (simp add: ok_def)
  have b0: "b \<noteq> 0" if ok using b [OF that] aid_at_range [OF assms(1), of k] by simp
  show "a = 0 \<longleftrightarrow> (\<forall>j. j < max_aid p \<and> j < max_num_sta p \<longrightarrow> sta_aid p ! (aid_at p j - 1) \<noteq> None)"
  proof (cases ok)
    case True
    then have "k < max_aid p \<and> k < max_num_sta p \<and> sta_aid p ! (aid_at p k - 1) = None" using S b by (simp add: ok_def)
    then show ?thesis using a b0 True by auto
  next
    case False
    then have "a = 0" using a by simp
    then show ?thesis using False S by (simp add: ok_def)
  qed
  show "\<exists>k < max_num_sta p. k < max_aid p \<and> a = aid_at p k \<and> (\<forall>j < k. sta_aid p ! (aid_at p j - 1) \<noteq> None)" if "a \<noteq> 0"
  proof -
    have ok using that a by (simp split: if_splits)
    then show ?thesis using S b a by (intro exI [of _ k]) (simp add: ok_def)
  qed
  show "a - 1 < max_aid p \<and> sta_aid p ! (a - 1) = None" if "a \<noteq> 0"
  proof -
    have ok using that a by (simp split: if_splits)
    then show ?thesis using S b a aid_at_range [OF assms(1), of k] by (simp add: ok_def)
  qed
  show "sta_aid p' = (if a = 0 then sta_aid p else (sta_aid p)[a - 1 := Some i])" "aid (pool p' ! i) = a"
    "max_aid p' = max_aid p" "max_num_sta p' = max_num_sta p" "rr_aid p' = rr_aid p"
    "started_aid p' = (if a \<noteq> 0 \<and> rr_aid p then a mod max_aid p + 1 else started_aid p)"
    "length (pool p') = length (pool p)"
    unfolding p' using assms(4) by (simp_all add: upd_pool_def)
qed

text \<open>The identifiers in use, as places of the table.\<close>

definition aids_used :: "sta_priv \<Rightarrow> nat set" where
  "aids_used p = {j. j < length (sta_aid p) \<and> sta_aid p ! j \<noteq> None}"

datatype aid_op = AidAlloc nat | AidFree nat

fun aid_exec :: "aid_op \<Rightarrow> sta_priv \<Rightarrow> sta_priv" where
  "aid_exec (AidAlloc i) p = snd (rtw_aid_alloc p i)"
| "aid_exec (AidFree a) p = p\<lparr>sta_aid := (sta_aid p)[a - 1 := None]\<rparr>"

fun aid_op_ok :: "sta_priv \<Rightarrow> aid_op \<Rightarrow> bool" where
  "aid_op_ok p (AidAlloc i) = (i < length (pool p))"
| "aid_op_ok p (AidFree a) = True"

definition aid_window :: "sta_priv \<Rightarrow> nat set" where
  "aid_window p = (\<lambda>k. aid_at p k - 1) ` {..<max_num_sta p}"

lemma aid_window_card: "card (aid_window p) \<le> max_num_sta p"
  unfolding aid_window_def using card_image_le [of "{..<max_num_sta p}" "\<lambda>k. aid_at p k - 1"] by simp

lemma aid_exec_window:
  assumes "max_aid p > 0" "max_num_sta p > 0" "length (sta_aid p) = max_aid p" "\<not> rr_aid p" "aid_op_ok p r"
    "aids_used p \<subseteq> aid_window p"
  shows "max_aid (aid_exec r p) = max_aid p \<and> max_num_sta (aid_exec r p) = max_num_sta p \<and>
    length (sta_aid (aid_exec r p)) = max_aid p \<and> \<not> rr_aid (aid_exec r p) \<and> length (pool (aid_exec r p)) = length (pool p) \<and>
    aids_used (aid_exec r p) \<subseteq> aid_window (aid_exec r p)"
proof (cases r)
  case (AidFree a)
  have "aids_used (aid_exec r p) \<subseteq> aids_used p"
    unfolding AidFree aids_used_def
  proof
    fix j assume "j \<in> {j. j < length (sta_aid (aid_exec (AidFree a) p)) \<and> sta_aid (aid_exec (AidFree a) p) ! j \<noteq> None}"
    then show "j \<in> {j. j < length (sta_aid p) \<and> sta_aid p ! j \<noteq> None}" by (cases "j = a - 1") auto
  qed
  moreover have "aid_window (aid_exec r p) = aid_window p" unfolding AidFree aid_window_def aid_at_def by simp
  ultimately show ?thesis using assms AidFree by simp
next
  case (AidAlloc i)
  obtain a p' where r: "rtw_aid_alloc p i = (a, p')" by fastforce
  have i: "i < length (pool p)" using assms(5) AidAlloc by simp
  note A = rtw_aid_alloc_result [OF assms(1-3) i r]
  have w: "aid_window p' = aid_window p" unfolding aid_window_def aid_at_def A(6,7) using A(9) assms(4) by simp
  have "aids_used p' \<subseteq> aid_window p"
  proof (cases "a = 0")
    case True
    then show ?thesis using A(4) assms(6) by (simp add: aids_used_def)
  next
    case False
    obtain k where "k < max_num_sta p" "a = aid_at p k" using A(2) [OF False] by blast
    then have "a - 1 \<in> aid_window p" unfolding aid_window_def by simp
    moreover have "aids_used p' \<subseteq> insert (a - 1) (aids_used p)"
      unfolding aids_used_def A(4) using False by (auto simp: nth_list_update split: if_splits)
    ultimately show ?thesis using assms(6) by blast
  qed
  then show ?thesis using A(4,6-8,10) assms(3,4) w AidAlloc r by simp
qed

lemma aid_runs:
  assumes "max_aid p > 0" "max_num_sta p > 0" "length (sta_aid p) = max_aid p" "\<not> rr_aid p" "list_all (aid_op_ok p) rs"
    "aids_used p \<subseteq> aid_window p"
  shows "card (aids_used (fold aid_exec rs p)) \<le> max_num_sta p"
  using assms
proof (induction rs arbitrary: p)
  case Nil
  have "finite (aid_window p)" by (simp add: aid_window_def)
  then show ?case using card_mono [of "aid_window p" "aids_used p"] Nil.prems(6) aid_window_card [of p] by simp
next
  case (Cons r rs)
  note step = aid_exec_window [OF Cons.prems(1-4) _ Cons.prems(6), of r]
  have ok: "aid_op_ok p r" using Cons.prems(5) by simp
  have "aid_op_ok (aid_exec r p) = aid_op_ok p"
  proof
    fix q show "aid_op_ok (aid_exec r p) q = aid_op_ok p q" using step [OF ok] by (cases q) simp_all
  qed
  then have "list_all (aid_op_ok (aid_exec r p)) rs" using Cons.prems(5) by simp
  then have "card (aids_used (fold aid_exec rs (aid_exec r p))) \<le> max_num_sta (aid_exec r p)"
    by (intro Cons.IH) (use step [OF ok] Cons.prems(1,2) in simp_all)
  then show ?case using step [OF ok] by simp
qed

text \<open>With the round robin the search starts behind the last identifier given, and a free place there is
  taken whatever lies before it.\<close>

lemma rtw_aid_alloc_first:
  assumes "max_aid p > 0" "max_num_sta p > 0" "length (sta_aid p) = max_aid p" "i < length (pool p)"
    "0 < started_aid p" "started_aid p \<le> max_aid p" "sta_aid p ! (started_aid p - 1) = None"
  shows "fst (rtw_aid_alloc p i) = started_aid p"
proof -
  have m: "(started_aid p - 1) mod max_aid p + 1 = started_aid p" using assms(5,6) by simp
  have "aid_search p 0 0 0 = (started_aid p, 0, 0)"
    using assms(1,7) m by (subst aid_search.simps) (simp add: Let_def)
  then show ?thesis using assms(1,2) by (simp add: rtw_aid_alloc_def Let_def)
qed

definition rr_at :: "sta_priv \<Rightarrow> nat \<Rightarrow> bool" where
  "rr_at p n \<longleftrightarrow> rr_aid p \<and> max_num_sta p > 0 \<and> length (sta_aid p) = max_aid p \<and>
     (n < max_aid p \<longrightarrow> started_aid p = n + 1) \<and>
     (\<forall>j. n \<le> j \<and> j < max_aid p \<longrightarrow> sta_aid p ! j = None) \<and> (\<forall>j < n. sta_aid p ! j \<noteq> None)"

lemma rr_at_step:
  assumes "rr_at p n" "n < max_aid p" "i < length (pool p)"
  shows "rr_at (snd (rtw_aid_alloc p i)) (n + 1) \<and> max_aid (snd (rtw_aid_alloc p i)) = max_aid p \<and>
    length (pool (snd (rtw_aid_alloc p i))) = length (pool p)"
proof -
  have P: "rr_aid p" "max_num_sta p > 0" "length (sta_aid p) = max_aid p" "started_aid p = n + 1" "sta_aid p ! n = None"
    "\<And>j. n \<le> j \<Longrightarrow> j < max_aid p \<Longrightarrow> sta_aid p ! j = None" "\<And>j. j < n \<Longrightarrow> sta_aid p ! j \<noteq> None"
    using assms(1,2) unfolding rr_at_def by simp_all
  have m: "max_aid p > 0" using assms(2) by simp
  obtain a p' where r: "rtw_aid_alloc p i = (a, p')" by fastforce
  have "fst (rtw_aid_alloc p i) = started_aid p"
    by (rule rtw_aid_alloc_first [OF m P(2,3) assms(3)]) (use P(4,5) assms(2) in simp_all)
  then have a: "a = n + 1" using r P(4) by simp
  note A = rtw_aid_alloc_result [OF m P(2,3) assms(3) r]
  have sa: "sta_aid p' = (sta_aid p)[n := Some i]" using A(4) a by simp
  have v: "sta_aid p' ! j = (if j = n then Some i else sta_aid p ! j)" for j
    using assms(2) P(3) unfolding sa by (simp add: nth_list_update)
  have "\<forall>j. n + 1 \<le> j \<and> j < max_aid p \<longrightarrow> sta_aid p' ! j = None" using P(6) v by simp
  moreover have "\<forall>j < n + 1. sta_aid p' ! j \<noteq> None" using P(7) v by (simp add: less_Suc_eq)
  moreover have "n + 1 < max_aid p \<longrightarrow> started_aid p' = n + 1 + 1" using A(9) a P(1) by simp
  moreover have "length (sta_aid p') = max_aid p" using P(3) sa by simp
  ultimately have "rr_at p' (n + 1)" unfolding rr_at_def A(6-8) using P(1,2) by blast
  then show ?thesis using r A(6,10) by simp
qed

lemma rr_at_run:
  assumes "rr_at p n" "n + length is \<le> max_aid p" "\<forall>i \<in> set is. i < length (pool p)"
  shows "rr_at (fold (\<lambda>i p. snd (rtw_aid_alloc p i)) is p) (n + length is)"
  using assms
proof (induction "is" arbitrary: p n)
  case Nil
  then show ?case by simp
next
  case (Cons i "is")
  have "n < max_aid p" "i < length (pool p)" using Cons.prems(2,3) by simp_all
  note step = rr_at_step [OF Cons.prems(1) this]
  have "rr_at (fold (\<lambda>i p. snd (rtw_aid_alloc p i)) is (snd (rtw_aid_alloc p i))) (n + 1 + length is)"
    by (rule Cons.IH) (use step Cons.prems(2,3) in simp_all)
  then show ?case by simp
qed

section \<open>Properties\<close>

text \<open>C24: The hash table of stations is a set of addresses. After any sequence of requests to allocate a
  station, free one, and free all of them, a lookup finds a station for an address exactly
  if the set the same requests give holds it. A multicast address stands for the
  broadcast address, a 33rd station is refused, freeing everything keeps the broadcast station, and is
  skipped when there is one station, whichever it is.\<close>

theorem sta_table_refines:
  assumes "fresh_adapter ad"
  shows "rtw_get_stainfo (stapriv (fold sta_exec rs ad)) (Some a) \<noteq> None \<longleftrightarrow> canon a \<in> fold sta_spec rs {}"
  using sta_runs [of ad rs] fresh_table [OF assms] table_get by simp

definition one_adapter :: adapter where
  "one_adapter = \<lparr> stapriv = the (init_sta_priv [True, True, True, True]
       \<lparr> id_num = 32, id_used = 0, id_bmc = 0, if_g = [0], ch_g = [0, 0], iface_bmc = [0],
         id_sta = replicate 32 None, h2c_msr = [], id_bw = [], vht_en = [], rate_bmp0 = [], rate_bmp1 = [] \<rparr> []),
     xmitpriv = \<lparr> hwxmits = replicate 4 \<lparr> accnt = 0, hw_sta_queue = [] \<rparr>, free_xmit_queue = [], free_xmitframe_cnt = 0,
       free_xframe_ext_queue = [], free_xframe_ext_cnt = 0 \<rparr>,
     free_recv_queue = [], free_recvframe_cnt = 0,
     macid = rtw_macid_ctl_init \<lparr> id_num = 32, id_used = 0, id_bmc = 0, if_g = [0], ch_g = [0, 0], iface_bmc = [0],
         id_sta = replicate 32 None, h2c_msr = [], id_bw = [], vht_en = [], rate_bmp0 = [], rate_bmp1 = [] \<rparr>,
     camctl = \<lparr> sec_cap = 0, cam_flags = 0, cam_num = 32, cam_used = 0, cam_cache = [], cam_hw = [] \<rparr>,
     iface_id = 0, own_addr = [0, 1, 2, 3, 4, 5], hw_ap_state = True \<rparr>"

lemma one_fresh: "fresh_adapter one_adapter"
  unfolding fresh_adapter_def
  by (intro exI [of _ "\<lparr> id_num = 32, id_used = 0, id_bmc = 0, if_g = [0], ch_g = [0, 0], iface_bmc = [0],
         id_sta = replicate 32 None, h2c_msr = [], id_bw = [], vht_en = [], rate_bmp0 = [], rate_bmp1 = [] \<rparr>"] exI [of _ "[]"])
    (simp add: one_adapter_def init_sta_priv_def RTW_DEFAULT_MGMT_MACID_def)

lemma sta_table_refines_witness:
  "rtw_get_stainfo (stapriv (fold sta_exec [StaAlloc [0, 1, 2, 3, 4, 6], StaAlloc [1, 2, 3, 4, 5, 6], StaFreeAll] one_adapter))
     (Some (replicate 6 0xff)) \<noteq> None \<and>
   rtw_get_stainfo (stapriv (fold sta_exec [StaAlloc [0, 1, 2, 3, 4, 6], StaAlloc [1, 2, 3, 4, 5, 6], StaFreeAll] one_adapter))
     (Some [0, 1, 2, 3, 4, 6]) = None"
proof -
  have c: "canon [0, 1, 2, 3, 4, 6] = [0, 1, 2, 3, 4, 6]" "canon [1, 2, 3, 4, 5, 6] = replicate 6 0xff"
    by (simp_all add: canon_def IS_MCAST_def)
  have ne: "[0, 1, 2, 3, 4, 6] \<noteq> replicate 6 (0xff :: u8)"
    by (auto dest: arg_cong [of _ _ "\<lambda>xs. xs ! 0"])
  show ?thesis
    using sta_table_refines [OF one_fresh, of "[StaAlloc [0, 1, 2, 3, 4, 6], StaAlloc [1, 2, 3, 4, 5, 6], StaFreeAll]" "replicate 6 0xff"]
      sta_table_refines [OF one_fresh, of "[StaAlloc [0, 1, 2, 3, 4, 6], StaAlloc [1, 2, 3, 4, 5, 6], StaFreeAll]" "[0, 1, 2, 3, 4, 6]"]
    by (simp add: c bcast_canon ne ne [symmetric] NUM_STA_def)
qed

text \<open>C25: However stations come and go, every record of the pool is in exactly one place, on the free queue
  or in one bucket; a station that is found has the address that was looked up; two stations
  are different records, and they have different identifiers in the hardware unless they share the one of
  the management frames or have none.\<close>

theorem sta_table_invariant:
  assumes "fresh_adapter ad" "ad' = fold sta_exec rs ad"
    "rtw_get_stainfo (stapriv ad') (Some a) = Some i" "rtw_get_stainfo (stapriv ad') (Some b) = Some j" "canon a \<noteq> canon b"
  shows "mset (free_sta_queue (stapriv ad') @ concat (sta_hash (stapriv ad'))) = mset [0..<NUM_STA] \<and>
    mac_addr (pool (stapriv ad') ! i) = canon a \<and> i \<noteq> j \<and>
    (mac_id (pool (stapriv ad') ! i) = mac_id (pool (stapriv ad') ! j) \<longrightarrow>
       mac_id (pool (stapriv ad') ! i) = RTW_DEFAULT_MGMT_MACID \<or> mac_id (pool (stapriv ad') ! i) \<ge> id_num (macid ad'))"
proof -
  have inv: "ad_inv ad' []"
    using sta_runs [of ad rs] fresh_table [OF assms(1)] assms(2) table_okD(1) by blast
  note D = ad_invD [OF inv]
  note S = sta_invD [OF D(1)]
  have gi: "i \<in> set (hashed (stapriv ad'))" "mac_addr (pool (stapriv ad') ! i) = canon a"
    using get_Some [OF D(1) assms(3)] by blast+
  have gj: "j \<in> set (hashed (stapriv ad'))" "mac_addr (pool (stapriv ad') ! j) = canon b"
    using get_Some [OF D(1) assms(4)] by blast+
  have ij: "i \<noteq> j" using gi(2) gj(2) assms(5) by auto
  have "distinct (free_sta_queue (stapriv ad') @ hashed (stapriv ad'))"
    using S(3,4,6) by (simp del: set_concat)
  moreover have "set (free_sta_queue (stapriv ad') @ hashed (stapriv ad')) = set [0..<NUM_STA]"
    using S(9) by (simp add: atLeast0LessThan del: set_concat)
  ultimately have m: "mset (free_sta_queue (stapriv ad') @ hashed (stapriv ad')) = mset [0..<NUM_STA]"
    by (intro set_eq_iff_mset_eq_distinct [THEN iffD1]) simp_all
  have "mac_id (pool (stapriv ad') ! i) = RTW_DEFAULT_MGMT_MACID \<or> mac_id (pool (stapriv ad') ! i) \<ge> id_num (macid ad')"
    if "mac_id (pool (stapriv ad') ! i) = mac_id (pool (stapriv ad') ! j)"
  proof (rule ccontr)
    assume n: "\<not> ?thesis"
    then have h: "sta_holders ad' [] i = Some (iface_id ad', canon a, mac_id (pool (stapriv ad') ! i))"
      "sta_holders ad' [] j = Some (iface_id ad', canon b, mac_id (pool (stapriv ad') ! i))"
      using gi gj that by (simp_all add: sta_holders_def in_use_def Let_def del: set_concat)
    from macid_same_holder [OF D(3) h] ij show False by blast
  qed
  then show ?thesis using m gi(2) ij by blast
qed

lemma sta_table_invariant_witness:
  "\<exists>i j. let ad' = fold sta_exec [StaAlloc [0, 1, 2, 3, 4, 6], StaAlloc [0, 1, 2, 3, 4, 7]] one_adapter in
     rtw_get_stainfo (stapriv ad') (Some [0, 1, 2, 3, 4, 6]) = Some i \<and>
     rtw_get_stainfo (stapriv ad') (Some [0, 1, 2, 3, 4, 7]) = Some j \<and> i \<noteq> j \<and>
     mset (free_sta_queue (stapriv ad') @ concat (sta_hash (stapriv ad'))) = mset [0..<NUM_STA]"
proof -
  define ad' where "ad' = fold sta_exec [StaAlloc [0, 1, 2, 3, 4, 6], StaAlloc [0, 1, 2, 3, 4, 7]] one_adapter"
  have c: "canon [0, 1, 2, 3, 4, 6] = [0, 1, 2, 3, 4, 6]" "canon [0, 1, 2, 3, 4, 7] = [0, 1, 2, 3, 4, 7]"
    by (simp_all add: canon_def IS_MCAST_def)
  have t: "table_ok ad'" "sta_addrs ad' = {[0, 1, 2, 3, 4, 6], [0, 1, 2, 3, 4, 7]}"
    using sta_runs [OF conjunct1 [OF fresh_table [OF one_fresh]], of "[StaAlloc [0, 1, 2, 3, 4, 6], StaAlloc [0, 1, 2, 3, 4, 7]]"]
      fresh_table [OF one_fresh] unfolding ad'_def by (auto simp: c NUM_STA_def)
  obtain i where i: "rtw_get_stainfo (stapriv ad') (Some [0, 1, 2, 3, 4, 6]) = Some i"
    using table_get [OF t(1), of "[0, 1, 2, 3, 4, 6]"] c t(2) by auto
  obtain j where j: "rtw_get_stainfo (stapriv ad') (Some [0, 1, 2, 3, 4, 7]) = Some j"
    using table_get [OF t(1), of "[0, 1, 2, 3, 4, 7]"] c t(2) by auto
  have "canon [0, 1, 2, 3, 4, 6] \<noteq> canon [0, 1, 2, 3, 4, 7]" by (simp add: c)
  from sta_table_invariant [OF one_fresh ad'_def i j this] i j show ?thesis
    unfolding ad'_def Let_def by blast
qed

text \<open>A station that is freed gives the frames waiting in its 16 reordering queues back to the free receive
  queue, but not the fragments waiting to be reassembled. When its record is used for the next
  station these are forgotten: they are in no queue any more.\<close>

theorem rtw_free_stainfo_leaks:
  assumes "i < length (pool (stapriv ad))" "free_sta_queue (stapriv ad) = []"
  shows "rx_frames (rtw_free_stainfo ad (Some i)) = rx_frames ad \<and>
    mset (free_recv_queue (rtw_free_stainfo ad (Some i))) =
      mset (free_recv_queue ad) + mset (concat (map pending (recvreorder_ctrl (pool (stapriv ad) ! i)))) \<and>
    rx_frames (snd (rtw_alloc_stainfo (rtw_free_stainfo ad (Some i)) a)) + mset (defrag_q (pool (stapriv ad) ! i)) = rx_frames ad"
proof -
  let ?ad = "rtw_free_stainfo ad (Some i)"
  note F = rtw_free_stainfo_frames [OF assms(1)]
  obtain s' where s': "pool (stapriv ?ad) = (pool (stapriv ad))[i := s']" using rtw_free_stainfo_eff(4) by blast
  have q: "free_sta_queue (stapriv ?ad) = i # []" using rtw_free_stainfo_eff(1) [of ad i] assms(2) by simp
  have l: "i < length (pool (stapriv ?ad))" using assms(1) unfolding s' by simp
  have "sta_frames (pool (stapriv ?ad) ! i) = mset (defrag_q (pool (stapriv ad) ! i))"
    unfolding sta_frames_def F(2,3) by simp
  then show ?thesis
    using F(1) rtw_alloc_stainfo_frames [OF q l, of a] rtw_free_stainfo_eff(6) [of ad i] by simp
qed

definition leak_adapter :: adapter where
  "leak_adapter = one_adapter\<lparr>stapriv := (stapriv one_adapter)\<lparr>free_sta_queue := [], sta_hash := replicate 32 [],
     pool := [init_stainfo\<lparr>defrag_q := [\<lparr> rf_seq_num = 1, rf_qos = True, rf_tag = 0 \<rparr>]\<rparr>]\<rparr>\<rparr>"

lemma rtw_free_stainfo_leaks_witness:
  "rx_frames leak_adapter = {#\<lparr> rf_seq_num = 1, rf_qos = True, rf_tag = 0 \<rparr>#} \<and>
   rx_frames (snd (rtw_alloc_stainfo (rtw_free_stainfo leak_adapter (Some 0)) [0, 1, 2, 3, 4, 6])) = {#}"
proof -
  have l: "0 < length (pool (stapriv leak_adapter))" "free_sta_queue (stapriv leak_adapter) = []"
    by (simp_all add: leak_adapter_def)
  have f: "rx_frames leak_adapter = {#\<lparr> rf_seq_num = 1, rf_qos = True, rf_tag = 0 \<rparr>#}"
    by (simp add: rx_frames_def sta_frames_def leak_adapter_def one_adapter_def init_stainfo_def reorder_zero_def)
  moreover have "defrag_q (pool (stapriv leak_adapter) ! 0) = [\<lparr> rf_seq_num = 1, rf_qos = True, rf_tag = 0 \<rparr>]"
    by (simp add: leak_adapter_def)
  ultimately show ?thesis using rtw_free_stainfo_leaks [OF l, of "[0, 1, 2, 3, 4, 6]"] by simp
qed

text \<open>C26: A station is given the first free association identifier in the order of the search, if it is among the
  first \<open>max_num_sta\<close> places: it was free, all places before it are taken, and it is recorded in the table and in
  the station; with the round robin the next search starts behind it. A station is refused exactly if all these places
  are taken, and the table then stays as it is. While the round robin is off and the identifiers in use lie among
  these places, no sequence of allocations and releases gives more than \<open>max_num_sta\<close> of them.\<close>

theorem rtw_aid_alloc_spec:
  assumes "max_aid p > 0" "max_num_sta p > 0" "length (sta_aid p) = max_aid p" "i < length (pool p)"
    and "rtw_aid_alloc p i = (a, p')"
  shows "(a = 0 \<longleftrightarrow> (\<forall>j. j < max_aid p \<and> j < max_num_sta p \<longrightarrow> sta_aid p ! (aid_at p j - 1) \<noteq> None)) \<and>
    (a \<noteq> 0 \<longrightarrow> a \<le> max_aid p \<and> sta_aid p ! (a - 1) = None \<and>
       (\<exists>k < max_num_sta p. k < max_aid p \<and> a = aid_at p k \<and> (\<forall>j < k. sta_aid p ! (aid_at p j - 1) \<noteq> None))) \<and>
    sta_aid p' = (if a = 0 then sta_aid p else (sta_aid p)[a - 1 := Some i]) \<and> aid (pool p' ! i) = a \<and>
    started_aid p' = (if a \<noteq> 0 \<and> rr_aid p then a mod max_aid p + 1 else started_aid p) \<and>
    (\<not> rr_aid p \<and> aids_used p \<subseteq> aid_window p \<longrightarrow>
       (\<forall>rs. list_all (aid_op_ok p) rs \<longrightarrow> card (aids_used (fold aid_exec rs p)) \<le> max_num_sta p))"
proof -
  note A = rtw_aid_alloc_result [OF assms]
  have "card (aids_used (fold aid_exec rs p)) \<le> max_num_sta p"
    if "\<not> rr_aid p" "aids_used p \<subseteq> aid_window p" "list_all (aid_op_ok p) rs" for rs
    using aid_runs [OF assms(1-3) that(1,3,2)] .
  moreover have "a \<le> max_aid p \<and> sta_aid p ! (a - 1) = None" if "a \<noteq> 0"
    using A(3) [OF that] that by auto
  ultimately show ?thesis using A(1,2,4,5,9) by blast
qed

text \<open>With the round robin on, the limit on the number of stations is not enforced: however small
  \<open>max_num_sta\<close> is, as many stations in a row as there are identifiers are each given one.\<close>

theorem rtw_aid_alloc_exceeds:
  assumes "rr_aid p" "max_num_sta p = 1" "length (sta_aid p) = max_aid p" "started_aid p = 1" "aids_used p = {}"
    "length is = max_aid p" "\<forall>i \<in> set is. i < length (pool p)"
  shows "card (aids_used (fold (\<lambda>i p. snd (rtw_aid_alloc p i)) is p)) = max_aid p"
proof -
  have "rr_at p 0" using assms(1-5) by (auto simp: rr_at_def aids_used_def)
  from rr_at_run [OF this _ assms(7)] assms(6)
  have r: "rr_at (fold (\<lambda>i p. snd (rtw_aid_alloc p i)) is p) (max_aid p)" by simp
  have m: "max_aid (fold (\<lambda>i p. snd (rtw_aid_alloc p i)) is q) = max_aid q" for q
    by (induction "is" arbitrary: q) (simp_all add: rtw_aid_alloc_def Let_def upd_pool_def split: prod.splits)
  from r have "aids_used (fold (\<lambda>i p. snd (rtw_aid_alloc p i)) is p) = {..<max_aid p}"
    unfolding rr_at_def aids_used_def m by auto
  then show ?thesis by simp
qed

lemma aid_witness_state:
  fixes p :: sta_priv and rr :: bool
  assumes p_def: "p = (stapriv one_adapter)\<lparr>max_aid := 2, sta_aid := [None, None], max_num_sta := 1, rr_aid := rr\<rparr>"
  shows "max_aid p = 2" "max_num_sta p = 1" "sta_aid p = [None, None]" "started_aid p = 1" "rr_aid p = rr"
    "length (pool p) = 32" "aids_used p = {}"
proof -
  show "max_aid p = 2" "max_num_sta p = 1" "sta_aid p = [None, None]" "started_aid p = 1" "rr_aid p = rr"
    "length (pool p) = 32"
    by (simp_all add: p_def one_adapter_def init_sta_priv_def NUM_STA_def)
  have "[None, None] ! j = (None :: nat option)" if "j < 2" for j
    using that by (cases j) (simp_all add: less_Suc_eq)
  then show "aids_used p = {}" by (simp add: p_def aids_used_def)
qed

text \<open>Two places of three taken: the third is given when three stations are admitted, and none when two are.\<close>

lemma rtw_aid_alloc_spec_witness:
  "let p = (stapriv one_adapter)\<lparr>max_aid := 3, sta_aid := [Some 5, Some 6, None], max_num_sta := 3, rr_aid := False\<rparr> in
   fst (rtw_aid_alloc p 3) = 3 \<and> fst (rtw_aid_alloc (p\<lparr>max_num_sta := 2\<rparr>) 3) = 0 \<and>
   card (aids_used (fold aid_exec [AidAlloc 3, AidAlloc 4, AidFree 1, AidAlloc 7] p)) \<le> 3"
proof -
  define p where "p = (stapriv one_adapter)\<lparr>max_aid := 3, sta_aid := [Some 5, Some 6, None], max_num_sta := 3, rr_aid := False\<rparr>"
  have W: "max_aid p = 3" "max_num_sta p = 3" "sta_aid p = [Some 5, Some 6, None]" "started_aid p = 1" "\<not> rr_aid p"
    "length (pool p) = 32"
    by (simp_all add: p_def one_adapter_def init_sta_priv_def NUM_STA_def)
  have at: "aid_at p 0 = 1" "aid_at p 1 = 2" "aid_at p 2 = 3" "aid_at (p\<lparr>max_num_sta := 2\<rparr>) 0 = 1" "aid_at (p\<lparr>max_num_sta := 2\<rparr>) 1 = 2"
    by (simp_all add: aid_at_def W)
  obtain a p' where r: "rtw_aid_alloc p 3 = (a, p')" by fastforce
  obtain b q where r2: "rtw_aid_alloc (p\<lparr>max_num_sta := 2\<rparr>) 3 = (b, q)" by fastforce
  have win: "aids_used p \<subseteq> aid_window p"
  proof
    fix j assume "j \<in> aids_used p"
    then have "j = aid_at p j - 1" "j < 3" by (auto simp: aids_used_def W aid_at_def)
    then show "j \<in> aid_window p" by (auto simp: aid_window_def W)
  qed
  have pre: "max_aid p > 0" "max_num_sta p > 0" "length (sta_aid p) = max_aid p" "3 < length (pool p)" by (simp_all add: W)
  note A = rtw_aid_alloc_spec [OF pre r] and B = rtw_aid_alloc_spec [OF _ _ _ _ r2]
  have "sta_aid p ! (aid_at p 2 - 1) = None" by (simp add: W at)
  moreover have "(2 :: nat) < max_aid p \<and> 2 < max_num_sta p" by (simp add: W)
  ultimately have a0: "a \<noteq> 0" using A by blast
  then have "a \<le> max_aid p \<and> sta_aid p ! (a - 1) = None" using A by blast
  then have "a = 3" using a0 by (cases "a = 1"; cases "a = 2") (auto simp: W)
  moreover have "j < 2 \<Longrightarrow> sta_aid (p\<lparr>max_num_sta := 2\<rparr>) ! (aid_at (p\<lparr>max_num_sta := 2\<rparr>) j - 1) \<noteq> None" for j
    using at(4,5) by (cases "j = 0"; cases "j = 1") (auto simp: W)
  then have "b = 0" using B by (simp add: W)
  moreover have "list_all (aid_op_ok p) [AidAlloc 3, AidAlloc 4, AidFree 1, AidAlloc 7]" by (simp add: W)
  then have "card (aids_used (fold aid_exec [AidAlloc 3, AidAlloc 4, AidFree 1, AidAlloc 7] p)) \<le> max_num_sta p"
    using A win W(5) by blast
  ultimately show ?thesis using r r2 W(2) unfolding Let_def p_def [symmetric] by simp
qed

lemma rtw_aid_alloc_exceeds_witness:
  "let p = (stapriv one_adapter)\<lparr>max_aid := 2, sta_aid := [None, None], max_num_sta := 1, rr_aid := True\<rparr> in
   card (aids_used (fold (\<lambda>i p. snd (rtw_aid_alloc p i)) [3, 4] p)) = 2 \<and> max_num_sta p = 1"
proof -
  define p where "p = (stapriv one_adapter)\<lparr>max_aid := 2, sta_aid := [None, None], max_num_sta := 1, rr_aid := True\<rparr>"
  note W = aid_witness_state [OF p_def]
  have "card (aids_used (fold (\<lambda>i p. snd (rtw_aid_alloc p i)) [3, 4] p)) = max_aid p"
    by (rule rtw_aid_alloc_exceeds) (simp_all add: W)
  then show ?thesis unfolding Let_def p_def [symmetric] by (simp add: W)
qed

end
