(* ===== verification/Recv.thy ===== *)
theory Recv
  imports Ccmp Serial
begin

text \<open>
  Received data frames before they are handed over (core/rtw_recv.c): the window of a frame in its buffer
  (include/rtw_recv.h), the pool of frames, the detection of retransmissions and of replayed packet numbers,
  the reassembly of fragments, the check of the Michael integrity code, and the conversion of the header to
  Ethernet. Addresses are positions in the buffer of the frame, an access outside the buffer is \<open>OutOfBounds\<close>.
\<close>

section \<open>Frames\<close>

record rx_attr =
  seq_num :: u16
  frag_num :: nat
  mfrag :: bool
  f_hdrlen :: nat
  f_iv_len :: nat
  f_icv_len :: nat
  privacy :: bool
  f_qos :: bool
  priority :: nat
  f_ra :: "u8 list"
  f_ta :: "u8 list"
  f_dst :: "u8 list"
  f_src :: "u8 list"
  f_encrypt :: nat
  bdecrypted :: bool
  f_key_index :: nat
  eth_type :: u16

text \<open>\<open>rx_mem\<close> is the memory from \<open>rx_head\<close> to \<open>rx_end\<close>; \<open>rx_data\<close> and \<open>rx_tail\<close> are offsets into it.\<close>

record rx_buf = rx_attr +
  rx_mem :: "u8 list"
  rx_data :: nat
  rx_tail :: nat
  f_len :: nat

text \<open>The result says whether the pointer is not NULL; a refused move leaves the frame as it is.\<close>

definition recvframe_push :: "rx_buf \<Rightarrow> nat \<Rightarrow> bool \<times> rx_buf" where
  "recvframe_push f sz =
     (if rx_data f < sz then (False, f) else (True, f\<lparr>rx_data := rx_data f - sz, f_len := (f_len f + sz) mod 2 ^ 32\<rparr>))"

definition recvframe_pull :: "rx_buf \<Rightarrow> nat \<Rightarrow> bool \<times> rx_buf" where
  "recvframe_pull f sz =
     (if rx_data f + sz > rx_tail f then (False, f)
      else (True, f\<lparr>rx_data := rx_data f + sz, f_len := usub32 (f_len f) sz\<rparr>))"

definition recvframe_put :: "rx_buf \<Rightarrow> nat \<Rightarrow> bool \<times> rx_buf" where
  "recvframe_put f sz =
     (if rx_tail f + sz > length (rx_mem f) then (False, f)
      else (True, f\<lparr>rx_tail := rx_tail f + sz, f_len := (f_len f + sz) mod 2 ^ 32\<rparr>))"

definition recvframe_pull_tail :: "rx_buf \<Rightarrow> nat \<Rightarrow> bool \<times> rx_buf" where
  "recvframe_pull_tail f sz =
     (if rx_tail f < rx_data f + sz then (False, f)
      else (True, f\<lparr>rx_tail := rx_tail f - sz, f_len := usub32 (f_len f) sz\<rparr>))"

section \<open>The pool of frames\<close>

text \<open>\<open>free_cnt\<close> is \<open>free_recvframe_cnt\<close>, which follows the free queue only; \<open>swdec_q\<close> holds the frames that
  wait for software decryption.\<close>

record rx_pool =
  free_q :: "rx_buf list"
  free_cnt :: nat
  swdec_q :: "rx_buf list"

definition rtw_alloc_recvframe :: "rx_pool \<Rightarrow> rx_buf option \<times> rx_pool" where
  "rtw_alloc_recvframe rp =
     (case free_q rp of [] \<Rightarrow> (None, rp) | f # fs \<Rightarrow> (Some f, rp\<lparr>free_q := fs, free_cnt := free_cnt rp - 1\<rparr>))"

definition free_rx :: "rx_pool \<Rightarrow> rx_buf \<Rightarrow> rx_pool" where
  "free_rx rp f = rp\<lparr>free_q := free_q rp @ [f\<lparr>f_len := 0\<rparr>], free_cnt := free_cnt rp + 1\<rparr>"

definition enqueue_recvframe :: "rx_pool \<Rightarrow> rx_buf \<Rightarrow> rx_pool" where
  "enqueue_recvframe rp f = rp\<lparr>free_q := free_q rp @ [f], free_cnt := free_cnt rp + 1\<rparr>"

definition rtw_free_recvframe_queue :: "rx_pool \<Rightarrow> rx_buf list \<Rightarrow> rx_pool" where
  "rtw_free_recvframe_queue rp q = foldl free_rx rp q"

fun swdec_drain :: "rx_buf list \<Rightarrow> rx_pool \<Rightarrow> nat \<times> rx_pool" where
  "swdec_drain [] rp = (0, rp)"
| "swdec_drain (f # q) rp = (let (cnt, rp') = swdec_drain q (free_rx (rp\<lparr>swdec_q := q\<rparr>) f) in (cnt + 1, rp'))"

definition rtw_free_uc_swdec_pending_queue :: "rx_pool \<Rightarrow> nat \<times> rx_pool" where
  "rtw_free_uc_swdec_pending_queue rp = swdec_drain (swdec_q rp) rp"

text \<open>The buffer of a received frame (os_dep/linux/recv_linux.c). The kernel's allocator is the parameter
  \<open>skb_alloc\<close>: for a size it gives the memory from \<open>head\<close>, the offset of \<open>data\<close> in it and the address of \<open>data\<close>.
  \<open>pdata\<close> is the memory behind the received bytes, \<open>clone\<close> the outcome of \<open>rtw_skb_clone\<close> (\<open>None\<close> without a
  socket buffer).\<close>

definition alloc_sz :: "'a rx_attr_scheme \<Rightarrow> nat \<Rightarrow> nat" where
  "alloc_sz f skb_len =
     (if mfrag f \<and> frag_num f = 0 then (if skb_len \<le> 1650 then 1664 else skb_len + 14) else skb_len + 14)"

definition rtw_os_alloc_recvframe ::
  "(nat \<Rightarrow> (u8 list \<times> nat \<times> nat) option) \<Rightarrow> bool option \<Rightarrow> u8 list \<Rightarrow> nat \<Rightarrow> rx_buf \<Rightarrow> (bool \<times> rx_buf) cres" where
  "rtw_os_alloc_recvframe skb_alloc clone pdata pkt_len f =
     (let shift_sz = (if f_qos f then 6 else 0); sz = alloc_sz f pkt_len in
      case skb_alloc sz of
        Some (mem, off, addr) \<Rightarrow>
          let data = off + (8 - addr mod 8) + shift_sz in
          bindc (rdn pdata 0 pkt_len) (\<lambda>xs.
          bindc (wrn mem data xs) (\<lambda>mem'.
          Inr (True, f\<lparr>rx_mem := take (off + sz) mem', rx_data := data, rx_tail := data\<rparr>)))
      | None \<Rightarrow>
          if mfrag f \<and> frag_num f = 0 then Inr (False, f)
          else if clone = Some True then Inr (True, f\<lparr>rx_mem := take sz pdata, rx_data := 0, rx_tail := 0\<rparr>)
          else Inr (False, f))"

section \<open>Retransmissions and replays\<close>

record rx_cache =
  tid_rxseq :: "u16 list"
  bmc_tid_rxseq :: "u16 list"
  nonqos_rxseq :: u16
  nonqos_bmc_rxseq :: u16
  iv_cache :: "u8 list list"
  last_tid :: nat
  duplicate_cnt :: nat

definition seq_ctrl_of :: "'a rx_attr_scheme \<Rightarrow> u16" where
  "seq_ctrl_of f = push_bit 4 (seq_num f) OR (of_nat (frag_num f) AND 0xf)"

definition rxseq_get :: "'a rx_attr_scheme \<Rightarrow> rx_cache \<Rightarrow> u16 cres" where
  "rxseq_get f c =
     (if f_qos f then nth_chk (if IS_MCAST (f_ra f) then bmc_tid_rxseq c else tid_rxseq c) (priority f)
      else Inr (if IS_MCAST (f_ra f) then nonqos_bmc_rxseq c else nonqos_rxseq c))"

definition rxseq_set :: "'a rx_attr_scheme \<Rightarrow> u16 \<Rightarrow> rx_cache \<Rightarrow> rx_cache" where
  "rxseq_set f s c =
     (if f_qos f then
        if IS_MCAST (f_ra f) then c\<lparr>bmc_tid_rxseq := (bmc_tid_rxseq c)[priority f := s]\<rparr>
        else c\<lparr>tid_rxseq := (tid_rxseq c)[priority f := s]\<rparr>
      else if IS_MCAST (f_ra f) then c\<lparr>nonqos_bmc_rxseq := s\<rparr> else c\<lparr>nonqos_rxseq := s\<rparr>)"

definition recv_decache :: "'a rx_attr_scheme \<Rightarrow> rx_cache \<Rightarrow> (bool \<times> rx_cache) cres" where
  "recv_decache f c =
     (if priority f > 15 then Inr (False, c)
      else bindc (rxseq_get f c) (\<lambda>s.
        if seq_ctrl_of f = s then Inr (False, c\<lparr>duplicate_cnt := duplicate_cnt c + 1\<rparr>)
        else Inr (True, rxseq_set f (seq_ctrl_of f) c)))"

text \<open>Packet numbers are read from a CCMP header of eight bytes, taken as a little-endian word.\<close>

definition get_le64 :: "u8 list \<Rightarrow> u64" where
  "get_le64 xs = word_rcat (rev (take 8 xs))"

definition CCMPH_2_PN :: "u64 \<Rightarrow> u64" where
  "CCMPH_2_PN ch = (ch AND 0x000000000000ffff) OR drop_bit 16 (ch AND 0xffffffff00000000)"

definition CCMPH_2_KEYID :: "u64 \<Rightarrow> u64" where
  "CCMPH_2_KEYID ch = drop_bit 30 (ch AND 0x00000000c0000000)"

definition PN_LESS_CHK :: "u64 \<Rightarrow> u64 \<Rightarrow> bool" where
  "PN_LESS_CHK a b \<longleftrightarrow> (a - b) AND 0x800000000000 \<noteq> 0"

definition VALID_PN_CHK :: "u64 \<Rightarrow> u64 \<Rightarrow> bool" where
  "VALID_PN_CHK pn_new pn_old \<longleftrightarrow> pn_old = 0 \<or> PN_LESS_CHK pn_old pn_new"

definition recv_ucast_pn_decache :: "rx_buf \<Rightarrow> rx_cache \<Rightarrow> (bool \<times> rx_cache) cres" where
  "recv_ucast_pn_decache f c =
     (if priority f > 15 then Inr (False, c)
      else if f_encrypt f = AES then
        bindc (rdn (rx_mem f) (rx_data f + f_hdrlen f) 8) (\<lambda>hdr.
        bindc (nth_chk (iv_cache c) (priority f)) (\<lambda>iv.
        if \<not> VALID_PN_CHK (CCMPH_2_PN (get_le64 hdr)) (CCMPH_2_PN (get_le64 iv)) then Inr (True, c)
        else Inr (True, c\<lparr>last_tid := priority f, iv_cache := (iv_cache c)[priority f := hdr]\<rparr>)))
      else Inr (True, c))"

text \<open>\<open>iv_seq\<close> holds one packet number for each group key, as the word in memory.\<close>

definition recv_bcast_pn_decache :: "bool \<Rightarrow> rx_buf \<Rightarrow> u64 list \<Rightarrow> (bool \<times> u64 list) cres" where
  "recv_bcast_pn_decache station f iv_seq =
     (if f_encrypt f = AES \<and> station then
        bindc (rdn (rx_mem f) (rx_data f + f_hdrlen f) 8) (\<lambda>hdr.
        let key_id = unat (CCMPH_2_KEYID (get_le64 hdr)); pkt_pn = CCMPH_2_PN (get_le64 hdr) in
        bindc (nth_chk iv_seq key_id) (\<lambda>s.
        if \<not> VALID_PN_CHK pkt_pn (s AND 0x0000ffffffffffff) then Inr (False, iv_seq)
        else Inr (True, iv_seq[key_id := pkt_pn])))
      else Inr (True, iv_seq))"

section \<open>The integrity code of a frame\<close>

text \<open>\<open>mic_events\<close> are the calls of \<open>rtw_handle_tkip_mic_err\<close>, by whether the frame was for a group.\<close>

record rx_sec =
  rx_binstallGrpkey :: bool
  bcheck_grpkey :: bool
  dot118021XGrprxmickey :: "u8 list list"
  info_key_index :: nat
  mic_events :: "bool list"

record rx_sta =
  defrag_q :: "rx_buf list"
  dot11tkiprxmickey :: "u8 list"

definition chkmic_key :: "rx_sec \<Rightarrow> rx_sta \<Rightarrow> rx_buf \<Rightarrow> u8 list option cres" where
  "chkmic_key sec sta f =
     (if IS_MCAST (f_ra f) then
        (if \<not> rx_binstallGrpkey sec then Inr None
        else bindc (nth_chk (dot118021XGrprxmickey sec) (f_key_index f)) (\<lambda>k. Inr (Some k)))
      else Inr (Some (dot11tkiprxmickey sta)))"

definition chkmic_datalen :: "rx_buf \<Rightarrow> nat" where
  "chkmic_datalen f = usub32 (usub32 (usub32 (usub32 (f_len f) (f_hdrlen f)) (f_iv_len f)) (f_icv_len f)) 8"

definition chkmic_compare :: "u8 list \<Rightarrow> rx_buf \<Rightarrow> bool cres" where
  "chkmic_compare mickey f =
     (let payload = rx_data f + f_hdrlen f + f_iv_len f; datalen = chkmic_datalen f in
      bindc (rtw_seccalctkipmic mickey (drop (rx_data f) (rx_mem f)) (drop payload (rx_mem f)) datalen
               (of_nat (priority f))) (\<lambda>miccode.
      bindc (rdn (rx_mem f) (payload + datalen) 8) (\<lambda>framemic. Inr (miccode = framemic))))"

definition chkmic_verdict :: "bool \<Rightarrow> rx_sec \<Rightarrow> rx_buf \<Rightarrow> rx_sec" where
  "chkmic_verdict good sec f =
     (if \<not> good then
        let brpt_micerror = \<not> (IS_MCAST (f_ra f) \<and> f_key_index f \<noteq> info_key_index sec) in
        if bdecrypted f \<and> brpt_micerror then sec\<lparr>mic_events := mic_events sec @ [IS_MCAST (f_ra f)]\<rparr> else sec
      else if \<not> bcheck_grpkey sec \<and> IS_MCAST (f_ra f) then sec\<lparr>bcheck_grpkey := True\<rparr> else sec)"

definition recvframe_chkmic :: "rx_sta option \<Rightarrow> rx_sec \<Rightarrow> rx_buf \<Rightarrow> (bool \<times> rx_sec \<times> rx_buf) cres" where
  "recvframe_chkmic stainfo sec f =
     (if f_encrypt f = TKIP then
        case stainfo of
          None \<Rightarrow> Inr (True, sec, snd (recvframe_pull_tail f 8))
        | Some sta \<Rightarrow>
            bindc (chkmic_key sec sta f) (\<lambda>key.
            case key of
              None \<Rightarrow> Inr (False, sec, f)
            | Some mickey \<Rightarrow>
                bindc (chkmic_compare mickey f) (\<lambda>good.
                Inr (good, chkmic_verdict good sec f, snd (recvframe_pull_tail f 8))))
      else Inr (True, sec, f))"

section \<open>Fragments\<close>

text \<open>The loop of \<open>recvframe_defrag\<close>: the first frame, the frames already appended to it, and those to come.
  The result is false when the fragment numbers do not ascend.\<close>

fun defrag_loop :: "nat \<Rightarrow> rx_buf \<Rightarrow> rx_buf list \<Rightarrow> rx_buf list \<Rightarrow> (bool \<times> rx_buf \<times> rx_buf list) cres" where
  "defrag_loop curfragnum f appended [] = Inr (True, f, appended)"
| "defrag_loop curfragnum f appended (g # gs) =
     (if curfragnum \<noteq> frag_num g then Inr (False, f, appended @ g # gs)
      else
        let g1 = snd (recvframe_pull g ((f_hdrlen g + f_iv_len g) mod 256));
            f1 = snd (recvframe_pull_tail f (f_icv_len f)) in
        bindc (rdn (rx_mem g1) (rx_data g1) (f_len g1)) (\<lambda>body.
        bindc (wrn (rx_mem f1) (rx_tail f1) body) (\<lambda>mem.
        let f2 = snd (recvframe_put (f1\<lparr>rx_mem := mem\<rparr>) (f_len g1)) in
        defrag_loop ((curfragnum + 1) mod 256) (f2\<lparr>f_icv_len := f_icv_len g\<rparr>) (appended @ [g1]) gs)))"

text \<open>The queue is never empty at the call; the entry of an empty list head would be no frame.\<close>

definition recvframe_defrag :: "rx_pool \<Rightarrow> rx_buf list \<Rightarrow> (rx_buf option \<times> rx_pool) cres" where
  "recvframe_defrag rp q =
     (case q of
        [] \<Rightarrow> Inl OutOfBounds
      | f # gs \<Rightarrow>
          if frag_num f \<noteq> 0 then Inr (None, rtw_free_recvframe_queue (free_rx rp f) gs)
          else bindc (defrag_loop 1 f [] gs) (\<lambda>(ok, f', gs').
            if ok then Inr (Some f', rtw_free_recvframe_queue rp gs')
            else Inr (None, rtw_free_recvframe_queue (free_rx rp f') gs')))"

record rx_state =
  pool :: rx_pool
  stations :: "u8 list \<Rightarrow> rx_sta option"
  rx_security :: rx_sec

definition bcmc_addr :: "u8 list" where
  "bcmc_addr = replicate 6 0xff"

definition WIFI_DATA_TYPE :: u32 where "WIFI_DATA_TYPE = 0x08"

text \<open>The address of the station whose queue takes the fragments of a frame.\<close>

definition defrag_owner :: "rx_state \<Rightarrow> rx_buf \<Rightarrow> u8 list option cres" where
  "defrag_owner st f =
     (case stations st (f_ta f) of
        Some _ \<Rightarrow> Inr (Some (f_ta f))
      | None \<Rightarrow>
          bindc (rdn (rx_mem f) (rx_data f) 2) (\<lambda>fc.
          Inr (if GetFrameType fc \<noteq> WIFI_DATA_TYPE \<and> stations st bcmc_addr \<noteq> None then Some bcmc_addr else None)))"

definition queue_of :: "rx_state \<Rightarrow> u8 list \<Rightarrow> rx_buf list" where
  "queue_of st a = (case stations st a of Some s \<Rightarrow> defrag_q s | None \<Rightarrow> [])"

definition set_queue :: "u8 list \<Rightarrow> rx_buf list \<Rightarrow> rx_state \<Rightarrow> rx_state" where
  "set_queue a q st =
     (case stations st a of
        Some s \<Rightarrow> st\<lparr>stations := (stations st)(a \<mapsto> s\<lparr>defrag_q := q\<rparr>)\<rparr>
      | None \<Rightarrow> st)"

definition queue_fragment :: "rx_buf \<Rightarrow> u8 list option \<Rightarrow> rx_state \<Rightarrow> (rx_buf option \<times> rx_state) cres" where
  "queue_fragment f owner st =
     (if \<not> mfrag f \<and> frag_num f = 0 then Inr (Some f, st)
      else
        case owner of
          None \<Rightarrow> Inr (None, st\<lparr>pool := free_rx (pool st) f\<rparr>)
        | Some a \<Rightarrow>
            if mfrag f then
              if frag_num f = 0 then
                Inr (None, set_queue a [f] (st\<lparr>pool := rtw_free_recvframe_queue (pool st) (queue_of st a)\<rparr>))
              else Inr (None, set_queue a (queue_of st a @ [f]) st)
            else
              bindc (recvframe_defrag (pool st) (queue_of st a @ [f])) (\<lambda>(r, rp).
              Inr (r, set_queue a [] (st\<lparr>pool := rp\<rparr>))))"

definition recvframe_chk_defrag :: "rx_state \<Rightarrow> rx_buf \<Rightarrow> (rx_buf option \<times> rx_state) cres" where
  "recvframe_chk_defrag st f =
     bindc (defrag_owner st f) (\<lambda>owner.
     bindc (queue_fragment f owner st) (\<lambda>(r, st1).
     case r of
       None \<Rightarrow> Inr (None, st1)
     | Some g \<Rightarrow>
         if privacy g then
           bindc (recvframe_chkmic (stations st1 (f_ta g)) (rx_security st1) g) (\<lambda>(ok, sec, g').
           let st2 = st1\<lparr>rx_security := sec\<rparr> in
           if ok then Inr (Some g', st2) else Inr (None, st2\<lparr>pool := free_rx (pool st2) g'\<rparr>))
         else Inr (Some g, st1)))"

section \<open>The Ethernet header\<close>

definition rtw_rfc1042_header :: "u8 list" where
  "rtw_rfc1042_header = [0xaa, 0xaa, 0x03, 0x00, 0x00, 0x00]"

definition rtw_bridge_tunnel_header :: "u8 list" where
  "rtw_bridge_tunnel_header = [0xaa, 0xaa, 0x03, 0x00, 0x00, 0xf8]"

definition SNAP_ETH_TYPE_IPX :: "u8 list" where "SNAP_ETH_TYPE_IPX = [0x81, 0x37]"
definition SNAP_ETH_TYPE_APPLETALK_AARP :: "u8 list" where "SNAP_ETH_TYPE_APPLETALK_AARP = [0x80, 0xf3]"
definition SNAP_SIZE :: nat where "SNAP_SIZE = 6"

definition bsnaphdr_at :: "u8 list \<Rightarrow> nat \<Rightarrow> bool cres" where
  "bsnaphdr_at mem p =
     bindc (rdn mem p SNAP_SIZE) (\<lambda>snap.
     if snap = rtw_rfc1042_header then
       bindc (rdn mem (p + SNAP_SIZE) 2) (\<lambda>t. Inr (t \<noteq> SNAP_ETH_TYPE_IPX \<and> t \<noteq> SNAP_ETH_TYPE_APPLETALK_AARP))
     else Inr (snap = rtw_bridge_tunnel_header))"

text \<open>Outside manufacturing test mode and without a mesh control field. The header has at least 24 bytes, so
  \<open>rmv_len - sizeof(struct ethhdr)\<close> does not go below zero.\<close>

definition wlanhdr_to_ethhdr :: "rx_buf \<Rightarrow> (bool \<times> rx_buf) cres" where
  "wlanhdr_to_ethhdr f =
     (let f1 = if f_encrypt f \<noteq> 0 then snd (recvframe_pull_tail f (f_icv_len f)) else f;
          p = rx_data f1 + f_hdrlen f1 + f_iv_len f1 in
      bindc (bsnaphdr_at (rx_mem f1) p) (\<lambda>bsnaphdr.
      let rmv_len = f_hdrlen f1 + f_iv_len f1 + (if bsnaphdr then SNAP_SIZE else 0);
          len = of_nat (usub32 (f_len f1) rmv_len) :: u16 in
      bindc (rdn (rx_mem f1) (rx_data f1 + rmv_len) 2) (\<lambda>t.
      let f2 = f1\<lparr>eth_type := get_be16 (t ! 0) (t ! 1)\<rparr>;
          (ok, f3) = recvframe_pull f2 (rmv_len - 14 + (if bsnaphdr then 2 else 0)) in
      if \<not> ok then Inr (False, f3)
      else
        bindc (wrn (rx_mem f3) (rx_data f3) (take 6 (f_dst f3) @ take 6 (f_src f3) @ (if bsnaphdr then [] else put_be16 len)))
          (\<lambda>mem. Inr (True, f3\<lparr>rx_mem := mem\<rparr>)))))"

section \<open>Packet numbers\<close>

interpretation pn: serial_number PN_LESS_CHK uint "2 ^ 47"
proof unfold_locales
  show "PN_LESS_CHK a b = (2 ^ 47 \<le> (uint a - uint b) mod (2 * 2 ^ 47))" for a b
  proof -
    have "PN_LESS_CHK a b = bit (a - b) 47"
      using and_exp_eq_0_iff_not_bit [of "a - b" 47] by (simp add: PN_LESS_CHK_def)
    also have "\<dots> = bit (uint (a - b)) 47"
      by (simp add: bit_uint_iff)
    also have "uint (a - b) = take_bit 64 (uint a - uint b)"
      by (simp add: uint_word_ariths take_bit_eq_mod)
    also have "bit (take_bit 64 (uint a - uint b)) 47 = bit (uint a - uint b) 47"
      by (simp add: bit_take_bit_iff)
    also have "\<dots> = (2 ^ 47 \<le> (uint a - uint b) mod 2 ^ Suc 47)"
      using and_bit_nonzero_int [of "uint a - uint b" 47] by (simp only: and_exp_eq_0_iff_not_bit not_not)
    finally show ?thesis by simp
  qed
qed simp

lemma and_mask48: "(s :: u64) AND 0x0000ffffffffffff = take_bit 48 s"
proof -
  have "(0x0000ffffffffffff :: u64) = mask 48" by (simp add: mask_eq_exp_minus_1)
  then show ?thesis by (simp only: take_bit_eq_mask)
qed

lemma CCMPH_2_PN_less: "uint (CCMPH_2_PN ch) < 2 ^ 48"
proof -
  have "bit (CCMPH_2_PN ch) n \<longleftrightarrow> bit (take_bit 48 (CCMPH_2_PN ch)) n" for n
  proof -
    have hi: "(0xffffffff00000000 :: u64) = push_bit 32 (mask 32)" and lo: "(0xffff :: u64) = mask 16"
      by (simp_all add: mask_eq_exp_minus_1 push_bit_eq_mult)
    show ?thesis
      unfolding CCMPH_2_PN_def hi lo
      by (auto simp: bit_or_iff bit_and_iff bit_drop_bit_eq bit_take_bit_iff bit_push_bit_iff bit_mask_iff)
  qed
  then have "CCMPH_2_PN ch = take_bit 48 (CCMPH_2_PN ch)" by (simp add: bit_eq_iff)
  then have "uint (CCMPH_2_PN ch) = take_bit 48 (uint (CCMPH_2_PN ch))"
    by (metis unsigned_take_bit_eq)
  then show ?thesis by (metis take_bit_int_less_exp)
qed

lemma PN_LESS_CHK_cases:
  assumes "uint a < 2 ^ 48" and "uint b < 2 ^ 48"
  shows "PN_LESS_CHK a b \<longleftrightarrow> (if a < b then uint b - uint a \<le> 2 ^ 47 else 2 ^ 47 \<le> uint a - uint b)"
proof (cases "a < b")
  case True
  then have lt: "uint a < uint b" by (simp add: word_less_def)
  then have "(uint a - uint b + 2 ^ 48) mod 2 ^ 48 = uint a - uint b + 2 ^ 48"
    using assms lt uint_ge_0 [of a] by (intro mod_pos_pos_trivial) linarith+
  then have "(uint a - uint b) mod 2 ^ 48 = uint a - uint b + 2 ^ 48"
    by (simp only: mod_add_self2)
  then show ?thesis using True by (simp add: pn.less_iff) linarith
next
  case False
  then have "uint b \<le> uint a" by (simp add: word_less_def)
  then have "(uint a - uint b) mod 2 ^ 48 = uint a - uint b"
    using assms uint_ge_0 [of b] by (intro mod_pos_pos_trivial) linarith+
  then show ?thesis using False by (simp add: pn.less_iff)
qed

text \<open>which packet numbers pass. A number is accepted when it is ahead of the stored one by at most
  half the range, and also when it is behind it by at least half the range, or when nothing is stored; all
  other numbers, the stored one included, are refused.\<close>

theorem VALID_PN_CHK_spec:
  "VALID_PN_CHK (CCMPH_2_PN hdr_new) (CCMPH_2_PN hdr_old) =
    (let n = uint (CCMPH_2_PN hdr_new); s = uint (CCMPH_2_PN hdr_old) in
     s = 0 \<or> s < n \<and> n - s \<le> 2 ^ 47 \<or> 2 ^ 47 \<le> s - n)"
proof -
  let ?n = "CCMPH_2_PN hdr_new" and ?o = "CCMPH_2_PN hdr_old"
  have "PN_LESS_CHK ?o ?n \<longleftrightarrow> (if ?o < ?n then uint ?n - uint ?o \<le> 2 ^ 47 else 2 ^ 47 \<le> uint ?o - uint ?n)"
    by (intro PN_LESS_CHK_cases CCMPH_2_PN_less)
  then show ?thesis
    by (auto simp: VALID_PN_CHK_def Let_def word_less_def unsigned_0 uint_0_iff split: if_splits)
qed

subsection \<open>Group addressed frames\<close>

definition ccmp_hdr :: "rx_buf \<Rightarrow> u64" where
  "ccmp_hdr f = get_le64 (take 8 (drop (rx_data f + f_hdrlen f) (rx_mem f)))"

abbreviation frame_key :: "rx_buf \<Rightarrow> nat" where
  "frame_key f \<equiv> unat (CCMPH_2_KEYID (ccmp_hdr f))"

abbreviation frame_pn :: "rx_buf \<Rightarrow> u64" where
  "frame_pn f \<equiv> CCMPH_2_PN (ccmp_hdr f)"

definition has_ccmp_hdr :: "rx_buf \<Rightarrow> bool" where
  "has_ccmp_hdr f \<longleftrightarrow> f_encrypt f = AES \<and> rx_data f + f_hdrlen f + 8 \<le> length (rx_mem f)"

text \<open>The key and packet number of every frame that a sequence of group addressed frames gets accepted.\<close>

fun bcast_run :: "rx_buf list \<Rightarrow> u64 list \<Rightarrow> ((nat \<times> u64) list \<times> u64 list) cres" where
  "bcast_run [] iv_seq = Inr ([], iv_seq)"
| "bcast_run (f # fs) iv_seq =
     bindc (recv_bcast_pn_decache True f iv_seq) (\<lambda>(ok, iv1).
     bindc (bcast_run fs iv1) (\<lambda>(acc, iv2).
     Inr (if ok then (frame_key f, frame_pn f) # acc else acc, iv2)))"

lemma frame_key_less: "frame_key f < 4"
proof -
  have m: "(0x00000000c0000000 :: u64) = push_bit 30 (mask 2)"
    by (simp add: mask_eq_exp_minus_1 push_bit_eq_mult)
  have "bit (CCMPH_2_KEYID (ccmp_hdr f)) n \<longleftrightarrow> bit (take_bit 2 (CCMPH_2_KEYID (ccmp_hdr f))) n" for n
    unfolding CCMPH_2_KEYID_def m
    by (auto simp: bit_and_iff bit_drop_bit_eq bit_take_bit_iff bit_push_bit_iff bit_mask_iff)
  then have "CCMPH_2_KEYID (ccmp_hdr f) = take_bit 2 (CCMPH_2_KEYID (ccmp_hdr f))" by (simp add: bit_eq_iff)
  then have "frame_key f = take_bit 2 (frame_key f)" by (metis unsigned_take_bit_eq)
  then show ?thesis using take_bit_nat_less_exp [of 2 "frame_key f"] by simp
qed

lemma bcast_step:
  assumes "has_ccmp_hdr f" and "4 \<le> length iv_seq"
  shows "recv_bcast_pn_decache True f iv_seq =
    (if VALID_PN_CHK (frame_pn f) (iv_seq ! frame_key f AND 0x0000ffffffffffff)
     then Inr (True, iv_seq[frame_key f := frame_pn f]) else Inr (False, iv_seq))"
proof -
  have "frame_key f < length iv_seq" using frame_key_less [of f] assms(2) by linarith
  then show ?thesis
    using assms(1) by (simp add: recv_bcast_pn_decache_def has_ccmp_hdr_def rdn_ok nth_chk_ok ccmp_hdr_def)
qed

text \<open>Behind half of the range no number is refused for being too far ahead, and none is taken for being far behind.\<close>

definition pn_low :: "u64 \<Rightarrow> bool" where
  "pn_low n \<longleftrightarrow> uint n \<le> 2 ^ 47"

lemma pn_low_valid:
  assumes "pn_low n" and "0 < n" and "pn_low s"
  shows "VALID_PN_CHK n s \<longleftrightarrow> s < n"
proof -
  have "uint n < 2 ^ 48" "uint s < 2 ^ 48" using assms(1,3) by (simp_all add: pn_low_def)
  then have "PN_LESS_CHK s n \<longleftrightarrow> (if s < n then uint n - uint s \<le> 2 ^ 47 else 2 ^ 47 \<le> uint s - uint n)"
    by (intro PN_LESS_CHK_cases)
  moreover have "0 < uint n" using assms(2) by (simp add: word_less_def)
  moreover have "uint n - uint s \<le> 2 ^ 47" "\<not> 2 ^ 47 \<le> uint s - uint n"
    using assms calculation(2) uint_ge_0 [of s] unfolding pn_low_def by linarith+
  ultimately show ?thesis
    using assms(2) by (auto simp: VALID_PN_CHK_def)
qed

lemma pn_low_mask: "pn_low n \<Longrightarrow> n AND 0x0000ffffffffffff = n"
proof -
  assume "pn_low n"
  then have "take_bit 48 (uint n) = uint n" by (intro take_bit_int_eq_self) (simp_all add: pn_low_def)
  then have "uint (take_bit 48 n) = uint n" by (simp only: unsigned_take_bit_eq)
  then show ?thesis by (simp only: and_mask48 word_uint_eq_iff)
qed

lemma bcast_run_sorted:
  assumes "\<And>f. f \<in> set fs \<Longrightarrow> has_ccmp_hdr f \<and> 0 < frame_pn f \<and> pn_low (frame_pn f)"
    and "4 \<le> length iv_seq" and "\<And>s. s \<in> set iv_seq \<Longrightarrow> pn_low s"
  shows "\<exists>acc iv'. bcast_run fs iv_seq = Inr (acc, iv') \<and>
    (\<forall>k < 4. sorted_wrt (<) (iv_seq ! k # map snd (filter (\<lambda>p. fst p = k) acc)))"
  using assms
proof (induction fs arbitrary: iv_seq)
  case Nil
  then show ?case by simp
next
  case (Cons f fs)
  let ?k = "frame_key f" and ?n = "frame_pn f"
  have f: "has_ccmp_hdr f" "0 < ?n" "pn_low ?n" using Cons.prems(1) by simp_all
  have k: "?k < length iv_seq" "?k < 4" using frame_key_less [of f] Cons.prems(2) by linarith+
  have sk: "pn_low (iv_seq ! ?k)" using Cons.prems(3) k(1) by simp
  have step: "recv_bcast_pn_decache True f iv_seq =
      (if iv_seq ! ?k < ?n then Inr (True, iv_seq[?k := ?n]) else Inr (False, iv_seq))"
    using bcast_step [OF f(1) Cons.prems(2)] by (simp add: pn_low_mask [OF sk] pn_low_valid [OF f(3,2) sk])
  show ?case
  proof (cases "iv_seq ! ?k < ?n")
    case False
    then show ?thesis using Cons.IH [OF _ Cons.prems(2,3)] Cons.prems(1) step by auto
  next
    case True
    have "pn_low s" if "s \<in> set (iv_seq[?k := ?n])" for s
      using that Cons.prems(3) f(3) set_update_subset_insert [of iv_seq ?k ?n] by auto
    then obtain acc iv' where run: "bcast_run fs (iv_seq[?k := ?n]) = Inr (acc, iv')"
      and srt: "\<forall>k < 4. sorted_wrt (<) (iv_seq[?k := ?n] ! k # map snd (filter (\<lambda>p. fst p = k) acc))"
      using Cons.IH [of "iv_seq[?k := ?n]"] Cons.prems(1,2) by fastforce
    have "sorted_wrt (<) (iv_seq ! k # map snd (filter (\<lambda>p. fst p = k) ((?k, ?n) # acc)))" if "k < 4" for k
    proof (cases "k = ?k")
      case k_eq: True
      have "sorted_wrt (<) (?n # map snd (filter (\<lambda>p. fst p = k) acc))"
        using srt that k(1) k_eq by (metis nth_list_update_eq)
      then show ?thesis using True k_eq by (auto intro: less_trans)
    next
      case False
      then show ?thesis using srt [rule_format, OF that] by simp
    qed
    then show ?thesis using step True run by (simp del: sorted_wrt.simps)
  qed
qed

text \<open>C27: no replay of group addressed frames within the lower half of the range: whatever the order in which
  such frames arrive, the packet numbers accepted for a key ascend strictly from the stored one, so no frame
  passes twice.\<close>

theorem bcast_no_replay:
  assumes "\<And>f. f \<in> set fs \<Longrightarrow> has_ccmp_hdr f \<and> 0 < frame_pn f \<and> pn_low (frame_pn f)"
    and "4 \<le> length iv_seq" and "\<And>s. s \<in> set iv_seq \<Longrightarrow> pn_low s" and "k < 4"
  shows "case bcast_run fs iv_seq of
      Inr (acc, iv') \<Rightarrow> sorted_wrt (<) (iv_seq ! k # map snd (filter (\<lambda>p. fst p = k) acc))
    | Inl e \<Rightarrow> False"
  using bcast_run_sorted [OF assms(1-3)] assms(4) by fastforce

definition pn_frame :: "u8 list \<Rightarrow> rx_buf" where
  "pn_frame hdr = \<lparr>seq_num = 0, frag_num = 0, mfrag = False, f_hdrlen = 24, f_iv_len = 8, f_icv_len = 8, privacy = True,
     f_qos = False, priority = 0, f_ra = replicate 6 0xff, f_ta = replicate 6 2, f_dst = [], f_src = [], f_encrypt = 4,
     bdecrypted = True, f_key_index = 1, eth_type = 0, rx_mem = replicate 24 0 @ hdr @ replicate 20 0, rx_data = 0,
     rx_tail = 52, f_len = 52\<rparr>"

lemma pn_frame_hdr: "length hdr = 8 \<Longrightarrow> has_ccmp_hdr (pn_frame hdr) \<and> ccmp_hdr (pn_frame hdr) = get_le64 hdr"
  by (simp add: has_ccmp_hdr_def ccmp_hdr_def pn_frame_def AES_def)

lemma get_le64_example:
  "get_le64 [5, 0, 0, 0x60, 0, 0, 0, 0] = 0x60000005" "get_le64 [6, 0, 0, 0x60, 0, 0, 0, 0] = 0x60000006"
  by (simp_all add: get_le64_def word_rcat_def horner_sum_foldr)

theorem bcast_no_replay_witness:
  "let hs = [[5, 0, 0, 0x60, 0, 0, 0, 0], [6, 0, 0, 0x60, 0, 0, 0, 0], [5, 0, 0, 0x60, 0, 0, 0, 0]] in
   case bcast_run (map pn_frame hs) (replicate 4 0) of
      Inr (acc, iv') \<Rightarrow> sorted_wrt (<) ((replicate 4 0 :: u64 list) ! 1 # map snd (filter (\<lambda>p. fst p = 1) acc))
    | Inl e \<Rightarrow> False"
  unfolding Let_def
  by (rule bcast_no_replay)
    (auto simp: pn_frame_hdr get_le64_example CCMPH_2_PN_def pn_low_def)

subsection \<open>Frames to one station\<close>

text \<open>C28: the check of the packet number of a frame to one station never refuses the frame: the answer is success
  whatever its number, and presenting the same frame again succeeds again and leaves the cache as it is, so a
  replayed frame passes.\<close>

theorem recv_ucast_pn_decache_replay:
  assumes "priority f \<le> 15" and "length (iv_cache c) = 16" and "rx_data f + f_hdrlen f + 8 \<le> length (rx_mem f)"
  shows "\<exists>c'. recv_ucast_pn_decache f c = Inr (True, c') \<and> recv_ucast_pn_decache f c' = Inr (True, c')"
proof (cases "f_encrypt f = AES")
  case False
  then show ?thesis using assms by (simp add: recv_ucast_pn_decache_def)
next
  case True
  let ?h = "take 8 (drop (rx_data f + f_hdrlen f) (rx_mem f))"
  let ?c = "c\<lparr>last_tid := priority f, iv_cache := (iv_cache c)[priority f := ?h]\<rparr>"
  have step: "recv_ucast_pn_decache f d =
      (if VALID_PN_CHK (CCMPH_2_PN (get_le64 ?h)) (CCMPH_2_PN (get_le64 (iv_cache d ! priority f)))
       then Inr (True, d\<lparr>last_tid := priority f, iv_cache := (iv_cache d)[priority f := ?h]\<rparr>) else Inr (True, d))"
    if "length (iv_cache d) = 16" for d
    using assms that True by (simp add: recv_ucast_pn_decache_def rdn_ok nth_chk_ok)
  have "recv_ucast_pn_decache f ?c = Inr (True, ?c)"
    using assms(1,2) by (subst step) simp_all
  then show ?thesis using step [OF assms(2)] by auto
qed

definition cache0 :: rx_cache where
  "cache0 = \<lparr>tid_rxseq = replicate 16 0xffff, bmc_tid_rxseq = replicate 16 0xffff, nonqos_rxseq = 0xffff,
     nonqos_bmc_rxseq = 0xffff, iv_cache = replicate 16 (replicate 8 0), last_tid = 0, duplicate_cnt = 0\<rparr>"

theorem recv_ucast_pn_decache_replay_witness:
  "\<exists>c'. recv_ucast_pn_decache (pn_frame (replicate 8 7)) cache0 = Inr (True, c') \<and>
    recv_ucast_pn_decache (pn_frame (replicate 8 7)) c' = Inr (True, c')"
  by (rule recv_ucast_pn_decache_replay) (simp_all add: pn_frame_def cache0_def)

section \<open>Retransmissions\<close>

definition same_slot :: "rx_buf \<Rightarrow> rx_buf \<Rightarrow> bool" where
  "same_slot f g \<longleftrightarrow> f_qos f = f_qos g \<and> IS_MCAST (f_ra f) = IS_MCAST (f_ra g) \<and> (f_qos f \<longrightarrow> priority f = priority g)"

definition cache_ok :: "rx_cache \<Rightarrow> bool" where
  "cache_ok c \<longleftrightarrow> length (tid_rxseq c) = 16 \<and> length (bmc_tid_rxseq c) = 16"

definition rxseq :: "rx_buf \<Rightarrow> rx_cache \<Rightarrow> u16" where
  "rxseq f c =
     (if f_qos f then (if IS_MCAST (f_ra f) then bmc_tid_rxseq c else tid_rxseq c) ! priority f
      else if IS_MCAST (f_ra f) then nonqos_bmc_rxseq c else nonqos_rxseq c)"

lemma rxseq_get_ok: "cache_ok c \<Longrightarrow> priority f \<le> 15 \<Longrightarrow> rxseq_get f c = Inr (rxseq f c)"
  by (simp add: rxseq_get_def rxseq_def cache_ok_def nth_chk_ok)

lemma rxseq_set_ok:
  assumes "cache_ok c" and "priority f \<le> 15" and "priority g \<le> 15"
  shows "cache_ok (rxseq_set f s c)" "rxseq g (rxseq_set f s c) = (if same_slot f g then s else rxseq g c)"
  using assms by (auto simp: rxseq_set_def rxseq_def same_slot_def cache_ok_def nth_list_update)

lemma same_slot_rxseq: "same_slot f g \<Longrightarrow> rxseq f c = rxseq g c"
  by (simp add: same_slot_def rxseq_def)

lemma rxseq_dup [simp]: "rxseq g (c\<lparr>duplicate_cnt := n\<rparr>) = rxseq g c" "cache_ok (c\<lparr>duplicate_cnt := n\<rparr>) = cache_ok c"
  by (simp_all add: rxseq_def cache_ok_def)

text \<open>The frames of a sequence that \<open>recv_decache\<close> lets through.\<close>

fun decache_run :: "rx_buf list \<Rightarrow> rx_cache \<Rightarrow> (rx_buf list \<times> rx_cache) cres" where
  "decache_run [] c = Inr ([], c)"
| "decache_run (f # fs) c =
     bindc (recv_decache f c) (\<lambda>(ok, c1).
     bindc (decache_run fs c1) (\<lambda>(acc, c2). Inr (if ok then f # acc else acc, c2)))"

abbreviation slot_seqs :: "rx_buf \<Rightarrow> rx_buf list \<Rightarrow> u16 list" where
  "slot_seqs g fs \<equiv> map seq_ctrl_of (filter (\<lambda>f. same_slot f g) fs)"

lemma decache_step:
  assumes "cache_ok c" and "priority f \<le> 15"
  shows "recv_decache f c =
    (if seq_ctrl_of f = rxseq f c then Inr (False, c\<lparr>duplicate_cnt := duplicate_cnt c + 1\<rparr>)
     else Inr (True, rxseq_set f (seq_ctrl_of f) c))"
  using assms by (simp add: recv_decache_def rxseq_get_ok)

lemma decache_run_slots:
  assumes "cache_ok c" and "\<And>f. f \<in> set fs \<Longrightarrow> priority f \<le> 15" and "priority g \<le> 15"
  shows "\<exists>acc c'. decache_run fs c = Inr (acc, c') \<and>
    rxseq g c # slot_seqs g acc = remdups_adj (rxseq g c # slot_seqs g fs) \<and>
    duplicate_cnt c' + length acc = duplicate_cnt c + length fs"
  using assms
proof (induction fs arbitrary: c)
  case Nil
  then show ?case by simp
next
  case (Cons f fs)
  have pf: "priority f \<le> 15" using Cons.prems(2) by simp
  show ?case
  proof (cases "seq_ctrl_of f = rxseq f c")
    case True
    let ?c = "c\<lparr>duplicate_cnt := duplicate_cnt c + 1\<rparr>"
    obtain acc c' where run: "decache_run fs ?c = Inr (acc, c')"
      and acc: "rxseq g ?c # slot_seqs g acc = remdups_adj (rxseq g ?c # slot_seqs g fs)"
      and cnt: "duplicate_cnt c' + length acc = duplicate_cnt ?c + length fs"
      using Cons.IH [of ?c] Cons.prems by fastforce
    have "decache_run (f # fs) c = Inr (acc, c')"
      using decache_step [OF Cons.prems(1) pf] True run by simp
    moreover have "rxseq g c # slot_seqs g acc = remdups_adj (rxseq g c # slot_seqs g (f # fs))"
      using acc True same_slot_rxseq [of f g c] by (cases "same_slot f g") simp_all
    moreover have "duplicate_cnt c' + length acc = duplicate_cnt c + length (f # fs)"
      using cnt by simp
    ultimately show ?thesis by (intro exI conjI)
  next
    case False
    let ?c = "rxseq_set f (seq_ctrl_of f) c"
    have set: "cache_ok ?c" "rxseq g ?c = (if same_slot f g then seq_ctrl_of f else rxseq g c)"
      using rxseq_set_ok [OF Cons.prems(1) pf Cons.prems(3)] by auto
    obtain acc c' where run: "decache_run fs ?c = Inr (acc, c')"
      and acc: "rxseq g ?c # slot_seqs g acc = remdups_adj (rxseq g ?c # slot_seqs g fs)"
      and cnt: "duplicate_cnt c' + length acc = duplicate_cnt ?c + length fs"
      using Cons.IH [of ?c] Cons.prems set(1) by fastforce
    have "decache_run (f # fs) c = Inr (f # acc, c')"
      using decache_step [OF Cons.prems(1) pf] False run by simp
    moreover have "rxseq g c # slot_seqs g (f # acc) = remdups_adj (rxseq g c # slot_seqs g (f # fs))"
      using acc set(2) False same_slot_rxseq [of f g c] by (cases "same_slot f g") simp_all
    moreover have "duplicate_cnt c' + length (f # acc) = duplicate_cnt c + length (f # fs)"
      using cnt by (simp add: rxseq_set_def)
    ultimately show ?thesis by (intro exI conjI)
  qed
qed

text \<open>the retransmissions that are removed. Over any sequence of frames of a station, the sequence control
  fields let through in one slot (traffic class or no class, group or not) are those that arrived in it with
  adjacent repetitions collapsed, the last one before included; every other frame is counted as a duplicate.\<close>

theorem recv_decache_collapses:
  assumes "cache_ok c" and "\<And>f. f \<in> set fs \<Longrightarrow> priority f \<le> 15" and "priority g \<le> 15"
  shows "\<exists>acc c'. decache_run fs c = Inr (acc, c') \<and>
    rxseq g c # slot_seqs g acc = remdups_adj (rxseq g c # slot_seqs g fs) \<and>
    duplicate_cnt c' + length acc = duplicate_cnt c + length fs"
  using assms by (rule decache_run_slots)

theorem recv_decache_collapses_witness:
  "let g = pn_frame (replicate 8 0); fs = [g, g, g\<lparr>seq_num := 1\<rparr>, g] in
   \<exists>acc c'. decache_run fs cache0 = Inr (acc, c') \<and>
    rxseq g cache0 # slot_seqs g acc = remdups_adj (rxseq g cache0 # slot_seqs g fs) \<and>
    duplicate_cnt c' + length acc = duplicate_cnt cache0 + length fs"
  unfolding Let_def
  by (rule recv_decache_collapses) (auto simp: cache_ok_def cache0_def pn_frame_def)

section \<open>Reassembly\<close>

definition win :: "rx_buf \<Rightarrow> u8 list" where
  "win f = take (f_len f) (drop (rx_data f) (rx_mem f))"

definition frame_wf :: "rx_buf \<Rightarrow> bool" where
  "frame_wf f \<longleftrightarrow> rx_data f + f_len f = rx_tail f \<and> rx_tail f \<le> length (rx_mem f) \<and> length (rx_mem f) < 2 ^ 32"

abbreviation overhead :: "rx_buf \<Rightarrow> nat" where
  "overhead f \<equiv> f_hdrlen f + f_iv_len f"

definition frag_wf :: "rx_buf \<Rightarrow> bool" where
  "frag_wf f \<longleftrightarrow> frame_wf f \<and> overhead f + f_icv_len f \<le> f_len f \<and> overhead f < 256"

text \<open>A frame without its integrity value, and what it carries.\<close>

definition stripped :: "rx_buf \<Rightarrow> u8 list" where
  "stripped f = take (f_len f - f_icv_len f) (win f)"

definition frag_body :: "rx_buf \<Rightarrow> u8 list" where
  "frag_body f = drop (overhead f) (stripped f)"

definition headless :: "rx_buf \<Rightarrow> rx_buf" where
  "headless g = g\<lparr>rx_data := rx_data g + overhead g, f_len := f_len g - overhead g\<rparr>"

definition append_frag :: "rx_buf \<Rightarrow> rx_buf \<Rightarrow> rx_buf" where
  "append_frag f g =
     (let body = drop (overhead g) (win g); t = rx_tail f - f_icv_len f in
      f\<lparr>rx_mem := written (rx_mem f) t body, rx_tail := t + length body,
        f_len := f_len f - f_icv_len f + length body, f_icv_len := f_icv_len g\<rparr>)"

lemma win_length: "frame_wf f \<Longrightarrow> length (win f) = f_len f"
  by (auto simp: win_def frame_wf_def)

lemma stripped_length: "frame_wf f \<Longrightarrow> length (stripped f) = f_len f - f_icv_len f"
  by (simp add: stripped_def win_length)

lemma stripped_prefix: "frame_wf f \<Longrightarrow> n \<le> length (stripped f) \<Longrightarrow> take n (stripped f) = take n (win f)"
  by (auto simp: stripped_def win_length min_def split: if_splits)

lemma frame_wf_bounds: "frame_wf f \<Longrightarrow> f_len f < 2 ^ 32 \<and> rx_data f \<le> rx_tail f"
  unfolding frame_wf_def by linarith

lemma pull_headless: "frag_wf g \<Longrightarrow> snd (recvframe_pull g (overhead g mod 256)) = headless g"
  using frame_wf_bounds [of g] by (auto simp: recvframe_pull_def headless_def frag_wf_def frame_wf_def)

lemma headless_read:
  assumes "frag_wf g"
  shows "rdn (rx_mem (headless g)) (rx_data (headless g)) (f_len (headless g)) = Inr (drop (overhead g) (win g))"
proof -
  have "rx_data g + overhead g + (f_len g - overhead g) \<le> length (rx_mem g)"
    using assms by (auto simp: frag_wf_def frame_wf_def)
  then show ?thesis
    by (simp add: headless_def win_def rdn_ok drop_take add.commute add.left_commute)
qed

lemma pull_tail_ok:
  assumes "frame_wf f" and "n \<le> f_len f"
  shows "recvframe_pull_tail f n = (True, f\<lparr>rx_tail := rx_tail f - n, f_len := f_len f - n\<rparr>)"
  using assms frame_wf_bounds [OF assms(1)] by (auto simp: recvframe_pull_tail_def frame_wf_def)

lemma defrag_loop_step:
  assumes "frame_wf f" and "f_icv_len f \<le> f_len f" and "frag_wf g" and "frag_num g = c"
    and "rx_tail f + f_len g \<le> length (rx_mem f)"
  shows "defrag_loop c f appended (g # gs) = defrag_loop ((c + 1) mod 256) (append_frag f g) (appended @ [headless g]) gs"
proof -
  let ?b = "drop (overhead g) (win g)" and ?t = "rx_tail f - f_icv_len f"
  let ?f1 = "f\<lparr>rx_tail := ?t, f_len := f_len f - f_icv_len f\<rparr>"
  have len: "length ?b = f_len (headless g)" "length ?b \<le> f_len g"
    using assms(3) by (simp_all add: frag_wf_def win_length headless_def)
  have room: "?t + length ?b \<le> length (rx_mem f)" using assms(5) len(2) by linarith
  have small: "f_len f - f_icv_len f + length ?b < 2 ^ 32"
    using room assms(1,2) unfolding frame_wf_def by linarith
  have w: "wrn (rx_mem f) ?t ?b = Inr (written (rx_mem f) ?t ?b)" using room by (rule wrn_written)
  have put: "snd (recvframe_put (?f1\<lparr>rx_mem := written (rx_mem f) ?t ?b\<rparr>) (f_len (headless g))) =
      ?f1\<lparr>rx_mem := written (rx_mem f) ?t ?b, rx_tail := ?t + length ?b, f_len := f_len f - f_icv_len f + length ?b\<rparr>"
    using room small written_length [OF room] len(1) by (simp add: recvframe_put_def)
  have "defrag_loop c f appended (g # gs) =
      defrag_loop ((c + 1) mod 256)
        (snd (recvframe_put (?f1\<lparr>rx_mem := written (rx_mem f) ?t ?b\<rparr>) (f_len (headless g)))\<lparr>f_icv_len := f_icv_len g\<rparr>)
        (appended @ [headless g]) gs"
    using assms(4) w
    by (simp add: pull_headless [OF assms(3)] headless_read [OF assms(3)] pull_tail_ok [OF assms(1,2)] Let_def)
  then show ?thesis unfolding put append_frag_def by (simp add: Let_def)
qed

lemma defrag_loop_overrun:
  assumes "frame_wf f" and "f_icv_len f \<le> f_len f" and "frag_wf g" and "frag_num g = c"
    and "length (rx_mem f) < rx_tail f - f_icv_len f + (f_len g - overhead g)"
  shows "defrag_loop c f appended (g # gs) = Inl OutOfBounds"
proof -
  have "length (drop (overhead g) (win g)) = f_len g - overhead g"
    using assms(3) by (simp add: frag_wf_def win_length)
  then have "wrn (rx_mem f) (rx_tail f - f_icv_len f) (drop (overhead g) (win g)) = Inl OutOfBounds"
    using assms(5) by (simp add: wrn_def)
  then show ?thesis
    using assms(4)
    by (simp add: pull_headless [OF assms(3)] headless_read [OF assms(3)] pull_tail_ok [OF assms(1,2)] Let_def)
qed

lemma append_frag_wf:
  assumes "frame_wf f" and "f_icv_len f \<le> f_len f" and "frag_wf g" and "rx_tail f + f_len g \<le> length (rx_mem f)"
  shows "frame_wf (append_frag f g)" "f_icv_len (append_frag f g) \<le> f_len (append_frag f g)"
    "stripped (append_frag f g) = stripped f @ frag_body g"
    "rx_tail (append_frag f g) \<le> rx_tail f + f_len g" "length (rx_mem (append_frag f g)) = length (rx_mem f)"
    "overhead (append_frag f g) = overhead f" "frag_num (append_frag f g) = frag_num f"
proof -
  let ?b = "drop (overhead g) (win g)" and ?t = "rx_tail f - f_icv_len f"
  have len: "length ?b = f_len g - overhead g" "f_icv_len g \<le> length ?b"
    using assms(3) by (auto simp: frag_wf_def win_length)
  have room: "?t + length ?b \<le> length (rx_mem f)" using assms(4) len(1) by linarith
  have t: "rx_data f + (f_len f - f_icv_len f) = ?t" using assms(1,2) by (auto simp: frame_wf_def)
  note wl = written_length [OF room]
  obtain k where k: "f_len f = f_icv_len f + k" using assms(2) le_Suc_ex by blast
  show "frame_wf (append_frag f g)"
    using assms(1) room wl k by (auto simp: frame_wf_def append_frag_def Let_def)
  show "f_icv_len (append_frag f g) \<le> f_len (append_frag f g)"
    using len(2) by (simp add: append_frag_def Let_def)
  show "rx_tail (append_frag f g) \<le> rx_tail f + f_len g"
    using len(1) by (simp add: append_frag_def Let_def)
  show "length (rx_mem (append_frag f g)) = length (rx_mem f)"
    using wl by (simp add: append_frag_def Let_def)
  show "overhead (append_frag f g) = overhead f" "frag_num (append_frag f g) = frag_num f"
    by (simp_all add: append_frag_def Let_def)
  have s: "drop (rx_data f) (take ?t (rx_mem f)) = stripped f"
    by (simp only: t [symmetric]) (simp add: stripped_def win_def drop_take min_def)
  have d: "drop (rx_data f) (written (rx_mem f) ?t ?b) = stripped f @ ?b @ drop (?t + length ?b) (rx_mem f)"
    using room t s by (simp add: written_def)
  have w: "win (append_frag f g) = stripped f @ ?b"
    using d stripped_length [OF assms(1)] by (simp add: win_def [of "append_frag f g"]) (simp add: append_frag_def Let_def)
  have l: "f_len (append_frag f g) - f_icv_len (append_frag f g) = length (stripped f) + (length ?b - f_icv_len g)"
    using len(2) by (simp add: append_frag_def Let_def stripped_length [OF assms(1)])
  have "take (length ?b - f_icv_len g) ?b = frag_body g"
    using assms(3) by (simp add: frag_body_def stripped_def drop_take win_length frag_wf_def ac_simps)
  then show "stripped (append_frag f g) = stripped f @ frag_body g"
    by (simp only: stripped_def [of "append_frag f g"] w l) simp
qed

lemma defrag_loop_joins:
  assumes "frame_wf f" and "f_icv_len f \<le> f_len f" and "\<And>i. i < length gs \<Longrightarrow> frag_num (gs ! i) = c + i"
    and "c + length gs \<le> 256" and "\<And>g. g \<in> set gs \<Longrightarrow> frag_wf g"
    and "rx_tail f + sum_list (map f_len gs) \<le> length (rx_mem f)"
  shows "\<exists>f' gs'. defrag_loop (c mod 256) f appended gs = Inr (True, f', appended @ gs') \<and> length gs' = length gs \<and>
    frame_wf f' \<and> stripped f' = stripped f @ concat (map frag_body gs) \<and> overhead f' = overhead f"
  using assms
proof (induction gs arbitrary: c f appended)
  case Nil
  then show ?case by simp
next
  case (Cons g gs)
  let ?f = "append_frag f g"
  have g: "frag_wf g" "frag_num g = c" "c < 256" "rx_tail f + f_len g \<le> length (rx_mem f)"
    using Cons.prems(3) [of 0] Cons.prems(4-6) by auto
  have step: "defrag_loop (c mod 256) f appended (g # gs) = defrag_loop (Suc c mod 256) ?f (appended @ [headless g]) gs"
    using defrag_loop_step [OF Cons.prems(1,2) g(1,2,4)] g(3) by simp
  note af = append_frag_wf [OF Cons.prems(1,2) g(1,4)]
  have nums: "frag_num (gs ! i) = Suc c + i" if "i < length gs" for i
    using Cons.prems(3) [of "Suc i"] that by simp
  have len: "Suc c + length gs \<le> 256" and wf: "h \<in> set gs \<Longrightarrow> frag_wf h" for h
    using Cons.prems(4,5) by simp_all
  have room: "rx_tail ?f + sum_list (map f_len gs) \<le> length (rx_mem ?f)"
    using af(4,5) Cons.prems(6) by simp
  obtain f' gs' where ih: "defrag_loop (Suc c mod 256) ?f (appended @ [headless g]) gs = Inr (True, f', (appended @ [headless g]) @ gs')"
      "length gs' = length gs" "frame_wf f'" "stripped f' = stripped ?f @ concat (map frag_body gs)" "overhead f' = overhead ?f"
    using Cons.IH [OF af(1,2) nums len wf room] by blast
  have "defrag_loop (c mod 256) f appended (g # gs) = Inr (True, f', appended @ headless g # gs')"
    using step ih(1) by simp
  moreover have "stripped f' = stripped f @ concat (map frag_body (g # gs))" using ih(4) af(3) by simp
  ultimately show ?case using ih(2,3,5) af(6) by (intro exI [of _ f'] exI [of _ "headless g # gs'"]) simp
qed

lemma free_queue_simps [simp]:
  "free_cnt (free_rx rp f) = free_cnt rp + 1" "length (free_q (free_rx rp f)) = length (free_q rp) + 1"
  "free_cnt (rtw_free_recvframe_queue rp q) = free_cnt rp + length q"
  "length (free_q (rtw_free_recvframe_queue rp q)) = length (free_q rp) + length q"
proof -
  show "free_cnt (free_rx rp f) = free_cnt rp + 1" "length (free_q (free_rx rp f)) = length (free_q rp) + 1"
    by (simp_all add: free_rx_def)
  have "free_cnt (foldl free_rx rp q) = free_cnt rp + length q \<and> length (free_q (foldl free_rx rp q)) = length (free_q rp) + length q"
    by (induction q arbitrary: rp) (simp_all add: free_rx_def)
  then show "free_cnt (rtw_free_recvframe_queue rp q) = free_cnt rp + length q"
    "length (free_q (rtw_free_recvframe_queue rp q)) = length (free_q rp) + length q"
    by (simp_all add: rtw_free_recvframe_queue_def)
qed

text \<open>C29: reassembly. Fragments numbered from zero without a gap, each at least as long as its headers and its
  integrity value, are joined when the buffer of the first one has room: the result keeps the headers of the
  first, carries the bodies of all in order, and the others go back to the pool. Nothing is asked of their
  sequence numbers, addresses, keys or encryption.\<close>

theorem recvframe_defrag_joins:
  assumes "\<And>i. i < length (f # gs) \<Longrightarrow> frag_num ((f # gs) ! i) = i" and "length gs < 256"
    and "\<And>g. g \<in> set (f # gs) \<Longrightarrow> frag_wf g"
    and "rx_tail f + sum_list (map f_len gs) \<le> length (rx_mem f)"
  shows "\<exists>f' rp'. recvframe_defrag rp (f # gs) = Inr (Some f', rp') \<and> frame_wf f' \<and>
    take (overhead f) (win f') = take (overhead f) (win f) \<and>
    frag_body f' = concat (map frag_body (f # gs)) \<and>
    free_cnt rp' = free_cnt rp + length gs"
proof -
  have f: "frame_wf f" "overhead f + f_icv_len f \<le> f_len f"
    using assms(3) [of f] by (simp_all add: frag_wf_def)
  have nums: "frag_num (gs ! i) = 1 + i" if "i < length gs" for i
    using assms(1) [of "Suc i"] that by simp
  have len: "1 + length gs \<le> 256" and wf: "h \<in> set gs \<Longrightarrow> frag_wf h" and icv: "f_icv_len f \<le> f_len f" for h
    using assms(2,3) f(2) by simp_all
  obtain f' gs' where loop: "defrag_loop (1 mod 256) f [] gs = Inr (True, f', [] @ gs')" "length gs' = length gs"
      "frame_wf f'" "stripped f' = stripped f @ concat (map frag_body gs)" "overhead f' = overhead f"
    using defrag_loop_joins [OF f(1) icv nums len wf assms(4)] by blast
  have ov: "overhead f \<le> length (stripped f)" using f by (simp add: stripped_length)
  have "take (overhead f) (win f') = take (overhead f) (stripped f')"
    using loop(4) ov by (intro stripped_prefix [OF loop(3), symmetric]) simp
  also have "\<dots> = take (overhead f) (win f)"
    using loop(4) ov stripped_prefix [OF f(1) ov] by simp
  finally have "take (overhead f) (win f') = take (overhead f) (win f)" .
  moreover have "frag_body f' = concat (map frag_body (f # gs))"
    using loop(4,5) ov by (simp add: frag_body_def)
  moreover have "recvframe_defrag rp (f # gs) = Inr (Some f', rtw_free_recvframe_queue rp gs')"
    using loop(1) assms(1) [of 0] by (simp add: recvframe_defrag_def)
  ultimately show ?thesis using loop(2,3) by (intro exI [of _ f'] exI [of _ "rtw_free_recvframe_queue rp gs'"]) simp
qed

definition frag_frame :: "nat \<Rightarrow> bool \<Rightarrow> u8 list \<Rightarrow> nat \<Rightarrow> rx_buf" where
  "frag_frame n mf body room = (pn_frame (replicate 8 0))\<lparr>frag_num := n, mfrag := mf, f_ra := replicate 6 4,
     rx_mem := replicate 32 0 @ body @ replicate (8 + room) 0, rx_tail := 40 + length body, f_len := 40 + length body\<rparr>"

lemma frag_frame_wf: "length body + room < 1000 \<Longrightarrow> frag_wf (frag_frame n mf body room)"
  by (simp add: frag_wf_def frame_wf_def frag_frame_def pn_frame_def)

theorem recvframe_defrag_joins_witness:
  "let f = frag_frame 0 True [1, 2] 200; gs = [(frag_frame 1 True [3] 0)\<lparr>seq_num := 77\<rparr>, frag_frame 2 False [4, 5] 0];
       rp = \<lparr>free_q = [], free_cnt = 0, swdec_q = []\<rparr> in
   \<exists>f' rp'. recvframe_defrag rp (f # gs) = Inr (Some f', rp') \<and> frame_wf f' \<and>
    take (overhead f) (win f') = take (overhead f) (win f) \<and>
    frag_body f' = concat (map frag_body (f # gs)) \<and>
    free_cnt rp' = free_cnt rp + length gs"
proof -
  have w: "frag_wf ((frag_frame 1 True [3] 0)\<lparr>seq_num := 77\<rparr>)"
    using frag_frame_wf [of "[3]" 0 1 True] by (simp add: frag_wf_def frame_wf_def)
  show ?thesis
    unfolding Let_def
    by (rule recvframe_defrag_joins) (use w in \<open>auto simp: frag_wf_def frame_wf_def frag_frame_def pn_frame_def less_Suc_eq\<close>)
qed

text \<open>C30: the buffer of the first fragment is overrun. It is allocated for one frame of 1650 bytes, and the body of
  a further fragment is copied before \<open>recvframe_put\<close> compares it with the end of the buffer. Two fragments
  whose sizes add up to more than the buffer make the copy write outside it.\<close>

theorem recvframe_defrag_overruns:
  assumes "skb_alloc 1664 = Some (mem, off, addr)" and "length mem = off + 1664" and "length mem < 2 ^ 32"
    and "mfrag f" and "frag_num f = 0" and "f_len f = 0"
    and "pkt_len \<le> 1650" and "pkt_len \<le> length pdata" and "f_icv_len f \<le> pkt_len"
    and "frag_num g = 1" and "frag_wf g"
    and "1664 < pkt_len - f_icv_len f + (f_len g - overhead g)"
  shows "bindc (rtw_os_alloc_recvframe skb_alloc clone pdata pkt_len f)
           (\<lambda>(ok, f1). recvframe_defrag rp (snd (recvframe_put f1 pkt_len) # g # gs)) = Inl OutOfBounds"
proof -
  let ?d = "off + (8 - addr mod 8) + (if f_qos f then 6 else 0)"
  let ?m = "written mem ?d (take pkt_len pdata)"
  have d: "?d + pkt_len \<le> length mem" using assms(2,7) by auto
  have len: "length (take pkt_len pdata) = pkt_len" using assms(8) by simp
  have m: "length ?m = off + 1664" using d len assms(2) by simp
  have al: "rtw_os_alloc_recvframe skb_alloc clone pdata pkt_len f = Inr (True, f\<lparr>rx_mem := ?m, rx_data := ?d, rx_tail := ?d\<rparr>)"
    using assms(1,4,5,7,8) d len m
    by (simp add: rtw_os_alloc_recvframe_def alloc_sz_def Let_def rdn_ok wrn_written)
  let ?f = "f\<lparr>rx_mem := ?m, rx_data := ?d, rx_tail := ?d + pkt_len, f_len := pkt_len\<rparr>"
  have put: "snd (recvframe_put (f\<lparr>rx_mem := ?m, rx_data := ?d, rx_tail := ?d\<rparr>) pkt_len) = ?f"
    using d m assms(2,6,7) by (simp add: recvframe_put_def)
  have wf: "frame_wf ?f" using d m assms(2,3) by (simp add: frame_wf_def)
  have "defrag_loop 1 ?f [] (g # gs) = Inl OutOfBounds"
    by (rule defrag_loop_overrun [OF wf _ assms(11,10)]) (use assms(9,12) m in simp_all)
  then show ?thesis using al put assms(5) by (simp add: recvframe_defrag_def)
qed

theorem recvframe_defrag_overruns_witness:
  "bindc (rtw_os_alloc_recvframe (\<lambda>n. Some (replicate (64 + n) 0, 64, 0)) None (replicate 1600 0) 1600
            ((frag_frame 0 True [] 0)\<lparr>f_len := 0\<rparr>))
     (\<lambda>(ok, f1). recvframe_defrag \<lparr>free_q = [], free_cnt = 0, swdec_q = []\<rparr>
        (snd (recvframe_put f1 1600) # frag_frame 1 False (replicate 200 0) 0 # [])) =
   Inl OutOfBounds"
  by (rule recvframe_defrag_overruns [where mem = "replicate (64 + 1664) 0" and off = 64 and addr = 0])
    (simp_all add: frag_frame_wf, simp_all add: frag_frame_def pn_frame_def)

section \<open>No frame is lost\<close>

definition frames_in :: "rx_state \<Rightarrow> nat" where
  "frames_in st = length (free_q (pool st)) + (\<Sum>a \<in> dom (stations st). length (queue_of st a))"

definition rx_ok :: "rx_state \<Rightarrow> bool" where
  "rx_ok st \<longleftrightarrow> free_cnt (pool st) = length (free_q (pool st)) \<and> finite (dom (stations st))"

abbreviation frames_out :: "rx_buf option \<Rightarrow> nat" where
  "frames_out r \<equiv> (case r of None \<Rightarrow> 0 | Some _ \<Rightarrow> 1)"

lemma defrag_loop_length: "defrag_loop c f appended gs = Inr (ok, f', gs') \<Longrightarrow> length gs' = length appended + length gs"
proof (induction gs arbitrary: c f appended)
  case Nil
  then show ?case by simp
next
  case (Cons g gs)
  show ?case
  proof (cases "c = frag_num g")
    case False
    then show ?thesis using Cons.prems by auto
  next
    case True
    then obtain c' f'' g' where "defrag_loop c' f'' (appended @ [g']) gs = Inr (ok, f', gs')"
      using Cons.prems by (auto simp: Let_def)
    from Cons.IH [OF this] show ?thesis by simp
  qed
qed

lemma recvframe_defrag_count:
  assumes "recvframe_defrag rp q = Inr (r, rp')"
  shows "length (free_q rp') + frames_out r = length (free_q rp) + length q"
    and "free_cnt rp' + frames_out r = free_cnt rp + length q"
  using assms defrag_loop_length
  by (fastforce simp: recvframe_defrag_def split: list.splits if_splits)+

lemma queue_of_pool [simp]: "queue_of (st\<lparr>pool := rp\<rparr>) a = queue_of st a"
  "queue_of (st\<lparr>rx_security := sec\<rparr>) a = queue_of st a"
  by (simp_all add: queue_of_def)

lemma frames_in_pool: "frames_in (st\<lparr>pool := rp\<rparr>) + length (free_q (pool st)) = frames_in st + length (free_q rp)"
  by (simp add: frames_in_def)

lemma frames_in_sec [simp]: "frames_in (st\<lparr>rx_security := sec\<rparr>) = frames_in st"
  by (simp add: frames_in_def)

lemma set_queue_pool [simp]: "pool (set_queue a q st) = pool st"
  by (simp add: set_queue_def split: option.splits)

lemma set_queue_frames:
  assumes "finite (dom (stations st))" and "stations st a = Some s"
  shows "frames_in (set_queue a q st) + length (queue_of st a) = frames_in st + length q"
    and "dom (stations (set_queue a q st)) = dom (stations st)"
proof -
  show d: "dom (stations (set_queue a q st)) = dom (stations st)"
    using assms(2) by (auto simp: set_queue_def)
  have q: "queue_of (set_queue a q st) b = (if b = a then q else queue_of st b)" for b
    using assms(2) by (simp add: queue_of_def set_queue_def)
  have a: "a \<in> dom (stations st)" using assms(2) by blast
  have "(\<Sum>b \<in> dom (stations st) - {a}. length (queue_of (set_queue a q st) b)) =
      (\<Sum>b \<in> dom (stations st) - {a}. length (queue_of st b))"
    by (rule sum.cong) (simp_all add: q)
  then show "frames_in (set_queue a q st) + length (queue_of st a) = frames_in st + length q"
    using sum.remove [OF assms(1) a, of "\<lambda>b. length (queue_of (set_queue a q st) b)"]
      sum.remove [OF assms(1) a, of "\<lambda>b. length (queue_of st b)"]
    by (simp add: frames_in_def d q)
qed

lemma queue_fragment_count:
  assumes "queue_fragment f owner st = Inr (r, st')" and "rx_ok st"
    and "\<And>a. owner = Some a \<Longrightarrow> stations st a \<noteq> None"
  shows "frames_in st' + frames_out r = frames_in st + 1 \<and> rx_ok st'"
proof (cases "\<not> mfrag f \<and> frag_num f = 0")
  case True
  then show ?thesis using assms(1,2) by (auto simp: queue_fragment_def)
next
  case whole: False
  show ?thesis
  proof (cases owner)
    case None
    then show ?thesis
      using assms(1,2) whole frames_in_pool [where st = st and rp = "free_rx (pool st) f"]
      by (auto simp: queue_fragment_def rx_ok_def)
  next
    case (Some a)
    then obtain s where s: "stations st a = Some s" using assms(3) by blast
    have fin: "finite (dom (stations st))" using assms(2) by (simp add: rx_ok_def)
    have set: "frames_in (set_queue a q (st\<lparr>pool := rp\<rparr>)) + length (queue_of st a) = frames_in (st\<lparr>pool := rp\<rparr>) + length q"
      "dom (stations (set_queue a q (st\<lparr>pool := rp\<rparr>))) = dom (stations st)" for q rp
      using set_queue_frames [of "st\<lparr>pool := rp\<rparr>" a s q] fin s by simp_all
    note put = frames_in_pool [where st = st]
    show ?thesis
    proof (cases "mfrag f")
      case True
      show ?thesis
      proof (cases "frag_num f = 0")
        case True
        let ?rp = "rtw_free_recvframe_queue (pool st) (queue_of st a)"
        have "st' = set_queue a [f] (st\<lparr>pool := ?rp\<rparr>)" "r = None"
          using assms(1) Some \<open>mfrag f\<close> True by (auto simp: queue_fragment_def)
        then show ?thesis
          using set [of "[f]" ?rp] put [of ?rp] assms(2) by (simp add: rx_ok_def)
      next
        case False
        have "st' = set_queue a (queue_of st a @ [f]) st" "r = None"
          using assms(1) Some \<open>mfrag f\<close> False by (auto simp: queue_fragment_def)
        then show ?thesis
          using set_queue_frames [OF fin s, of "queue_of st a @ [f]"] assms(2) by (simp add: rx_ok_def)
      qed
    next
      case False
      then obtain rp where d: "recvframe_defrag (pool st) (queue_of st a @ [f]) = Inr (r, rp)"
        and st': "st' = set_queue a [] (st\<lparr>pool := rp\<rparr>)"
        using assms(1) Some whole by (auto simp: queue_fragment_def)
      show ?thesis
        using set [of "[]" rp] put [of rp] recvframe_defrag_count [OF d] assms(2) unfolding st'
        by (simp add: rx_ok_def)
    qed
  qed
qed

lemma defrag_owner_known: "defrag_owner st f = Inr (Some a) \<Longrightarrow> stations st a \<noteq> None"
  by (auto simp: defrag_owner_def split: option.splits if_splits)

text \<open>C31: no frame is lost. Whatever a received frame is, a whole frame, a fragment in or out of order, the last
  fragment, or one whose integrity check fails, it ends in exactly one place: handed on, kept in the queue of a
  station, or back in the pool, together with every frame that was queued before, and the counter of free
  frames stays the length of the free queue.\<close>

theorem recvframe_chk_defrag_conserves:
  assumes "recvframe_chk_defrag st f = Inr (r, st')" and "rx_ok st"
  shows "frames_in st' + frames_out r = frames_in st + 1 \<and> rx_ok st'"
proof -
  obtain owner q st1 where owner: "defrag_owner st f = Inr owner"
    and st1: "queue_fragment f owner st = Inr (q, st1)"
    and rest: "(case q of None \<Rightarrow> Inr (None, st1) | Some g \<Rightarrow>
         if privacy g then
           bindc (recvframe_chkmic (stations st1 (f_ta g)) (rx_security st1) g) (\<lambda>(ok, sec, g').
           let st2 = st1\<lparr>rx_security := sec\<rparr> in
           if ok then Inr (Some g', st2) else Inr (None, st2\<lparr>pool := free_rx (pool st2) g'\<rparr>))
         else Inr (Some g, st1)) = Inr (r, st')"
    using assms(1) by (auto simp: recvframe_chk_defrag_def)
  have "frames_in st1 + frames_out q = frames_in st + 1" and ok1: "rx_ok st1"
    using queue_fragment_count [OF st1 assms(2)] defrag_owner_known owner by blast+
  moreover have "frames_in st' + frames_out r = frames_in st1 + frames_out q \<and> rx_ok st'"
  proof (cases q)
    case None
    then show ?thesis using rest ok1 by simp
  next
    case (Some g)
    show ?thesis
    proof (cases "privacy g")
      case False
      then show ?thesis using rest Some ok1 by auto
    next
      case True
      then obtain ok sec g' where "recvframe_chkmic (stations st1 (f_ta g)) (rx_security st1) g = Inr (ok, sec, g')"
        using rest Some by auto
      then show ?thesis
        using rest Some True ok1 frames_in_pool [where st = "st1\<lparr>rx_security := sec\<rparr>" and rp = "free_rx (pool st1) g'"]
        by (cases ok) (auto simp: rx_ok_def Let_def)
    qed
  qed
  ultimately show ?thesis by simp
qed

definition rx_example :: rx_state where
  "rx_example = \<lparr>pool = \<lparr>free_q = [], free_cnt = 0, swdec_q = []\<rparr>,
     stations = [replicate 6 2 \<mapsto> \<lparr>defrag_q = [frag_frame 0 True [1, 2] 200], dot11tkiprxmickey = replicate 8 0\<rparr>],
     rx_security = \<lparr>rx_binstallGrpkey = False, bcheck_grpkey = False, dot118021XGrprxmickey = [], info_key_index = 0,
       mic_events = []\<rparr>\<rparr>"

theorem recvframe_chk_defrag_conserves_witness:
  "let f = frag_frame 2 False [3] 0;
       st' = rx_example\<lparr>pool := \<lparr>free_q = [(frag_frame 0 True [1, 2] 200)\<lparr>f_len := 0\<rparr>, f\<lparr>f_len := 0\<rparr>],
                free_cnt = 2, swdec_q = []\<rparr>,
              stations := [replicate 6 2 \<mapsto> \<lparr>defrag_q = [], dot11tkiprxmickey = replicate 8 0\<rparr>]\<rparr> in
   recvframe_chk_defrag rx_example f = Inr (None, st') \<and>
   frames_in st' + frames_out None = frames_in rx_example + 1 \<and> rx_ok st'"
proof -
  let ?f = "frag_frame 2 False [3] 0"
  let ?st = "rx_example\<lparr>pool := \<lparr>free_q = [(frag_frame 0 True [1, 2] 200)\<lparr>f_len := 0\<rparr>, ?f\<lparr>f_len := 0\<rparr>],
                free_cnt = 2, swdec_q = []\<rparr>,
              stations := [replicate 6 2 \<mapsto> \<lparr>defrag_q = [], dot11tkiprxmickey = replicate 8 0\<rparr>]\<rparr>"
  have run: "recvframe_chk_defrag rx_example ?f = Inr (None, ?st)"
    by (simp add: recvframe_chk_defrag_def defrag_owner_def queue_fragment_def queue_of_def set_queue_def
        recvframe_defrag_def rtw_free_recvframe_queue_def free_rx_def rx_example_def frag_frame_def pn_frame_def)
  have "rx_ok rx_example" by (simp add: rx_ok_def rx_example_def)
  from recvframe_chk_defrag_conserves [OF run this] run show ?thesis by (simp add: Let_def)
qed

section \<open>The integrity check\<close>

text \<open>the integrity check of a TKIP frame for this station. When the frame lies in its buffer as header, TKIP
  header, data, eight bytes of integrity code and the encryption's own check value, the frame passes exactly if the
  eight bytes are Michael over its addresses, its priority and its data under the key of the station, they are
  cut off the end, and a mismatch is reported exactly when the frame had been decrypted.\<close>

theorem recvframe_chkmic_michael:
  assumes "f_encrypt f = TKIP" and "\<not> IS_MCAST (f_ra f)" and "frame_wf f" and "length (dot11tkiprxmickey sta) = 8"
    and "win f = hdr @ iv @ dat @ mic @ icv" and "length hdr = f_hdrlen f" and "length iv = f_iv_len f"
    and "length mic = 8" and "length icv = f_icv_len f"
    and "mic_addresses (drop (rx_data f) (rx_mem f)) = Inr (da, sa)"
  shows "recvframe_chkmic (Some sta) sec f =
    (let good = michael (dot11tkiprxmickey sta) (da @ sa @ [of_nat (priority f), 0, 0, 0] @ dat) = mic in
     Inr (good, if \<not> good \<and> bdecrypted f then sec\<lparr>mic_events := mic_events sec @ [False]\<rparr> else sec,
          f\<lparr>rx_tail := rx_tail f - 8, f_len := f_len f - 8\<rparr>))"
proof -
  have len: "f_len f = f_hdrlen f + f_iv_len f + length dat + 8 + f_icv_len f"
    using win_length [OF assms(3)] assms(5-9) by simp
  have small: "f_len f < 2 ^ 32" using frame_wf_bounds [OF assms(3)] by blast
  have dl: "chkmic_datalen f = length dat"
    using small len by (simp add: chkmic_datalen_def)
  let ?p = "rx_data f + f_hdrlen f + f_iv_len f"
  have buf: "drop (rx_data f) (rx_mem f) = hdr @ iv @ dat @ mic @ icv @ drop (rx_tail f) (rx_mem f)"
  proof -
    have "drop (f_len f) (drop (rx_data f) (rx_mem f)) = drop (rx_tail f) (rx_mem f)"
      using assms(3) by (simp add: frame_wf_def add.commute)
    then show ?thesis
      using append_take_drop_id [of "f_len f" "drop (rx_data f) (rx_mem f)"] assms(5) by (simp add: win_def)
  qed
  have pay: "drop ?p (rx_mem f) = dat @ mic @ icv @ drop (rx_tail f) (rx_mem f)"
  proof -
    have "drop ?p (rx_mem f) = drop (f_hdrlen f + f_iv_len f) (drop (rx_data f) (rx_mem f))"
      by (simp add: ac_simps)
    then show ?thesis unfolding buf using assms(6,7) by simp
  qed
  have mic: "rdn (rx_mem f) (?p + length dat) 8 = Inr mic"
  proof -
    have "drop (?p + length dat) (rx_mem f) = mic @ icv @ drop (rx_tail f) (rx_mem f)"
      using arg_cong [OF pay, of "drop (length dat)"] by (simp add: ac_simps)
    moreover have "?p + length dat + 8 \<le> length (rx_mem f)"
      using len assms(3) by (simp add: frame_wf_def)
    ultimately show ?thesis using assms(8) by (simp add: rdn_def)
  qed
  have "chkmic_compare (dot11tkiprxmickey sta) f =
      Inr (michael (dot11tkiprxmickey sta) (da @ sa @ [of_nat (priority f), 0, 0, 0] @ dat) = mic)"
    using seccalctkipmic_value [OF assms(4,10), of "length dat" "drop ?p (rx_mem f)"] mic
    by (simp add: chkmic_compare_def dl pay Let_def)
  then show ?thesis
    using assms(1,2) pull_tail_ok [OF assms(3), of 8] len
    by (simp add: recvframe_chkmic_def chkmic_key_def chkmic_verdict_def Let_def)
qed

definition tkip_frame :: rx_buf where
  "tkip_frame = (frag_frame 0 False ([1, 2, 3] @ replicate 8 9) 0)\<lparr>f_encrypt := 2,
     rx_mem := replicate 24 0 @ replicate 8 0 @ [1, 2, 3] @ replicate 8 9 @ replicate 8 0\<rparr>"

theorem recvframe_chkmic_michael_witness:
  "recvframe_chkmic (Some \<lparr>defrag_q = [], dot11tkiprxmickey = [1, 2, 3, 4, 5, 6, 7, 8]\<rparr>) (rx_security rx_example) tkip_frame =
    (let good = michael [1, 2, 3, 4, 5, 6, 7, 8] (replicate 6 0 @ replicate 6 0 @ [of_nat 0, 0, 0, 0] @ [1, 2, 3]) =
       replicate 8 9 in
     Inr (good, if \<not> good \<and> True then (rx_security rx_example)\<lparr>mic_events := mic_events (rx_security rx_example) @ [False]\<rparr>
         else rx_security rx_example,
          tkip_frame\<lparr>rx_tail := 43, f_len := 43\<rparr>))"
proof -
  let ?sta = "\<lparr>defrag_q = [], dot11tkiprxmickey = [1, 2, 3, 4, 5, 6, 7, 8]\<rparr> :: rx_sta"
  note def = tkip_frame_def frag_frame_def pn_frame_def
  have addr: "mic_addresses (drop (rx_data tkip_frame) (rx_mem tkip_frame)) = Inr (replicate 6 0, replicate 6 0)"
    by (simp add: def mic_addresses_def rd_def rdn_def)
  have win: "win tkip_frame = replicate 24 0 @ replicate 8 0 @ [1, 2, 3] @ replicate 8 9 @ replicate 8 0"
    by (simp add: def win_def)
  have "recvframe_chkmic (Some ?sta) (rx_security rx_example) tkip_frame =
    (let good = michael (dot11tkiprxmickey ?sta)
       (replicate 6 0 @ replicate 6 0 @ [of_nat (priority tkip_frame), 0, 0, 0] @ [1, 2, 3]) = replicate 8 9 in
     Inr (good, if \<not> good \<and> bdecrypted tkip_frame then (rx_security rx_example)\<lparr>mic_events := mic_events (rx_security rx_example) @ [False]\<rparr>
         else rx_security rx_example,
          tkip_frame\<lparr>rx_tail := rx_tail tkip_frame - 8, f_len := f_len tkip_frame - 8\<rparr>))"
    by (rule recvframe_chkmic_michael [OF _ _ _ _ win _ _ _ _ addr])
      (simp_all add: def TKIP_def IS_MCAST_def frame_wf_def)
  then show ?thesis by (simp add: def)
qed

lemma datalen_wraps:
  assumes "f_len f < f_hdrlen f + f_iv_len f + f_icv_len f + 8" and "f_hdrlen f + f_iv_len f + f_icv_len f + 8 < 2 ^ 31"
  shows "chkmic_datalen f = 2 ^ 32 + f_len f - (f_hdrlen f + f_iv_len f + f_icv_len f + 8)"
proof -
  let ?n = "int (f_len f) - int (f_hdrlen f) - int (f_iv_len f) - int (f_icv_len f) - 8"
  have "chkmic_datalen f = nat (?n mod 2 ^ 32)"
    unfolding chkmic_datalen_def usub32_def by (simp add: mod_simps)
  moreover have "?n mod 2 ^ 32 = ?n + 2 ^ 32"
  proof -
    have "(?n + 2 ^ 32) mod 2 ^ 32 = ?n + 2 ^ 32"
      using assms by (intro mod_pos_pos_trivial) simp_all
    then show ?thesis by (simp only: mod_add_self2)
  qed
  ultimately show ?thesis using assms by simp
qed

lemma micsetkey_errors: "rtw_secmicsetkey d key = Inl e \<Longrightarrow> e = OutOfBounds"
  by (auto simp: rtw_secmicsetkey_def bindc_eq_Inl Let_def dest: rd_errors split: if_splits)

lemma mic_addresses_errors: "mic_addresses header = Inl e \<Longrightarrow> e = OutOfBounds"
  by (auto simp: mic_addresses_def bindc_eq_Inl dest: rd_errors split: if_splits)

lemma seccalctkipmic_overrun: "length dat < n \<Longrightarrow> rtw_seccalctkipmic key header dat n pri = Inl OutOfBounds"
  using micsetkey_errors mic_addresses_errors
  by (cases "rtw_secmicsetkey mic_zero key"; cases "mic_addresses header") (auto simp: rtw_seccalctkipmic_def bindc_def rdn_def)

text \<open>a TKIP frame too short for its headers, its integrity code and its check value is not refused: the
  length of its data wraps around to almost 2 ^ 32 and the code reads outside the buffer.\<close>

theorem recvframe_chkmic_short:
  assumes "f_encrypt f = TKIP" and "\<not> IS_MCAST (f_ra f)"
    and "f_len f < f_hdrlen f + f_iv_len f + f_icv_len f + 8" and "f_hdrlen f + f_iv_len f + f_icv_len f + 8 < 2 ^ 31"
    and "length (rx_mem f) < 2 ^ 31"
  shows "recvframe_chkmic (Some sta) sec f = Inl OutOfBounds"
proof -
  have "length (drop (rx_data f + f_hdrlen f + f_iv_len f) (rx_mem f)) < chkmic_datalen f"
    using assms(5) datalen_wraps [OF assms(3,4)] assms(4) by simp
  then show ?thesis
    using assms(1,2) seccalctkipmic_overrun
    by (simp add: recvframe_chkmic_def chkmic_key_def chkmic_compare_def Let_def)
qed

theorem recvframe_chkmic_short_witness:
  "recvframe_chkmic (Some \<lparr>defrag_q = [], dot11tkiprxmickey = replicate 8 0\<rparr>) (rx_security rx_example)
     ((frag_frame 0 False [1] 0)\<lparr>f_encrypt := 2\<rparr>) = Inl OutOfBounds"
  by (rule recvframe_chkmic_short) (simp_all add: frag_frame_def pn_frame_def TKIP_def IS_MCAST_def)

section \<open>The conversion of the header\<close>

lemma pull_win:
  assumes "frame_wf f" and "n \<le> f_len f"
  shows "recvframe_pull f n = (True, f\<lparr>rx_data := rx_data f + n, f_len := f_len f - n\<rparr>)"
    and "frame_wf (f\<lparr>rx_data := rx_data f + n, f_len := f_len f - n\<rparr>)"
    and "win (f\<lparr>rx_data := rx_data f + n, f_len := f_len f - n\<rparr>) = drop n (win f)"
  using assms frame_wf_bounds [OF assms(1)]
  by (auto simp: recvframe_pull_def frame_wf_def win_def drop_take add.commute)

lemma win_written:
  assumes "frame_wf f" and "length xs \<le> f_len f"
  shows "win (f\<lparr>rx_mem := written (rx_mem f) (rx_data f) xs\<rparr>) = xs @ drop (length xs) (win f)"
    and "frame_wf (f\<lparr>rx_mem := written (rx_mem f) (rx_data f) xs\<rparr>)"
    and "wrn (rx_mem f) (rx_data f) xs = Inr (written (rx_mem f) (rx_data f) xs)"
proof -
  have r: "rx_data f + length xs \<le> length (rx_mem f)" "rx_data f \<le> length (rx_mem f)"
    using assms by (auto simp: frame_wf_def)
  show "wrn (rx_mem f) (rx_data f) xs = Inr (written (rx_mem f) (rx_data f) xs)" using r(1) by (rule wrn_written)
  show "frame_wf (f\<lparr>rx_mem := written (rx_mem f) (rx_data f) xs\<rparr>)" using assms(1) r(1) by (simp add: frame_wf_def)
  show "win (f\<lparr>rx_mem := written (rx_mem f) (rx_data f) xs\<rparr>) = xs @ drop (length xs) (win f)"
    using r assms(2) by (simp add: win_def written_def drop_take add.commute)
qed

lemma win_rdn:
  assumes "frame_wf f" and "i + n \<le> f_len f"
  shows "rdn (rx_mem f) (rx_data f + i) n = Inr (take n (drop i (win f)))"
proof -
  have "rx_data f + i + n \<le> length (rx_mem f)" using assms by (auto simp: frame_wf_def)
  moreover have "take n (drop i (win f)) = take n (drop (rx_data f + i) (rx_mem f))"
    using assms(2) by (simp add: win_def drop_take add.commute min_def)
  ultimately show ?thesis by (simp add: rdn_ok)
qed

text \<open>Whether the LLC header of a body is dropped in favour of the type behind it.\<close>

definition encapsulated :: "u8 list \<Rightarrow> bool" where
  "encapsulated body \<longleftrightarrow>
     take 6 body = rtw_bridge_tunnel_header \<or>
     take 6 body = rtw_rfc1042_header \<and> take 2 (drop 6 body) \<noteq> SNAP_ETH_TYPE_IPX \<and>
       take 2 (drop 6 body) \<noteq> SNAP_ETH_TYPE_APPLETALK_AARP"

lemma bsnaphdr_win:
  assumes "frame_wf f" and "p + 8 \<le> f_len f"
  shows "bsnaphdr_at (rx_mem f) (rx_data f + p) = Inr (encapsulated (drop p (win f)))"
proof -
  have "rtw_rfc1042_header \<noteq> rtw_bridge_tunnel_header"
    by (simp add: rtw_rfc1042_header_def rtw_bridge_tunnel_header_def)
  moreover have "rdn (rx_mem f) (rx_data f + p) 6 = Inr (take 6 (drop p (win f)))"
    and "rdn (rx_mem f) (rx_data f + p + 6) 2 = Inr (take 2 (drop 6 (drop p (win f))))"
    using win_rdn [OF assms(1), of p 6] win_rdn [OF assms(1), of "p + 6" 2] assms(2) by (simp_all add: ac_simps)
  ultimately show ?thesis
    by (auto simp: bsnaphdr_at_def SNAP_SIZE_def encapsulated_def)
qed

lemma eth_finish:
  assumes "frame_wf f" and "n + length xs \<le> f_len f"
  shows "(let (ok, f3) = recvframe_pull f n in
      if \<not> ok then Inr (False, f3)
      else bindc (wrn (rx_mem f3) (rx_data f3) xs) (\<lambda>mem. Inr (True, f3\<lparr>rx_mem := mem\<rparr>))) =
    Inr (True, f\<lparr>rx_data := rx_data f + n, f_len := f_len f - n, rx_mem := written (rx_mem f) (rx_data f + n) xs\<rparr>)"
    and "win (f\<lparr>rx_data := rx_data f + n, f_len := f_len f - n, rx_mem := written (rx_mem f) (rx_data f + n) xs\<rparr>) =
      xs @ drop (n + length xs) (win f)"
    and "frame_wf (f\<lparr>rx_data := rx_data f + n, f_len := f_len f - n, rx_mem := written (rx_mem f) (rx_data f + n) xs\<rparr>)"
proof -
  let ?g = "f\<lparr>rx_data := rx_data f + n, f_len := f_len f - n\<rparr>"
  have n: "n \<le> f_len f" and l: "length xs \<le> f_len ?g" using assms(2) by simp_all
  note pull = pull_win [OF assms(1) n]
  note w = win_written [OF pull(2) l]
  show "(let (ok, f3) = recvframe_pull f n in
      if \<not> ok then Inr (False, f3)
      else bindc (wrn (rx_mem f3) (rx_data f3) xs) (\<lambda>mem. Inr (True, f3\<lparr>rx_mem := mem\<rparr>))) =
    Inr (True, f\<lparr>rx_data := rx_data f + n, f_len := f_len f - n, rx_mem := written (rx_mem f) (rx_data f + n) xs\<rparr>)"
    using w(3) by (simp add: pull(1))
  show "win (f\<lparr>rx_data := rx_data f + n, f_len := f_len f - n, rx_mem := written (rx_mem f) (rx_data f + n) xs\<rparr>) =
      xs @ drop (n + length xs) (win f)"
    using w(1) pull(3) by (simp add: ac_simps)
  show "frame_wf (f\<lparr>rx_data := rx_data f + n, f_len := f_len f - n, rx_mem := written (rx_mem f) (rx_data f + n) xs\<rparr>)"
    using w(2) by simp
qed

text \<open>The integrity check value of a decrypted frame is cut off its end.\<close>

lemma cut_icv:
  assumes "frame_wf f" and "win f = hdr @ iv @ body @ icv" and "length hdr = f_hdrlen f" and "length iv = f_iv_len f"
    and "length icv = (if f_encrypt f \<noteq> 0 then f_icv_len f else 0)"
  obtains f1 where "f1 = (if f_encrypt f \<noteq> 0 then snd (recvframe_pull_tail f (f_icv_len f)) else f)"
    "f1 = f\<lparr>rx_tail := rx_tail f - length icv, f_len := f_len f - length icv\<rparr>" "frame_wf f1"
    "f_len f1 = overhead f1 + length body" "win f1 = hdr @ iv @ body" "drop (overhead f1) (win f1) = body"
proof -
  have len: "f_len f = overhead f + length body + length icv"
    using win_length [OF assms(1)] assms(2-4) by simp
  define f1 where "f1 = (if f_encrypt f \<noteq> 0 then snd (recvframe_pull_tail f (f_icv_len f)) else f)"
  have f1: "f1 = f\<lparr>rx_tail := rx_tail f - length icv, f_len := f_len f - length icv\<rparr>"
    using assms(5) pull_tail_ok [OF assms(1), of "f_icv_len f"] len by (simp add: f1_def)
  have wf: "frame_wf f1" using assms(1) len by (auto simp: frame_wf_def f1)
  have len1: "f_len f1 = overhead f1 + length body" using len by (simp add: f1)
  have "win f1 = take (f_len f1) (win f)" by (simp add: win_def f1 min_def)
  then have win1: "win f1 = hdr @ iv @ body" using assms(2-4) len1 by (simp add: f1)
  then have "drop (overhead f1) (win f1) = body" using assms(3,4) by (simp add: f1)
  with that [OF f1_def f1 wf len1 win1] show thesis .
qed

text \<open>C32: the conversion to Ethernet. Of a frame that holds header, encryption header, a body of at least eight
  bytes and the check value, what is left is destination, source and the body: without the LLC header when it is
  the bridge tunnel's or RFC 1042's and the type is neither IPX nor AARP, and behind its length otherwise.\<close>

theorem wlanhdr_to_ethhdr_frame:
  assumes "frame_wf f" and "win f = hdr @ iv @ body @ icv"
    and "length hdr = f_hdrlen f" and "length iv = f_iv_len f" and "24 \<le> f_hdrlen f" and "8 \<le> length body"
    and "length icv = (if f_encrypt f \<noteq> 0 then f_icv_len f else 0)"
    and "length (f_dst f) = 6" and "length (f_src f) = 6"
  shows "\<exists>f'. wlanhdr_to_ethhdr f = Inr (True, f') \<and> frame_wf f' \<and>
    win f' = f_dst f @ f_src f @ (if encapsulated body then drop 6 body else put_be16 (of_nat (length body)) @ body)"
proof -
  obtain f1 where f1_def: "f1 = (if f_encrypt f \<noteq> 0 then snd (recvframe_pull_tail f (f_icv_len f)) else f)"
    and f1: "f1 = f\<lparr>rx_tail := rx_tail f - length icv, f_len := f_len f - length icv\<rparr>" and wf: "frame_wf f1"
    and len1: "f_len f1 = overhead f1 + length body" and win1: "win f1 = hdr @ iv @ body"
    and body: "drop (overhead f1) (win f1) = body"
    using cut_icv [OF assms(1-4,7)] .
  define b where "b = encapsulated body"
  define rmv where "rmv = overhead f1 + (if b then 6 else 0)"
  define n where "n = rmv - 14 + (if b then 2 else 0)"
  define t where "t = take 2 (drop rmv (win f1))"
  define xs where "xs = f_dst f @ f_src f @ (if b then [] else put_be16 (of_nat (length body)))"
  let ?f2 = "f1\<lparr>eth_type := get_be16 (t ! 0) (t ! 1)\<rparr>"
  have wf2: "frame_wf ?f2" "win ?f2 = win f1" using wf by (simp_all add: frame_wf_def win_def)
  have snap: "bsnaphdr_at (rx_mem f1) (rx_data f1 + f_hdrlen f1 + f_iv_len f1) = Inr b"
    using bsnaphdr_win [OF wf, of "overhead f1"] len1 assms(6) by (simp add: body b_def add.assoc)
  have rmv: "14 \<le> rmv" "rmv + 2 \<le> f_len f1"
    using assms(5,6) len1 by (auto simp: rmv_def f1)
  have t: "rdn (rx_mem f1) (rx_data f1 + rmv) 2 = Inr t"
    unfolding t_def using win_rdn [OF wf rmv(2)] .
  have nx: "n + length xs = rmv"
    using rmv(1) assms(8,9) by (simp add: n_def xs_def)
  have out: "usub32 (f_len f1) (overhead f1) = length body"
    using len1 frame_wf_bounds [OF wf] by simp
  have "wlanhdr_to_ethhdr f =
      (let (ok, f3) = recvframe_pull ?f2 n in
       if \<not> ok then Inr (False, f3)
       else bindc (wrn (rx_mem f3) (rx_data f3)
              (take 6 (f_dst f3) @ take 6 (f_src f3) @ (if b then [] else put_be16 (of_nat (usub32 (f_len f1) rmv)))))
            (\<lambda>mem. Inr (True, f3\<lparr>rx_mem := mem\<rparr>)))"
    unfolding wlanhdr_to_ethhdr_def f1_def [symmetric] Let_def snap bindc_Inr SNAP_SIZE_def rmv_def [symmetric] t
      n_def [symmetric] ..
  also have "\<dots> = (let (ok, f3) = recvframe_pull ?f2 n in
       if \<not> ok then Inr (False, f3)
       else bindc (wrn (rx_mem f3) (rx_data f3) xs) (\<lambda>mem. Inr (True, f3\<lparr>rx_mem := mem\<rparr>)))"
    using assms(8,9) out
    by (simp add: recvframe_pull_def xs_def rmv_def f1)
  finally have run: "wlanhdr_to_ethhdr f = \<dots>" .
  have fits: "n + length xs \<le> f_len ?f2" using nx rmv(2) by simp
  have "drop rmv (win f1) = (if b then drop 6 body else body)"
    by (cases b) (simp_all add: rmv_def body [symmetric] ac_simps)
  then show ?thesis
    using run eth_finish [OF wf2(1) fits] nx wf2(2)
    by (auto simp: xs_def b_def)
qed

theorem wlanhdr_to_ethhdr_frame_witness:
  "let body = [0xaa, 0xaa, 3, 0, 0, 0, 8, 0, 69]; f = (frag_frame 0 False body 0)\<lparr>f_dst := replicate 6 1, f_src := replicate 6 2\<rparr> in
   \<exists>f'. wlanhdr_to_ethhdr f = Inr (True, f') \<and> frame_wf f' \<and>
    win f' = f_dst f @ f_src f @ (if encapsulated body then drop 6 body else put_be16 (of_nat (length body)) @ body)"
  unfolding Let_def
  by (rule wlanhdr_to_ethhdr_frame [where hdr = "replicate 24 0" and iv = "replicate 8 0" and icv = "replicate 8 0"])
    (simp_all add: frag_frame_def pn_frame_def frame_wf_def win_def replicate_append_same [symmetric] flip: replicate_add append_assoc)

text \<open>The frames that wait for software decryption all go back to the pool.\<close>

lemma swdec_drain_count:
  assumes "swdec_drain q rp = (cnt, rp')" and "swdec_q rp = q"
  shows "cnt = length q \<and> swdec_q rp' = [] \<and> length (free_q rp') = length (free_q rp) + cnt \<and>
    free_cnt rp' = free_cnt rp + cnt"
  using assms
proof (induction q rp arbitrary: cnt rp' rule: swdec_drain.induct)
  case (1 rp)
  then show ?case by simp
next
  case (2 f q rp)
  obtain m rp1 where d: "swdec_drain q (free_rx (rp\<lparr>swdec_q := q\<rparr>) f) = (m, rp1)" by fastforce
  have "swdec_q (free_rx (rp\<lparr>swdec_q := q\<rparr>) f) = q" by (simp add: free_rx_def)
  from "2.IH" [OF d this] show ?case using "2.prems"(1) d by (simp add: free_rx_def)
qed

lemma rtw_free_uc_swdec_pending_queue_count:
  assumes "rtw_free_uc_swdec_pending_queue rp = (cnt, rp')"
  shows "cnt = length (swdec_q rp)" "swdec_q rp' = []" "length (free_q rp') = length (free_q rp) + cnt"
    "free_cnt rp' = free_cnt rp + cnt"
  using swdec_drain_count [of "swdec_q rp" rp cnt rp'] assms by (simp_all add: rtw_free_uc_swdec_pending_queue_def)

end
