(* ===== verification/Bcn.thy ===== *)
theory Bcn
  imports Ie Macid
begin

text \<open>
  The elements of the beacon of an access point (core/rtw_ap.c): the traffic indication element, its update,
  and the insertion and removal of an element by its identifier. The elements lie behind 12 fixed bytes in an array,
  of which the first \<open>bcn_ie_len\<close> bytes are in use. A refused memory allocation is the parameter \<open>alloc\<close>.
\<close>

section \<open>The traffic indication element\<close>

definition WLAN_EID_TIM :: nat where "WLAN_EID_TIM = 5"

definition rtw_set_tim_ie :: "u8 \<Rightarrow> u8 \<Rightarrow> u8 list \<Rightarrow> nat \<Rightarrow> u8 list" where
  "rtw_set_tim_ie dtim_cnt dtim_period tim_bmp tim_bmp_len =
     (let (n1, bmp_len) =
            (if rtw_bmp_not_empty tim_bmp tim_bmp_len then
               let i = (case find (\<lambda>i. tim_bmp ! i \<noteq> 0) [0..<tim_bmp_len] of Some i \<Rightarrow> i | None \<Rightarrow> tim_bmp_len);
                   n1 = i - i mod 2;
                   n2 = (case find (\<lambda>i. tim_bmp ! i \<noteq> 0) (rev [1..<tim_bmp_len]) of Some i \<Rightarrow> i | None \<Rightarrow> 0)
               in (n1, n2 - n1 + 1)
             else (0, 1))
      in [of_nat WLAN_EID_TIM, of_nat (2 + 1 + bmp_len), dtim_cnt, dtim_period,
          (if rtw_bmp_is_set tim_bmp tim_bmp_len 0 then 1 else 0) OR of_nat n1] @ take bmp_len (drop n1 tim_bmp))"

text \<open>What a station reads from the contents of the element: the bit of its association identifier, zero outside
  the part of the map that is sent; and the bit for group addressed frames.\<close>

definition tim_offset :: "u8 list \<Rightarrow> nat" where
  "tim_offset tim = unat ((tim ! 2) AND 0xFE)"

definition tim_bit :: "u8 list \<Rightarrow> nat \<Rightarrow> bool" where
  "tim_bit tim aid \<longleftrightarrow>
     tim_offset tim \<le> aid div 8 \<and> aid div 8 - tim_offset tim < length tim - 3 \<and>
     bit (tim ! (3 + (aid div 8 - tim_offset tim))) (aid mod 8)"

definition tim_group :: "u8 list \<Rightarrow> bool" where
  "tim_group tim \<longleftrightarrow> bit (tim ! 2) 0"

section \<open>Editing the elements\<close>

record beacon =
  bcn_ies :: "u8 list"
  bcn_ie_len :: nat

definition FIXED_IE_LENGTH :: nat where "FIXED_IE_LENGTH = 12"

text \<open>What the three editing routines share: the bytes from \<open>rest\<close> are saved, the new bytes written at \<open>dst\<close>, and
  the saved ones behind them.\<close>

definition put_between :: "bool \<Rightarrow> beacon \<Rightarrow> nat \<Rightarrow> u8 list \<Rightarrow> nat \<Rightarrow> nat \<Rightarrow> beacon cres" where
  "put_between alloc b dst new rest remainder_ielen =
     bindc (if remainder_ielen > 0 \<and> alloc then bindc (rdn (bcn_ies b) rest remainder_ielen) (\<lambda>xs. Inr (Some xs)) else Inr None)
       (\<lambda>backup.
     bindc (wrn (bcn_ies b) dst new) (\<lambda>m.
     bindc (case backup of None \<Rightarrow> Inr m | Some xs \<Rightarrow> wrn m (dst + length new) xs) (\<lambda>m.
     Inr (b\<lparr>bcn_ies := m, bcn_ie_len := (dst + length new + remainder_ielen) mod 2 ^ 32\<rparr>))))"

definition update_BCNTIM_insert :: "bool \<Rightarrow> u8 list \<Rightarrow> beacon \<Rightarrow> beacon cres" where
  "update_BCNTIM_insert alloc tim b =
     (let lim = int (bcn_ie_len b) - int FIXED_IE_LENGTH; ie_len = (\<lambda>(p, l). if p = None then 0 else l + 2) in
      bindc (rtw_get_ie (bcn_ies b) FIXED_IE_LENGTH 0 0 lim) (\<lambda>ssid.
      bindc (rtw_get_ie (bcn_ies b) FIXED_IE_LENGTH 1 0 lim) (\<lambda>rates.
      let offset = FIXED_IE_LENGTH + ie_len ssid + ie_len rates + 3 in
      put_between alloc b offset tim offset (usub32 (bcn_ie_len b) offset))))"

definition update_BCNTIM :: "bool \<Rightarrow> u8 list \<Rightarrow> nat \<Rightarrow> beacon \<Rightarrow> beacon cres" where
  "update_BCNTIM alloc tim_bitmap aid_bmp_len b =
     (let tim = rtw_set_tim_ie 0 1 tim_bitmap aid_bmp_len in
      bindc (rtw_get_ie (bcn_ies b) FIXED_IE_LENGTH WLAN_EID_TIM 0 (int (bcn_ie_len b) - int FIXED_IE_LENGTH)) (\<lambda>(p, tim_ielen).
      case p of
        Some q \<Rightarrow>
          if tim_ielen > 0 then
            put_between alloc b q tim (q + (tim_ielen + 2)) (usub32 (usub32 (bcn_ie_len b) q) (tim_ielen + 2))
          else update_BCNTIM_insert alloc tim b
      | None \<Rightarrow> update_BCNTIM_insert alloc tim b))"

text \<open>The loop of \<open>rtw_add_bcn_ie\<close>: the last element seen with its length, and whether it is the one searched.\<close>

function add_scan :: "u8 list \<Rightarrow> nat \<Rightarrow> nat \<Rightarrow> nat \<Rightarrow> nat option \<times> nat \<Rightarrow> ((nat option \<times> nat) \<times> bool) cres" where
  "add_scan ies len index i seen =
     (if \<not> i < len then Inr (seen, False)
      else
        bindc (rd ies i) (\<lambda>eid.
        if unat eid > index then Inr (seen, False)
        else
          bindc (rd ies (i + 1)) (\<lambda>l.
          if unat eid = index then Inr ((Some i, unat l), True)
          else add_scan ies len index (i + (unat l + 2)) (Some i, unat l))))"
  by pat_completeness auto
termination by (relation "measure (\<lambda>(ies, len, index, i, seen). len - i)") auto

definition rtw_add_bcn_ie :: "bool \<Rightarrow> beacon \<Rightarrow> nat \<Rightarrow> u8 list \<Rightarrow> nat \<Rightarrow> beacon cres" where
  "rtw_add_bcn_ie alloc b index dat len =
     bindc (add_scan (bcn_ies b) (bcn_ie_len b) index FIXED_IE_LENGTH (None, 0)) (\<lambda>((p, ielen), bmatch).
     case p of
       None \<Rightarrow> Inr b
     | Some q \<Rightarrow>
         if ielen > 0 then
           bindc (rdn dat 0 len) (\<lambda>xs.
           put_between alloc b (if bmatch then q else q + (ielen + 2)) (of_nat index # of_nat len # xs)
             (q + (ielen + 2)) (usub32 (usub32 (bcn_ie_len b) q) (ielen + 2)))
         else Inr b)"

definition rtw_remove_bcn_ie :: "bool \<Rightarrow> beacon \<Rightarrow> nat \<Rightarrow> beacon cres" where
  "rtw_remove_bcn_ie alloc b index =
     bindc (rtw_get_ie (bcn_ies b) FIXED_IE_LENGTH index 0 (int (bcn_ie_len b) - int FIXED_IE_LENGTH)) (\<lambda>(p, ielen).
     case p of
       None \<Rightarrow> Inr b
     | Some q \<Rightarrow>
         if ielen > 0 then put_between alloc b q [] (q + (ielen + 2)) (usub32 (usub32 (bcn_ie_len b) q) (ielen + 2))
         else Inr b)"

text \<open>The update of the extended capabilities (\<open>update_bcn_ext_capab_ie\<close>); the element data has eight bytes.\<close>

definition update_bcn_ext_capab_ie :: "bool \<Rightarrow> u8 list \<Rightarrow> nat \<Rightarrow> beacon \<Rightarrow> beacon cres" where
  "update_bcn_ext_capab_ie alloc ext_capab_ie_data ext_capab_ie_len b =
     bindc (rtw_get_ie (bcn_ies b) FIXED_IE_LENGTH 127 0 (int (bcn_ie_len b) - int FIXED_IE_LENGTH)) (\<lambda>(pbuf, ie_len).
     bindc (if pbuf \<noteq> None \<and> ie_len > 0 then rtw_remove_bcn_ie alloc b 127 else Inr b) (\<lambda>b.
     if ext_capab_ie_len > 0 \<and> take 8 ext_capab_ie_data \<noteq> replicate 8 0
     then rtw_add_bcn_ie alloc b 127 ext_capab_ie_data ext_capab_ie_len else Inr b))"

declare add_scan.simps [simp del]

section \<open>Replacing a stretch of the elements\<close>

definition beacon_bytes :: "beacon \<Rightarrow> u8 list" where
  "beacon_bytes b = take (bcn_ie_len b) (bcn_ies b)"

definition beacon_of :: "beacon \<Rightarrow> u8 list \<Rightarrow> ie_elem list \<Rightarrow> bool" where
  "beacon_of b fixd es \<longleftrightarrow>
     length fixd = 12 \<and> beacon_bytes b = fixd @ ies_bytes es \<and> bcn_ie_len b \<le> length (bcn_ies b) \<and> (\<forall>e \<in> set es. wf_ie e)"

lemma put_between_splice:
  assumes "beacon_bytes b = xs @ old @ ys" and "bcn_ie_len b \<le> length (bcn_ies b)" and "length (bcn_ies b) < 2 ^ 32"
    and "length xs + length new + length ys \<le> length (bcn_ies b)"
  shows "\<exists>b'. put_between True b (length xs) new (length xs + length old)
        (usub32 (usub32 (bcn_ie_len b) (length xs)) (length old)) = Inr b' \<and>
      beacon_bytes b' = xs @ new @ ys \<and> length (bcn_ies b') = length (bcn_ies b) \<and> bcn_ie_len b' \<le> length (bcn_ies b')"
proof -
  let ?m = "bcn_ies b" and ?n = "bcn_ie_len b"
  have len: "?n = length xs + length old + length ys"
    using arg_cong [OF assms(1), of length] assms(2) by (simp add: beacon_bytes_def)
  have rem: "usub32 (usub32 ?n (length xs)) (length old) = length ys"
    using len assms(2,3) by simp
  have m: "?m = xs @ old @ ys @ drop ?n ?m"
    by (metis append_assoc append_take_drop_id assms(1) beacon_bytes_def)
  have bak: "rdn ?m (length xs + length old) (length ys) = Inr ys"
  proof -
    have "drop (length xs + length old) ?m = ys @ drop ?n ?m" by (subst m) simp
    then show ?thesis using len assms(2) by (simp add: rdn_def)
  qed
  have w1: "wrn ?m (length xs) new = Inr (written ?m (length xs) new)"
    using assms(4) by (intro wrn_written) simp
  have w2: "wrn (written ?m (length xs) new) (length xs + length new) ys = Inr (written ?m (length xs) (new @ ys))"
    using assms(4) by (simp add: wrn_written written_append)
  have pre: "take (length xs) ?m = xs" by (subst m) simp
  have bytes: "take (length xs + length new + length ys) (written ?m (length xs) (new @ ys)) = xs @ new @ ys"
    by (simp add: written_def pre)
  have small: "length xs + length new + length ys < 2 ^ 32" using assms(3,4) by linarith
  let ?b = "b\<lparr>bcn_ies := written ?m (length xs) (new @ ys), bcn_ie_len := length xs + length new + length ys\<rparr>"
  have "put_between True b (length xs) new (length xs + length old) (length ys) = Inr ?b"
  proof (cases "ys = []")
    case True
    then show ?thesis using w1 small by (simp add: put_between_def)
  next
    case False
    then show ?thesis using w1 w2 bak small by (simp add: put_between_def)
  qed
  then show ?thesis
    using rem bytes assms(4) by (intro exI [of _ ?b]) (simp add: beacon_bytes_def)
qed

section \<open>The traffic indication\<close>

lemma find_upt_first: "find P [0..<n] = Some i \<Longrightarrow> i < n \<and> P i \<and> (\<forall>j < i. \<not> P j)"
  by (auto simp: find_Some_iff)

lemma find_upt_last:
  fixes P :: "nat \<Rightarrow> bool"
  assumes "1 \<le> n"
  defines "k \<equiv> case find P (rev [1..<n]) of Some i \<Rightarrow> i | None \<Rightarrow> 0"
  shows "k < n" "\<And>j. k < j \<Longrightarrow> j < n \<Longrightarrow> \<not> P j"
proof -
  have nth: "rev [1..<n] ! l = n - 1 - l" if "l < n - 1" for l using that by (simp add: rev_nth)
  have "k < n \<and> (\<forall>j. k < j \<and> j < n \<longrightarrow> \<not> P j)"
  proof (cases "find P (rev [1..<n])")
    case None
    then have "k = 0" unfolding k_def by (simp only: option.case)
    moreover have "\<forall>j \<in> set (rev [1..<n]). \<not> P j" using None by (auto simp only: find_None_iff)
    ultimately show ?thesis using assms(1) by simp
  next
    case (Some i)
    then obtain l where l: "l < n - 1" "i = n - 1 - l" "\<forall>m < l. \<not> P (rev [1..<n] ! m)"
      using nth by (auto simp: find_Some_iff)
    have "\<not> P j" if "i < j" "j < n" for j
    proof -
      have "n - 1 - j < l" "n - 1 - j < n - 1" "n - 1 - (n - 1 - j) = j" using l(1,2) that by auto
      then show ?thesis using l(3) nth [of "n - 1 - j"] by metis
    qed
    then show ?thesis using l assms(1) Some by (auto simp: k_def)
  qed
  then show "k < n" "\<And>j. k < j \<Longrightarrow> j < n \<Longrightarrow> \<not> P j" by auto
qed

text \<open>The part of the map that is sent starts at an even octet and contains every octet that is not zero.\<close>

definition tim_spans :: "u8 list \<Rightarrow> nat \<Rightarrow> nat \<Rightarrow> nat \<Rightarrow> bool" where
  "tim_spans bmp len n1 m \<longleftrightarrow> even n1 \<and> 0 < m \<and> n1 + m \<le> len \<and> (\<forall>j < len. j < n1 \<or> n1 + m \<le> j \<longrightarrow> bmp ! j = 0)"

lemma rtw_set_tim_ie_spans:
  assumes "0 < len"
  shows "\<exists>n1 m. tim_spans bmp len n1 m \<and>
    rtw_set_tim_ie c p bmp len = [5, of_nat (3 + m), c, p, (if rtw_bmp_is_set bmp len 0 then 1 else 0) OR of_nat n1] @
      take m (drop n1 bmp)"
proof (cases "rtw_bmp_not_empty bmp len")
  case False
  then have "tim_spans bmp len 0 1"
    using assms by (auto simp: tim_spans_def rtw_bmp_not_empty_def list_ex_iff)
  moreover have "rtw_set_tim_ie c p bmp len = [5, of_nat (3 + 1), c, p, (if rtw_bmp_is_set bmp len 0 then 1 else 0) OR of_nat 0] @
      take 1 (drop 0 bmp)"
    using False by (simp add: rtw_set_tim_ie_def WLAN_EID_TIM_def)
  ultimately show ?thesis by blast
next
  case True
  define k where "k = (case find (\<lambda>i. bmp ! i \<noteq> 0) (rev [1..<len]) of Some i \<Rightarrow> i | None \<Rightarrow> 0)"
  have le: "1 \<le> len" using assms by simp
  note last = find_upt_last [OF le, of "\<lambda>i. bmp ! i \<noteq> 0", folded k_def]
  have k: "k < len" "bmp ! j = 0" if "k < j" "j < len" for j using last(1) last(2) [OF that] by blast+
  have k_len: "k < len" by (rule last(1))
  have "find (\<lambda>i. bmp ! i \<noteq> 0) [0..<len] \<noteq> None"
  proof
    assume "find (\<lambda>i. bmp ! i \<noteq> 0) [0..<len] = None"
    then have "\<forall>i < len. bmp ! i = 0" by (auto simp only: find_None_iff set_upt atLeastLessThan_iff)
    then show False using True by (auto simp: rtw_bmp_not_empty_def list_ex_iff)
  qed
  then obtain i where i: "find (\<lambda>i. bmp ! i \<noteq> 0) [0..<len] = Some i" by blast
  have first: "i < len" "bmp ! i \<noteq> 0" "\<And>j. j < i \<Longrightarrow> bmp ! j = 0" using find_upt_first [OF i] by auto
  have ik: "i \<le> k" using k(2) first(1,2) not_less by metis
  let ?n = "i - i mod 2"
  define n where "n = i - i mod 2"
  have n: "even n" "n \<le> i" by (simp_all add: n_def minus_mod_eq_mult_div)
  have sum: "n + (k - n + 1) = k + 1" using n(2) ik by simp
  have "tim_spans bmp len n (k - n + 1)"
    unfolding tim_spans_def sum
  proof (intro conjI allI impI)
    fix j assume "j < len" "j < n \<or> k + 1 \<le> j"
    then show "bmp ! j = 0" using first(3) [of j] k(2) [of j] n(2) by auto
  qed (use n(1) k_len in auto)
  moreover have "rtw_set_tim_ie c p bmp len =
      [5, of_nat (3 + (k - n + 1)), c, p, (if rtw_bmp_is_set bmp len 0 then 1 else 0) OR of_nat n] @
      take (k - n + 1) (drop n bmp)"
    using True unfolding rtw_set_tim_ie_def WLAN_EID_TIM_def i k_def [symmetric] Let_def option.case n_def [symmetric]
    by simp
  ultimately show ?thesis by blast
qed

lemma tim_control:
  assumes "even n" and "n < 256"
  shows "unat (((if g then 1 else 0) OR of_nat n :: u8) AND 0xFE) = n" and "bit ((if g then 1 else 0) OR of_nat n :: u8) 0 = g"
proof -
  have b0: "\<not> bit (of_nat n :: u8) 0" using assms by (simp add: bit_0)
  have fe: "(0xFE :: u8) = NOT 1" by simp
  have "(((if g then 1 else 0) OR of_nat n :: u8) AND 0xFE) = of_nat n"
    unfolding fe using b0 by (intro bit_eqI, auto simp: bit_and_iff bit_or_iff bit_not_iff bit_1_iff) (metis gr0I)+
  then show "unat (((if g then 1 else 0) OR of_nat n :: u8) AND 0xFE) = n" using assms(2) by simp
  show "bit ((if g then 1 else 0) OR of_nat n :: u8) 0 = g" using b0 by (simp add: bit_or_iff bit_1_iff)
qed

lemma tim_ie_read:
  assumes "0 < len" and "len \<le> 251" and "len \<le> length bmp"
  shows "\<exists>tim. rtw_set_tim_ie c p bmp len = enc_ie (5, tim) \<and> 4 \<le> length tim \<and> length tim \<le> 3 + len \<and>
    tim ! 0 = c \<and> tim ! 1 = p \<and> (\<forall>aid. tim_bit tim aid = rtw_bmp_is_set bmp len aid) \<and>
    tim_group tim = rtw_bmp_is_set bmp len 0"
proof -
  obtain n1 m where sp: "tim_spans bmp len n1 m" and tim: "rtw_set_tim_ie c p bmp len =
      [5, of_nat (3 + m), c, p, (if rtw_bmp_is_set bmp len 0 then 1 else 0) OR of_nat n1] @ take m (drop n1 bmp)"
    using rtw_set_tim_ie_spans [OF assms(1)] by blast
  let ?ctl = "(if rtw_bmp_is_set bmp len 0 then 1 else 0) OR of_nat n1 :: u8"
  let ?t = "c # p # ?ctl # take m (drop n1 bmp)"
  have span: "even n1" "n1 < 256" "0 < m" "n1 + m \<le> len"
    using sp assms(2) by (auto simp: tim_spans_def)
  have lt: "length ?t = 3 + m" using span(4) assms(3) by simp
  have "tim_bit ?t aid = rtw_bmp_is_set bmp len aid" for aid
  proof -
    let ?k = "aid div 8"
    have "tim_bit ?t aid \<longleftrightarrow> n1 \<le> ?k \<and> ?k - n1 < m \<and> bit (take m (drop n1 bmp) ! (?k - n1)) (aid mod 8)"
      using lt tim_control(1) [OF span(1,2)] by (simp add: tim_bit_def tim_offset_def numeral_2_eq_2 numeral_3_eq_3)
    also have "\<dots> \<longleftrightarrow> n1 \<le> ?k \<and> ?k < n1 + m \<and> bit (bmp ! ?k) (aid mod 8)"
      using span(4) assms(3) by auto
    also have "\<dots> \<longleftrightarrow> ?k < len \<and> bit (bmp ! ?k) (aid mod 8)"
      using sp by (auto simp: tim_spans_def not_less)
    finally show ?thesis by (auto simp: rtw_bmp_is_set_def BIT_and)
  qed
  moreover have "tim_group ?t = rtw_bmp_is_set bmp len 0"
    using tim_control(2) [OF span(1,2)] by (simp add: tim_group_def)
  moreover have "rtw_set_tim_ie c p bmp len = enc_ie (5, ?t)" using tim lt by simp
  ultimately show ?thesis using lt span by (intro exI [of _ ?t]) simp
qed

text \<open>C38: the traffic indication can be read back. For every map of at most 251 octets the element has the right
  length byte, a station finds under each association identifier the bit of the map, whether or not the octet is in
  the part that is sent, and the group bit is the bit of identifier 0.\<close>

theorem rtw_set_tim_ie_read:
  assumes "0 < len" and "len \<le> 251" and "len \<le> length bmp"
  shows "\<exists>tim. rtw_set_tim_ie c p bmp len = enc_ie (5, tim) \<and> 4 \<le> length tim \<and> length tim \<le> 3 + len \<and>
    tim ! 0 = c \<and> tim ! 1 = p \<and> (\<forall>aid. tim_bit tim aid = rtw_bmp_is_set bmp len aid) \<and>
    tim_group tim = rtw_bmp_is_set bmp len 0"
  using assms by (rule tim_ie_read)

theorem rtw_set_tim_ie_read_witness:
  "\<exists>tim. rtw_set_tim_ie 0 1 [1, 0, 0, 8, 0] 5 = enc_ie (5, tim) \<and> 4 \<le> length tim \<and> length tim \<le> 3 + 5 \<and>
    tim ! 0 = 0 \<and> tim ! 1 = 1 \<and> (\<forall>aid. tim_bit tim aid = rtw_bmp_is_set [1, 0, 0, 8, 0] 5 aid) \<and>
    tim_group tim = rtw_bmp_is_set [1, 0, 0, 8, 0] 5 0"
  by (rule rtw_set_tim_ie_read) simp_all

section \<open>Elements of a beacon\<close>

text \<open>What becomes of the elements: an edit of a beacon that holds \<open>xs @ old @ ys\<close> behind its fixed bytes.\<close>

lemma beacon_edit:
  assumes "beacon_of b fixd (xs @ old @ ys)" and "length (bcn_ies b) < 2 ^ 32"
    and "bcn_ie_len b + length (ies_bytes new) \<le> length (bcn_ies b) + length (ies_bytes old)"
    and "\<forall>e \<in> set new. wf_ie e"
    and "d = 12 + length (ies_bytes xs)" and "r = d + length (ies_bytes old)" and "l = length (ies_bytes old)"
    and "bs = ies_bytes new"
  shows "\<exists>b'. put_between True b d bs r (usub32 (usub32 (bcn_ie_len b) d) l) = Inr b' \<and>
    beacon_of b' fixd (xs @ new @ ys) \<and> length (bcn_ies b') = length (bcn_ies b)"
proof -
  have b: "length fixd = 12" "beacon_bytes b = (fixd @ ies_bytes xs) @ ies_bytes old @ ies_bytes ys"
    "bcn_ie_len b \<le> length (bcn_ies b)" "\<forall>e \<in> set (xs @ old @ ys). wf_ie e"
    using assms(1) by (simp_all add: beacon_of_def)
  have len: "bcn_ie_len b = 12 + length (ies_bytes xs) + length (ies_bytes old) + length (ies_bytes ys)"
    using arg_cong [OF b(2), of length] b(1,3) by (simp add: beacon_bytes_def)
  have "length (fixd @ ies_bytes xs) + length (ies_bytes new) + length (ies_bytes ys) \<le> length (bcn_ies b)"
    using assms(3) len b(1) by simp
  from put_between_splice [OF b(2,3) assms(2) this] obtain b' where
    "put_between True b (length (fixd @ ies_bytes xs)) (ies_bytes new) (length (fixd @ ies_bytes xs) + length (ies_bytes old))
       (usub32 (usub32 (bcn_ie_len b) (length (fixd @ ies_bytes xs))) (length (ies_bytes old))) = Inr b'"
    "beacon_bytes b' = (fixd @ ies_bytes xs) @ ies_bytes new @ ies_bytes ys" "length (bcn_ies b') = length (bcn_ies b)"
    "bcn_ie_len b' \<le> length (bcn_ies b')"
    by blast
  then show ?thesis
    using b assms(4) unfolding assms(5-8) by (intro exI [of _ b']) (auto simp: beacon_of_def)
qed

lemma beacon_holds:
  assumes "beacon_of b fixd es"
  shows "holds_at (bcn_ies b) 12 (ies_bytes es)" and "bcn_ie_len b = 12 + length (ies_bytes es)"
proof -
  have b: "length fixd = 12" "take (bcn_ie_len b) (bcn_ies b) = fixd @ ies_bytes es" "bcn_ie_len b \<le> length (bcn_ies b)"
    using assms by (simp_all add: beacon_of_def beacon_bytes_def)
  show "bcn_ie_len b = 12 + length (ies_bytes es)" using arg_cong [OF b(2), of length] b(1,3) by simp
  have "bcn_ies b = fixd @ ies_bytes es @ drop (bcn_ie_len b) (bcn_ies b)"
    by (metis append_assoc append_take_drop_id b(2))
  then show "holds_at (bcn_ies b) 12 (ies_bytes es)"
    using holds_at_self [of fixd "ies_bytes es"] b(1) by metis
qed

lemma get_ie_beacon:
  assumes "beacon_of b fixd es"
  shows "rtw_get_ie (bcn_ies b) FIXED_IE_LENGTH index 0 (int (bcn_ie_len b) - int FIXED_IE_LENGTH) =
    Inr (case tlv_find enc_ie (\<lambda>e. unat (fst e) = index) 0 es of
           None \<Rightarrow> (None, 0) | Some (c, e) \<Rightarrow> (Some (12 + c), length (snd e)))"
proof -
  have wf: "\<forall>e \<in> set es. wf_ie e" using assms by (simp add: beacon_of_def)
  show ?thesis
    using rtw_get_ie_elems [OF wf beacon_holds(1) [OF assms], of index 0] beacon_holds(2) [OF assms]
    by (simp add: FIXED_IE_LENGTH_def split: option.splits)
qed

lemma get_ie_beacon_first:
  assumes "beacon_of b fixd (xs @ (i, d) # ys)" and "\<forall>e \<in> set xs. unat (fst e) \<noteq> k" and "unat i = k"
  shows "rtw_get_ie (bcn_ies b) FIXED_IE_LENGTH k 0 (int (bcn_ie_len b) - int FIXED_IE_LENGTH) =
    Inr (Some (12 + length (ies_bytes xs)), length d)"
  using get_ie_beacon [OF assms(1), of k] tlv_find_append_hit [of xs "\<lambda>e. unat (fst e) = k" "(i, d)" enc_ie 0 ys] assms(2,3)
  by simp

text \<open>C39: the update of a beacon that has a traffic indication. The element is replaced by the one of the map, and
  the fixed bytes and all other elements stay as they are.\<close>

theorem update_BCNTIM_replaces:
  assumes "beacon_of b fixd (pre @ (5, old) # post)" and "\<forall>e \<in> set pre. fst e \<noteq> 5" and "old \<noteq> []"
    and "0 < len" and "len \<le> 251" and "len \<le> length bmp"
    and "bcn_ie_len b + len + 5 \<le> length (bcn_ies b)" and "length (bcn_ies b) < 2 ^ 32"
  shows "\<exists>b' tim. update_BCNTIM True bmp len b = Inr b' \<and> enc_ie (5, tim) = rtw_set_tim_ie 0 1 bmp len \<and>
    beacon_of b' fixd (pre @ (5, tim) # post)"
proof -
  obtain tim where tim: "rtw_set_tim_ie 0 1 bmp len = enc_ie (5, tim)" "length tim \<le> 3 + len"
    using tim_ie_read [OF assms(4-6)] by blast
  have get: "rtw_get_ie (bcn_ies b) FIXED_IE_LENGTH WLAN_EID_TIM 0 (int (bcn_ie_len b) - int FIXED_IE_LENGTH) =
      Inr (Some (12 + length (ies_bytes pre)), length old)"
    using assms(2) get_ie_beacon_first [OF assms(1), of 5]
    by (auto simp: WLAN_EID_TIM_def word_unat_eq_iff)
  have "\<exists>b'. put_between True b (12 + length (ies_bytes pre)) (rtw_set_tim_ie 0 1 bmp len)
      (12 + length (ies_bytes pre) + (length old + 2))
      (usub32 (usub32 (bcn_ie_len b) (12 + length (ies_bytes pre))) (length old + 2)) = Inr b' \<and>
    beacon_of b' fixd (pre @ [(5, tim)] @ post) \<and> length (bcn_ies b') = length (bcn_ies b)"
    by (rule beacon_edit [where old = "[(5, old)]"]) (use assms(1,5,7,8) tim in \<open>simp_all add: wf_ie_def\<close>)
  then obtain b' where "put_between True b (12 + length (ies_bytes pre)) (rtw_set_tim_ie 0 1 bmp len)
      (12 + length (ies_bytes pre) + (length old + 2))
      (usub32 (usub32 (bcn_ie_len b) (12 + length (ies_bytes pre))) (length old + 2)) = Inr b'"
    "beacon_of b' fixd (pre @ (5, tim) # post)"
    by auto
  then show ?thesis
    using tim assms(3) get by (intro exI [of _ b'] exI [of _ tim]) (simp add: update_BCNTIM_def Let_def)
qed

definition beacon0 :: beacon where
  "beacon0 = \<lparr>bcn_ies = replicate 12 0 @ [0, 2, 65, 66, 1, 1, 130, 3, 1, 6, 5, 4, 0, 1, 0, 0] @ replicate 740 0, bcn_ie_len = 28\<rparr>"

lemma beacon0_elems: "beacon_of beacon0 (replicate 12 0) ([(0, [65, 66]), (1, [130]), (3, [6])] @ (5, [0, 1, 0, 0]) # [])"
  by (simp add: beacon_of_def beacon0_def beacon_bytes_def wf_ie_def)

theorem update_BCNTIM_replaces_witness:
  "\<exists>b' tim. update_BCNTIM True [0, 0, 16] 3 beacon0 = Inr b' \<and> enc_ie (5, tim) = rtw_set_tim_ie 0 1 [0, 0, 16] 3 \<and>
    beacon_of b' (replicate 12 0) ([(0, [65, 66]), (1, [130]), (3, [6])] @ (5, tim) # [])"
  by (rule update_BCNTIM_replaces [OF beacon0_elems]) (simp_all add: beacon0_def)

text \<open>the first update of a beacon without a traffic indication. The element is put three bytes behind the name
  and the rates, where the channel element of three bytes is expected; a beacon with another, longer element there, as
  on the 5 GHz channels, gets the traffic indication inside that element.\<close>

theorem update_BCNTIM_splits:
  assumes "beacon_of b fixd ((0, ssid) # (1, rates) # (i, x # xs) # post)" and "xs \<noteq> []"
    and "\<forall>e \<in> set ((i, x # xs) # post). fst e \<noteq> 5"
    and "0 < len" and "len \<le> 251" and "len \<le> length bmp"
    and "bcn_ie_len b + len + 5 \<le> length (bcn_ies b)" and "length (bcn_ies b) < 2 ^ 32"
  shows "\<exists>b'. update_BCNTIM True bmp len b = Inr b' \<and>
    beacon_bytes b' = fixd @ ies_bytes [(0, ssid), (1, rates)] @ [i, of_nat (length (x # xs)), x] @
      rtw_set_tim_ie 0 1 bmp len @ xs @ ies_bytes post"
proof -
  let ?pre = "fixd @ ies_bytes [(0, ssid), (1, rates)] @ [i, of_nat (length (x # xs)), x]"
  obtain tim where tim: "rtw_set_tim_ie 0 1 bmp len = enc_ie (5, tim)" "length tim \<le> 3 + len"
    using tim_ie_read [OF assms(4-6)] by blast
  have b: "length fixd = 12" "beacon_bytes b = ?pre @ [] @ xs @ ies_bytes post" "bcn_ie_len b \<le> length (bcn_ies b)"
    using assms(1) by (simp_all add: beacon_of_def)
  have len: "bcn_ie_len b = length ?pre + length xs + length (ies_bytes post)"
    using arg_cong [OF b(2), of length] b(3) by (simp add: beacon_bytes_def)
  note get = get_ie_beacon [OF assms(1)]
  have none: "rtw_get_ie (bcn_ies b) FIXED_IE_LENGTH WLAN_EID_TIM 0 (int (bcn_ie_len b) - int FIXED_IE_LENGTH) = Inr (None, 0)"
  proof -
    have "tlv_find enc_ie (\<lambda>e. unat (fst e) = 5) 0 ((0, ssid) # (1, rates) # (i, x # xs) # post) = None"
      using assms(3) by (auto simp: tlv_find_None_iff word_unat_eq_iff)
    then show ?thesis using get [of 5] by (simp only: WLAN_EID_TIM_def option.case)
  qed
  have ssid: "rtw_get_ie (bcn_ies b) FIXED_IE_LENGTH 0 0 (int (bcn_ie_len b) - int FIXED_IE_LENGTH) = Inr (Some 12, length ssid)"
    and rates: "rtw_get_ie (bcn_ies b) FIXED_IE_LENGTH 1 0 (int (bcn_ie_len b) - int FIXED_IE_LENGTH) =
      Inr (Some (14 + length ssid), length rates)"
    using get [of 0] get [of 1] by simp_all
  have off: "length ?pre = FIXED_IE_LENGTH + (length ssid + 2) + (length rates + 2) + 3"
    using b(1) by (simp add: FIXED_IE_LENGTH_def)
  have room: "length ?pre + length (enc_ie (5, tim)) + length (xs @ ies_bytes post) \<le> length (bcn_ies b)"
    using len tim(2) assms(7) by simp
  obtain b' where "put_between True b (length ?pre) (enc_ie (5, tim)) (length ?pre)
      (usub32 (bcn_ie_len b) (length ?pre)) = Inr b'" "beacon_bytes b' = ?pre @ enc_ie (5, tim) @ xs @ ies_bytes post"
    using put_between_splice [OF b(2,3) assms(8) room] len assms(8) b(3) by auto
  moreover have "update_BCNTIM_insert True (rtw_set_tim_ie 0 1 bmp len) b =
      put_between True b (length ?pre) (enc_ie (5, tim)) (length ?pre) (usub32 (bcn_ie_len b) (length ?pre))"
    unfolding update_BCNTIM_insert_def Let_def ssid rates bindc_Inr prod.case off tim(1) by simp
  ultimately have "update_BCNTIM_insert True (rtw_set_tim_ie 0 1 bmp len) b = Inr b'" by simp
  then have "update_BCNTIM True bmp len b = Inr b'"
    using none by (simp add: update_BCNTIM_def Let_def)
  then show ?thesis
    using \<open>beacon_bytes b' = _\<close> tim(1) by (intro exI [of _ b']) simp
qed

theorem update_BCNTIM_splits_witness:
  "\<exists>b'. update_BCNTIM True [0, 0, 16] 3 \<lparr>bcn_ies = replicate 12 0 @ [0, 1, 65, 1, 1, 140, 45, 2, 7, 8] @ replicate 746 0, bcn_ie_len = 22\<rparr> = Inr b' \<and>
    beacon_bytes b' = replicate 12 0 @ ies_bytes [(0, [65]), (1, [140])] @ [45, of_nat (length [7, 8 :: u8]), 7] @
      rtw_set_tim_ie 0 1 [0, 0, 16] 3 @ [8] @ ies_bytes []"
  by (rule update_BCNTIM_splits) (simp_all add: beacon_of_def beacon_bytes_def wf_ie_def)

section \<open>Insertion and removal\<close>

text \<open>What \<open>rtw_add_bcn_ie\<close> makes of the elements: it replaces an element that has the identifier, and otherwise
  inserts behind those with smaller identifiers, unless the element it would replace or follow has no contents.\<close>

definition added_ies :: "nat \<Rightarrow> u8 list \<Rightarrow> ie_elem list \<Rightarrow> ie_elem list" where
  "added_ies k dat es =
     (let pre = takeWhile (\<lambda>e. unat (fst e) < k) es; post = dropWhile (\<lambda>e. unat (fst e) < k) es in
      if post \<noteq> [] \<and> unat (fst (hd post)) = k then
        (if snd (hd post) = [] then es else pre @ (of_nat k, dat) # tl post)
      else if pre = [] \<or> snd (last pre) = [] then es
      else pre @ (of_nat k, dat) # post)"

definition removed_ies :: "nat \<Rightarrow> ie_elem list \<Rightarrow> ie_elem list" where
  "removed_ies k es =
     (let pre = takeWhile (\<lambda>e. unat (fst e) \<noteq> k) es; post = dropWhile (\<lambda>e. unat (fst e) \<noteq> k) es in
      if post = [] \<or> snd (hd post) = [] then es else pre @ tl post)"

text \<open>The element the scan stops behind, at which offset.\<close>

definition last_seen :: "nat \<Rightarrow> ie_elem list \<Rightarrow> nat option \<times> nat \<Rightarrow> nat option \<times> nat" where
  "last_seen i pre seen =
     (if pre = [] then seen else (Some (i + length (ies_bytes (butlast pre))), length (snd (last pre))))"

lemma last_seen_Cons: "last_seen i (e # pre) seen = last_seen (i + length (enc_ie e)) pre (Some i, length (snd e))"
  by (cases pre) (simp_all add: last_seen_def ac_simps)

lemma add_scan_elems:
  assumes "holds_at ies i (ies_bytes (pre @ post))" and "len = i + length (ies_bytes (pre @ post))"
    and "\<forall>e \<in> set (pre @ post). wf_ie e" and "\<forall>e \<in> set pre. unat (fst e) < k"
    and "post = [] \<or> k \<le> unat (fst (hd post))"
  shows "add_scan ies len k i seen =
    Inr (if post \<noteq> [] \<and> unat (fst (hd post)) = k
         then ((Some (i + length (ies_bytes pre)), length (snd (hd post))), True) else (last_seen i pre seen, False))"
  using assms
proof (induction pre arbitrary: i seen)
  case Nil
  show ?case
  proof (cases post)
    case Nil
    then show ?thesis using Nil.prems(2) by (subst add_scan.simps) (simp add: last_seen_def)
  next
    case (Cons e es)
    obtain x d where e: "e = (x, d)" by (cases e)
    have "rd ies i = Inr x" "rd ies (i + 1) = Inr (of_nat (length d))" "length d < 256" "i < len"
      using Nil.prems(1-3) by (auto simp: Cons e mem_simps wf_ie_def)
    then show ?thesis
      using Nil.prems(5) Cons e by (subst add_scan.simps) (auto simp: last_seen_def)
  qed
next
  case (Cons e pre)
  obtain x d where e: "e = (x, d)" by (cases e)
  have r: "rd ies i = Inr x" "rd ies (i + 1) = Inr (of_nat (length d))" "length d < 256" "i < len" "unat x < k"
    using Cons.prems(1-4) by (auto simp: e mem_simps wf_ie_def)
  have "add_scan ies len k i seen = add_scan ies len k (i + length (enc_ie e)) (Some i, length d)"
    using r by (subst add_scan.simps) (simp add: e)
  moreover have "holds_at ies (i + length (enc_ie e)) (ies_bytes (pre @ post))"
    "len = (i + length (enc_ie e)) + length (ies_bytes (pre @ post))"
    using Cons.prems(1,2) by (simp_all add: e ac_simps)
  ultimately show ?case
    using Cons.IH [of "i + length (enc_ie e)" "(Some i, length d)"] Cons.prems(3-5)
    by (simp add: last_seen_Cons e ac_simps)
qed

lemma add_bcn_ie_beacon:
  assumes "beacon_of b fixd es" and "k < 256" and "length dat < 256"
    and "bcn_ie_len b + length dat + 2 \<le> length (bcn_ies b)" and "length (bcn_ies b) < 2 ^ 32"
  shows "\<exists>b'. rtw_add_bcn_ie True b k dat (length dat) = Inr b' \<and> beacon_of b' fixd (added_ies k dat es) \<and>
    length (bcn_ies b') = length (bcn_ies b)"
proof -
  define pre where "pre = takeWhile (\<lambda>e. unat (fst e) < k) es"
  define post where "post = dropWhile (\<lambda>e. unat (fst e) < k) es"
  have es: "es = pre @ post" by (simp add: pre_def post_def)
  have pp1: "\<forall>e \<in> set pre. unat (fst e) < k" unfolding pre_def by (blast dest: set_takeWhileD)
  have pp2: "post = [] \<or> k \<le> unat (fst (hd post))"
  proof (cases "post = []")
    case False
    then have "\<not> unat (fst (hd post)) < k" unfolding post_def by (rule hd_dropWhile)
    then show ?thesis by simp
  qed simp
  have wf: "\<forall>e \<in> set (pre @ post). wf_ie e" using assms(1) es by (simp add: beacon_of_def)
  have scan: "add_scan (bcn_ies b) (bcn_ie_len b) k FIXED_IE_LENGTH (None, 0) =
      Inr (if post \<noteq> [] \<and> unat (fst (hd post)) = k
         then ((Some (12 + length (ies_bytes pre)), length (snd (hd post))), True) else (last_seen 12 pre (None, 0), False))"
    unfolding FIXED_IE_LENGTH_def
    using beacon_holds [OF assms(1)] es wf pp1 pp2 by (intro add_scan_elems) simp_all
  note edit = beacon_edit [OF _ assms(5)]
  have new: "of_nat k # of_nat (length dat) # dat = ies_bytes [(of_nat k, dat)]" by simp
  show ?thesis
  proof (cases "post \<noteq> [] \<and> unat (fst (hd post)) = k")
    case True
    then obtain x d post' where post: "post = (x, d) # post'" by (cases post) auto
    have "\<exists>b'. put_between True b (12 + length (ies_bytes pre)) (of_nat k # of_nat (length dat) # dat)
        (12 + length (ies_bytes pre) + (length d + 2))
        (usub32 (usub32 (bcn_ie_len b) (12 + length (ies_bytes pre))) (length d + 2)) = Inr b' \<and>
      beacon_of b' fixd (pre @ [(of_nat k, dat)] @ post') \<and> length (bcn_ies b') = length (bcn_ies b)"
      by (rule edit [where old = "[(x, d)]"])
        (use assms(1,3,4) es post in \<open>simp_all add: wf_ie_def\<close>)
    moreover have "added_ies k dat es = (if d = [] then es else pre @ (of_nat k, dat) # post')"
      using True post by (simp add: added_ies_def Let_def pre_def [symmetric] post_def [symmetric])
    ultimately show ?thesis
      using True scan post assms(1) by (auto simp: rtw_add_bcn_ie_def)
  next
    case False
    show ?thesis
    proof (cases "pre = [] \<or> snd (last pre) = []")
      case True
      have "added_ies k dat es = es"
        using False True by (auto simp: added_ies_def Let_def pre_def [symmetric] post_def [symmetric])
      then show ?thesis
        using False True scan assms(1) by (auto simp: rtw_add_bcn_ie_def last_seen_def)
    next
      case nonempty: False
      then obtain front x d where pre: "pre = front @ [(x, d)]" "d \<noteq> []"
        by (cases pre rule: rev_cases) auto
      have "\<exists>b'. put_between True b (12 + length (ies_bytes pre)) (of_nat k # of_nat (length dat) # dat)
          (12 + length (ies_bytes pre)) (usub32 (usub32 (bcn_ie_len b) (12 + length (ies_bytes pre))) 0) = Inr b' \<and>
        beacon_of b' fixd (pre @ [(of_nat k, dat)] @ post) \<and> length (bcn_ies b') = length (bcn_ies b)"
        by (rule edit [where old = "[]"]) (use assms(1,3,4) es in \<open>simp_all add: wf_ie_def\<close>)
      moreover have "usub32 (usub32 (bcn_ie_len b) (12 + length (ies_bytes pre))) 0 =
          usub32 (usub32 (bcn_ie_len b) (12 + length (ies_bytes front))) (length d + 2)"
        using beacon_holds(2) [OF assms(1)] es pre assms(4,5) by simp
      moreover have "12 + length (ies_bytes pre) = 12 + length (ies_bytes front) + (length d + 2)"
        by (simp add: pre)
      moreover have "added_ies k dat es = pre @ (of_nat k, dat) # post"
        using False nonempty by (auto simp: added_ies_def Let_def pre_def [symmetric] post_def [symmetric])
      ultimately show ?thesis
        using False scan pre by (auto simp: rtw_add_bcn_ie_def last_seen_def)
    qed
  qed
qed

lemma remove_bcn_ie_beacon:
  assumes "beacon_of b fixd es" and "length (bcn_ies b) < 2 ^ 32"
  shows "\<exists>b'. rtw_remove_bcn_ie True b k = Inr b' \<and> beacon_of b' fixd (removed_ies k es) \<and>
    length (bcn_ies b') = length (bcn_ies b)"
proof -
  define pre where "pre = takeWhile (\<lambda>e. unat (fst e) \<noteq> k) es"
  define post where "post = dropWhile (\<lambda>e. unat (fst e) \<noteq> k) es"
  have es: "es = pre @ post" by (simp add: pre_def post_def)
  have pre: "\<forall>e \<in> set pre. unat (fst e) \<noteq> k" unfolding pre_def by (blast dest: set_takeWhileD)
  show ?thesis
  proof (cases post)
    case Nil
    have "tlv_find enc_ie (\<lambda>e. unat (fst e) = k) 0 es = None" using pre es Nil by (simp add: tlv_find_None_iff)
    moreover have "removed_ies k es = es" using Nil by (simp add: removed_ies_def post_def)
    ultimately show ?thesis using get_ie_beacon [OF assms(1), of k] assms(1) by (simp add: rtw_remove_bcn_ie_def)
  next
    case (Cons e post')
    obtain x d where e: "e = (x, d)" by (cases e)
    have x: "unat x = k"
      using hd_dropWhile [of "\<lambda>e. unat (fst e) \<noteq> k" es] Cons e by (simp add: post_def [symmetric])
    have b: "beacon_of b fixd (pre @ (x, d) # post')" using assms(1) es Cons e by simp
    have "\<exists>b'. put_between True b (12 + length (ies_bytes pre)) [] (12 + length (ies_bytes pre) + (length d + 2))
        (usub32 (usub32 (bcn_ie_len b) (12 + length (ies_bytes pre))) (length d + 2)) = Inr b' \<and>
      beacon_of b' fixd (pre @ [] @ post') \<and> length (bcn_ies b') = length (bcn_ies b)"
      by (rule beacon_edit [where old = "[(x, d)]"]) (use b assms(2) in \<open>simp_all add: beacon_of_def\<close>)
    moreover have "removed_ies k es = (if d = [] then es else pre @ post')"
      using Cons e by (simp add: removed_ies_def Let_def pre_def [symmetric] post_def [symmetric])
    ultimately show ?thesis
      using get_ie_beacon_first [OF b pre x] assms(1) by (auto simp: rtw_remove_bcn_ie_def)
  qed
qed

text \<open>C40: the update of the extended capabilities. A first element with contents is removed; then, unless the new
  contents are empty or eight zeros, the element is added: in place of one that is left with the identifier, or
  behind the elements with smaller identifiers when the last of these has contents, and not at all otherwise. The
  fixed bytes and all other elements stay as they are.\<close>

theorem update_bcn_ext_capab_ie_elems:
  assumes "beacon_of b fixd es" and "length dat = 8" and "n \<le> 8"
    and "bcn_ie_len b + n + 2 \<le> length (bcn_ies b)" and "length (bcn_ies b) < 2 ^ 32"
  shows "\<exists>b'. update_bcn_ext_capab_ie True dat n b = Inr b' \<and>
    beacon_of b' fixd (if 0 < n \<and> dat \<noteq> replicate 8 0 then added_ies 127 (take n dat) (removed_ies 127 es)
                       else removed_ies 127 es)"
proof -
  have n: "length (take n dat) = n" "length (take n dat) < 256" using assms(2,3) by simp_all
  have rd: "rdn dat 0 n = rdn (take n dat) 0 n" using assms(2,3) by (simp add: rdn_def)
  have add: "rtw_add_bcn_ie True b k dat n = rtw_add_bcn_ie True b k (take n dat) n" for b k
    unfolding rtw_add_bcn_ie_def rd ..
  obtain b1 where b1: "rtw_remove_bcn_ie True b 127 = Inr b1" "beacon_of b1 fixd (removed_ies 127 es)"
    "length (bcn_ies b1) = length (bcn_ies b)"
    using remove_bcn_ie_beacon [OF assms(1,5), of 127] by blast
  obtain p l where get: "rtw_get_ie (bcn_ies b) FIXED_IE_LENGTH 127 0 (int (bcn_ie_len b) - int FIXED_IE_LENGTH) = Inr (p, l)"
    using get_ie_beacon [OF assms(1), of 127] by (cases "tlv_find enc_ie (\<lambda>e. unat (fst e) = 127) 0 es") auto
  have first: "(if p \<noteq> None \<and> l > 0 then rtw_remove_bcn_ie True b 127 else Inr b) = Inr b1"
    using b1(1) get by (cases p) (auto simp: rtw_remove_bcn_ie_def)
  have "length (ies_bytes (removed_ies 127 es)) \<le> length (ies_bytes es)"
  proof -
    let ?P = "\<lambda>e. unat (fst e) \<noteq> (127 :: nat)"
    have "length (ies_bytes es) = length (ies_bytes (takeWhile ?P es)) + length (ies_bytes (dropWhile ?P es))"
      by (metis length_append takeWhile_dropWhile_id tlv_bytes_simps(3))
    moreover have "length (ies_bytes (tl xs)) \<le> length (ies_bytes xs)" for xs by (cases xs) simp_all
    ultimately show ?thesis by (simp add: removed_ies_def Let_def)
  qed
  then have room: "bcn_ie_len b1 + length (take n dat) + 2 \<le> length (bcn_ies b1)"
    using beacon_holds(2) [OF b1(2)] beacon_holds(2) [OF assms(1)] b1(3) assms(4) n by simp
  obtain b2 where b2: "rtw_add_bcn_ie True b1 127 dat n = Inr b2"
    "beacon_of b2 fixd (added_ies 127 (take n dat) (removed_ies 127 es))"
    using add_bcn_ie_beacon [OF b1(2) _ n(2) room, of 127] assms(5) b1(3) n(1) add by auto
  have "update_bcn_ext_capab_ie True dat n b =
      (if n > 0 \<and> take 8 dat \<noteq> replicate 8 0 then rtw_add_bcn_ie True b1 127 dat n else Inr b1)"
    unfolding update_bcn_ext_capab_ie_def get bindc_Inr prod.case first ..
  then show ?thesis using b1(2) b2 assms(2) by auto
qed

theorem update_bcn_ext_capab_ie_elems_witness:
  "\<exists>b'. update_bcn_ext_capab_ie True [4, 0, 0, 0, 0, 0, 0, 64] 8 beacon0 = Inr b' \<and>
    beacon_of b' (replicate 12 0)
      (if 0 < (8 :: nat) \<and> [4, 0, 0, 0, 0, 0, 0, 64 :: u8] \<noteq> replicate 8 0
       then added_ies 127 (take 8 [4, 0, 0, 0, 0, 0, 0, 64])
         (removed_ies 127 ([(0, [65, 66]), (1, [130]), (3, [6])] @ (5, [0, 1, 0, 0]) # []))
       else removed_ies 127 ([(0, [65, 66]), (1, [130]), (3, [6])] @ (5, [0, 1, 0, 0]) # []))"
  by (rule update_bcn_ext_capab_ie_elems [OF beacon0_elems]) (simp_all add: beacon0_def)

end
