(* ===== verification/Bss.thy ===== *)
theory Bss
  imports Bcn Vendor
begin

text \<open>
  What an access point counts about its stations and announces in the beacon (core/rtw_ap.c): the counters of
  stations without a capability, which change as stations join and leave, the operation mode for 802.11n that follows
  from them, and the elements of the beacon that are rewritten. Counters are signed, as in the code. The
  reconfiguration of the stations that a change triggers is outside.
\<close>

section \<open>State\<close>

record bss_sta =
  flags :: u32
  capability :: u16
  sta_ht_cap :: u16
  aid :: nat
  no_short_preamble_set :: bool
  nonerp_set :: bool
  no_short_slot_time_set :: bool
  no_ht_set :: bool
  no_ht_gf_set :: bool
  ht_20mhz_set :: bool
  ht_40mhz_intolerant :: bool

record bss =
  bcn :: beacon
  bstart_bss :: bool
  update_bcn :: bool
  tim_bitmap :: "u8 list"
  aid_bmp_len :: nat
  ERP_enable :: bool
  ERP_IE :: "u8 list"
  ext_capab_ie_data :: "u8 list"
  ext_capab_ie_len :: nat
  wps_beacon_ie :: "u8 list option"
  fw_ap_state :: bool
  under_wps :: bool
  cur_wireless_mode :: u8
  cur_channel :: nat
  cur_bwmode :: nat
  cur_ch_offset :: nat
  ht_enabled :: bool
  ht_option :: bool
  HT_info_enable :: bool
  ap_ht_cap :: u16
  olbc :: bool
  olbc_ht :: bool
  ht_20mhz_width_req :: bool
  ht_intolerant_ch_reported :: bool
  sw_to_20mhz :: bool
  ht_op_mode :: u16
  num_sta_no_short_preamble :: int
  num_sta_non_erp :: int
  num_sta_no_short_slot_time :: int
  num_sta_no_ht :: int
  num_sta_ht_no_gf :: int
  num_sta_ht_20mhz :: int
  num_sta_40mhz_intolerant :: int

definition WLAN_STA_SHORT_PREAMBLE :: u32 where "WLAN_STA_SHORT_PREAMBLE = BIT 7"
definition WLAN_STA_HT :: u32 where "WLAN_STA_HT = BIT 11"
definition WLAN_STA_NONERP :: u32 where "WLAN_STA_NONERP = BIT 31"
definition WLAN_CAPABILITY_SHORT_SLOT :: u16 where "WLAN_CAPABILITY_SHORT_SLOT = BIT 10"
definition IEEE80211_HT_CAP_SUP_WIDTH :: u16 where "IEEE80211_HT_CAP_SUP_WIDTH = BIT 1"
definition IEEE80211_HT_CAP_GRN_FLD :: u16 where "IEEE80211_HT_CAP_GRN_FLD = BIT 4"
definition IEEE80211_HT_CAP_40MHZ_INTOLERANT :: u16 where "IEEE80211_HT_CAP_40MHZ_INTOLERANT = BIT 14"
definition WIRELESS_11B :: u8 where "WIRELESS_11B = BIT 0"

section \<open>The operation mode\<close>

definition NON_GF_DEVS_PRESENT :: u16 where "NON_GF_DEVS_PRESENT = BIT 2"
definition NON_HT_STA_PRESENT :: u16 where "NON_HT_STA_PRESENT = BIT 4"
definition OP_MODE_MASK :: u16 where "OP_MODE_MASK = 3"

definition OP_MODE_PURE :: u16 where "OP_MODE_PURE = 0"
definition OP_MODE_MAY_BE_LEGACY_STAS :: u16 where "OP_MODE_MAY_BE_LEGACY_STAS = 1"
definition OP_MODE_20MHZ_HT_STA_ASSOCED :: u16 where "OP_MODE_20MHZ_HT_STA_ASSOCED = 2"
definition OP_MODE_MIXED :: u16 where "OP_MODE_MIXED = 3"

text \<open>A bit of the mode that follows a condition; the count says whether it changed.\<close>

definition follow_bit :: "u16 \<Rightarrow> bool \<Rightarrow> nat \<times> u16 \<Rightarrow> nat \<times> u16" where
  "follow_bit m cond = (\<lambda>(changes, mode).
     if mode AND m = 0 \<and> cond then (changes + 1, mode OR m)
     else if mode AND m \<noteq> 0 \<and> \<not> cond then (changes + 1, mode AND NOT m)
     else (changes, mode))"

definition rtw_ht_operation_update :: "bss \<Rightarrow> nat \<times> bss" where
  "rtw_ht_operation_update b =
     (if \<not> ht_option b then (0, b)
      else
        let (changes, mode) = follow_bit NON_GF_DEVS_PRESENT (num_sta_ht_no_gf b \<noteq> 0) (0, ht_op_mode b);
            (changes, mode) = follow_bit NON_HT_STA_PRESENT (num_sta_no_ht b \<noteq> 0 \<or> olbc_ht b) (changes, mode);
            new_op_mode =
              (if num_sta_no_ht b \<noteq> 0 then OP_MODE_MIXED
               else if ap_ht_cap b AND IEEE80211_HT_CAP_SUP_WIDTH \<noteq> 0 \<and> num_sta_ht_20mhz b \<noteq> 0
               then OP_MODE_20MHZ_HT_STA_ASSOCED
               else if olbc_ht b then OP_MODE_MAY_BE_LEGACY_STAS else OP_MODE_PURE);
            (changes, mode) =
              (if mode AND OP_MODE_MASK \<noteq> new_op_mode
               then (changes + 1, mode AND NOT OP_MODE_MASK OR new_op_mode) else (changes, mode))
        in (changes, b\<lparr>ht_op_mode := mode\<rparr>))"

section \<open>Elements of the beacon\<close>

definition wr1 :: "u8 list \<Rightarrow> nat \<Rightarrow> u8 \<Rightarrow> u8 list cres" where
  "wr1 mem p x = wrn mem p [x]"

definition with_ies :: "bss \<Rightarrow> u8 list \<Rightarrow> bss" where
  "with_ies b m = b\<lparr>bcn := (bcn b)\<lparr>bcn_ies := m\<rparr>\<rparr>"

definition bcn_get_ie :: "nat \<Rightarrow> bss \<Rightarrow> (nat option \<times> nat) cres" where
  "bcn_get_ie k b = rtw_get_ie (bcn_ies (bcn b)) FIXED_IE_LENGTH k 0 (int (bcn_ie_len (bcn b)) - int FIXED_IE_LENGTH)"

definition update_bcn_erpinfo_ie :: "bss \<Rightarrow> bss cres" where
  "update_bcn_erpinfo_ie b =
     (if \<not> ERP_enable b then Inr b
      else
        bindc (bcn_get_ie 42 b) (\<lambda>(p, len).
        case p of
          Some q \<Rightarrow>
            if len > 0 then
              bindc (rd (bcn_ies (bcn b)) (q + 2)) (\<lambda>d.
              let d = (if num_sta_non_erp b = 1 then d OR 0x03 else d AND NOT 0x03);
                  d = (if num_sta_no_short_preamble b > 0 then d OR 0x04 else d AND NOT 0x04) in
              bindc (wr1 (bcn_ies (bcn b)) (q + 2) d) (\<lambda>m.
              Inr (if len > 1 then with_ies b m
                   else (with_ies b m)\<lparr>ERP_enable := True, ERP_IE := d # drop 1 (ERP_IE b)\<rparr>)))
            else Inr b
        | None \<Rightarrow> Inr b))"

text \<open>The two fields of the second byte of the element: the secondary channel and the width.\<close>

definition set_2nd_chl_offset :: "u8 \<Rightarrow> u8 \<Rightarrow> u8" where
  "set_2nd_chl_offset v x = (x AND NOT 0x03) OR v"

definition set_sta_chl_width :: "bool \<Rightarrow> u8 \<Rightarrow> u8" where
  "set_sta_chl_width w x = (x AND NOT 0x04) OR (if w then 0x04 else 0)"

definition htinfo_width :: "bss \<Rightarrow> u8 \<Rightarrow> u8 \<times> bool" where
  "htinfo_width b x =
     (let wants20 = (num_sta_40mhz_intolerant b > 0 \<or> ht_20mhz_width_req b \<or> ht_intolerant_ch_reported b \<or> olbc b);
          wants40 = (num_sta_40mhz_intolerant b = 0 \<and> \<not> ht_20mhz_width_req b \<and> \<not> ht_intolerant_ch_reported b \<and> \<not> olbc b) in
      if \<not> sw_to_20mhz b \<and> cur_channel b \<le> 14 then
        (if wants20 then (set_sta_chl_width False (set_2nd_chl_offset 0 x), True) else (x, sw_to_20mhz b))
      else if wants40 \<and> cur_bwmode b \<ge> 1 then
        (set_2nd_chl_offset (if cur_ch_offset b = 1 then 1 else 3) (set_sta_chl_width True x), False)
      else (x, sw_to_20mhz b))"

definition update_bcn_htinfo_ie :: "bss \<Rightarrow> bss cres" where
  "update_bcn_htinfo_ie b =
     (if \<not> ht_option b \<or> \<not> HT_info_enable b then Inr b
      else
        bindc (bcn_get_ie 61 b) (\<lambda>(p, len).
        case p of
          Some q \<Rightarrow>
            if len > 0 then
              bindc (rd (bcn_ies (bcn b)) (q + 3)) (\<lambda>x.
              let (x', sw) = htinfo_width b x in
              bindc (wr1 (bcn_ies (bcn b)) (q + 3) x') (\<lambda>m.
              bindc (wrn m (q + 4) (put_le16 (ht_op_mode b))) (\<lambda>m.
              Inr ((with_ies b m)\<lparr>sw_to_20mhz := sw\<rparr>))))
            else Inr b
        | None \<Rightarrow> Inr b))"

definition WPS_ATTR_SELECTED_REGISTRAR :: u16 where "WPS_ATTR_SELECTED_REGISTRAR = 0x1041"

text \<open>\<open>update_bcn_wps_ie\<close>: the remainder is read before the element is overwritten. The selected registrar is read
  from the new element with the length of its contents, not of the element.\<close>

definition wps_registrar :: "u8 list \<Rightarrow> nat \<Rightarrow> bss \<Rightarrow> bss cres" where
  "wps_registrar src len b =
     (if \<not> fw_ap_state b then Inr b
      else
        bindc (rtw_get_wps_attr_content src 0 len WPS_ATTR_SELECTED_REGISTRAR (Some [0]) None) (\<lambda>(_, sr, _).
        Inr (b\<lparr>under_wps := (case sr of Some (x # _) \<Rightarrow> x \<noteq> 0 | _ \<Rightarrow> False)\<rparr>)))"

definition update_bcn_wps_ie :: "bool \<Rightarrow> bss \<Rightarrow> bss cres" where
  "update_bcn_wps_ie alloc b =
     (let ielen = bcn_ie_len (bcn b) in
      bindc (rtw_get_wps_ie (bcn_ies (bcn b)) (Some FIXED_IE_LENGTH) (usub32 ielen FIXED_IE_LENGTH) None (Some 0)) (\<lambda>(p, _, l).
      case (p, l, wps_beacon_ie b) of
        (Some off, Some wlen, Some src) \<Rightarrow>
          if wlen = 0 then Inr b
          else
            let remainder_ielen = usub32 (usub32 ielen off) wlen in
            bindc (if remainder_ielen > 0 \<and> alloc then bindc (rdn (bcn_ies (bcn b)) (off + wlen) remainder_ielen) (\<lambda>xs. Inr (Some xs))
                   else Inr None) (\<lambda>backup.
            bindc (rd src 1) (\<lambda>sl.
            let n = unat sl in
            bindc (if (off + n + 2 + remainder_ielen) mod 2 ^ 32 \<le> MAX_IE_SZ then
                     bindc (rdn src 0 (n + 2)) (\<lambda>new.
                     bindc (wrn (bcn_ies (bcn b)) off new) (\<lambda>m.
                     bindc (case backup of None \<Rightarrow> Inr m | Some xs \<Rightarrow> wrn m (off + (n + 2)) xs) (\<lambda>m.
                     Inr (b\<lparr>bcn := \<lparr>bcn_ies = m, bcn_ie_len = (off + (n + 2) + remainder_ielen) mod 2 ^ 32\<rparr>\<rparr>))))
                   else Inr b) (\<lambda>b. wps_registrar src n b)))
      | _ \<Rightarrow> Inr b))"

definition update_bcn_vendor_spec_ie :: "bool \<Rightarrow> u8 list \<Rightarrow> bss \<Rightarrow> bss cres" where
  "update_bcn_vendor_spec_ie alloc oui b =
     (if take 4 oui = [0x00, 0x50, 0xf2, 0x01] \<or> take 4 oui = [0x00, 0x50, 0xf2, 0x02] then Inr b
      else if take 4 oui = wps_oui then update_bcn_wps_ie alloc b
      else Inr b)"

definition update_beacon :: "bool \<Rightarrow> nat \<Rightarrow> u8 list \<Rightarrow> bss \<Rightarrow> bss cres" where
  "update_beacon alloc ie_id oui b =
     (if \<not> bstart_bss b then Inr b
      else
        bindc (if ie_id = 5 then
                 bindc (update_BCNTIM alloc (tim_bitmap b) (aid_bmp_len b) (bcn b)) (\<lambda>c. Inr (b\<lparr>bcn := c\<rparr>))
               else if ie_id = 42 then update_bcn_erpinfo_ie b
               else if ie_id = 61 then update_bcn_htinfo_ie b
               else if ie_id = 127 then
                 bindc (update_bcn_ext_capab_ie alloc (ext_capab_ie_data b) (ext_capab_ie_len b) (bcn b)) (\<lambda>c. Inr (b\<lparr>bcn := c\<rparr>))
               else if ie_id = 221 then update_bcn_vendor_spec_ie alloc oui b
               else Inr b)
          (\<lambda>b. Inr (b\<lparr>update_bcn := True\<rparr>)))"

section \<open>Stations that join and leave\<close>

definition join_preamble :: "bss \<Rightarrow> bss_sta \<Rightarrow> bool \<times> bss \<times> bss_sta" where
  "join_preamble b s =
     (let n = num_sta_no_short_preamble b; g = cur_wireless_mode b > WIRELESS_11B in
      if flags s AND WLAN_STA_SHORT_PREAMBLE = 0 then
        if \<not> no_short_preamble_set s
        then (g \<and> n + 1 = 1, b\<lparr>num_sta_no_short_preamble := n + 1\<rparr>, s\<lparr>no_short_preamble_set := True\<rparr>)
        else (False, b, s)
      else if no_short_preamble_set s
        then (g \<and> n - 1 = 0, b\<lparr>num_sta_no_short_preamble := n - 1\<rparr>, s\<lparr>no_short_preamble_set := False\<rparr>)
      else (False, b, s))"

definition join_nonerp :: "bss \<Rightarrow> bss_sta \<Rightarrow> bool \<times> bss \<times> bss_sta" where
  "join_nonerp b s =
     (let n = num_sta_non_erp b in
      if flags s AND WLAN_STA_NONERP \<noteq> 0 then
        if \<not> nonerp_set s then (n + 1 = 1, b\<lparr>num_sta_non_erp := n + 1\<rparr>, s\<lparr>nonerp_set := True\<rparr>)
        else (False, b, s)
      else if nonerp_set s then (n - 1 = 0, b\<lparr>num_sta_non_erp := n - 1\<rparr>, s\<lparr>nonerp_set := False\<rparr>)
      else (False, b, s))"

definition join_slot :: "bss \<Rightarrow> bss_sta \<Rightarrow> bool \<times> bss \<times> bss_sta" where
  "join_slot b s =
     (let n = num_sta_no_short_slot_time b; g = cur_wireless_mode b > WIRELESS_11B in
      if capability s AND WLAN_CAPABILITY_SHORT_SLOT = 0 then
        if \<not> no_short_slot_time_set s
        then (g \<and> n + 1 = 1, b\<lparr>num_sta_no_short_slot_time := n + 1\<rparr>, s\<lparr>no_short_slot_time_set := True\<rparr>)
        else (False, b, s)
      else if no_short_slot_time_set s
        then (g \<and> n - 1 = 0, b\<lparr>num_sta_no_short_slot_time := n - 1\<rparr>, s\<lparr>no_short_slot_time_set := False\<rparr>)
      else (False, b, s))"

text \<open>The counters of the 802.11n stations. A station that comes back with more capabilities is taken out of the count
  of stations without 802.11n only.\<close>

definition join_ht :: "bss \<Rightarrow> bss_sta \<Rightarrow> bss \<times> bss_sta" where
  "join_ht b s =
     (if flags s AND WLAN_STA_HT \<noteq> 0 then
        let ht_capab = sta_ht_cap s;
            (b, s) = (if no_ht_set s then (b\<lparr>num_sta_no_ht := num_sta_no_ht b - 1\<rparr>, s\<lparr>no_ht_set := False\<rparr>) else (b, s));
            (b, s) = (if ht_capab AND IEEE80211_HT_CAP_GRN_FLD = 0 \<and> \<not> no_ht_gf_set s
                      then (b\<lparr>num_sta_ht_no_gf := num_sta_ht_no_gf b + 1\<rparr>, s\<lparr>no_ht_gf_set := True\<rparr>) else (b, s));
            (b, s) = (if ht_capab AND IEEE80211_HT_CAP_SUP_WIDTH = 0 \<and> \<not> ht_20mhz_set s
                      then (b\<lparr>num_sta_ht_20mhz := num_sta_ht_20mhz b + 1\<rparr>, s\<lparr>ht_20mhz_set := True\<rparr>) else (b, s))
        in if ht_capab AND IEEE80211_HT_CAP_40MHZ_INTOLERANT \<noteq> 0 \<and> \<not> ht_40mhz_intolerant s
           then (b\<lparr>num_sta_40mhz_intolerant := num_sta_40mhz_intolerant b + 1\<rparr>, s\<lparr>ht_40mhz_intolerant := True\<rparr>)
           else (b, s)
      else if \<not> no_ht_set s then (b\<lparr>num_sta_no_ht := num_sta_no_ht b + 1\<rparr>, s\<lparr>no_ht_set := True\<rparr>)
      else (b, s))"

definition announce_ht :: "bool \<Rightarrow> bss \<Rightarrow> (bool \<times> bss) cres" where
  "announce_ht alloc b =
     (let (n, b) = rtw_ht_operation_update b in
      if n > 0 then
        bindc (update_beacon alloc 45 [] b) (\<lambda>b. bindc (update_beacon alloc 61 [] b) (\<lambda>b. Inr (True, b)))
      else Inr (False, b))"

definition bss_cap_update_on_sta_join :: "bool \<Rightarrow> bss \<Rightarrow> bss_sta \<Rightarrow> (bool \<times> bss \<times> bss_sta) cres" where
  "bss_cap_update_on_sta_join alloc b s =
     (let (u1, b, s) = join_preamble b s; (u2, b, s) = join_nonerp b s in
      bindc (if u2 then update_beacon alloc 42 [] b else Inr b) (\<lambda>b.
      let (u3, b, s) = join_slot b s in
      bindc (if ht_enabled b
             then let (b, s) = join_ht b s in bindc (announce_ht alloc b) (\<lambda>(u, b). Inr (u, b, s))
             else Inr (False, b, s)) (\<lambda>(u4, b, s).
      let updated = (u1 \<or> u2 \<or> u3 \<or> u4) in
      bindc (if updated then update_beacon alloc 0xFF [] b else Inr b) (\<lambda>b. Inr (updated, b, s)))))"

definition leave_tim :: "bool \<Rightarrow> bss \<Rightarrow> bss_sta \<Rightarrow> (bool \<times> bss) cres" where
  "leave_tim alloc b s =
     (if rtw_bmp_is_set (tim_bitmap b) (aid_bmp_len b) (aid s) then
        bindc (update_beacon alloc 5 [] (b\<lparr>tim_bitmap := rtw_bmp_clear (tim_bitmap b) (aid_bmp_len b) (aid s)\<rparr>))
          (\<lambda>b. Inr (True, b))
      else Inr (False, b))"

definition leave_ht :: "bss \<Rightarrow> bss_sta \<Rightarrow> bss \<times> bss_sta" where
  "leave_ht b s =
     (let (b, s) = (if no_ht_gf_set s
                    then (b\<lparr>num_sta_ht_no_gf := num_sta_ht_no_gf b - 1\<rparr>, s\<lparr>no_ht_gf_set := False\<rparr>) else (b, s));
          (b, s) = (if no_ht_set s then (b\<lparr>num_sta_no_ht := num_sta_no_ht b - 1\<rparr>, s\<lparr>no_ht_set := False\<rparr>) else (b, s));
          (b, s) = (if ht_20mhz_set s
                    then (b\<lparr>num_sta_ht_20mhz := num_sta_ht_20mhz b - 1\<rparr>, s\<lparr>ht_20mhz_set := False\<rparr>) else (b, s))
      in if ht_40mhz_intolerant s
         then (if num_sta_40mhz_intolerant b > 0
               then b\<lparr>num_sta_40mhz_intolerant := num_sta_40mhz_intolerant b - 1\<rparr> else b, s\<lparr>ht_40mhz_intolerant := False\<rparr>)
         else (b, s))"

definition leave_preamble :: "bss \<Rightarrow> bss_sta \<Rightarrow> bool \<times> bss \<times> bss_sta" where
  "leave_preamble b s =
     (let n = num_sta_no_short_preamble b in
      if no_short_preamble_set s
      then (cur_wireless_mode b > WIRELESS_11B \<and> n - 1 = 0,
        b\<lparr>num_sta_no_short_preamble := n - 1\<rparr>, s\<lparr>no_short_preamble_set := False\<rparr>)
      else (False, b, s))"

definition leave_nonerp :: "bss \<Rightarrow> bss_sta \<Rightarrow> bool \<times> bss \<times> bss_sta" where
  "leave_nonerp b s =
     (let n = num_sta_non_erp b in
      if nonerp_set s then (n - 1 = 0, b\<lparr>num_sta_non_erp := n - 1\<rparr>, s\<lparr>nonerp_set := False\<rparr>)
      else (False, b, s))"

definition leave_slot :: "bss \<Rightarrow> bss_sta \<Rightarrow> bool \<times> bss \<times> bss_sta" where
  "leave_slot b s =
     (let n = num_sta_no_short_slot_time b in
      if no_short_slot_time_set s
      then (cur_wireless_mode b > WIRELESS_11B \<and> n - 1 = 0,
        b\<lparr>num_sta_no_short_slot_time := n - 1\<rparr>, s\<lparr>no_short_slot_time_set := False\<rparr>)
      else (False, b, s))"

definition bss_cap_update_on_sta_leave :: "bool \<Rightarrow> bss \<Rightarrow> bss_sta \<Rightarrow> (bool \<times> bss \<times> bss_sta) cres" where
  "bss_cap_update_on_sta_leave alloc b s =
     bindc (leave_tim alloc b s) (\<lambda>(u1, b).
     let (u2, b, s) = leave_preamble b s; (u3, b, s) = leave_nonerp b s in
     bindc (if u3 then update_beacon alloc 42 [] b else Inr b) (\<lambda>b.
     let (u4, b, s) = leave_slot b s; (b, s) = leave_ht b s in
     bindc (announce_ht alloc b) (\<lambda>(_, b).
     let updated = (u1 \<or> u2 \<or> u3 \<or> u4) in
     bindc (if updated then update_beacon alloc 0xFF [] b else Inr b) (\<lambda>b. Inr (updated, b, s)))))"

text \<open>A 20/40 MHz coexistence report. The category and the action are read before the length is looked at, and one byte
  of body is enough for the first report to be read.\<close>

definition coex_report :: "u8 list \<Rightarrow> bss \<Rightarrow> bss_sta \<Rightarrow> (bool \<times> bss \<times> bss_sta) cres" where
  "coex_report body b s =
     bindc (rd body 2) (\<lambda>e. if e \<noteq> 72 then Inr (False, b, s) else
     bindc (rd body 3) (\<lambda>l. if l = 0 then Inr (False, b, s) else
     bindc (rd body 4) (\<lambda>d.
     if d AND BIT 1 \<noteq> 0 then
       if \<not> ht_40mhz_intolerant s
       then Inr (True, b\<lparr>num_sta_40mhz_intolerant := num_sta_40mhz_intolerant b + 1\<rparr>, s\<lparr>ht_40mhz_intolerant := True\<rparr>)
       else Inr (False, b, s)
     else if d AND BIT 2 \<noteq> 0 then
       if \<not> ht_20mhz_width_req b then Inr (True, b\<lparr>ht_20mhz_width_req := True\<rparr>, s) else Inr (False, b, s)
     else Inr (False, b, s))))"

definition coex_channels :: "u8 list \<Rightarrow> bool \<Rightarrow> bss \<Rightarrow> (bool \<times> bss) cres" where
  "coex_channels body u b =
     bindc (rd body 5) (\<lambda>e. if e \<noteq> 73 then Inr (u, b) else
     bindc (rd body 6) (\<lambda>l.
     if l > 0 \<and> \<not> ht_intolerant_ch_reported b then Inr (True, b\<lparr>ht_intolerant_ch_reported := True\<rparr>) else Inr (u, b)))"

definition rtw_process_public_act_bsscoex :: "bool \<Rightarrow> u8 list \<Rightarrow> bss \<Rightarrow> bss_sta \<Rightarrow> (bss \<times> bss_sta) cres" where
  "rtw_process_public_act_bsscoex alloc body b s =
     bindc (rd body 0) (\<lambda>_. bindc (rd body 1) (\<lambda>_.
     bindc (if length body > 0 then coex_report body b s else Inr (False, b, s)) (\<lambda>(u, b, s).
     bindc (if length body > 8 then coex_channels body u b else Inr (u, b)) (\<lambda>(u, b).
     bindc (if u then update_beacon alloc 61 [] b else Inr b) (\<lambda>b. Inr (b, s))))))"

section \<open>What an update of the beacon leaves alone\<close>

definition keeps :: "bss \<Rightarrow> bss \<Rightarrow> bool" where
  "keeps b b' \<longleftrightarrow>
     num_sta_no_short_preamble b' = num_sta_no_short_preamble b \<and> num_sta_non_erp b' = num_sta_non_erp b \<and>
     num_sta_no_short_slot_time b' = num_sta_no_short_slot_time b \<and> num_sta_no_ht b' = num_sta_no_ht b \<and>
     num_sta_ht_no_gf b' = num_sta_ht_no_gf b \<and> num_sta_ht_20mhz b' = num_sta_ht_20mhz b \<and>
     num_sta_40mhz_intolerant b' = num_sta_40mhz_intolerant b \<and> ht_op_mode b' = ht_op_mode b \<and>
     ht_option b' = ht_option b \<and> ht_enabled b' = ht_enabled b \<and> olbc_ht b' = olbc_ht b \<and> ap_ht_cap b' = ap_ht_cap b"

lemma keeps_refl [simp]: "keeps b b"
  by (simp add: keeps_def)

lemma res_all_bind_keeps:
  "res_all (keeps b) m \<Longrightarrow> (\<And>c. keeps b c \<Longrightarrow> res_all P (f c)) \<Longrightarrow> res_all P (bindc m f)"
  by (cases m) (simp_all add: res_all_def)

lemma keeps_with_ies [simp]: "keeps b (with_ies b m)"
  by (simp add: keeps_def with_ies_def)

lemma keeps_sw [simp]: "keeps b (c\<lparr>sw_to_20mhz := x\<rparr>) \<longleftrightarrow> keeps b c"
  "keeps b (c\<lparr>ERP_enable := e, ERP_IE := ys\<rparr>) \<longleftrightarrow> keeps b c" "keeps b (c\<lparr>under_wps := w\<rparr>) \<longleftrightarrow> keeps b c"
  "keeps b (c\<lparr>update_bcn := v\<rparr>) \<longleftrightarrow> keeps b c" "keeps b (c\<lparr>bcn := z\<rparr>) \<longleftrightarrow> keeps b c"
  "keeps (b\<lparr>tim_bitmap := t\<rparr>) c \<longleftrightarrow> keeps b c" "keeps (b\<lparr>bcn := z\<rparr>) c \<longleftrightarrow> keeps b c"
  by (simp_all add: keeps_def)

lemma keeps_erpinfo: "res_all (keeps b) (update_bcn_erpinfo_ie b)"
  unfolding update_bcn_erpinfo_ie_def Let_def
  by (intro res_intros | simp split: option.splits prod.splits)+

lemma keeps_htinfo: "res_all (keeps b) (update_bcn_htinfo_ie b)"
  unfolding update_bcn_htinfo_ie_def Let_def
  by (intro res_intros | simp split: option.splits prod.splits)+

lemma keeps_wps_registrar: "keeps b c \<Longrightarrow> res_all (keeps b) (wps_registrar src n c)"
  unfolding wps_registrar_def
  by (intro res_intros | simp split: option.splits prod.splits)+

lemma keeps_wps: "res_all (keeps b) (update_bcn_wps_ie alloc b)"
  unfolding update_bcn_wps_ie_def Let_def
  by (rule res_all_bind_keeps [where b = b] res_intros keeps_wps_registrar | simp split: option.splits prod.splits)+

lemma res_all_update_beacon: "res_all (keeps b) (update_beacon alloc k oui b)"
  unfolding update_beacon_def update_bcn_vendor_spec_ie_def
  by (rule res_all_bind_keeps [where b = b] res_intros keeps_erpinfo keeps_htinfo keeps_wps | simp)+

lemma keeps_update_beacon: "update_beacon alloc k oui b = Inr b' \<Longrightarrow> keeps b b'"
  by (rule res_allD [OF res_all_update_beacon])

lemma keeps_maybe: "(if u then update_beacon alloc k oui b else Inr b) = Inr b' \<Longrightarrow> keeps b b'"
  by (auto split: if_splits dest: keeps_update_beacon)

section \<open>The counters\<close>

text \<open>What the counters hold apart from one station: a step of the station must leave it as it is.\<close>

definition others :: "bss \<times> bss_sta \<Rightarrow> int \<times> int \<times> int \<times> int \<times> int \<times> int \<times> int" where
  "others = (\<lambda>(b, s).
     (num_sta_no_short_preamble b - of_bool (no_short_preamble_set s), num_sta_non_erp b - of_bool (nonerp_set s),
      num_sta_no_short_slot_time b - of_bool (no_short_slot_time_set s), num_sta_no_ht b - of_bool (no_ht_set s),
      num_sta_ht_no_gf b - of_bool (no_ht_gf_set s), num_sta_ht_20mhz b - of_bool (ht_20mhz_set s),
      num_sta_40mhz_intolerant b - of_bool (ht_40mhz_intolerant s)))"

definition moves :: "bss \<times> bss_sta \<Rightarrow> bss \<times> bss_sta \<Rightarrow> bool" where
  "moves x y \<longleftrightarrow> others y = others x"

lemma moves_trans: "moves x y \<Longrightarrow> moves y z \<Longrightarrow> moves x z"
  by (simp add: moves_def)

lemma moves_keeps: "keeps b b' \<Longrightarrow> moves (b, s) (b', s)"
  by (simp add: moves_def others_def keeps_def)

lemmas moves_simps = moves_def others_def Let_def

lemma moves_preamble: "moves (b, s) (snd (join_preamble b s))"
  by (simp add: join_preamble_def moves_simps)

lemma moves_nonerp: "moves (b, s) (snd (join_nonerp b s))"
  by (simp add: join_nonerp_def moves_simps)

lemma moves_slot: "moves (b, s) (snd (join_slot b s))"
  by (simp add: join_slot_def moves_simps)

lemma moves_ht: "moves (b, s) (join_ht b s)"
  by (simp add: join_ht_def moves_simps)

lemma moves_ht_operation: "moves (b, s) (snd (rtw_ht_operation_update b), s)"
  by (simp add: rtw_ht_operation_update_def moves_simps split_beta)

lemma moves_announce: "announce_ht alloc b = Inr (u, b') \<Longrightarrow> moves (b, s) (b', s)"
  unfolding announce_ht_def Let_def
  by (cases "rtw_ht_operation_update b")
    (use moves_ht_operation [of b s] in
      \<open>auto split: if_splits simp: moves_def dest!: keeps_update_beacon moves_keeps [where s = s, unfolded moves_def]\<close>)

lemma moves_maybe: "(if u then update_beacon alloc k oui b else Inr b) = Inr b' \<Longrightarrow> moves (b, s) (b', s)"
  by (rule moves_keeps) (rule keeps_maybe)

text \<open>The steps of a station that joins, in order.\<close>

lemma join_cases:
  assumes "bss_cap_update_on_sta_join alloc b s = Inr (u, b', s')"
  obtains u1 b1 s1 u2 b2 s2 b3 u4 b4 s4 u5 b5 u6 where
    "join_preamble b s = (u1, b1, s1)" "join_nonerp b1 s1 = (u2, b2, s2)"
    "(if u2 then update_beacon alloc 42 [] b2 else Inr b2) = Inr b3" "join_slot b3 s2 = (u4, b4, s4)"
    "(if ht_enabled b4 then let (b, s) = join_ht b4 s4 in bindc (announce_ht alloc b) (\<lambda>(u, b). Inr (u, b, s))
      else Inr (False, b4, s4)) = Inr (u5, b5, s')"
    "(if u6 then update_beacon alloc 0xFF [] b5 else Inr b5) = Inr b'" "u = u6" "u6 = (u1 \<or> u2 \<or> u4 \<or> u5)"
proof -
  obtain u1 b1 s1 where 1: "join_preamble b s = (u1, b1, s1)" by (rule prod_cases3)
  obtain u2 b2 s2 where 2: "join_nonerp b1 s1 = (u2, b2, s2)" by (rule prod_cases3)
  obtain b3 where 3: "(if u2 then update_beacon alloc 42 [] b2 else Inr b2) = Inr b3"
    using assms by (auto simp: bss_cap_update_on_sta_join_def 1 2 simp del: if_split)
  obtain u4 b4 s4 where 4: "join_slot b3 s2 = (u4, b4, s4)" by (rule prod_cases3)
  obtain u5 b5 where "(if ht_enabled b4
      then let (b, s) = join_ht b4 s4 in bindc (announce_ht alloc b) (\<lambda>(u, b). Inr (u, b, s)) else Inr (False, b4, s4)) = Inr (u5, b5, s')"
    "(if u1 \<or> u2 \<or> u4 \<or> u5 then update_beacon alloc 0xFF [] b5 else Inr b5) = Inr b'" "u = (u1 \<or> u2 \<or> u4 \<or> u5)"
    using assms unfolding bss_cap_update_on_sta_join_def Let_def 1 2 split_conv 3 bindc_Inr 4 bindc_eq_Inr
    by (clarsimp simp del: if_split)
  with that [OF 1 2 3 4] show thesis by blast
qed

lemma moves_join:
  assumes "bss_cap_update_on_sta_join alloc b s = Inr (u, b', s')"
  shows "moves (b, s) (b', s')"
  using assms
proof (rule join_cases)
  fix u1 b1 s1 u2 b2 s2 b3 u4 b4 s4 u5 b5 u6
  assume *: "join_preamble b s = (u1, b1, s1)" "join_nonerp b1 s1 = (u2, b2, s2)"
    "(if u2 then update_beacon alloc 42 [] b2 else Inr b2) = Inr b3" "join_slot b3 s2 = (u4, b4, s4)"
    "(if ht_enabled b4 then let (b, s) = join_ht b4 s4 in bindc (announce_ht alloc b) (\<lambda>(u, b). Inr (u, b, s))
      else Inr (False, b4, s4)) = Inr (u5, b5, s')"
    "(if u6 then update_beacon alloc 0xFF [] b5 else Inr b5) = Inr b'"
  have "moves (b4, s4) (b5, s')"
    using *(5) moves_ht [of b4 s4] by (cases "join_ht b4 s4")
      (auto simp: moves_def split: if_splits dest: moves_announce [where s = s', unfolded moves_def])
  then show ?thesis
    using moves_preamble [of b s] moves_nonerp [of b1 s1] moves_maybe [OF *(3), of s2] moves_slot [of b3 s2] moves_maybe [OF *(6), of s']
    by (simp add: moves_def *(1,2,4))
qed

definition forget :: "bss_sta \<Rightarrow> bss_sta" where
  "forget s = s\<lparr>no_short_preamble_set := False, nonerp_set := False, no_short_slot_time_set := False, no_ht_set := False,
     no_ht_gf_set := False, ht_20mhz_set := False, ht_40mhz_intolerant := False\<rparr>"

lemma keeps_leave_tim: "leave_tim alloc b s = Inr (u, b') \<Longrightarrow> keeps b b'"
  by (auto simp: leave_tim_def split: if_splits dest!: keeps_update_beacon)

lemma leave_preamble_moves: "moves (b, s) (snd (leave_preamble b s))"
  by (simp add: leave_preamble_def moves_simps)

lemma leave_nonerp_moves: "moves (b, s) (snd (leave_nonerp b s))"
  by (simp add: leave_nonerp_def moves_simps)

lemma leave_slot_moves: "moves (b, s) (snd (leave_slot b s))"
  by (simp add: leave_slot_def moves_simps)

lemma leave_ht_moves:
  "(ht_40mhz_intolerant s \<Longrightarrow> num_sta_40mhz_intolerant b > 0) \<Longrightarrow> moves (b, s) (leave_ht b s)"
  by (simp add: leave_ht_def moves_simps)

lemma leave_intolerant:
  "num_sta_40mhz_intolerant (fst (snd (leave_preamble b s))) = num_sta_40mhz_intolerant b"
  "num_sta_40mhz_intolerant (fst (snd (leave_nonerp b s))) = num_sta_40mhz_intolerant b"
  "num_sta_40mhz_intolerant (fst (snd (leave_slot b s))) = num_sta_40mhz_intolerant b"
  by (simp_all add: leave_preamble_def leave_nonerp_def leave_slot_def Let_def)

lemma leave_flags:
  "snd (snd (leave_preamble b s)) = s\<lparr>no_short_preamble_set := False\<rparr>"
  "snd (snd (leave_nonerp b s)) = s\<lparr>nonerp_set := False\<rparr>"
  "snd (snd (leave_slot b s)) = s\<lparr>no_short_slot_time_set := False\<rparr>"
  by (simp_all add: leave_preamble_def leave_nonerp_def leave_slot_def Let_def)

lemma leave_ht_flags:
  "snd (leave_ht b s) = s\<lparr>no_ht_set := False, no_ht_gf_set := False, ht_20mhz_set := False, ht_40mhz_intolerant := False\<rparr>"
  by (simp add: leave_ht_def Let_def)

text \<open>The steps of a station that leaves, in order.\<close>

lemma leave_cases:
  assumes "bss_cap_update_on_sta_leave alloc b s = Inr (u, b', s')"
  obtains u1 b1 u2 b2 s2 u3 b3 s3 b4 u5 b5 s5 b6 u6 b7 u8 where
    "leave_tim alloc b s = Inr (u1, b1)" "leave_preamble b1 s = (u2, b2, s2)" "leave_nonerp b2 s2 = (u3, b3, s3)"
    "(if u3 then update_beacon alloc 42 [] b3 else Inr b3) = Inr b4" "leave_slot b4 s3 = (u5, b5, s5)"
    "leave_ht b5 s5 = (b6, s')" "announce_ht alloc b6 = Inr (u6, b7)"
    "(if u8 then update_beacon alloc 0xFF [] b7 else Inr b7) = Inr b'"
proof -
  obtain u1 b1 where 1: "leave_tim alloc b s = Inr (u1, b1)"
    using assms unfolding bss_cap_update_on_sta_leave_def bindc_eq_Inr by (elim exE conjE) (metis surj_pair)
  obtain u2 b2 s2 where 2: "leave_preamble b1 s = (u2, b2, s2)" by (rule prod_cases3)
  obtain u3 b3 s3 where 3: "leave_nonerp b2 s2 = (u3, b3, s3)" by (rule prod_cases3)
  obtain b4 where 4: "(if u3 then update_beacon alloc 42 [] b3 else Inr b3) = Inr b4"
    using assms unfolding bss_cap_update_on_sta_leave_def Let_def 1 bindc_Inr 2 3 split_conv bindc_eq_Inr by (elim exE conjE) metis
  obtain u5 b5 s5 where 5: "leave_slot b4 s3 = (u5, b5, s5)" by (rule prod_cases3)
  obtain b6 s6 where 6: "leave_ht b5 s5 = (b6, s6)" by (rule prod.exhaust)
  obtain u6 b7 u8 where "announce_ht alloc b6 = Inr (u6, b7)" "s6 = s'"
      "(if u8 then update_beacon alloc 0xFF [] b7 else Inr b7) = Inr b'"
    using assms unfolding bss_cap_update_on_sta_leave_def Let_def 1 bindc_Inr 2 3 split_conv 4 5 6 bindc_eq_Inr
    by (clarsimp simp del: if_split)
  with that [OF 1 2 3 4 5] 6 show thesis by blast
qed

lemma leave_forgets:
  "bss_cap_update_on_sta_leave alloc b s = Inr (u, b', s') \<Longrightarrow> s' = forget s"
proof (erule leave_cases)
  fix u1 b1 u2 b2 s2 u3 b3 s3 b4 u5 b5 s5 b6
  assume *: "leave_preamble b1 s = (u2, b2, s2)" "leave_nonerp b2 s2 = (u3, b3, s3)" "leave_slot b4 s3 = (u5, b5, s5)"
    "leave_ht b5 s5 = (b6, s')"
  note leave_flags(1) [of b1 s, unfolded *(1) snd_conv] leave_flags(2) [of b2 s2, unfolded *(2) snd_conv]
    leave_flags(3) [of b4 s3, unfolded *(3) snd_conv] leave_ht_flags [of b5 s5, unfolded *(4) snd_conv]
  then show ?thesis
    by (simp add: forget_def)
qed

lemma moves_leave:
  assumes "bss_cap_update_on_sta_leave alloc b s = Inr (u, b', s')" and "ht_40mhz_intolerant s \<Longrightarrow> num_sta_40mhz_intolerant b > 0"
  shows "moves (b, s) (b', s')"
  using assms(1)
proof (rule leave_cases)
  fix u1 b1 u2 b2 s2 u3 b3 s3 b4 u5 b5 s5 b6 u6 b7 u8
  assume *: "leave_tim alloc b s = Inr (u1, b1)" "leave_preamble b1 s = (u2, b2, s2)" "leave_nonerp b2 s2 = (u3, b3, s3)"
    "(if u3 then update_beacon alloc 42 [] b3 else Inr b3) = Inr b4" "leave_slot b4 s3 = (u5, b5, s5)"
    "leave_ht b5 s5 = (b6, s')" "announce_ht alloc b6 = Inr (u6, b7)"
    "(if u8 then update_beacon alloc 0xFF [] b7 else Inr b7) = Inr b'"
  note s = leave_flags(1) [of b1 s, unfolded *(2) snd_conv] leave_flags(2) [of b2 s2, unfolded *(3) snd_conv]
      leave_flags(3) [of b4 s3, unfolded *(5) snd_conv]
  have "num_sta_40mhz_intolerant b5 = num_sta_40mhz_intolerant b"
    using keeps_leave_tim [OF *(1)] keeps_maybe [OF *(4)] leave_intolerant(1) [of b1 s] leave_intolerant(2) [of b2 s2]
      leave_intolerant(3) [of b4 s3]
    by (simp add: *(2,3,5) keeps_def)
  then have "ht_40mhz_intolerant s5 \<Longrightarrow> num_sta_40mhz_intolerant b5 > 0"
    using assms(2) by (simp add: s)
  then show ?thesis
    using moves_keeps [OF keeps_leave_tim [OF *(1)], of s] leave_preamble_moves [of b1 s] leave_nonerp_moves [of b2 s2]
      moves_maybe [OF *(4), of s3] leave_slot_moves [of b4 s3] leave_ht_moves [of s5 b5] moves_announce [OF *(7), of s']
      moves_maybe [OF *(8), of s']
    by (simp add: *(2,3,5,6) moves_def)
qed

lemma moves_coex:
  assumes "rtw_process_public_act_bsscoex alloc body b s = Inr (b', s')"
  shows "moves (b, s) (b', s')"
proof -
  have 1: "res_all (\<lambda>(u, b', s'). moves (b, s) (b', s')) (coex_report body b s)"
    unfolding coex_report_def by (intro res_intros) (simp_all add: moves_simps)
  have 2: "res_all (\<lambda>(u, b'). moves (b, s) (b', s)) (coex_channels body u b)" for u b s
    unfolding coex_channels_def by (intro res_intros) (simp_all add: moves_simps)
  obtain u1 b1 where r: "(if length body > 0 then coex_report body b s else Inr (False, b, s)) = Inr (u1, b1, s')"
    and c: "bindc (if length body > 8 then coex_channels body u1 b1 else Inr (u1, b1)) (\<lambda>(u, b).
      bindc (if u then update_beacon alloc 61 [] b else Inr b) (\<lambda>b. Inr (b, s'))) = Inr (b', s')"
    using assms unfolding rtw_process_public_act_bsscoex_def bindc_eq_Inr by (clarsimp simp del: if_split)
  obtain u2 b2 where c2: "(if length body > 8 then coex_channels body u1 b1 else Inr (u1, b1)) = Inr (u2, b2)"
    and u: "(if u2 then update_beacon alloc 61 [] b2 else Inr b2) = Inr b'"
    using c unfolding bindc_eq_Inr by (clarsimp simp del: if_split)
  have "moves (b, s) (b1, s')" using r 1 by (auto simp: moves_def split: if_splits dest: res_allD)
  moreover have "moves (b1, s') (b2, s')" using c2 2 [where s = s' and b = b1 and u = u1] by (auto simp: moves_def split: if_splits dest: res_allD)
  ultimately show ?thesis using moves_maybe [OF u, of s'] by (simp add: moves_def)
qed

section \<open>The operation mode and the counters\<close>

text \<open>The mode that the counters ask for.\<close>

definition spec_op_mode :: "bool \<Rightarrow> bool \<Rightarrow> bool \<Rightarrow> bool \<Rightarrow> bool \<Rightarrow> u16" where
  "spec_op_mode nogf noht ht20 wide overlap =
     (if nogf then 4 else 0) OR (if noht \<or> overlap then 16 else 0) OR
     (if noht then 3 else if wide \<and> ht20 then 2 else if overlap then 1 else 0)"

abbreviation "wide_ap b \<equiv> ap_ht_cap b AND IEEE80211_HT_CAP_SUP_WIDTH \<noteq> 0"

definition mode_of_counters :: "bss \<Rightarrow> u16" where
  "mode_of_counters b =
     spec_op_mode (num_sta_ht_no_gf b \<noteq> 0) (num_sta_no_ht b \<noteq> 0) (num_sta_ht_20mhz b \<noteq> 0) (wide_ap b) (olbc_ht b)"

definition op_mode :: "bool \<Rightarrow> bool \<Rightarrow> u16 \<Rightarrow> u16" where
  "op_mode x y r = (if x then 4 else 0) OR (if y then 16 else 0) OR r"

lemma spec_op_mode:
  "spec_op_mode a b c d e = op_mode a (b \<or> e) (if b then 3 else if d \<and> c then 2 else if e then 1 else 0)"
  by (simp add: spec_op_mode_def op_mode_def)

lemmas op_mode_defs = follow_bit_def NON_GF_DEVS_PRESENT_def NON_HT_STA_PRESENT_def OP_MODE_MASK_def OP_MODE_PURE_def
  OP_MODE_MAY_BE_LEGACY_STAS_def OP_MODE_20MHZ_HT_STA_ASSOCED_def OP_MODE_MIXED_def BIT_def

text \<open>From any mode the counters could have asked for, the update leads to the mode they ask for now, and it counts a
  change exactly when the mode is another one.\<close>

definition next_op_mode :: "bool \<Rightarrow> bool \<Rightarrow> bool \<Rightarrow> bool \<Rightarrow> bool \<Rightarrow> u16 \<Rightarrow> nat \<times> u16" where
  "next_op_mode nogf noht ht20 wide overlap mode =
     (let (changes, mode) = follow_bit NON_GF_DEVS_PRESENT nogf (0, mode);
          (changes, mode) = follow_bit NON_HT_STA_PRESENT (noht \<or> overlap) (changes, mode);
          new_op_mode = (if noht then OP_MODE_MIXED else if wide \<and> ht20 then OP_MODE_20MHZ_HT_STA_ASSOCED
            else if overlap then OP_MODE_MAY_BE_LEGACY_STAS else OP_MODE_PURE)
      in if mode AND OP_MODE_MASK \<noteq> new_op_mode
         then (changes + 1, mode AND NOT OP_MODE_MASK OR new_op_mode) else (changes, mode))"

lemma op_masks: "NON_GF_DEVS_PRESENT = 4" "NON_HT_STA_PRESENT = 16"
  by (simp_all add: op_mode_defs)

lemma op_mode_bits:
  assumes "r \<in> {0, 1, 2, 3}"
  shows "op_mode x y r AND 4 = 0 \<longleftrightarrow> \<not> x" "op_mode x y r AND 16 = 0 \<longleftrightarrow> \<not> y" "op_mode x y r AND 3 = r"
    "op_mode x y r OR 4 = op_mode True y r" "op_mode x y r OR 16 = op_mode x True r"
    "op_mode x y r AND NOT 4 = op_mode False y r" "op_mode x y r AND NOT 16 = op_mode x False r"
    "op_mode x y r AND NOT 3 = op_mode x y 0"
  using assms by (cases x; cases y; fastforce simp: op_mode_def)+

lemma op_mode_inj:
  "r \<in> {0, 1, 2, 3} \<Longrightarrow> r' \<in> {0, 1, 2, 3} \<Longrightarrow> op_mode x y r = op_mode x' y' r' \<longleftrightarrow> x = x' \<and> y = y' \<and> r = r'"
  using op_mode_bits(1-3) [of r x y] op_mode_bits(1-3) [of r' x' y'] by auto

lemma op_mode_or: "op_mode x y 0 OR r = op_mode x y r"
  by (simp add: op_mode_def or.assoc)

lemma next_op_mode_spec:
  assumes "r \<in> {0, 1, 2, 3}"
  shows "snd (next_op_mode a b c d e (op_mode x y r)) = spec_op_mode a b c d e \<and>
     (fst (next_op_mode a b c d e (op_mode x y r)) = 0 \<longleftrightarrow> op_mode x y r = spec_op_mode a b c d e)"
proof -
  define t :: u16 where "t = (if b then 3 else if d \<and> c then 2 else if e then 1 else 0)"
  have t: "t \<in> {0, 1, 2, 3}" by (simp add: t_def)
  have 1: "follow_bit 4 k (n, op_mode x y r) = (if x = k then n else n + 1, op_mode k y r)" for k x y n
    using op_mode_bits [OF assms, of x y] by (cases k; cases x; simp add: follow_bit_def)
  have 2: "follow_bit 16 k (n, op_mode x y r) = (if y = k then n else n + 1, op_mode x k r)" for k x y n
    using op_mode_bits [OF assms, of x y] by (cases k; cases y; simp add: follow_bit_def)
  have 3: "(if b then OP_MODE_MIXED else if d \<and> c then OP_MODE_20MHZ_HT_STA_ASSOCED
            else if e then OP_MODE_MAY_BE_LEGACY_STAS else OP_MODE_PURE) = t"
    by (simp add: t_def OP_MODE_PURE_def OP_MODE_MAY_BE_LEGACY_STAS_def OP_MODE_20MHZ_HT_STA_ASSOCED_def OP_MODE_MIXED_def)
  have "next_op_mode a b c d e (op_mode x y r) =
      (of_bool (x \<noteq> a) + of_bool (y \<noteq> (b \<or> e)) + of_bool (r \<noteq> t), op_mode a (b \<or> e) t)"
    by (simp only: next_op_mode_def op_masks 1 2 3 Let_def split_conv OP_MODE_MASK_def op_mode_bits [OF assms] op_mode_or
        cong: if_cong) simp
  then show ?thesis
    by (auto simp: spec_op_mode t_def [symmetric] op_mode_inj [OF assms t])
qed

lemma rtw_ht_operation_update_next:
  "ht_option b \<Longrightarrow> rtw_ht_operation_update b =
     (let (n, m) = next_op_mode (num_sta_ht_no_gf b \<noteq> 0) (num_sta_no_ht b \<noteq> 0) (num_sta_ht_20mhz b \<noteq> 0) (wide_ap b) (olbc_ht b) (ht_op_mode b)
      in (n, b\<lparr>ht_op_mode := m\<rparr>))"
  by (simp add: rtw_ht_operation_update_def next_op_mode_def Let_def split_beta)

definition ht_same :: "bss \<Rightarrow> bss \<Rightarrow> bool" where
  "ht_same b b' \<longleftrightarrow> ht_option b' = ht_option b \<and> ht_enabled b' = ht_enabled b \<and> olbc_ht b' = olbc_ht b \<and>
     ap_ht_cap b' = ap_ht_cap b"

definition legal_mode :: "bss \<Rightarrow> bool" where
  "legal_mode b \<longleftrightarrow> ht_option b \<and> (\<exists>x y. \<exists>r\<in>{0, 1, 2, 3}. ht_op_mode b = op_mode x y r)"

lemma legal_modeI: "ht_option b \<Longrightarrow> ht_op_mode b = mode_of_counters b \<Longrightarrow> legal_mode b"
  by (auto simp: legal_mode_def mode_of_counters_def spec_op_mode)

lemma ht_same_trans: "ht_same a b \<Longrightarrow> ht_same b c \<Longrightarrow> ht_same a c"
  by (simp add: ht_same_def)

lemma keeps_mode:
  "keeps b b' \<Longrightarrow> ht_same b b' \<and> mode_of_counters b' = mode_of_counters b \<and> ht_op_mode b' = ht_op_mode b"
  by (simp add: keeps_def ht_same_def mode_of_counters_def)

lemma join_mode:
  "ht_same b (fst (snd (join_preamble b s))) \<and> mode_of_counters (fst (snd (join_preamble b s))) = mode_of_counters b \<and>
   ht_op_mode (fst (snd (join_preamble b s))) = ht_op_mode b"
  "ht_same b (fst (snd (join_nonerp b s))) \<and> mode_of_counters (fst (snd (join_nonerp b s))) = mode_of_counters b \<and>
   ht_op_mode (fst (snd (join_nonerp b s))) = ht_op_mode b"
  "ht_same b (fst (snd (join_slot b s))) \<and> mode_of_counters (fst (snd (join_slot b s))) = mode_of_counters b \<and>
   ht_op_mode (fst (snd (join_slot b s))) = ht_op_mode b"
  by (simp_all add: join_preamble_def join_nonerp_def join_slot_def Let_def ht_same_def mode_of_counters_def)

lemma join_ht_mode: "ht_same b (fst (join_ht b s)) \<and> ht_op_mode (fst (join_ht b s)) = ht_op_mode b"
  by (simp add: join_ht_def Let_def ht_same_def)


lemma announce_mode:
  assumes "announce_ht alloc b = Inr (u, b')" and "legal_mode b"
  shows "ht_same b b' \<and> ht_op_mode b' = mode_of_counters b'"
proof -
  obtain x y r where r: "ht_op_mode b = op_mode x y r" "r \<in> {0, 1, 2, 3}" and o: "ht_option b"
    using assms(2) by (auto simp: legal_mode_def)
  obtain n b1 where b1: "rtw_ht_operation_update b = (n, b1)" by (rule prod.exhaust)
  have "ht_same b b1 \<and> ht_op_mode b1 = mode_of_counters b1"
    using b1 next_op_mode_spec [OF r(2)]
    by (auto simp: rtw_ht_operation_update_next [OF o] r(1) Let_def split_beta ht_same_def mode_of_counters_def)
  moreover have "u \<longrightarrow> (\<exists>b2. keeps b1 b2 \<and> keeps b2 b')" "\<not> u \<longrightarrow> b' = b1"
    using assms(1) by (auto simp: announce_ht_def b1 split: if_splits dest!: keeps_update_beacon)
  ultimately show ?thesis
    using keeps_mode ht_same_trans by metis
qed


text \<open>The flags of the 802.11n part after a station has joined: the first follows the capability, the others only rise.\<close>

definition is_ht :: "bss_sta \<Rightarrow> bool" where
  "is_ht s \<longleftrightarrow> flags s AND WLAN_STA_HT \<noteq> 0"
definition ht_nogf :: "bss_sta \<Rightarrow> bool" where
  "ht_nogf s \<longleftrightarrow> is_ht s \<and> sta_ht_cap s AND IEEE80211_HT_CAP_GRN_FLD = 0"
definition ht_only20 :: "bss_sta \<Rightarrow> bool" where
  "ht_only20 s \<longleftrightarrow> is_ht s \<and> sta_ht_cap s AND IEEE80211_HT_CAP_SUP_WIDTH = 0"

definition same_sta :: "bss_sta \<Rightarrow> bss_sta \<Rightarrow> bool" where
  "same_sta s s' \<longleftrightarrow> flags s' = flags s \<and> capability s' = capability s \<and> sta_ht_cap s' = sta_ht_cap s"

definition ht_flags :: "bss_sta \<Rightarrow> bool \<times> bool \<times> bool" where
  "ht_flags s = (no_ht_set s, no_ht_gf_set s, ht_20mhz_set s)"

lemma join_keep_flags:
  "ht_flags (snd (snd (join_preamble b s))) = ht_flags s \<and> same_sta s (snd (snd (join_preamble b s)))"
  "ht_flags (snd (snd (join_nonerp b s))) = ht_flags s \<and> same_sta s (snd (snd (join_nonerp b s)))"
  "ht_flags (snd (snd (join_slot b s))) = ht_flags s \<and> same_sta s (snd (snd (join_slot b s)))"
  by (simp_all add: join_preamble_def join_nonerp_def join_slot_def Let_def ht_flags_def same_sta_def)

lemma join_ht_flags:
  "ht_flags (snd (join_ht b s)) = (\<not> is_ht s, no_ht_gf_set s \<or> ht_nogf s, ht_20mhz_set s \<or> ht_only20 s) \<and>
   same_sta s (snd (join_ht b s))"
  by (cases "no_ht_gf_set s"; cases "ht_20mhz_set s"; cases "sta_ht_cap s AND IEEE80211_HT_CAP_SUP_WIDTH = 0";
    simp add: join_ht_def Let_def ht_flags_def is_ht_def ht_nogf_def ht_only20_def same_sta_def)

lemma same_staD: "same_sta s s' \<Longrightarrow> is_ht s' = is_ht s \<and> ht_nogf s' = ht_nogf s \<and> ht_only20 s' = ht_only20 s"
  by (simp add: same_sta_def is_ht_def ht_nogf_def ht_only20_def)

lemma join_result:
  assumes "bss_cap_update_on_sta_join alloc b s = Inr (u, b', s')"
  shows "same_sta s s' \<and> (ht_enabled b \<longrightarrow>
      ht_flags s' = (\<not> is_ht s, no_ht_gf_set s \<or> ht_nogf s, ht_20mhz_set s \<or> ht_only20 s) \<and>
      (legal_mode b \<longrightarrow> ht_same b b' \<and> ht_op_mode b' = mode_of_counters b'))"
  using assms
proof (rule join_cases)
  fix u1 b1 s1 u2 b2 s2 b3 u4 b4 s4 u5 b5 u6
  assume *: "join_preamble b s = (u1, b1, s1)" "join_nonerp b1 s1 = (u2, b2, s2)"
    "(if u2 then update_beacon alloc 42 [] b2 else Inr b2) = Inr b3" "join_slot b3 s2 = (u4, b4, s4)"
    "(if ht_enabled b4 then let (b, s) = join_ht b4 s4 in bindc (announce_ht alloc b) (\<lambda>(u, b). Inr (u, b, s))
      else Inr (False, b4, s4)) = Inr (u5, b5, s')"
    "(if u6 then update_beacon alloc 0xFF [] b5 else Inr b5) = Inr b'"
  have s4: "ht_flags s4 = ht_flags s \<and> same_sta s s4"
    using join_keep_flags(1) [of b s] join_keep_flags(2) [of b1 s1] join_keep_flags(3) [of b3 s2]
    by (simp add: *(1,2,4) same_sta_def)
  have b4: "ht_same b b4 \<and> ht_op_mode b4 = ht_op_mode b"
    using join_mode(1) [of b s] join_mode(2) [of b1 s1] keeps_mode [OF keeps_maybe [OF *(3)]] join_mode(3) [of b3 s2]
    by (simp add: *(1,2,4) ht_same_def)
  have k: "keeps b5 b'" using *(6) by (rule keeps_maybe)
  show ?thesis
  proof (cases "ht_enabled b4")
    case False
    then show ?thesis using *(5) s4 b4 by (simp add: ht_same_def)
  next
    case True
    obtain b41 where j: "join_ht b4 s4 = (b41, s')" and a: "announce_ht alloc b41 = Inr (u5, b5)"
      using *(5) True by (cases "join_ht b4 s4") (auto split: prod.splits)
    have m: "legal_mode b \<Longrightarrow> legal_mode b41"
      using join_ht_mode [of b4 s4] b4 by (simp add: j legal_mode_def ht_same_def)
    have "ht_same b b41" using join_ht_mode [of b4 s4] b4 by (simp add: j ht_same_def)
    then have "legal_mode b \<Longrightarrow> ht_same b b' \<and> ht_op_mode b' = mode_of_counters b'"
      using announce_mode [OF a m] keeps_mode [OF k] by (simp add: ht_same_def)
    then show ?thesis
      using join_ht_flags [of b4 s4] same_staD [of s s4] s4 by (auto simp: j same_sta_def ht_flags_def)
  qed
qed

section \<open>The stations of an access point\<close>

text \<open>The state: the counters, the stations the driver knows, each with a flag that tells whether it is on the list of
  the associated ones, and, in the order of time, the entries of the stations whose record was freed without
  \<open>bss_cap_update_on_sta_leave\<close>. A station is new, it associates (with the capabilities of its request), it leaves, it
  reports about coexistence, or it is dropped when it does not associate in time: \<open>expire_timeout_chk\<close> frees a station on
  the list of authenticated ones. With \<open>again\<close> a station may come back without having left, in any of the three ways
  the code has: an associated station sends another association request; an authentication request takes it off the list
  of the associated ones (\<open>unlist\<close>, the branch of \<open>OnAuth\<close> for a station that is known); and an authentication request that
  is refused frees the record of the station (\<open>refuse\<close>, the label \<open>auth_fail\<close> of \<open>OnAuth\<close>), associated or not. A freed
  station may come back as a new one.\<close>

type_synonym ap = "bss \<times> (bool \<times> bss_sta) list \<times> (bool \<times> bss_sta) list"

inductive ap_reach :: "bool \<Rightarrow> ap \<Rightarrow> ap \<Rightarrow> bool" for again x0 where
  start: "ap_reach again x0 x0"
| arrive: "ap_reach again x0 (b, ss, ls) \<Longrightarrow> ap_reach again x0 (b, ss @ [(False, forget s)], ls)"
| associate: "ap_reach again x0 (b, ss, ls) \<Longrightarrow> i < length ss \<Longrightarrow> ss ! i = (m, s) \<Longrightarrow> again \<or> \<not> m \<Longrightarrow>
    bss_cap_update_on_sta_join alloc b (s\<lparr>flags := f, capability := c, sta_ht_cap := h\<rparr>) = Inr (u, b', s') \<Longrightarrow>
    ap_reach again x0 (b', ss[i := (True, s')], ls)"
| leave: "ap_reach again x0 (b, ss, ls) \<Longrightarrow> i < length ss \<Longrightarrow> ss ! i = (True, s) \<Longrightarrow>
    bss_cap_update_on_sta_leave alloc b s = Inr (u, b', s') \<Longrightarrow> ap_reach again x0 (b', ss[i := (False, s')], ls)"
| report: "ap_reach again x0 (b, ss, ls) \<Longrightarrow> i < length ss \<Longrightarrow> ss ! i = (m, s) \<Longrightarrow>
    rtw_process_public_act_bsscoex alloc body b s = Inr (b', s') \<Longrightarrow> ap_reach again x0 (b', ss[i := (m, s')], ls)"
| expire: "ap_reach again x0 (b, ss, ls) \<Longrightarrow> i < length ss \<Longrightarrow> ss ! i = (False, s) \<Longrightarrow>
    ap_reach again x0 (b, ss[i := (False, forget s)], ls @ [(False, s)])"
| unlist: "ap_reach again x0 (b, ss, ls) \<Longrightarrow> again \<Longrightarrow> i < length ss \<Longrightarrow> ss ! i = (True, s) \<Longrightarrow>
    ap_reach again x0 (b, ss[i := (False, s)], ls)"
| refuse: "ap_reach again x0 (b, ss, ls) \<Longrightarrow> again \<Longrightarrow> i < length ss \<Longrightarrow> ss ! i = (m, s) \<Longrightarrow>
    ap_reach again x0 (b, ss[i := (False, forget s)], ls @ [(m, s)])"

definition tally :: "(bss_sta \<Rightarrow> bool) \<Rightarrow> (bool \<times> bss_sta) list \<Rightarrow> int" where
  "tally P ss = (\<Sum>(m, s)\<leftarrow>ss. of_bool (P s))"

lemma tally_Nil [simp]: "tally P [] = 0"
  and tally_snoc [simp]: "tally P (ss @ [(m, s)]) = tally P ss + of_bool (P s)"
  by (simp_all add: tally_def)

lemma tally_update:
  "i < length ss \<Longrightarrow> tally P (ss[i := (m, s)]) = tally P ss - of_bool (P (snd (ss ! i))) + of_bool (P s)"
proof (induction ss arbitrary: i)
  case (Cons x ss)
  then show ?case by (cases i; cases x) (simp_all add: tally_def)
qed simp

lemma tally_nonneg: "tally P ss \<ge> 0"
  by (induction ss) (auto simp: tally_def)

lemma tally_pos: "tally P ss \<noteq> 0 \<longleftrightarrow> (\<exists>x\<in>set ss. P (snd x))"
proof (induction ss)
  case (Cons x ss)
  then show ?case using tally_nonneg [of P ss] by (cases x) (auto simp: tally_def of_bool_def split: if_splits)
qed simp

lemma tally_member: "i < length ss \<Longrightarrow> P (snd (ss ! i)) \<Longrightarrow> tally P ss > 0"
  using tally_pos [of P ss] tally_nonneg [of P ss] by force

text \<open>By how much a counter exceeds the number of stations with its flag, known and lost ones.\<close>

definition excess :: "ap \<Rightarrow> int \<times> int \<times> int \<times> int \<times> int \<times> int \<times> int" where
  "excess = (\<lambda>(b, ss, ls).
     (num_sta_no_short_preamble b - tally no_short_preamble_set ss - tally no_short_preamble_set ls,
      num_sta_non_erp b - tally nonerp_set ss - tally nonerp_set ls,
      num_sta_no_short_slot_time b - tally no_short_slot_time_set ss - tally no_short_slot_time_set ls,
      num_sta_no_ht b - tally no_ht_set ss - tally no_ht_set ls, num_sta_ht_no_gf b - tally no_ht_gf_set ss - tally no_ht_gf_set ls,
      num_sta_ht_20mhz b - tally ht_20mhz_set ss - tally ht_20mhz_set ls,
      num_sta_40mhz_intolerant b - tally ht_40mhz_intolerant ss - tally ht_40mhz_intolerant ls))"

lemma excess_step:
  "moves (b, s) (b', s') \<Longrightarrow> i < length ss \<Longrightarrow> ss ! i = (m, s) \<Longrightarrow> excess (b', ss[i := (m', s')], ls) = excess (b, ss, ls)"
  by (simp add: excess_def tally_update moves_def others_def)

lemma excess_arrive: "excess (b, ss @ [(False, forget s)], ls) = excess (b, ss, ls)"
  by (simp add: excess_def forget_def)

lemma excess_drop:
  "i < length ss \<Longrightarrow> ss ! i = (m, s) \<Longrightarrow> excess (b, ss[i := (False, forget s)], ls @ [(m, s)]) = excess (b, ss, ls)"
  by (simp add: excess_def tally_update forget_def)

lemma moves_request: "moves (b, s\<lparr>flags := f, capability := c, sta_ht_cap := h\<rparr>) y \<longleftrightarrow> moves (b, s) y"
  by (simp add: moves_def others_def)

text \<open>A station that is not associated has no flag but the one a report sets.\<close>

definition outsider :: "bss_sta \<Rightarrow> bool" where
  "outsider s \<longleftrightarrow> \<not> no_short_preamble_set s \<and> \<not> nonerp_set s \<and> \<not> no_short_slot_time_set s \<and> \<not> no_ht_set s \<and>
     \<not> no_ht_gf_set s \<and> \<not> ht_20mhz_set s"

lemma outsider_forget [simp]: "outsider (forget s)"
  by (simp add: outsider_def forget_def)

definition coex_same :: "bss \<times> bss_sta \<Rightarrow> bss \<times> bss_sta \<Rightarrow> bool" where
  "coex_same = (\<lambda>(b, s) (b', s'). same_sta s s' \<and> outsider s' = outsider s \<and> ht_flags s' = ht_flags s \<and>
     ht_same b b' \<and> mode_of_counters b' = mode_of_counters b \<and> ht_op_mode b' = ht_op_mode b)"

lemma coex_same_keeps: "coex_same x (b, s) \<Longrightarrow> keeps b b' \<Longrightarrow> coex_same x (b', s)"
  by (auto simp: coex_same_def ht_same_def dest: keeps_mode)

lemma coex_flags:
  assumes "rtw_process_public_act_bsscoex alloc body b s = Inr (b', s')"
  shows "coex_same (b, s) (b', s')"
proof -
  have 1: "res_all (\<lambda>(u, b', s'). coex_same (b, s) (b', s')) (coex_report body b s)"
    unfolding coex_report_def
    by (intro res_intros) (simp_all add: coex_same_def same_sta_def outsider_def ht_flags_def ht_same_def mode_of_counters_def)
  have 2: "res_all (\<lambda>(u, b'). coex_same (b, s) (b', s)) (coex_channels body u b)" for u b s
    unfolding coex_channels_def
    by (intro res_intros) (simp_all add: coex_same_def same_sta_def outsider_def ht_flags_def ht_same_def mode_of_counters_def)
  obtain u1 b1 where r: "(if length body > 0 then coex_report body b s else Inr (False, b, s)) = Inr (u1, b1, s')"
    and c: "bindc (if length body > 8 then coex_channels body u1 b1 else Inr (u1, b1)) (\<lambda>(u, b).
      bindc (if u then update_beacon alloc 61 [] b else Inr b) (\<lambda>b. Inr (b, s'))) = Inr (b', s')"
    using assms unfolding rtw_process_public_act_bsscoex_def bindc_eq_Inr by (clarsimp simp del: if_split)
  obtain u2 b2 where c2: "(if length body > 8 then coex_channels body u1 b1 else Inr (u1, b1)) = Inr (u2, b2)"
    and u: "(if u2 then update_beacon alloc 61 [] b2 else Inr b2) = Inr b'"
    using c unfolding bindc_eq_Inr by (clarsimp simp del: if_split)
  have refl: "coex_same x x" for x by (simp add: coex_same_def same_sta_def ht_same_def split: prod.splits)
  have "coex_same (b, s) (b1, s')" using r 1 refl by (auto split: if_splits dest: res_allD)
  moreover have "coex_same (b1, s') (b2, s')" using c2 2 [where s = s' and b = b1 and u = u1] refl by (auto split: if_splits dest: res_allD)
  ultimately have "coex_same (b, s) (b2, s')"
    by (simp add: coex_same_def same_sta_def ht_same_def)
  then show ?thesis using coex_same_keeps keeps_maybe [OF u] by blast
qed

definition outsiders :: "(bool \<times> bss_sta) list \<Rightarrow> bool" where
  "outsiders ss = (\<forall>(m, s)\<in>set ss. \<not> m \<longrightarrow> outsider s)"

lemma outsiders_nth: "outsiders ss \<Longrightarrow> i < length ss \<Longrightarrow> ss ! i = (False, s) \<Longrightarrow> outsider s"
  by (force simp: outsiders_def dest: nth_mem)

lemma outsiders_update: "outsiders ss \<Longrightarrow> m \<or> outsider s \<Longrightarrow> outsiders (ss[i := (m, s)])"
  using set_update_subset_insert [of ss i "(m, s)"] by (fastforce simp: outsiders_def)

text \<open>Every step leaves the excess of each counter as it is, and entries of lost stations are only added.\<close>

definition ap_inv :: "ap \<Rightarrow> ap \<Rightarrow> bool" where
  "ap_inv x0 x \<longleftrightarrow> excess x = excess x0 \<and> (\<exists>zs. snd (snd x) = snd (snd x0) @ zs)"

definition excess_intolerant :: "ap \<Rightarrow> int" where
  "excess_intolerant x = snd (snd (snd (snd (snd (snd (excess x))))))"

lemma intolerant_positive:
  "excess_intolerant (b, ss, ls) \<ge> 0 \<Longrightarrow> i < length ss \<Longrightarrow> ss ! i = (m, s) \<Longrightarrow> ht_40mhz_intolerant s \<Longrightarrow>
   num_sta_40mhz_intolerant b > 0"
  using tally_member [of i ss ht_40mhz_intolerant] tally_nonneg [of ht_40mhz_intolerant ls]
  by (simp add: excess_intolerant_def excess_def)

lemma ap_reach_inv:
  assumes "ap_reach again x0 x" and "excess_intolerant x0 \<ge> 0"
  shows "ap_inv x0 x"
  using assms(1)
proof induction
  case (associate b ss ls i m s alloc h c f u b' s')
  have "moves (b, s) (b', s')" using moves_join [OF associate.hyps(5)] by (simp only: moves_request)
  then show ?case using excess_step associate by (simp add: ap_inv_def)
next
  case (leave b ss ls i s alloc u b' s')
  then have "excess_intolerant (b, ss, ls) \<ge> 0" using assms(2) by (simp add: ap_inv_def excess_intolerant_def)
  then have "moves (b, s) (b', s')"
    using intolerant_positive leave by (intro moves_leave [OF leave.hyps(4)]) blast
  then show ?case using excess_step leave by (simp add: ap_inv_def)
next
  case (report b ss ls i m s alloc body b' s')
  then show ?case using excess_step moves_coex [OF report.hyps(4)] by (simp add: ap_inv_def)
next
  case (unlist b ss ls i s)
  then show ?case using excess_step [of b s b s i ss True] by (simp add: ap_inv_def moves_def)
qed (auto simp: ap_inv_def excess_arrive excess_drop)

text \<open>As long as no station comes back without having left, those that are not associated have no flag but the one a report
  sets.\<close>

lemma ap_reach_outsiders:
  assumes "ap_reach again x0 x" and "\<not> again" and "outsiders (fst (snd x0))" and "outsiders (snd (snd x0))"
  shows "outsiders (fst (snd x)) \<and> outsiders (snd (snd x))"
  using assms(1)
proof induction
  case (associate b ss ls i m s alloc h c f u b' s')
  then show ?case by (simp add: outsiders_update)
next
  case (leave b ss ls i s alloc u b' s')
  then show ?case using leave_forgets [OF leave.hyps(4)] by (simp add: outsiders_update)
next
  case (report b ss ls i m s alloc body b' s')
  then have "m \<or> outsider s'"
    using coex_flags [OF report.hyps(4)] outsiders_nth [of ss i s] by (auto simp: coex_same_def)
  then show ?case using report by (simp add: outsiders_update)
next
  case (expire b ss ls i s)
  then show ?case using outsiders_nth [of ss i s] by (simp add: outsiders_update) (simp add: outsiders_def)
qed (use assms in \<open>auto simp: outsiders_def\<close>)

lemma ap_reach_lost:
  assumes "ap_reach again x0 x" and "\<not> again" and "\<forall>(m, s)\<in>set (snd (snd x0)). \<not> m"
  shows "\<forall>(m, s)\<in>set (snd (snd x)). \<not> m"
  using assms(1) by induction (use assms in auto)







section \<open>Properties\<close>

text \<open>The access point as \<open>start_ap_mode\<close> leaves it: no station, no counter.\<close>

definition counters_zero :: "bss \<Rightarrow> bool" where
  "counters_zero b \<longleftrightarrow> num_sta_no_short_preamble b = 0 \<and> num_sta_non_erp b = 0 \<and> num_sta_no_short_slot_time b = 0 \<and>
     num_sta_no_ht b = 0 \<and> num_sta_ht_no_gf b = 0 \<and> num_sta_ht_20mhz b = 0 \<and> num_sta_40mhz_intolerant b = 0"

lemma zero_start: "counters_zero b0 \<Longrightarrow> excess (b0, [], []) = (0, 0, 0, 0, 0, 0, 0) \<and> excess_intolerant (b0, [], []) = 0"
  by (simp add: counters_zero_def excess_def excess_intolerant_def)

lemma outsiders_Nil [simp]: "outsiders []"
  by (simp add: outsiders_def)

definition test_bss :: bss where
  "test_bss = \<lparr>bcn = \<lparr>bcn_ies = replicate 12 0 @ [61, 22, 6, 5, 0, 0] @ replicate 40 0, bcn_ie_len = 36\<rparr>, bstart_bss = True,
     update_bcn = False, tim_bitmap = [0, 0], aid_bmp_len = 2, ERP_enable = False, ERP_IE = [0], ext_capab_ie_data = [],
     ext_capab_ie_len = 0, wps_beacon_ie = None, fw_ap_state = True, under_wps = False, cur_wireless_mode = 11,
     cur_channel = 6, cur_bwmode = 1, cur_ch_offset = 1, ht_enabled = True, ht_option = True, HT_info_enable = True,
     ap_ht_cap = 2, olbc = False, olbc_ht = False, ht_20mhz_width_req = False, ht_intolerant_ch_reported = False,
     sw_to_20mhz = False, ht_op_mode = 0, num_sta_no_short_preamble = 0, num_sta_non_erp = 0,
     num_sta_no_short_slot_time = 0, num_sta_no_ht = 0, num_sta_ht_no_gf = 0, num_sta_ht_20mhz = 0,
     num_sta_40mhz_intolerant = 0\<rparr>"

definition test_sta :: bss_sta where
  "test_sta = \<lparr>flags = 0, capability = 0, sta_ht_cap = 0, aid = 1, no_short_preamble_set = False, nonerp_set = False,
     no_short_slot_time_set = False, no_ht_set = False, no_ht_gf_set = False, ht_20mhz_set = False, ht_40mhz_intolerant = False\<rparr>"

definition sta_40mhz :: bss_sta where
  "sta_40mhz = test_sta\<lparr>flags := 0x880, capability := 1024, sta_ht_cap := 0x12\<rparr>"

definition bss_with :: "bool \<Rightarrow> u16 \<Rightarrow> int \<Rightarrow> bss \<Rightarrow> bss" where
  "bss_with upd mode n b = b\<lparr>bcn := \<lparr>bcn_ies = replicate 12 0 @ [61, 22, 6, 5, ucast mode, 0] @ replicate 40 0, bcn_ie_len = 36\<rparr>,
     update_bcn := upd, ht_op_mode := mode, num_sta_ht_20mhz := n\<rparr>"

lemma test_arrive: "ap_reach again (test_bss, [], []) (test_bss, [(False, test_sta)], [])"
  using ap_reach.arrive [OF ap_reach.start, of again test_bss "[]" "[]" test_sta] by (simp add: forget_def test_sta_def)

lemma test_join:
  "bss_cap_update_on_sta_join True test_bss (test_sta\<lparr>flags := 0x880, capability := 1024, sta_ht_cap := 0x10\<rparr>) =
   Inr (True, bss_with True 2 1 test_bss, sta_40mhz\<lparr>sta_ht_cap := 0x10, ht_20mhz_set := True\<rparr>)"
  by code_simp

definition member_20mhz :: bss_sta where
  "member_20mhz = sta_40mhz\<lparr>sta_ht_cap := 0x10, ht_20mhz_set := True\<rparr>"

lemma test_reach: "ap_reach again (test_bss, [], []) (bss_with True 2 1 test_bss, [(True, member_20mhz)], [])"
  using ap_reach.associate [OF test_arrive, where i = 0 and m = False, OF _ _ _ test_join] by (simp add: member_20mhz_def)

lemma test_refuse:
  "ap_reach True (test_bss, [], []) (bss_with True 2 1 test_bss, [(False, forget member_20mhz)], [(True, member_20mhz)])"
  using ap_reach.refuse [OF test_reach, where i = 0 and m = True, OF TrueI] by simp

text \<open>C33: From an access point without stations: however stations arrive, associate (also again), leave, report about coexistence, time out, authenticate again
  or have an authentication refused, each of the seven counters is exactly the number of the stations with its flag that
  the driver knows, plus the number of those with the flag whose record was freed without the update for leaving
  stations: these stay counted for ever. As long as no station comes back without having left, only the counter of
  40 MHz intolerant stations can be too high.\<close>

theorem counters_count_stations:
  assumes "ap_reach again (b0, [], []) (b, ss, ls)" and "counters_zero b0"
  shows "num_sta_no_short_preamble b = tally no_short_preamble_set ss + tally no_short_preamble_set ls \<and>
    num_sta_non_erp b = tally nonerp_set ss + tally nonerp_set ls \<and>
    num_sta_no_short_slot_time b = tally no_short_slot_time_set ss + tally no_short_slot_time_set ls \<and>
    num_sta_no_ht b = tally no_ht_set ss + tally no_ht_set ls \<and>
    num_sta_ht_no_gf b = tally no_ht_gf_set ss + tally no_ht_gf_set ls \<and>
    num_sta_ht_20mhz b = tally ht_20mhz_set ss + tally ht_20mhz_set ls \<and>
    num_sta_40mhz_intolerant b = tally ht_40mhz_intolerant ss + tally ht_40mhz_intolerant ls \<and>
    (\<not> again \<longrightarrow> (\<forall>(m, s)\<in>set ls. \<not> m \<and> outsider s))"
proof -
  have "excess (b, ss, ls) = (0, 0, 0, 0, 0, 0, 0)"
    using ap_reach_inv [OF assms(1)] zero_start [OF assms(2)] by (simp add: ap_inv_def)
  moreover have "\<not> again \<longrightarrow> (\<forall>(m, s)\<in>set ls. \<not> m \<and> outsider s)"
    using ap_reach_outsiders [OF assms(1)] ap_reach_lost [OF assms(1)] by (fastforce simp: outsiders_def)
  ultimately show ?thesis by (simp add: excess_def)
qed

theorem counters_count_stations_witness:
  "num_sta_ht_20mhz (bss_with True 2 1 test_bss) = 1 \<and> tally ht_20mhz_set [(False, forget member_20mhz)] = 0"
  using counters_count_stations [OF test_refuse]
  by (simp add: counters_zero_def test_bss_def) (simp add: tally_def forget_def member_20mhz_def)



text \<open>C35: A station that was counted as a 20 MHz one and associates again with 40 MHz stays counted: its flag and the
  counter do not change, and a 40 MHz access point keeps announcing that a 20 MHz station is present.\<close>

theorem rejoin_keeps_20mhz:
  assumes "bss_cap_update_on_sta_join alloc b s = Inr (u, b', s')" and "ht_enabled b" and "legal_mode b"
    and "ht_20mhz_set s" and "num_sta_ht_20mhz b > 0" and "wide_ap b"
  shows "ht_20mhz_set s' \<and> num_sta_ht_20mhz b' = num_sta_ht_20mhz b \<and> (num_sta_no_ht b' = 0 \<longrightarrow> ht_op_mode b' AND 3 = 2)"
proof -
  have r: "ht_20mhz_set s'" "ht_same b b'" "ht_op_mode b' = mode_of_counters b'"
    using join_result [OF assms(1)] assms by (simp_all add: ht_flags_def)
  moreover have "num_sta_ht_20mhz b' = num_sta_ht_20mhz b"
    using moves_join [OF assms(1)] assms(4) r(1) by (simp add: moves_def others_def)
  ultimately show ?thesis
    using assms(5,6) op_mode_bits(3) [of 2] by (simp add: mode_of_counters_def spec_op_mode ht_same_def)
qed

lemma test_rejoin:
  "bss_cap_update_on_sta_join True (bss_with True 2 1 test_bss) (sta_40mhz\<lparr>ht_20mhz_set := True\<rparr>) =
   Inr (False, bss_with True 2 1 test_bss, sta_40mhz\<lparr>ht_20mhz_set := True\<rparr>)"
  by code_simp

theorem rejoin_keeps_20mhz_witness:
  "ht_op_mode (bss_with True 2 1 test_bss) AND 3 = 2 \<and> \<not> ht_only20 (sta_40mhz\<lparr>ht_20mhz_set := True\<rparr>)"
proof -
  have "legal_mode (bss_with True 2 1 test_bss)"
    by (rule legal_modeI) (simp_all add: bss_with_def test_bss_def mode_of_counters_def spec_op_mode_def
        IEEE80211_HT_CAP_SUP_WIDTH_def BIT_def)
  then show ?thesis
    using rejoin_keeps_20mhz [OF test_rejoin]
    by (simp add: bss_with_def test_bss_def sta_40mhz_def test_sta_def ht_only20_def is_ht_def
        IEEE80211_HT_CAP_SUP_WIDTH_def BIT_def)
qed

text \<open>C36: A station that reported 40 MHz intolerance and is dropped before it associates is counted for ever: from then on
  the counter exceeds the number of intolerant stations the driver knows, whatever happens.\<close>

theorem expired_report_counts_forever:
  assumes "ap_reach again (b0, [], []) (b, ss, ls)" and "counters_zero b0"
    and "i < length ss" and "ss ! i = (False, s)" and "ht_40mhz_intolerant s"
    and "ap_reach again' (b, ss[i := (False, forget s)], ls @ [(False, s)]) (b', ss', ls')"
  shows "num_sta_40mhz_intolerant b' > tally ht_40mhz_intolerant ss'"
proof -
  let ?x = "(b, ss[i := (False, forget s)], ls @ [(False, s)])"
  have "excess ?x = (0, 0, 0, 0, 0, 0, 0)"
    using ap_reach_inv [OF assms(1)] zero_start [OF assms(2)] excess_drop [OF assms(3,4), of b ls] by (simp add: ap_inv_def)
  then have "excess (b', ss', ls') = (0, 0, 0, 0, 0, 0, 0)" "\<exists>zs. ls' = (ls @ [(False, s)]) @ zs"
    using ap_reach_inv [OF assms(6)] by (simp_all add: ap_inv_def excess_intolerant_def)
  moreover from this(2) have "tally ht_40mhz_intolerant ls' > 0"
    using tally_pos [of ht_40mhz_intolerant ls'] tally_nonneg [of ht_40mhz_intolerant ls'] assms(5) by auto
  ultimately show ?thesis by (simp add: excess_def)
qed

definition bss_narrow :: bss where
  "bss_narrow = test_bss\<lparr>bcn := \<lparr>bcn_ies = replicate 12 0 @ [61, 22, 6, 0, 0, 0] @ replicate 40 0, bcn_ie_len = 36\<rparr>,
     update_bcn := True, sw_to_20mhz := True, num_sta_40mhz_intolerant := 1\<rparr>"

lemma test_report:
  "rtw_process_public_act_bsscoex True [4, 0, 72, 1, 2] test_bss test_sta = Inr (bss_narrow, test_sta\<lparr>ht_40mhz_intolerant := True\<rparr>)"
  by code_simp

theorem expired_report_counts_forever_witness:
  "num_sta_40mhz_intolerant bss_narrow > tally ht_40mhz_intolerant [(False, test_sta)]"
proof -
  have r: "ap_reach True (test_bss, [], []) (bss_narrow, [(False, test_sta\<lparr>ht_40mhz_intolerant := True\<rparr>)], [])"
    using ap_reach.report [OF test_arrive, where i = 0 and m = False, OF _ _ test_report] by simp
  have f: "forget (test_sta\<lparr>ht_40mhz_intolerant := True\<rparr>) = test_sta" by (simp add: forget_def test_sta_def)
  show ?thesis
    using expired_report_counts_forever [OF r _ _ _ _ ap_reach.start, where i = 0] f
    by (simp add: counters_zero_def test_bss_def)
qed

text \<open>C37: Take an access point that does not do 802.11n and serves more than 802.11b, no station without short preamble
  counted, and a station without short preamble that is not counted yet and whose non-ERP mark already agrees with its
  request (so that the count of non-ERP stations does not change and the ERP element is not rewritten for it). When it
  joins, it is counted and the beacon is announced as updated, but no byte of the beacon changes: the Barker bit of the
  ERP element stays as it was. A first station that is also without ERP is outside: its join rewrites the element.\<close>

theorem join_leaves_barker_bit:
  assumes "bss_cap_update_on_sta_join alloc b s = Inr (u, b', s')" and "\<not> ht_enabled b"
    and "flags s AND WLAN_STA_SHORT_PREAMBLE = 0" and "\<not> no_short_preamble_set s" and "num_sta_no_short_preamble b = 0"
    and "cur_wireless_mode b > WIRELESS_11B" and "nonerp_set s \<longleftrightarrow> flags s AND WLAN_STA_NONERP \<noteq> 0"
  shows "u \<and> num_sta_no_short_preamble b' = 1 \<and> bcn b' = bcn b"
  using assms(1)
proof (rule join_cases)
  fix u1 b1 s1 u2 b2 s2 b3 u4 b4 s4 u5 b5 u6
  assume *: "join_preamble b s = (u1, b1, s1)" "join_nonerp b1 s1 = (u2, b2, s2)"
    "(if u2 then update_beacon alloc 42 [] b2 else Inr b2) = Inr b3" "join_slot b3 s2 = (u4, b4, s4)"
    "(if ht_enabled b4 then let (b, s) = join_ht b4 s4 in bindc (announce_ht alloc b) (\<lambda>(u, b). Inr (u, b, s))
      else Inr (False, b4, s4)) = Inr (u5, b5, s')"
    "(if u6 then update_beacon alloc 0xFF [] b5 else Inr b5) = Inr b'" "u = u6" "u6 = (u1 \<or> u2 \<or> u4 \<or> u5)"
  have 1: "u1" "b1 = b\<lparr>num_sta_no_short_preamble := 1\<rparr>" "s1 = s\<lparr>no_short_preamble_set := True\<rparr>"
    using *(1) assms(3-6) by (simp_all add: join_preamble_def)
  have 2: "\<not> u2" "b2 = b1" using *(2) assms(7) by (auto simp: join_nonerp_def 1 split: if_splits)
  then have 3: "b3 = b1" using *(3) by simp
  have 4: "bcn b4 = bcn b \<and> num_sta_no_short_preamble b4 = 1 \<and> \<not> ht_enabled b4"
    using *(4) assms(2) by (auto simp: join_slot_def 3 1 Let_def split: if_splits)
  then have "b5 = b4" using *(5) by simp
  then show ?thesis using *(6-8) 1(1) 4 by (auto simp: update_beacon_def split: if_splits)
qed

theorem join_leaves_barker_bit_witness:
  "num_sta_no_short_preamble (test_bss\<lparr>ht_enabled := False, num_sta_no_short_preamble := 1, update_bcn := True\<rparr>) = 1"
proof -
  have "bss_cap_update_on_sta_join True (test_bss\<lparr>ht_enabled := False\<rparr>) (test_sta\<lparr>capability := 1024\<rparr>) =
      Inr (True, test_bss\<lparr>ht_enabled := False, num_sta_no_short_preamble := 1, update_bcn := True\<rparr>,
        test_sta\<lparr>capability := 1024, no_short_preamble_set := True\<rparr>)"
    by code_simp
  from join_leaves_barker_bit [OF this] show ?thesis
    by (simp add: test_bss_def test_sta_def WIRELESS_11B_def WLAN_STA_SHORT_PREAMBLE_def WLAN_STA_NONERP_def BIT_def)
qed

lemma wr1_update: "p < length m \<Longrightarrow> wr1 m p x = Inr (m[p := x])"
  by (simp add: wr1_def wrn_def upd_conv_take_nth_drop)

text \<open>When the beacon carries an ERP element, its update writes the first byte of it and nothing else of the beacon:
  the non-ERP and protection bits are set exactly when one station without ERP is counted (and not two), the Barker bit
  when some station without short preamble is, and the other five bits stay.\<close>

theorem update_bcn_erpinfo_ie_written:
  assumes "ERP_enable b" and "bcn_get_ie 42 b = Inr (Some q, len)" and "len > 0" and "q + 2 < length (bcn_ies (bcn b))"
  shows "\<exists>b' d. update_bcn_erpinfo_ie b = Inr b' \<and> bcn b' = (bcn b)\<lparr>bcn_ies := (bcn_ies (bcn b))[q + 2 := d]\<rparr> \<and>
     (\<forall>n\<in>{0, 1}. bit d n = (num_sta_non_erp b = 1)) \<and> bit d 2 = (num_sta_no_short_preamble b > 0) \<and>
     (\<forall>n\<in>{3..<8}. bit d n = bit (bcn_ies (bcn b) ! (q + 2)) n)"
proof -
  define d0 where "d0 = bcn_ies (bcn b) ! (q + 2)"
  define d1 where "d1 = (if num_sta_non_erp b = 1 then d0 OR 0x03 else d0 AND NOT 0x03)"
  define d where "d = (if num_sta_no_short_preamble b > 0 then d1 OR 0x04 else d1 AND NOT 0x04)"
  have "\<exists>b'. update_bcn_erpinfo_ie b = Inr b' \<and> bcn b' = (bcn b)\<lparr>bcn_ies := (bcn_ies (bcn b))[q + 2 := d]\<rparr>"
    using assms by (simp add: update_bcn_erpinfo_ie_def rd_def wr1_update Let_def d_def d1_def d0_def with_ies_def)
  moreover have "\<forall>n\<in>{0, 1}. bit d n = (num_sta_non_erp b = 1)" "bit d 2 = (num_sta_no_short_preamble b > 0)"
    by (simp_all add: d_def d1_def bit_or_iff bit_and_iff bit_not_iff)
  moreover have "\<forall>n\<in>{3..<8}. bit d n = bit d0 n"
    by (simp add: d_def d1_def bit_or_iff bit_and_iff bit_not_iff atLeastLessThan_nat_numeral)
  ultimately show ?thesis unfolding d0_def by blast
qed

theorem update_bcn_erpinfo_ie_written_witness:
  "\<exists>b'. update_bcn_erpinfo_ie (test_bss\<lparr>ERP_enable := True, num_sta_non_erp := 2,
       bcn := \<lparr>bcn_ies = replicate 12 0 @ [42, 1, 3], bcn_ie_len = 15\<rparr>\<rparr>) = Inr b' \<and> length (bcn_ies (bcn b')) = 15"
proof -
  let ?b = "test_bss\<lparr>ERP_enable := True, num_sta_non_erp := 2,
       bcn := \<lparr>bcn_ies = replicate 12 0 @ [42, 1, 3], bcn_ie_len = 15\<rparr>\<rparr>"
  have "bcn_get_ie 42 ?b = Inr (Some 12, 1)" by code_simp
  from update_bcn_erpinfo_ie_written [OF _ this] show ?thesis by auto
qed

end
